(* ===== verification/AlPrelude.thy ===== *)
theory AlPrelude
  imports "HOL-Library.Word"
begin

text \<open>
  The prelude of the AutoLink development: the machine integers of the C++ sources, the
  fact collections the component theories fill, and the generic lemmas on words, lists and
  modular distances that several components share.

  \<^item> \<open>u8\<close>, \<open>u16\<close>, \<open>u32\<close> and \<open>u64\<close> are \<open>uint8_t\<close> to \<open>uint64_t\<close>: \<open>+\<close> and \<open>-\<close> wrap,
    \<open><\<close> compares unsigned, \<open>sint\<close> is the cast to the signed type of the same width.
  \<^item> a C++ \<open>int\<close> is HOL's \<open>int\<close> (signed overflow is undefined in C++ and is not relied on
    by the sources), a \<open>size_t\<close> that only counts is a \<open>nat\<close>.
\<close>

unbundle bit_operations_syntax

type_synonym u8 = "8 word"
type_synonym u16 = "16 word"
type_synonym u32 = "32 word"
type_synonym u64 = "64 word"
type_synonym bytes = "u8 list"

text \<open>The collections: definitions to unfold when a component's operation is evaluated
  (\<open>wire_defs\<close>, \<open>link_defs\<close>), and the frame facts "this operation leaves that field alone"
  (\<open>frame_simps\<close>).\<close>

named_theorems wire_defs
named_theorems link_defs
named_theorems frame_simps

subsection \<open>Casts\<close>

text \<open>The C++ casts \<open>(uint32_t)i\<close> of an \<open>int\<close> and \<open>(int32_t)w\<close> of a \<open>uint32_t\<close>.\<close>

abbreviation u32_of_int :: "int \<Rightarrow> u32" where
  "u32_of_int i \<equiv> word_of_int i"

abbreviation i32_of_u32 :: "u32 \<Rightarrow> int" where
  "i32_of_u32 w \<equiv> sint w"

abbreviation b2i :: "bool \<Rightarrow> int" where
  "b2i b \<equiv> (if b then 1 else 0)"

subsection \<open>Words\<close>

text \<open>A word read as an integer is kept as \<open>int (unat w)\<close> throughout.\<close>

declare of_nat_unat [simp del]

lemma of_nat_unat_word [simp]: "of_nat (unat w) = (ucast w :: 'a::len word)"
  by (rule of_nat_unat)

lemma unat_u8_less [simp]: "unat (x :: u8) < 256"
  using unsigned_less [of x] by simp

lemma unat_u8_le [simp]: "unat (x :: u8) \<le> 255"
  using unat_u8_less [of x] by linarith

lemma unat_of_nat_u8: "n < 256 \<Longrightarrow> unat (of_nat n :: u8) = n"
  by (simp add: unat_of_nat)

lemma unat_Suc_u8: "unat (x :: u8) < 255 \<Longrightarrow> unat (x + 1) = Suc (unat x)"
  by (simp add: unat_word_ariths)

lemma u8_xor_cancel_left [simp]: "(c :: 'a::len word) XOR a = c XOR b \<longleftrightarrow> a = b"
  by (metis xor.assoc xor.left_neutral xor_self_eq)

lemma u8_xor_cancel_right [simp]: "(a :: 'a::len word) XOR c = b XOR c \<longleftrightarrow> a = b"
  by (metis u8_xor_cancel_left xor.commute)

lemma unat_ucast_u32 [simp]: "unat (ucast w :: u64) = unat w" for w :: u32
proof -
  have "unat w < 2 ^ 64"
    using unsigned_less [of w, where 'a = nat] by simp
  then show ?thesis
    by (simp add: unsigned_ucast_eq take_bit_nat_eq_self)
qed
lemma unat_of_nat_u32: "n < 2 ^ 32 \<Longrightarrow> unat (of_nat n :: u32) = n"
  by (simp add: unat_of_nat)
lemma unat_of_nat_u64: "n < 2 ^ 64 \<Longrightarrow> unat (of_nat n :: u64) = n"
  by (simp add: unat_of_nat)
lemma ucast_of_nat_u32: "n < 2 ^ 32 \<Longrightarrow> ucast (of_nat n :: u32) = (of_nat n :: u64)"
  by (simp only: word_unat_eq_iff unat_ucast_u32) (simp add: unat_of_nat)

lemma sint_u32_small:
  fixes w :: u32
  assumes "unat w < 2 ^ 31"
  shows "sint w = int (unat w)"
proof -
  have "int (unat w) < 2 ^ 31" using assms by (simp only: of_nat_less_numeral_power_cancel_iff)
  then have "uint w < 2 ^ 31" by (simp only: of_nat_unat)
  moreover have "- (2 ^ 31) \<le> uint w"
    using uint_ge_0 [of w] by (rule order_trans [rotated]) simp
  ultimately have "signed_take_bit 31 (uint w) = uint w"
    by (intro signed_take_bit_int_eq_self)
  then show ?thesis by (simp add: sint_uint of_nat_unat)
qed

subsection \<open>Lists\<close>

lemma list_update_at_end [simp]: "(pre @ x # post)[length pre := y] = pre @ y # post"
  by (induction pre) auto

lemma length_filter_upt_fun_upd:
  assumes "i < n"
  shows "length (filter (f(i := b)) [0..<n]) =
    length (filter f [0..<n]) - (if f i then 1 else 0) + (if b then 1 else 0)"
proof -
  have upt: "[0..<n] = [0..<i] @ i # [Suc i..<n]"
    using assms by (metis less_imp_add_positive upt_add_eq_append upt_conv_Cons le0)
  have "filter (f(i := b)) [0..<i] = filter f [0..<i]"
    and "filter (f(i := b)) [Suc i..<n] = filter f [Suc i..<n]"
    by (auto intro: filter_cong)
  then show ?thesis by (simp only: upt filter_append filter.simps length_append) simp
qed

text \<open>Two slots of a ring of \<open>n\<close>, counted from the same head, are different.\<close>

lemma slot_inj:
  assumes "h < n" "i < n" "j < n" "(h + i) mod n = (h + j) mod n"
  shows "i = (j :: nat)"
  using assms by (auto simp: mod_if split: if_splits)

end
