(* ===== verification/Cobs.thy ===== *)
theory Cobs
  imports AlPrelude
begin

text \<open>
  Consistent Overhead Byte Stuffing, \<open>UtilCobs::encode\<close> and \<open>UtilCobs::decode\<close>
  (\<open>src/src/al/util/codec/UtilCobs.cpp\<close>), as the loops the C++ runs.

  \<^item> \<open>cobs_encode_loop\<close> keeps the destination written so far (\<open>write_index\<close> is its
    length), the index of the pending code byte and the code itself, as the C++ does; a
    reserved, not yet written code byte is a 0 in the list.
  \<^item> \<open>cobs_decode_loop\<close> returns \<open>[]\<close> where the C++ returns size 0 for a malformed input.
  \<^item> \<open>cobs_ref\<close> is the reference: the block structure of the encoding without indices. The
    loop is proved equal to it, and the properties are proved on it.
  \<^item> The locale \<open>frame_codec\<close> states what the framing layer relies on (round trip, no zero
    byte, length bound); it is interpreted on the code's model here.
\<close>

subsection \<open>The code\<close>

fun cobs_encode_loop :: "bytes \<Rightarrow> bytes \<Rightarrow> nat \<Rightarrow> u8 \<Rightarrow> bytes" where
  "cobs_encode_loop [] dst ci code = dst[ci := code]"
| "cobs_encode_loop (b # src) dst ci code =
     (if b = 0 then cobs_encode_loop src (dst[ci := code] @ [0]) (length dst) 1
      else
        let dst' = dst @ [b]; code' = code + 1 in
        if code' = 0xFF
        then cobs_encode_loop src (dst'[ci := code'] @ [0]) (length dst') 1
        else cobs_encode_loop src dst' ci code')"

definition cobs_encode :: "bytes \<Rightarrow> bytes" where
  "cobs_encode src = cobs_encode_loop src [0] 0 1"

function cobs_decode_loop :: "bytes \<Rightarrow> bytes \<Rightarrow> bytes" where
  "cobs_decode_loop [] out = out"
| "cobs_decode_loop (code # src) out =
     (if code = 0 then []
      else
        let run = unat code - 1 in
        if run > length src then []
        else
          let out' = out @ take run src; src' = drop run src in
          cobs_decode_loop src' (if code < 0xFF \<and> src' \<noteq> [] then out' @ [0] else out'))"
  by pat_completeness auto
termination
  by (relation "measure (\<lambda>(src, out). length src)") auto

definition cobs_decode :: "bytes \<Rightarrow> bytes" where
  "cobs_decode src = cobs_decode_loop src []"

definition encodedMax :: "nat \<Rightarrow> nat" where
  "encodedMax n = n + n div 254 + 1"

declare cobs_decode_loop.simps(2) [simp del]

subsection \<open>The block structure of the encoding\<close>

text \<open>\<open>cobs_ref run src\<close>: the encoding of \<open>src\<close> when the non-zero bytes \<open>run\<close> of the
  current block are already read.\<close>

fun cobs_ref :: "bytes \<Rightarrow> bytes \<Rightarrow> bytes" where
  "cobs_ref run [] = of_nat (length run + 1) # run"
| "cobs_ref run (b # src) =
     (if b = 0 then (of_nat (length run + 1) # run) @ cobs_ref [] src
      else if length run + 1 = 254 then (0xFF # run @ [b]) @ cobs_ref [] src
      else cobs_ref (run @ [b]) src)"

lemma unat_code: "n < 255 \<Longrightarrow> unat (of_nat (n + 1) :: u8) = n + 1"
  by (rule unat_of_nat_u8) simp

lemma code_nonzero: "n < 255 \<Longrightarrow> (of_nat (n + 1) :: u8) \<noteq> 0"
  using unat_code [of n] by (metis unat_0 add_is_0 one_neq_zero)

lemma of_nat_u8_255_iff:
  assumes "n < 254"
  shows "(of_nat (n + 2) :: u8) = 0xFF \<longleftrightarrow> n = 253"
proof -
  have "unat (of_nat (n + 2) :: u8) = n + 2"
    using assms by (intro unat_of_nat_u8) simp
  then show ?thesis
    by (simp only: word_unat_eq_iff) simp
qed

lemma cobs_encode_loop_ref:
  assumes "length run < 254"
  shows "cobs_encode_loop src (pre @ x # run) (length pre) (of_nat (length run + 1)) =
    pre @ cobs_ref run src"
  using assms
proof (induction src arbitrary: pre x run)
  case Nil
  then show ?case by simp
next
  case (Cons b src)
  have start: "cobs_encode_loop src ((p :: bytes) @ [0]) (length p) 1 = p @ cobs_ref [] src" for p
    using Cons.IH [of "[]" p 0] by simp
  have last: "(of_nat (length run + 1) :: u8) + 1 = 0xFF \<longleftrightarrow> length run + 1 = 254"
    using of_nat_u8_255_iff [of "length run"] Cons.prems by (simp add: add.commute)
  consider (zero) "b = 0" | (full) "b \<noteq> 0" "length run + 1 = 254"
    | (more) "b \<noteq> 0" "length run + 1 \<noteq> 254" by blast
  then show ?case
  proof cases
    case zero
    then show ?thesis
      using start [of "pre @ of_nat (length run + 1) # run"] by simp
  next
    case full
    then show ?thesis
      using last start [of "pre @ 0xFF # run @ [b]"] by (simp add: Let_def)
  next
    case more
    then have "length (run @ [b]) < 254" using Cons.prems by simp
    from Cons.IH [OF this, of pre x] more last show ?thesis
      by (simp add: Let_def add.commute)
  qed
qed

lemma cobs_encode_ref: "cobs_encode src = cobs_ref [] src"
  using cobs_encode_loop_ref [of "[]" src "[]" 0] by (simp add: cobs_encode_def)

lemma cobs_ref_not_Nil [simp]: "cobs_ref run src \<noteq> []"
  by (induction run src rule: cobs_ref.induct) auto

subsection \<open>Decoding undoes encoding\<close>

lemma cobs_decode_loop_block:
  assumes "length run < 255"
  shows "cobs_decode_loop (of_nat (length run + 1) # run @ rest) out =
    cobs_decode_loop rest (if length run < 254 \<and> rest \<noteq> [] then out @ run @ [0] else out @ run)"
proof -
  have u: "unat (of_nat (length run + 1) :: u8) = length run + 1"
    using assms by (rule unat_code)
  have nz: "(of_nat (length run + 1) :: u8) \<noteq> 0" using assms by (rule code_nonzero)
  have lt: "(of_nat (length run + 1) :: u8) < 0xFF \<longleftrightarrow> length run < 254"
    by (simp only: word_less_nat_alt u) simp
  show ?thesis
    using nz by (simp only: cobs_decode_loop.simps(2) Let_def u lt) (simp add: lt)
qed

lemma cobs_decode_loop_ref:
  assumes "length run < 254"
  shows "cobs_decode_loop (cobs_ref run src) out = out @ run @ src"
  using assms
proof (induction run src arbitrary: out rule: cobs_ref.induct)
  case (1 run)
  then show ?case using cobs_decode_loop_block [of run "[]" out] by simp
next
  case (2 run b src)
  consider (zero) "b = 0" | (full) "b \<noteq> 0" "length run + 1 = 254"
    | (more) "b \<noteq> 0" "length run + 1 \<noteq> 254" by blast
  then show ?case
  proof cases
    case zero
    then show ?thesis
      using "2.IH"(1) [of "out @ run @ [0]"] cobs_decode_loop_block [of run "cobs_ref [] src" out]
        "2.prems" by simp
  next
    case full
    then have "cobs_decode_loop (0xFF # (run @ [b]) @ cobs_ref [] src) out =
        cobs_decode_loop (cobs_ref [] src) (out @ run @ [b])"
      using cobs_decode_loop_block [of "run @ [b]" "cobs_ref [] src" out] by simp
    with full show ?thesis using "2.IH"(2) [of "out @ run @ [b]"] by simp
  next
    case more
    then show ?thesis using "2.IH"(3) "2.prems" by simp
  qed
qed

subsection \<open>Shape of the encoding\<close>

lemma cobs_ref_nonzero:
  assumes "length run < 254" and "0 \<notin> set run"
  shows "0 \<notin> set (cobs_ref run src)"
  using assms
proof (induction run src rule: cobs_ref.induct)
  case (1 run)
  have "(of_nat (length run + 1) :: u8) \<noteq> 0"
    using "1.prems" by (intro code_nonzero) simp
  with "1.prems" show ?case by auto
next
  case (2 run b src)
  have "(of_nat (length run + 1) :: u8) \<noteq> 0"
    using "2.prems" by (intro code_nonzero) simp
  with 2 show ?case by auto
qed

lemma cobs_ref_length:
  assumes "length run < 254"
  shows "length (cobs_ref run src) \<le> length run + length src + (length run + length src) div 254 + 1"
  using assms
proof (induction run src rule: cobs_ref.induct)
  case (1 run)
  then show ?case by simp
next
  case (2 run b src)
  consider (zero) "b = 0" | (full) "b \<noteq> 0" "length run + 1 = 254"
    | (more) "b \<noteq> 0" "length run + 1 \<noteq> 254" by blast
  then show ?case
  proof cases
    case zero
    have "length src div 254 \<le> (length run + Suc (length src)) div 254"
      by (rule div_le_mono) simp
    with zero "2.IH"(1) show ?thesis by simp
  next
    case full
    then have "(length run + Suc (length src)) div 254 = length src div 254 + 1"
      by (metis Suc_eq_plus1 add.commute add_Suc_shift div_add_self1 zero_neq_numeral)
    with full "2.IH"(2) show ?thesis by simp
  next
    case more
    then show ?thesis using "2.IH"(3) "2.prems" by simp
  qed
qed

lemma cobs_decode_loop_length:
  "length (cobs_decode_loop src out) \<le> length out + length src"
proof (induction src out rule: cobs_decode_loop.induct)
  case (1 out)
  then show ?case by simp
next
  case (2 code src out)
  let ?run = "unat code - 1"
  show ?case
  proof (cases "code = 0 \<or> ?run > length src")
    case True
    then show ?thesis by (auto simp: cobs_decode_loop.simps(2) Let_def)
  next
    case False
    define out' where "out' = (if code < 0xFF \<and> drop ?run src \<noteq> []
      then (out @ take ?run src) @ [0] else out @ take ?run src)"
    have eq: "cobs_decode_loop (code # src) out = cobs_decode_loop (drop ?run src) out'"
      using False by (simp add: cobs_decode_loop.simps(2) Let_def out'_def)
    have "length (cobs_decode_loop (drop ?run src) out') \<le> length out' + length (drop ?run src)"
      using "2.IH" [OF _ refl _ refl refl] False unfolding out'_def by blast
    also have "\<dots> \<le> length out + length (code # src)"
      using False by (auto simp: out'_def)
    finally show ?thesis by (simp only: eq)
  qed
qed

subsection \<open>The contract of the framing layer\<close>

locale frame_codec =
  fixes enc :: "bytes \<Rightarrow> bytes"
    and dec :: "bytes \<Rightarrow> bytes"
    and encMax :: "nat \<Rightarrow> nat"
  assumes dec_enc: "dec (enc xs) = xs"
    and enc_nonzero: "0 \<notin> set (enc xs)"
    and enc_length: "length (enc xs) \<le> encMax (length xs)"
    and enc_not_Nil: "enc xs \<noteq> []"
    and dec_length: "length (dec ys) \<le> length ys"
begin

text \<open>Two different packets never share an encoding.\<close>

lemma enc_inj: "enc xs = enc ys \<longleftrightarrow> xs = ys"
  by (metis dec_enc)

text \<open>The encoding of one packet ends at the first delimiter of a stream it starts.\<close>

lemma enc_takeWhile: "takeWhile (\<lambda>b. b \<noteq> 0) (enc xs @ 0 # rest) = enc xs"
  using enc_nonzero [of xs] by (subst takeWhile_append2) auto

lemma enc_length_ge: "length xs \<le> length (enc xs)"
  by (metis dec_enc dec_length)

end

interpretation cobs: frame_codec cobs_encode cobs_decode encodedMax
proof
  fix xs ys :: bytes
  show "cobs_decode (cobs_encode xs) = xs"
    using cobs_decode_loop_ref [of "[]" xs "[]"] by (simp add: cobs_decode_def cobs_encode_ref)
  show "0 \<notin> set (cobs_encode xs)"
    using cobs_ref_nonzero [of "[]" xs] by (simp add: cobs_encode_ref)
  show "length (cobs_encode xs) \<le> encodedMax (length xs)"
    using cobs_ref_length [of "[]" xs] by (simp add: cobs_encode_ref encodedMax_def)
  show "cobs_encode xs \<noteq> []" by (simp add: cobs_encode_ref)
  show "length (cobs_decode ys) \<le> length ys"
    using cobs_decode_loop_length [of ys "[]"] by (simp add: cobs_decode_def)
qed

subsection \<open>Properties\<close>

text \<open>C24: decoding the COBS encoding of any byte string gives the byte string back,
  whatever its length and wherever its zero bytes are.\<close>

theorem cobs_roundtrip: "cobs_decode (cobs_encode xs) = xs"
  by (rule cobs.dec_enc)

text \<open>An encoding holds no zero byte (so a zero delimits frames) and is at most
  \<open>encodedMax\<close> of the input length long, the bound the callers size their buffers with.\<close>

theorem cobs_encode_shape:
  "0 \<notin> set (cobs_encode xs) \<and> length (cobs_encode xs) \<le> encodedMax (length xs)"
  by (simp add: cobs.enc_nonzero cobs.enc_length)

text \<open>The decoder never writes more bytes than it reads, also on malformed input, so
  a 256-byte destination is enough for the 256-byte receive buffer.\<close>

theorem cobs_decode_bound: "length (cobs_decode ys) \<le> length ys"
  by (rule cobs.dec_length)

end
