(* ===== verification/Crc.thy ===== *)
theory Crc
  imports AlPrelude
begin

text \<open>
  The checksums of \<open>src/src/al/util/codec/UtilCrc.cpp\<close>: \<open>crc8\<close> closes every COBS frame,
  \<open>crc16\<close> closes every application message. The tables are the source's, entry by entry;
  \<open>crc8_bitwise\<close> and \<open>crc16_bitwise\<close> are the polynomial divisions they stand for
  (x^8+x^2+x+1, and x^16+x^12+x^5+1 started at 0xFFFF), shifted one bit at a time.
  The lemmas show that the tables are these divisions and that a frame with exactly one
  byte changed never passes.
\<close>

subsection \<open>The code\<close>

definition crc8_lut :: "u8 list" where
  "crc8_lut =
    [0x00, 0x07, 0x0E, 0x09, 0x1C, 0x1B, 0x12, 0x15, 0x38, 0x3F, 0x36, 0x31,
     0x24, 0x23, 0x2A, 0x2D, 0x70, 0x77, 0x7E, 0x79, 0x6C, 0x6B, 0x62, 0x65,
     0x48, 0x4F, 0x46, 0x41, 0x54, 0x53, 0x5A, 0x5D, 0xE0, 0xE7, 0xEE, 0xE9,
     0xFC, 0xFB, 0xF2, 0xF5, 0xD8, 0xDF, 0xD6, 0xD1, 0xC4, 0xC3, 0xCA, 0xCD,
     0x90, 0x97, 0x9E, 0x99, 0x8C, 0x8B, 0x82, 0x85, 0xA8, 0xAF, 0xA6, 0xA1,
     0xB4, 0xB3, 0xBA, 0xBD, 0xC7, 0xC0, 0xC9, 0xCE, 0xDB, 0xDC, 0xD5, 0xD2,
     0xFF, 0xF8, 0xF1, 0xF6, 0xE3, 0xE4, 0xED, 0xEA, 0xB7, 0xB0, 0xB9, 0xBE,
     0xAB, 0xAC, 0xA5, 0xA2, 0x8F, 0x88, 0x81, 0x86, 0x93, 0x94, 0x9D, 0x9A,
     0x27, 0x20, 0x29, 0x2E, 0x3B, 0x3C, 0x35, 0x32, 0x1F, 0x18, 0x11, 0x16,
     0x03, 0x04, 0x0D, 0x0A, 0x57, 0x50, 0x59, 0x5E, 0x4B, 0x4C, 0x45, 0x42,
     0x6F, 0x68, 0x61, 0x66, 0x73, 0x74, 0x7D, 0x7A, 0x89, 0x8E, 0x87, 0x80,
     0x95, 0x92, 0x9B, 0x9C, 0xB1, 0xB6, 0xBF, 0xB8, 0xAD, 0xAA, 0xA3, 0xA4,
     0xF9, 0xFE, 0xF7, 0xF0, 0xE5, 0xE2, 0xEB, 0xEC, 0xC1, 0xC6, 0xCF, 0xC8,
     0xDD, 0xDA, 0xD3, 0xD4, 0x69, 0x6E, 0x67, 0x60, 0x75, 0x72, 0x7B, 0x7C,
     0x51, 0x56, 0x5F, 0x58, 0x4D, 0x4A, 0x43, 0x44, 0x19, 0x1E, 0x17, 0x10,
     0x05, 0x02, 0x0B, 0x0C, 0x21, 0x26, 0x2F, 0x28, 0x3D, 0x3A, 0x33, 0x34,
     0x4E, 0x49, 0x40, 0x47, 0x52, 0x55, 0x5C, 0x5B, 0x76, 0x71, 0x78, 0x7F,
     0x6A, 0x6D, 0x64, 0x63, 0x3E, 0x39, 0x30, 0x37, 0x22, 0x25, 0x2C, 0x2B,
     0x06, 0x01, 0x08, 0x0F, 0x1A, 0x1D, 0x14, 0x13, 0xAE, 0xA9, 0xA0, 0xA7,
     0xB2, 0xB5, 0xBC, 0xBB, 0x96, 0x91, 0x98, 0x9F, 0x8A, 0x8D, 0x84, 0x83,
     0xDE, 0xD9, 0xD0, 0xD7, 0xC2, 0xC5, 0xCC, 0xCB, 0xE6, 0xE1, 0xE8, 0xEF,
     0xFA, 0xFD, 0xF4, 0xF3]"

definition crc16_lut :: "u16 list" where
  "crc16_lut =
    [0x0000, 0x1021, 0x2042, 0x3063, 0x4084, 0x50A5, 0x60C6, 0x70E7, 0x8108,
     0x9129, 0xA14A, 0xB16B, 0xC18C, 0xD1AD, 0xE1CE, 0xF1EF, 0x1231, 0x0210,
     0x3273, 0x2252, 0x52B5, 0x4294, 0x72F7, 0x62D6, 0x9339, 0x8318, 0xB37B,
     0xA35A, 0xD3BD, 0xC39C, 0xF3FF, 0xE3DE, 0x2462, 0x3443, 0x0420, 0x1401,
     0x64E6, 0x74C7, 0x44A4, 0x5485, 0xA56A, 0xB54B, 0x8528, 0x9509, 0xE5EE,
     0xF5CF, 0xC5AC, 0xD58D, 0x3653, 0x2672, 0x1611, 0x0630, 0x76D7, 0x66F6,
     0x5695, 0x46B4, 0xB75B, 0xA77A, 0x9719, 0x8738, 0xF7DF, 0xE7FE, 0xD79D,
     0xC7BC, 0x48C4, 0x58E5, 0x6886, 0x78A7, 0x0840, 0x1861, 0x2802, 0x3823,
     0xC9CC, 0xD9ED, 0xE98E, 0xF9AF, 0x8948, 0x9969, 0xA90A, 0xB92B, 0x5AF5,
     0x4AD4, 0x7AB7, 0x6A96, 0x1A71, 0x0A50, 0x3A33, 0x2A12, 0xDBFD, 0xCBDC,
     0xFBBF, 0xEB9E, 0x9B79, 0x8B58, 0xBB3B, 0xAB1A, 0x6CA6, 0x7C87, 0x4CE4,
     0x5CC5, 0x2C22, 0x3C03, 0x0C60, 0x1C41, 0xEDAE, 0xFD8F, 0xCDEC, 0xDDCD,
     0xAD2A, 0xBD0B, 0x8D68, 0x9D49, 0x7E97, 0x6EB6, 0x5ED5, 0x4EF4, 0x3E13,
     0x2E32, 0x1E51, 0x0E70, 0xFF9F, 0xEFBE, 0xDFDD, 0xCFFC, 0xBF1B, 0xAF3A,
     0x9F59, 0x8F78, 0x9188, 0x81A9, 0xB1CA, 0xA1EB, 0xD10C, 0xC12D, 0xF14E,
     0xE16F, 0x1080, 0x00A1, 0x30C2, 0x20E3, 0x5004, 0x4025, 0x7046, 0x6067,
     0x83B9, 0x9398, 0xA3FB, 0xB3DA, 0xC33D, 0xD31C, 0xE37F, 0xF35E, 0x02B1,
     0x1290, 0x22F3, 0x32D2, 0x4235, 0x5214, 0x6277, 0x7256, 0xB5EA, 0xA5CB,
     0x95A8, 0x8589, 0xF56E, 0xE54F, 0xD52C, 0xC50D, 0x34E2, 0x24C3, 0x14A0,
     0x0481, 0x7466, 0x6447, 0x5424, 0x4405, 0xA7DB, 0xB7FA, 0x8799, 0x97B8,
     0xE75F, 0xF77E, 0xC71D, 0xD73C, 0x26D3, 0x36F2, 0x0691, 0x16B0, 0x6657,
     0x7676, 0x4615, 0x5634, 0xD94C, 0xC96D, 0xF90E, 0xE92F, 0x99C8, 0x89E9,
     0xB98A, 0xA9AB, 0x5844, 0x4865, 0x7806, 0x6827, 0x18C0, 0x08E1, 0x3882,
     0x28A3, 0xCB7D, 0xDB5C, 0xEB3F, 0xFB1E, 0x8BF9, 0x9BD8, 0xABBB, 0xBB9A,
     0x4A75, 0x5A54, 0x6A37, 0x7A16, 0x0AF1, 0x1AD0, 0x2AB3, 0x3A92, 0xFD2E,
     0xED0F, 0xDD6C, 0xCD4D, 0xBDAA, 0xAD8B, 0x9DE8, 0x8DC9, 0x7C26, 0x6C07,
     0x5C64, 0x4C45, 0x3CA2, 0x2C83, 0x1CE0, 0x0CC1, 0xEF1F, 0xFF3E, 0xCF5D,
     0xDF7C, 0xAF9B, 0xBFBA, 0x8FD9, 0x9FF8, 0x6E17, 0x7E36, 0x4E55, 0x5E74,
     0x2E93, 0x3EB2, 0x0ED1, 0x1EF0]"

definition crc8_step :: "u8 \<Rightarrow> u8 \<Rightarrow> u8" where
  "crc8_step c b = crc8_lut ! unat (c XOR b)"

definition crc8 :: "bytes \<Rightarrow> u8" where
  "crc8 data = fold (\<lambda>b c. crc8_step c b) data 0"

definition crc16_step :: "u16 \<Rightarrow> u8 \<Rightarrow> u16" where
  "crc16_step c b = push_bit 8 c XOR crc16_lut ! unat (drop_bit 8 c XOR ucast b)"

definition crc16 :: "bytes \<Rightarrow> u16" where
  "crc16 data = fold (\<lambda>b c. crc16_step c b) data 0xFFFF"

subsection \<open>The reference: division one bit at a time\<close>

definition crc8_shift :: "u8 \<Rightarrow> u8" where
  "crc8_shift c = (if bit c 7 then push_bit 1 c XOR 0x07 else push_bit 1 c)"

definition crc16_shift :: "u16 \<Rightarrow> u16" where
  "crc16_shift c = (if bit c 15 then push_bit 1 c XOR 0x1021 else push_bit 1 c)"

definition crc8_bitwise :: "bytes \<Rightarrow> u8" where
  "crc8_bitwise data = fold (\<lambda>b c. (crc8_shift ^^ 8) (c XOR b)) data 0"

definition crc16_bitwise :: "bytes \<Rightarrow> u16" where
  "crc16_bitwise data = fold (\<lambda>b c. (crc16_shift ^^ 8) (c XOR push_bit 8 (ucast b))) data 0xFFFF"

lemma funpow_8: "(f ^^ 8) x = f (f (f (f (f (f (f (f x)))))))"
  by (simp add: numeral_eq_Suc)

lemma upt_Cons_eq: "i < n \<Longrightarrow> map f [i..<n] = f i # map f [Suc i..<n]"
  by (simp add: upt_conv_Cons)

lemma crc8_lut_is: "crc8_lut = map (\<lambda>i. (crc8_shift ^^ 8) (of_nat i)) [0..<256]"
  by (simp add: upt_Cons_eq) (simp add: crc8_lut_def crc8_shift_def funpow_8)

lemma crc16_lut_is: "crc16_lut = map (\<lambda>i. (crc16_shift ^^ 8) (push_bit 8 (of_nat i))) [0..<256]"
  by (simp add: upt_Cons_eq) (simp add: crc16_lut_def crc16_shift_def funpow_8)

subsection \<open>The shift step is linear and injective\<close>

lemma bit_times_2: "bit (c * 2) n \<longleftrightarrow> n < LENGTH('a) \<and> n \<noteq> 0 \<and> bit c (n - 1)"
  for c :: "'a::len word"
  using bit_double_iff [of c n] by (simp add: mult.commute)

lemma crc8_shift_bit:
  "bit (crc8_shift c) n \<longleftrightarrow> n < 8 \<and> ((n \<noteq> 0 \<and> bit c (n - 1)) \<noteq> (bit c 7 \<and> bit (0x07 :: u8) n))"
  by (cases "bit c 7") (auto simp: crc8_shift_def bit_xor_iff bit_times_2 dest: bit_imp_le_length)

lemma crc16_shift_bit:
  "bit (crc16_shift c) n \<longleftrightarrow>
     n < 16 \<and> ((n \<noteq> 0 \<and> bit c (n - 1)) \<noteq> (bit c 15 \<and> bit (0x1021 :: u16) n))"
  by (cases "bit c 15") (auto simp: crc16_shift_def bit_xor_iff bit_times_2 dest: bit_imp_le_length)

lemma crc8_shift_inj: "inj crc8_shift"
proof (rule injI)
  fix c d :: u8
  assume eq: "crc8_shift c = crc8_shift d"
  have bits: "bit (crc8_shift c) n \<longleftrightarrow> bit (crc8_shift d) n" for n
    by (simp only: eq)
  have top: "bit c 7 \<longleftrightarrow> bit d 7"
    using bits [of 0] by (simp add: crc8_shift_bit)
  have "bit c n \<longleftrightarrow> bit d n" if "n < 8" for n
    using bits [of "n + 1"] top that by (cases "n = 7") (auto simp: crc8_shift_bit)
  then show "c = d" by (intro bit_word_eqI) simp
qed

lemma crc16_shift_inj: "inj crc16_shift"
proof (rule injI)
  fix c d :: u16
  assume eq: "crc16_shift c = crc16_shift d"
  have bits: "bit (crc16_shift c) n \<longleftrightarrow> bit (crc16_shift d) n" for n
    by (simp only: eq)
  have top: "bit c 15 \<longleftrightarrow> bit d 15"
    using bits [of 0] by (simp add: crc16_shift_bit)
  have "bit c n \<longleftrightarrow> bit d n" if "n < 16" for n
    using bits [of "n + 1"] top that by (cases "n = 15") (auto simp: crc16_shift_bit)
  then show "c = d" by (intro bit_word_eqI) simp
qed

lemma crc16_shift_xor: "crc16_shift (a XOR b) = crc16_shift a XOR crc16_shift b"
  by (rule bit_word_eqI) (auto simp: crc16_shift_bit bit_xor_iff)

lemma crc16_shift_funpow_xor:
  "(crc16_shift ^^ n) (a XOR b) = (crc16_shift ^^ n) a XOR (crc16_shift ^^ n) b"
  by (induction n) (simp_all add: crc16_shift_xor)

lemma crc16_shift_low:
  "(\<And>k. 16 - n \<le> k \<Longrightarrow> \<not> bit c k) \<Longrightarrow> (crc16_shift ^^ n) c = push_bit n c"
proof (induction n)
  case (Suc n)
  then have "(crc16_shift ^^ n) c = push_bit n c" by simp
  moreover have "\<not> bit (push_bit n c) 15"
    using Suc.prems [of "15 - n"] by (auto simp: bit_simps)
  ultimately have "(crc16_shift ^^ Suc n) c = push_bit 1 (push_bit n c)"
    by (simp only: funpow.simps comp_apply crc16_shift_def if_False)
  then show ?case by (simp only: push_bit_push_bit) simp
qed simp

lemma funpow_inj: "inj f \<Longrightarrow> inj (f ^^ n)" for f :: "'a \<Rightarrow> 'a"
  by (induction n) (simp_all add: inj_compose)

subsection \<open>One table step is eight shifts\<close>

lemma crc8_lut_nth: "crc8_lut ! unat c = (crc8_shift ^^ 8) c" for c :: u8
  unfolding crc8_lut_is by (subst nth_map) (simp_all only: length_upt nth_upt, simp_all)

lemma crc16_lut_nth: "i < 256 \<Longrightarrow> crc16_lut ! i = (crc16_shift ^^ 8) (push_bit 8 (of_nat i))"
  unfolding crc16_lut_is by (subst nth_map) (simp_all only: length_upt nth_upt, simp_all)

lemma crc8_step_shift: "crc8_step c b = (crc8_shift ^^ 8) (c XOR b)"
  unfolding crc8_step_def by (rule crc8_lut_nth)

lemma crc16_split: "(c :: u16) = push_bit 8 (drop_bit 8 c) XOR take_bit 8 c"
  by (rule bit_word_eqI) (auto simp: bit_simps)

lemma crc16_index: "unat (drop_bit 8 (c :: u16) XOR ucast (b :: u8)) < 256"
proof -
  have "take_bit 8 (drop_bit 8 c XOR ucast b) = drop_bit 8 c XOR (ucast b :: u16)"
    by (rule bit_word_eqI) (auto simp: bit_simps dest: bit_imp_le_length)
  then have "unat (drop_bit 8 c XOR (ucast b :: u16)) = take_bit 8 (unat (drop_bit 8 c XOR (ucast b :: u16)))"
    by (metis unsigned_take_bit_eq)
  also have "\<dots> < 2 ^ 8" by (rule take_bit_nat_less_exp)
  finally show ?thesis by simp
qed

lemma crc16_step_shift: "crc16_step c b = (crc16_shift ^^ 8) (c XOR push_bit 8 (ucast b))"
proof -
  have low: "(crc16_shift ^^ 8) (take_bit 8 c) = push_bit 8 c"
  proof -
    have "(crc16_shift ^^ 8) (take_bit 8 c) = push_bit 8 (take_bit 8 c)"
      by (rule crc16_shift_low) (simp add: bit_take_bit_iff)
    also have "\<dots> = push_bit 8 c"
      by (rule bit_word_eqI) (auto simp: bit_simps)
    finally show ?thesis .
  qed
  have "c XOR push_bit 8 (ucast b) = take_bit 8 c XOR push_bit 8 (drop_bit 8 c XOR ucast b)"
    by (subst crc16_split [of c]) (simp add: push_bit_xor ac_simps)
  then show ?thesis
    using crc16_index [of c b]
    by (simp add: crc16_step_def crc16_lut_nth crc16_shift_funpow_xor low)
qed

lemmas xor_cancel = u8_xor_cancel_left u8_xor_cancel_right

lemma crc8_step_inj_state: "crc8_step c b = crc8_step d b \<longleftrightarrow> c = d"
  by (simp only: crc8_step_shift inj_eq [OF funpow_inj [OF crc8_shift_inj]] xor_cancel)

lemma crc8_step_inj_byte: "crc8_step c a = crc8_step c b \<longleftrightarrow> a = b"
  by (simp only: crc8_step_shift inj_eq [OF funpow_inj [OF crc8_shift_inj]] xor_cancel)

lemma push_8_ucast_inj: "push_bit 8 (ucast a :: u16) = push_bit 8 (ucast b) \<longleftrightarrow> a = (b :: u8)"
proof
  assume eq: "push_bit 8 (ucast a :: u16) = push_bit 8 (ucast b)"
  have "bit a n \<longleftrightarrow> bit b n" if "n < 8" for n
    using arg_cong [OF eq, of "\<lambda>w. bit w (n + 8)"] that by (simp add: bit_simps)
  then show "a = b" by (intro bit_word_eqI) simp
qed simp

lemma crc16_step_inj_state: "crc16_step c b = crc16_step d b \<longleftrightarrow> c = d"
  by (simp only: crc16_step_shift inj_eq [OF funpow_inj [OF crc16_shift_inj]] xor_cancel)

lemma crc16_step_inj_byte: "crc16_step c a = crc16_step c b \<longleftrightarrow> a = b"
  by (simp only: crc16_step_shift inj_eq [OF funpow_inj [OF crc16_shift_inj]] xor_cancel
      push_8_ucast_inj)

lemma fold_inj:
  assumes "\<And>b c d. f b c = f b d \<longleftrightarrow> c = d"
  shows "fold f xs c = fold f xs d \<longleftrightarrow> c = d"
  using assms by (induction xs arbitrary: c d) auto

subsection \<open>Appending\<close>

lemma crc8_append: "crc8 (xs @ ys) = fold (\<lambda>b c. crc8_step c b) ys (crc8 xs)"
  by (simp add: crc8_def)

subsection \<open>Properties\<close>

text \<open>C25: the table-driven CRC-8 is the division by x^8+x^2+x+1, bit by bit, on every
  byte string: each of the 256 entries of \<open>crc8_lut\<close> is the right remainder.\<close>

theorem crc8_is_division: "crc8 data = crc8_bitwise data"
  by (simp add: crc8_def crc8_bitwise_def crc8_step_shift)

text \<open>The table-driven CRC-16 is the CCITT division (x^16+x^12+x^5+1, register
  started at 0xFFFF), bit by bit, on every byte string.\<close>

theorem crc16_is_division: "crc16 data = crc16_bitwise data"
  by (simp add: crc16_def crc16_bitwise_def crc16_step_shift)

text \<open>Two byte strings that differ in exactly one byte have different CRC-8 and
  different CRC-16, so one corrupted byte of a frame or of a message is always seen.\<close>

theorem crc_detects_one_byte:
  assumes "x \<noteq> y"
  shows "crc8 (pre @ x # post) \<noteq> crc8 (pre @ y # post) \<and>
    crc16 (pre @ x # post) \<noteq> crc16 (pre @ y # post)"
  using assms
  by (simp add: crc8_def crc16_def fold_inj crc8_step_inj_state crc8_step_inj_byte
      crc16_step_inj_state crc16_step_inj_byte)

theorem crc_detects_one_byte_witness:
  "crc8 [1, 2, 3] \<noteq> crc8 [1, 7, 3] \<and> crc16 [1, 2, 3] \<noteq> crc16 [1, 7, 3]"
  using crc_detects_one_byte [of 2 7 "[1]" "[3]"] by simp

end
