(* ===== verification/FrameRx.thy ===== *)
theory FrameRx
  imports Cobs Crc
begin

text \<open>
  The framing layer: the wire vocabulary (\<open>link/LinkWire.h\<close>, \<open>link/LinkFrameSizes.h\<close>), the
  frames the sender puts on the wire (\<open>link/io/LinkTx.cpp\<close>) and the receive framer
  \<open>UtilFrameRx\<close> (\<open>link/io/LinkFrameRx.h\<close>, \<open>link/io/LinkFrameRx.cpp\<close>).

  The framer's state is the filled part of its buffer (\<open>idx\<close> is the length of the list). Its
  \<open>Listener\<close> is an argument: a function from a frame event and the listener's state to the
  new state and the bool the callback returns. When a callback runs the C++ has already
  set \<open>idx = 0\<close>, so a listener that calls \<open>reset()\<close> on the framer (the link's reset does)
  changes nothing: the framer's state need not be visible to the listener.
\<close>

subsection \<open>The wire vocabulary\<close>

definition MAX_CHUNK :: int where "MAX_CHUNK = 250"
definition MSG_HDR :: int where "MSG_HDR = 6"

definition kWorstCaseCobsFrame :: int where
  "kWorstCaseCobsFrame =
     1 + (MAX_CHUNK + MSG_HDR) + (((MAX_CHUNK + MSG_HDR) + 254 - 1) div 254) + 1 + 1 + 1"

definition PHASE3_ACKS_NEEDED :: int where "PHASE3_ACKS_NEEDED = 2"
definition RX_ACK_WIRE_BYTES :: nat where "RX_ACK_WIRE_BYTES = 8"
definition RX_NAK_WIRE_BYTES :: nat where "RX_NAK_WIRE_BYTES = 6"

definition PING_CMD :: u8 where "PING_CMD = 0x22"
definition PONG_CMD :: u8 where "PONG_CMD = 0x33"
definition REQ_CMD :: u8 where "REQ_CMD = 0x11"
definition LOCK_CMD :: u8 where "LOCK_CMD = 0x44"

definition ACK_TYPE :: u8 where "ACK_TYPE = 0xFF"
definition NAK_TYPE :: u8 where "NAK_TYPE = 0xFE"
definition COBS_SEQ_MAX :: u8 where "COBS_SEQ_MAX = 0xFD"

lemmas wire_consts [wire_defs] = MAX_CHUNK_def MSG_HDR_def kWorstCaseCobsFrame_def
  PHASE3_ACKS_NEEDED_def RX_ACK_WIRE_BYTES_def RX_NAK_WIRE_BYTES_def PING_CMD_def PONG_CMD_def
  REQ_CMD_def LOCK_CMD_def ACK_TYPE_def NAK_TYPE_def COBS_SEQ_MAX_def

subsection \<open>Frames as the sender builds them\<close>

text \<open>The bytes \<open>buildAndTxCobsFrame_unlocked\<close> hands to the UART for a data chunk (the length
  clamped to \<open>MAX_CHUNK\<close>), and \<open>txSmallCobs_unlocked\<close> for an ACK or a NAK.\<close>

definition cobsWire :: "bytes \<Rightarrow> bytes" where
  "cobsWire raw = 0 # cobs_encode (raw @ [crc8 raw]) @ [0]"

definition cobsDataWire :: "u8 \<Rightarrow> bytes \<Rightarrow> bytes" where
  "cobsDataWire seq b = cobsWire (seq # take (nat MAX_CHUNK) b)"

definition ackWire :: "u8 \<Rightarrow> u16 \<Rightarrow> bytes" where
  "ackWire acked bytesRecvd =
     cobsWire [ACK_TYPE, acked, ucast (bytesRecvd AND 0xFF), ucast (drop_bit 8 bytesRecvd AND 0xFF)]"

definition nakWire :: "u8 \<Rightarrow> bytes" where
  "nakWire missing = cobsWire [NAK_TYPE, missing]"

subsection \<open>The framer\<close>

datatype frame_event =
    OnAck u8 u16
  | OnNak u8
  | OnPayload u8 bytes
  | OnFrameError

type_synonym 's listener = "frame_event \<Rightarrow> 's \<Rightarrow> 's \<times> bool"

text \<open>The dispatch on a decoded packet, in the order of the C++ tests.\<close>

definition classifyDecoded :: "bytes \<Rightarrow> frame_event" where
  "classifyDecoded d =
     (if length d \<ge> 5 \<and> d ! 0 = ACK_TYPE \<and> crc8 (take 4 d) = d ! 4
      then OnAck (d ! 1) (ucast (d ! 2) OR push_bit 8 (ucast (d ! 3)))
      else if length d \<ge> 3 \<and> d ! 0 = ACK_TYPE \<and> crc8 (take 2 d) = d ! 2
      then OnAck (d ! 1) 0
      else if length d \<ge> 3 \<and> d ! 0 = NAK_TYPE \<and> crc8 (take 2 d) = d ! 2
      then OnNak (d ! 1)
      else if length d \<ge> 2 \<and> crc8 (take (length d - 1) d) = d ! (length d - 1)
      then OnPayload (d ! 0) (take (length d - 2) (drop 1 d))
      else OnFrameError)"

text \<open>\<open>feed\<close>: data left, bytes consumed so far, buffer, listener state; the result is the
  return value of the C++ (bytes consumed), the buffer and the listener's state.\<close>

fun feed_loop :: "'s listener \<Rightarrow> bytes \<Rightarrow> nat \<Rightarrow> bytes \<Rightarrow> 's \<Rightarrow> nat \<times> bytes \<times> 's" where
  "feed_loop lis [] i buf s = (i, buf, s)"
| "feed_loop lis (b # data) i buf s =
     (if b = 0 then
        (if buf = [] then
           (case data of
              [] \<Rightarrow> (i + 1, buf, s)
            | d # data' \<Rightarrow>
                if d = 0 then feed_loop lis data' (i + 2) buf s
                else feed_loop lis data (i + 1) buf s)
         else
           (case lis (classifyDecoded (cobs_decode buf)) s of
              (s', dropped) \<Rightarrow>
                if dropped then (i + 1, [], s') else feed_loop lis data (i + 1) [] s'))
      else if length buf < 256 then feed_loop lis data (i + 1) (buf @ [b]) s
      else
        (case lis OnFrameError s of
           (s', dropped) \<Rightarrow>
             if dropped then (i + 1, [], s') else feed_loop lis data (i + 1) [] s'))"

definition feed :: "'s listener \<Rightarrow> bytes \<Rightarrow> bytes \<Rightarrow> 's \<Rightarrow> nat \<times> bytes \<times> 's" where
  "feed lis data buf s = feed_loop lis data 0 buf s"

definition framer_reset :: "bytes" where
  "framer_reset = []"

subsection \<open>Decoded packets\<close>

lemma crc8_self [simp]: "crc8 (take (length raw) (raw @ [c])) = crc8 raw"
  by simp

lemma u16_of_bytes:
  "ucast (ucast (w AND 0xFF) :: u8) OR push_bit 8 (ucast (ucast (drop_bit 8 w AND 0xFF) :: u8)) = w"
  for w :: u16
proof -
  have mask: "(0xFF :: u16) = mask 8" by (simp add: mask_numeral)
  show ?thesis
    unfolding mask by (rule bit_word_eqI) (auto simp: bit_simps)
qed

lemma classify_ack:
  "classifyDecoded ([ACK_TYPE, a, l, h] @ [crc8 [ACK_TYPE, a, l, h]]) =
     OnAck a (ucast l OR push_bit 8 (ucast h))"
  by (simp add: classifyDecoded_def)

lemma classify_nak: "classifyDecoded ([NAK_TYPE, m] @ [crc8 [NAK_TYPE, m]]) = OnNak m"
  by (simp add: classifyDecoded_def wire_defs)

lemma classify_payload:
  assumes "seq \<le> COBS_SEQ_MAX"
  shows "classifyDecoded ((seq # b) @ [crc8 (seq # b)]) = OnPayload seq b"
proof -
  have "seq \<noteq> ACK_TYPE" and "seq \<noteq> NAK_TYPE"
    using assms by (auto simp: wire_defs)
  then show ?thesis
    by (simp add: classifyDecoded_def nth_append)
qed

subsection \<open>Walking the stream\<close>

text \<open>One byte at a time: the buffer after the byte and the event it raises, if any. The
  framer's shortcut over a pair of delimiters is the same as taking them one by one, so the
  loop is a structural recursion over \<open>feedByte\<close>.\<close>

definition feedByte :: "u8 \<Rightarrow> bytes \<Rightarrow> bytes \<times> frame_event option" where
  "feedByte b buf =
     (if b = 0 then ([], if buf = [] then None else Some (classifyDecoded (cobs_decode buf)))
      else if length buf < 256 then (buf @ [b], None)
      else ([], Some OnFrameError))"

lemma feed_loop_zero_idle: "feed_loop lis (0 # data) i [] s = feed_loop lis data (i + 1) [] s"
proof (induction data arbitrary: i rule: length_induct)
  case (1 data)
  show ?case
  proof (cases data)
    case (Cons d ds)
    show ?thesis
    proof (cases "d = 0")
      case True
      with 1 Cons have "feed_loop lis data (i + 1) [] s = feed_loop lis ds (i + 1 + 1) [] s"
        by (auto simp del: feed_loop.simps)
      with Cons True show ?thesis by simp
    qed (simp add: Cons)
  qed simp
qed

lemma feed_loop_Cons:
  "feed_loop lis (b # data) i buf s =
     (case snd (feedByte b buf) of
        None \<Rightarrow> feed_loop lis data (i + 1) (fst (feedByte b buf)) s
      | Some e \<Rightarrow>
          if snd (lis e s) then (i + 1, [], fst (lis e s))
          else feed_loop lis data (i + 1) [] (fst (lis e s)))"
proof (cases "b = 0 \<and> buf = []")
  case True
  then show ?thesis by (simp only: feed_loop_zero_idle) (simp add: feedByte_def)
next
  case False
  then show ?thesis by (auto simp: feedByte_def case_prod_beta)
qed

declare feed_loop.simps(2) [simp del]

lemma feedByte_zero [simp]:
  "feedByte 0 [] = ([], None)"
  "buf \<noteq> [] \<Longrightarrow> feedByte 0 buf = ([], Some (classifyDecoded (cobs_decode buf)))"
  by (simp_all add: feedByte_def)

lemma feedByte_length: "length buf \<le> 256 \<Longrightarrow> length (fst (feedByte b buf)) \<le> 256"
  by (simp add: feedByte_def)

lemma feed_loop_nonzero:
  assumes "0 \<notin> set xs" and "length buf + length xs \<le> 256"
  shows "feed_loop lis (xs @ rest) i buf s = feed_loop lis rest (i + length xs) (buf @ xs) s"
  using assms by (induction xs arbitrary: i buf) (auto simp: feed_loop_Cons feedByte_def)

lemma encodedMax_frame: "n \<le> 252 \<Longrightarrow> encodedMax (Suc n) \<le> 254"
  by (simp add: encodedMax_def div_less)

text \<open>One frame of the sender, met by an idle framer: exactly one callback, with the event
  the frame stands for; then the framer is idle again.\<close>

lemma feed_loop_wire:
  assumes "length raw \<le> 252"
  shows "feed_loop lis (cobsWire raw @ rest) i [] s =
    (let r = lis (classifyDecoded (raw @ [crc8 raw])) s; j = i + length (cobsWire raw) in
     if snd r then (j, [], fst r) else feed_loop lis rest j [] (fst r))"
proof -
  let ?enc = "cobs_encode (raw @ [crc8 raw])"
  have "length ?enc \<le> 254"
    using cobs.enc_length [of "raw @ [crc8 raw]"] encodedMax_frame [OF assms] by simp
  then have "feed_loop lis (?enc @ 0 # rest) (i + 1) [] s =
      feed_loop lis (0 # rest) (i + 1 + length ?enc) ?enc s"
    using feed_loop_nonzero [of ?enc "[]" lis "0 # rest"] cobs.enc_nonzero [of "raw @ [crc8 raw]"]
    by simp
  then show ?thesis
    by (simp add: cobsWire_def feed_loop_Cons cobs.enc_not_Nil cobs.dec_enc Let_def)
qed

text \<open>The preamble of a frame flushes whatever the framer holds.\<close>

lemma feed_loop_preamble:
  assumes "buf \<noteq> []"
  shows "feed_loop lis (cobsWire raw @ rest) i buf s =
     (let r = lis (classifyDecoded (cobs_decode buf)) s in
      if snd r then (i + 1, [], fst r) else feed_loop lis (cobsWire raw @ rest) i [] (fst r))"
  using assms by (simp add: cobsWire_def feed_loop_Cons Let_def)

lemma feed_loop_buf_bound:
  "length buf \<le> 256 \<Longrightarrow> length (fst (snd (feed_loop lis data i buf s))) \<le> 256"
  by (induction data arbitrary: i buf s)
    (auto simp: feed_loop_Cons feedByte_length split: option.splits)

lemma feed_loop_count:
  "i \<le> fst (feed_loop lis data i buf s) \<and> fst (feed_loop lis data i buf s) \<le> i + length data"
proof (induction data arbitrary: i buf s)
  case (Cons b data)
  from Cons [of "i + 1"] show ?case
    by (auto simp: feed_loop_Cons split: option.splits) (metis Suc_leD)+
qed simp

lemma feed_loop_progress:
  assumes "data \<noteq> []"
  shows "i < fst (feed_loop lis data i buf s)"
proof (cases data)
  case (Cons b ds)
  show ?thesis
    using feed_loop_count [of "i + 1" lis ds] Cons
    by (auto simp: feed_loop_Cons split: option.splits) (metis Suc_le_lessD)+
qed (use assms in simp)

text \<open>The count of consumed bytes only accumulates.\<close>

lemma feed_loop_shift:
  "feed_loop lis data i buf s = map_prod (\<lambda>j. i + j) id (feed_loop lis data 0 buf s)"
proof (induction data arbitrary: i buf s)
  case (Cons b data)
  have sh: "feed_loop lis data (i + 1) buf' s' = map_prod (\<lambda>j. i + j) id (feed_loop lis data 1 buf' s')"
    for buf' s'
    using Cons [of "i + 1"] Cons [of 1] by (simp add: prod.map_comp comp_def)
  show ?case unfolding feed_loop_Cons sh by (simp add: id_def split: option.splits)
qed simp

subsection \<open>The contract of a listener\<close>

text \<open>What the framer asks of the object that receives its events: every callback keeps
  the object's invariant. The framer gives it back over any byte stream.\<close>

locale frame_listener =
  fixes lis :: "'s listener"
    and inv :: "'s \<Rightarrow> bool"
  assumes lis_inv: "inv s \<Longrightarrow> inv (fst (lis e s))"
begin

lemma feed_loop_inv: "inv s \<Longrightarrow> inv (snd (snd (feed_loop lis data i buf s)))"
  by (induction data arbitrary: i buf s) (auto simp: feed_loop_Cons lis_inv split: option.splits)

lemma feed_inv: "inv s \<Longrightarrow> inv (snd (snd (feed lis data buf s)))"
  unfolding feed_def by (rule feed_loop_inv)

end

subsection \<open>Frames on the wire and the events they stand for\<close>

datatype wire_frame =
    WData u8 bytes
  | WAck u8 u16
  | WNak u8

fun wireOf :: "wire_frame \<Rightarrow> bytes" where
  "wireOf (WData seq b) = cobsDataWire seq b"
| "wireOf (WAck a n) = ackWire a n"
| "wireOf (WNak m) = nakWire m"

fun eventOf :: "wire_frame \<Rightarrow> frame_event" where
  "eventOf (WData seq b) = OnPayload seq b"
| "eventOf (WAck a n) = OnAck a n"
| "eventOf (WNak m) = OnNak m"

text \<open>What the sender guarantees of a data frame: a sequence number of the wire space and
  at most a full chunk.\<close>

fun wf_frame :: "wire_frame \<Rightarrow> bool" where
  "wf_frame (WData seq b) \<longleftrightarrow> seq \<le> COBS_SEQ_MAX \<and> int (length b) \<le> MAX_CHUNK"
| "wf_frame (WAck a n) \<longleftrightarrow> True"
| "wf_frame (WNak m) \<longleftrightarrow> True"

lemma wireOf_raw:
  assumes "wf_frame f"
  obtains raw where "wireOf f = cobsWire raw" and "length raw \<le> 252"
    and "classifyDecoded (raw @ [crc8 raw]) = eventOf f"
proof (cases f)
  case (WData seq b)
  then have "take (nat MAX_CHUNK) b = b" using assms by (simp add: wire_defs)
  with WData assms that [of "seq # b"] classify_payload [of seq b] show ?thesis
    by (simp add: cobsDataWire_def wire_defs)
next
  case (WAck a n)
  with that [of "[ACK_TYPE, a, ucast (n AND 0xFF), ucast (drop_bit 8 n AND 0xFF)]"]
    classify_ack [of a "ucast (n AND 0xFF)" "ucast (drop_bit 8 n AND 0xFF)"]
  show ?thesis by (simp add: ackWire_def u16_of_bytes)
next
  case (WNak m)
  with that [of "[NAK_TYPE, m]"] classify_nak [of m] show ?thesis
    by (simp add: nakWire_def)
qed

lemma feed_loop_frame:
  assumes "wf_frame f"
  shows "feed_loop lis (wireOf f @ rest) i [] s =
    (let r = lis (eventOf f) s; j = i + length (wireOf f) in
     if snd r then (j, [], fst r) else feed_loop lis rest j [] (fst r))"
proof -
  obtain raw where "wireOf f = cobsWire raw" "length raw \<le> 252"
    "classifyDecoded (raw @ [crc8 raw]) = eventOf f"
    using wireOf_raw [OF assms] by blast
  then show ?thesis by (simp add: feed_loop_wire)
qed

text \<open>Does a callback ask to stop?\<close>

fun feed_stops :: "'s listener \<Rightarrow> bytes \<Rightarrow> bytes \<Rightarrow> 's \<Rightarrow> bool" where
  "feed_stops lis [] buf s = False"
| "feed_stops lis (b # data) buf s =
     (case snd (feedByte b buf) of
        None \<Rightarrow> feed_stops lis data (fst (feedByte b buf)) s
      | Some e \<Rightarrow> snd (lis e s) \<or> feed_stops lis data [] (fst (lis e s)))"

lemma feed_loop_cut:
  "feed_loop lis (xs @ ys) i buf s =
    (case feed_loop lis xs i buf s of
       (j, buf', s') \<Rightarrow> if feed_stops lis xs buf s then (j, buf', s') else feed_loop lis ys j buf' s')"
  by (induction xs arbitrary: i buf s) (auto simp: feed_loop_Cons split: option.splits)

lemma feed_loop_stopped:
  "if feed_stops lis xs buf s then fst (snd (feed_loop lis xs i buf s)) = []
   else fst (feed_loop lis xs i buf s) = i + length xs"
  by (induction xs arbitrary: i buf s) (auto simp: feed_loop_Cons split: option.splits)

lemma cobsWire_length: "length (cobsWire raw) \<le> length raw + 1 + (length raw + 1) div 254 + 3"
  using cobs.enc_length [of "raw @ [crc8 raw]"] by (simp add: cobsWire_def encodedMax_def)

lemma cobsDataWire_length: "length (cobsDataWire seq b) \<le> 255"
  using cobsWire_length [of "seq # take (nat MAX_CHUNK) b"]
  by (simp add: cobsDataWire_def wire_defs)

subsection \<open>Properties\<close>

text \<open>C17: the framer delivers what was sent. Any sequence of well-formed frames, put on the
  wire one after the other, makes an idle framer run exactly one callback per frame, in
  order, each with the sequence number and payload (or ACK count, or NAK) that was sent, and
  leaves it idle with every byte consumed.\<close>

theorem feed_delivers_frames:
  assumes "\<And>e s. \<not> snd (lis e s)" and "list_all wf_frame fs"
  shows "feed lis (concat (map wireOf fs)) [] s =
    (length (concat (map wireOf fs)), [], fold (\<lambda>f s. fst (lis (eventOf f) s)) fs s)"
proof -
  have "feed_loop lis (concat (map wireOf fs)) i [] s =
      (i + length (concat (map wireOf fs)), [], fold (\<lambda>f s. fst (lis (eventOf f) s)) fs s)" for i
    using assms
    by (induction fs arbitrary: i s) (simp_all add: feed_loop_frame Let_def)
  then show ?thesis by (simp add: feed_def)
qed

theorem feed_delivers_frames_witness:
  "feed (\<lambda>e log. (log @ [e], False)) (concat (map wireOf [WData 3 [0, 7], WAck 2 300, WNak 4])) [] [] =
    (length (concat (map wireOf [WData 3 [0, 7], WAck 2 300, WNak 4])), [],
     [OnPayload 3 [0, 7], OnAck 2 300, OnNak 4])"
  by (subst feed_delivers_frames) (simp_all add: wire_defs)

text \<open>A frame resynchronises the framer. Whatever bytes of a broken frame the buffer
  holds, the next well-formed frame is delivered as its own event: the held bytes cost at
  most the one event the frame's preamble turns them into.\<close>

theorem feed_resynchronises:
  assumes "\<And>e s. \<not> snd (lis e s)" and "wf_frame f"
  shows "feed lis (wireOf f) buf s =
    (length (wireOf f), [],
     fst (lis (eventOf f)
       (if buf = [] then s else fst (lis (classifyDecoded (cobs_decode buf)) s))))"
proof -
  obtain raw where raw: "wireOf f = cobsWire raw" "length raw \<le> 252"
    "classifyDecoded (raw @ [crc8 raw]) = eventOf f"
    using wireOf_raw [OF assms(2)] by blast
  have idle: "feed_loop lis (cobsWire raw) 0 [] t = (length (cobsWire raw), [], fst (lis (eventOf f) t))" for t
    using feed_loop_wire [OF raw(2), of lis "[]" 0 t] assms(1) raw(3) by (simp add: Let_def)
  then show ?thesis
    using feed_loop_preamble [of buf lis raw "[]" 0 s] assms(1)
    by (cases "buf = []") (simp_all add: feed_def raw(1) Let_def)
qed

theorem feed_resynchronises_witness:
  "feed (\<lambda>e n. (n + 1, False)) (wireOf (WNak 4)) [9, 9] 0 = (length (wireOf (WNak 4)), [], 2 :: nat)"
  by (subst feed_resynchronises) simp_all

text \<open>C18: how the UART driver cuts the byte stream into reads does not matter to the framer, up to the
  callback that asks it to stop. For every listener, the one of the link included: feeding a batch is
  feeding its first part and then, from the buffer that leaves, the second, the counts of bytes taken
  added up; if a callback of the first part asks to stop, the batch ends there, whatever follows, with the
  framer idle; and a batch in which none does is taken whole.\<close>

theorem feed_split_independent:
  "feed lis (xs @ ys) buf s =
    (case feed lis xs buf s of
       (n, buf', s') \<Rightarrow>
         if feed_stops lis xs buf s then (n, buf', s')
         else (case feed lis ys buf' s' of (m, buf'', s'') \<Rightarrow> (n + m, buf'', s''))) \<and>
   (if feed_stops lis xs buf s then fst (snd (feed lis xs buf s)) = []
    else fst (feed lis xs buf s) = length xs)"
proof -
  obtain n buf' s' where xs: "feed_loop lis xs 0 buf s = (n, buf', s')"
    by (cases "feed_loop lis xs 0 buf s")
  obtain m buf'' s'' where ys: "feed_loop lis ys 0 buf' s' = (m, buf'', s'')"
    by (cases "feed_loop lis ys 0 buf' s'")
  have "feed_loop lis ys n buf' s' = (n + m, buf'', s'')"
    using feed_loop_shift [of lis ys n buf' s'] ys by simp
  then show ?thesis
    using feed_loop_cut [of lis xs ys 0 buf s] feed_loop_stopped [of lis xs buf s 0] xs ys
    by (cases "feed_stops lis xs buf s") (simp_all add: feed_def)
qed

text \<open>The framer's index never leaves its 256-byte buffer, whatever arrives and
  whatever the listener answers.\<close>

theorem feed_buffer_bound:
  assumes "length buf \<le> 256"
  shows "length (fst (snd (feed lis data buf s))) \<le> 256 \<and> fst (feed lis data buf s) \<le> length data"
  using feed_loop_buf_bound [OF assms, of lis data 0 s] feed_loop_count [of 0 lis data buf s]
  by (simp add: feed_def)

theorem feed_buffer_bound_witness:
  "length (fst (snd (feed (\<lambda>e u. (u, False)) (replicate 300 7) [] ()))) \<le> 256 \<and>
   fst (feed (\<lambda>e u. (u, False)) (replicate 300 7) [] ()) \<le> length (replicate 300 (7 :: u8))"
  by (rule feed_buffer_bound) simp

end
