(* ===== verification/ArqCache.thy ===== *)
theory ArqCache
  imports FrameRx
begin

text \<open>
  The retransmission cache: \<open>IArqCache\<close> (\<open>link/arq/IArqCache.h\<close>) and its implementation
  \<open>ArqCache\<close> (\<open>link/arq/ArqCache.h\<close>, \<open>link/arq/ArqCache.cpp\<close>): 256 slots, one per sequence
  byte, over a pool of 64 buffers of 256 bytes.

  \<^item> the state is the C++ object's: the slot array is a function of the sequence byte (the
    tests \<open>seq >= SLOTS\<close> are constantly false), the pool arrays are functions of the index;
  \<^item> a payload is a list; the empty list is the C++'s \<open>payloadLen <= 0\<close> or null pointer;
  \<^item> \<open>cache_inv\<close> is the invariant, which implies the host-test check \<open>assertInvariants\<close>;
  \<^item> the locale \<open>arq_cache\<close> is the interface the link relies on: a bounded map from sequence
    bytes to chunks. It is interpreted on the code's model at the end.
\<close>

subsection \<open>State\<close>

definition SLOTS :: int where "SLOTS = 256"
definition POOL_SIZE :: nat where "POOL_SIZE = 64"
definition POOL_BUF_MAX :: int where "POOL_BUF_MAX = 256"

record Pending =
  p_len :: u16
  poolIdx :: u8
  in_use :: bool

record ArqCache =
  pending_' :: "u8 \<Rightarrow> Pending"
  pendingCount_' :: int
  pool_' :: "nat \<Rightarrow> bytes"
  poolUsed_' :: "nat \<Rightarrow> bool"
  poolFree_' :: int
  window_' :: int
  windowMax_' :: int

datatype FreeCause = SingleAck | CumulativeBackfill | NakCumulative | HonestDrop | Reset

definition pending_init :: Pending where
  "pending_init = \<lparr>p_len = 0, poolIdx = 0xFF, in_use = False\<rparr>"

subsection \<open>Operations\<close>

definition cache_new :: "int \<Rightarrow> ArqCache" where
  "cache_new window =
     \<lparr>pending_' = (\<lambda>_. pending_init), pendingCount_' = 0, pool_' = (\<lambda>_. replicate 256 0),
      poolUsed_' = (\<lambda>_. False), poolFree_' = int POOL_SIZE, window_' = window, windowMax_' = window\<rparr>"

definition cache_setWindow :: "int \<Rightarrow> ArqCache \<Rightarrow> ArqCache" where
  "cache_setWindow w c =
     (let w1 = if w < 1 then 1 else w; w2 = if w1 > windowMax_' c then windowMax_' c else w1 in
      c\<lparr>window_' := w2\<rparr>)"

definition cache_hasRoom :: "ArqCache \<Rightarrow> bool" where
  "cache_hasRoom c \<longleftrightarrow> pendingCount_' c < SLOTS \<and> poolFree_' c > 0"

definition cache_freeRoom :: "ArqCache \<Rightarrow> int" where
  "cache_freeRoom c =
     (let slots = SLOTS - pendingCount_' c in if slots < poolFree_' c then slots else poolFree_' c)"

text \<open>Giving a slot's pool buffer back and one slot less, shared by \<open>insert\<close> and
  \<open>freeBySeq\<close>.\<close>

definition cache_releasePool :: "u8 \<Rightarrow> ArqCache \<Rightarrow> ArqCache" where
  "cache_releasePool oldPool c =
     (if unat oldPool < POOL_SIZE then
        c\<lparr>poolUsed_' := (poolUsed_' c)(unat oldPool := False),
          poolFree_' := (if poolFree_' c < int POOL_SIZE then poolFree_' c + 1 else poolFree_' c)\<rparr>
      else c)"

definition cache_decPending :: "ArqCache \<Rightarrow> ArqCache" where
  "cache_decPending c =
     (if pendingCount_' c > 0 then c\<lparr>pendingCount_' := pendingCount_' c - 1\<rparr> else c)"

text \<open>The first block of \<open>insert\<close>: an occupied slot gives its buffer back, but stays
  \<open>in_use\<close>.\<close>

definition cache_evict :: "u8 \<Rightarrow> ArqCache \<Rightarrow> ArqCache" where
  "cache_evict seq c =
     (let c1 = cache_releasePool (poolIdx (pending_' c seq)) c;
          c2 = c1\<lparr>pending_' := (pending_' c1)(seq := (pending_' c1 seq)\<lparr>poolIdx := 0xFF, p_len := 0\<rparr>)\<rparr> in
      cache_decPending c2)"

definition cache_freeIdx :: "ArqCache \<Rightarrow> nat option" where
  "cache_freeIdx c = find (\<lambda>i. \<not> poolUsed_' c i) [0..<POOL_SIZE]"

definition cache_insert :: "u8 \<Rightarrow> bytes \<Rightarrow> ArqCache \<Rightarrow> ArqCache" where
  "cache_insert seq payload c0 =
     (let c = if in_use (pending_' c0 seq) then cache_evict seq c0 else c0 in
      if payload = [] then
        c\<lparr>pending_' := (pending_' c)(seq := \<lparr>p_len = 0, poolIdx = 0xFF, in_use = True\<rparr>),
          pendingCount_' := pendingCount_' c + 1\<rparr>
      else if int (length payload) > POOL_BUF_MAX then c
      else if poolFree_' c \<le> 0 then c
      else
        (case cache_freeIdx c of
           None \<Rightarrow> c
         | Some i \<Rightarrow>
             c\<lparr>pool_' := (pool_' c)(i := payload @ drop (length payload) (pool_' c i)),
               pending_' := (pending_' c)(seq :=
                 \<lparr>p_len = of_nat (length payload), poolIdx = of_nat i, in_use = True\<rparr>),
               poolUsed_' := (poolUsed_' c)(i := True),
               poolFree_' := poolFree_' c - 1,
               pendingCount_' := pendingCount_' c + 1\<rparr>))"

text \<open>The cause only feeds a trace line.\<close>

definition cache_freeBySeq :: "u8 \<Rightarrow> FreeCause \<Rightarrow> ArqCache \<Rightarrow> ArqCache" where
  "cache_freeBySeq seq cause c =
     (if \<not> in_use (pending_' c seq) then c
      else
        let c1 = cache_releasePool (poolIdx (pending_' c seq)) c;
            c2 = c1\<lparr>pending_' := (pending_' c1)(seq := pending_init)\<rparr> in
        cache_decPending c2)"

text \<open>\<open>peekForRetx\<close>: the chunk, or \<open>None\<close> where the C++ returns false.\<close>

definition cache_peek :: "u8 \<Rightarrow> ArqCache \<Rightarrow> bytes option" where
  "cache_peek seq c =
     (let p = pending_' c seq in
      if \<not> in_use p then None
      else if unat (poolIdx p) \<ge> POOL_SIZE \<or> p_len p = 0 then None
      else Some (take (unat (p_len p)) (pool_' c (unat (poolIdx p)))))"

definition cache_clearAll :: "ArqCache \<Rightarrow> ArqCache" where
  "cache_clearAll c =
     c\<lparr>pending_' := (\<lambda>_. pending_init),
       poolUsed_' := (\<lambda>i. if i < POOL_SIZE then False else poolUsed_' c i),
       pendingCount_' := 0, poolFree_' := int POOL_SIZE\<rparr>"

definition cache_size :: "ArqCache \<Rightarrow> int" where
  "cache_size c = pendingCount_' c"

definition cache_slotInUse :: "u8 \<Rightarrow> ArqCache \<Rightarrow> bool" where
  "cache_slotInUse seq c = in_use (pending_' c seq)"

definition cache_assertInvariants :: "ArqCache \<Rightarrow> bool" where
  "cache_assertInvariants c =
     (let slots = map (\<lambda>i. pending_' c (of_nat i)) [0..<256];
          inUse = length (filter in_use slots);
          inUseWithPool = length (filter (\<lambda>p. in_use p \<and> poolIdx p \<noteq> 0xFF) slots);
          poolUsedCount = length (filter (poolUsed_' c) [0..<POOL_SIZE]) in
      list_all (\<lambda>p. if in_use p then int (unat (p_len p)) \<le> POOL_BUF_MAX
                    else poolIdx p = 0xFF \<and> p_len p = 0) slots \<and>
      int inUse = pendingCount_' c \<and>
      inUseWithPool = poolUsedCount \<and>
      0 \<le> pendingCount_' c \<and> pendingCount_' c \<le> SLOTS \<and>
      poolUsedCount \<le> POOL_SIZE \<and>
      poolFree_' c = int POOL_SIZE - int poolUsedCount \<and>
      0 \<le> poolFree_' c \<and> poolFree_' c \<le> int POOL_SIZE)"

lemmas cache_consts = SLOTS_def POOL_SIZE_def POOL_BUF_MAX_def

subsection \<open>The invariant\<close>

definition slots_used :: "ArqCache \<Rightarrow> u8 set" where
  "slots_used c = {s. in_use (pending_' c s)}"

definition slots_pooled :: "ArqCache \<Rightarrow> u8 set" where
  "slots_pooled c = {s. in_use (pending_' c s) \<and> poolIdx (pending_' c s) \<noteq> 0xFF}"

definition pool_used :: "ArqCache \<Rightarrow> nat set" where
  "pool_used c = {i. i < POOL_SIZE \<and> poolUsed_' c i}"

definition slot_ok :: "Pending \<Rightarrow> bool" where
  "slot_ok p =
     (if in_use p
      then (poolIdx p = 0xFF \<and> p_len p = 0) \<or>
           (unat (poolIdx p) < POOL_SIZE \<and> 0 < unat (p_len p) \<and> unat (p_len p) \<le> 256)
      else poolIdx p = 0xFF \<and> p_len p = 0)"

text \<open>The pooled slots own the used buffers, one each; the counters count.\<close>

definition cache_inv :: "ArqCache \<Rightarrow> bool" where
  "cache_inv c \<longleftrightarrow>
     (\<forall>s. slot_ok (pending_' c s)) \<and>
     (\<forall>i. length (pool_' c i) = 256) \<and>
     bij_betw (\<lambda>s. unat (poolIdx (pending_' c s))) (slots_pooled c) (pool_used c) \<and>
     pendingCount_' c = int (card (slots_used c)) \<and>
     poolFree_' c = int POOL_SIZE - int (card (pool_used c))"

text \<open>The abstract contents: which chunk each sequence byte maps to.\<close>

definition cache_map :: "ArqCache \<Rightarrow> u8 \<Rightarrow> bytes option" where
  "cache_map c s = cache_peek s c"

lemma finite_u8 [simp]: "finite (A :: u8 set)"
  by (rule finite_subset [OF subset_UNIV finite])

lemma finite_pool_used [simp]: "finite (pool_used c)"
  by (simp add: pool_used_def)

lemma cache_inv_slot: "cache_inv c \<Longrightarrow> slot_ok (pending_' c s)"
  by (simp add: cache_inv_def)

lemma slot_ok_pooled:
  "slot_ok p \<Longrightarrow> in_use p \<Longrightarrow> poolIdx p \<noteq> 0xFF \<Longrightarrow>
     unat (poolIdx p) < POOL_SIZE \<and> 0 < unat (p_len p) \<and> unat (p_len p) \<le> 256"
  by (auto simp: slot_ok_def)

lemma slot_ok_poolIdx_lt:
  assumes "slot_ok p"
  shows "unat (poolIdx p) < POOL_SIZE \<longleftrightarrow> in_use p \<and> poolIdx p \<noteq> 0xFF"
  using assms by (auto simp: slot_ok_def cache_consts split: if_splits)

lemma card_pool_used_le: "card (pool_used c) \<le> POOL_SIZE"
proof -
  have "pool_used c \<subseteq> {..<POOL_SIZE}" by (auto simp: pool_used_def)
  then show ?thesis using card_mono [of "{..<POOL_SIZE}"] by simp
qed

lemma card_slots_le: "card (slots_used c) \<le> 256"
proof -
  have "card (slots_used c) \<le> card (UNIV :: u8 set)" by (rule card_mono) simp_all
  then show ?thesis by (simp add: card_word)
qed

lemma slot_ok_init [simp]: "slot_ok pending_init"
  by (simp add: slot_ok_def pending_init_def)

lemma cache_invI:
  assumes "\<And>s. slot_ok (pending_' c s)" and "\<And>i. length (pool_' c i) = 256"
    and "bij_betw (\<lambda>s. unat (poolIdx (pending_' c s))) (slots_pooled c) (pool_used c)"
    and "pendingCount_' c = int (card (slots_used c))"
    and "poolFree_' c = int POOL_SIZE - int (card (pool_used c))"
  shows "cache_inv c"
  using assms by (simp add: cache_inv_def)

lemma cache_inv_new: "cache_inv (cache_new w)"
  by (simp add: cache_inv_def cache_new_def slot_ok_def pending_init_def slots_pooled_def
      pool_used_def slots_used_def bij_betw_def)

lemma cache_inv_clearAll: "cache_inv c \<Longrightarrow> cache_inv (cache_clearAll c)"
  by (simp add: cache_inv_def cache_clearAll_def slot_ok_def pending_init_def slots_pooled_def
      pool_used_def slots_used_def bij_betw_def)

lemma cache_inv_setWindow: "cache_inv c \<Longrightarrow> cache_inv (cache_setWindow w c)"
  by (simp add: cache_inv_def cache_setWindow_def slots_pooled_def pool_used_def slots_used_def
      Let_def)

lemma bij_betw_remove1:
  assumes "bij_betw f A B" and "a \<in> A"
  shows "bij_betw f (A - {a}) (B - {f a})"
  using assms by (auto simp: bij_betw_def inj_on_def)

subsection \<open>Freeing a slot\<close>

text \<open>The state after freeing an occupied slot, in closed form.\<close>

lemma cache_freeBySeq_in_use:
  assumes inv: "cache_inv c" and use: "in_use (pending_' c s)"
  shows "pending_' (cache_freeBySeq s cause c) = (pending_' c)(s := pending_init)"
    and "pool_' (cache_freeBySeq s cause c) = pool_' c"
    and "pool_used (cache_freeBySeq s cause c) = pool_used c - {unat (poolIdx (pending_' c s))}"
    and "pendingCount_' (cache_freeBySeq s cause c) = pendingCount_' c - 1"
    and "poolFree_' (cache_freeBySeq s cause c) =
      poolFree_' c + (if poolIdx (pending_' c s) \<noteq> 0xFF then 1 else 0)"
proof -
  have "s \<in> slots_used c" using use by (simp add: slots_used_def)
  then have "card (slots_used c) > 0" by (auto simp: card_gt_0_iff)
  then have pos: "pendingCount_' c > 0" using inv by (simp add: cache_inv_def)
  have idx: "unat (poolIdx (pending_' c s)) < POOL_SIZE \<longleftrightarrow> poolIdx (pending_' c s) \<noteq> 0xFF"
    using slot_ok_poolIdx_lt [OF cache_inv_slot [OF inv, of s]] use by simp
  have free: "poolFree_' c < int POOL_SIZE" if "poolIdx (pending_' c s) \<noteq> 0xFF"
  proof -
    have "unat (poolIdx (pending_' c s)) \<in> pool_used c"
      using inv that use by (auto simp: cache_inv_def bij_betw_def slots_pooled_def)
    then have "card (pool_used c) > 0" by (auto simp: card_gt_0_iff)
    then show ?thesis using inv by (simp add: cache_inv_def)
  qed
  note defs = cache_freeBySeq_def cache_releasePool_def cache_decPending_def Let_def
  show "pending_' (cache_freeBySeq s cause c) = (pending_' c)(s := pending_init)"
    and "pool_' (cache_freeBySeq s cause c) = pool_' c"
    and "pendingCount_' (cache_freeBySeq s cause c) = pendingCount_' c - 1"
    and "poolFree_' (cache_freeBySeq s cause c) =
      poolFree_' c + (if poolIdx (pending_' c s) \<noteq> 0xFF then 1 else 0)"
    using pos idx free use by (auto simp: defs)
  show "pool_used (cache_freeBySeq s cause c) = pool_used c - {unat (poolIdx (pending_' c s))}"
    using use by (auto simp: defs pool_used_def)
qed

lemma cache_inv_freeBySeq:
  assumes inv: "cache_inv c"
  shows "cache_inv (cache_freeBySeq s cause c)"
proof (cases "in_use (pending_' c s)")
  case True
  let ?c = "cache_freeBySeq s cause c" and ?p = "poolIdx (pending_' c s)"
  let ?f = "\<lambda>t. unat (poolIdx (pending_' c t))"
  note free = cache_freeBySeq_in_use [OF inv True, of cause]
  have used: "slots_used ?c = slots_used c - {s}"
    by (auto simp: slots_used_def free pending_init_def)
  have pooled: "slots_pooled ?c = slots_pooled c - {s}"
    by (auto simp: slots_pooled_def free pending_init_def)
  have s_in: "s \<in> slots_used c" using True by (simp add: slots_used_def)
  have bij: "bij_betw ?f (slots_pooled c) (pool_used c)"
    and cnt: "pendingCount_' c = int (card (slots_used c))"
    and fr: "poolFree_' c = int POOL_SIZE - int (card (pool_used c))"
    using inv by (simp_all add: cache_inv_def)
  have bij': "bij_betw ?f (slots_pooled c - {s}) (pool_used c - {unat ?p})"
  proof (cases "?p = 0xFF")
    case True
    then have "s \<notin> slots_pooled c" and "unat ?p \<notin> pool_used c"
      by (simp_all add: slots_pooled_def pool_used_def cache_consts)
    then show ?thesis using bij by simp
  next
    case False
    then show ?thesis
      using bij_betw_remove1 [OF bij, of s] True by (simp add: slots_pooled_def)
  qed
  have bij'': "bij_betw (\<lambda>t. unat (poolIdx (pending_' ?c t))) (slots_pooled ?c) (pool_used ?c)"
    unfolding pooled free(3) using bij'
    by (rule bij_betw_cong [THEN iffD1, rotated]) (simp add: free)
  have mem: "unat ?p \<in> pool_used c \<longleftrightarrow> ?p \<noteq> 0xFF"
    using bij True by (auto simp: bij_betw_def slots_pooled_def pool_used_def cache_consts)
  show ?thesis
  proof (rule cache_invI)
    show "slot_ok (pending_' ?c t)" for t
      using cache_inv_slot [OF inv, of t] by (simp add: free(1))
    show "length (pool_' ?c i) = 256" for i
      using inv by (simp add: free(2) cache_inv_def)
    show "bij_betw (\<lambda>t. unat (poolIdx (pending_' ?c t))) (slots_pooled ?c) (pool_used ?c)"
      by (rule bij'')
    have "card (slots_used c) > 0" using s_in by (auto simp: card_gt_0_iff)
    then show "pendingCount_' ?c = int (card (slots_used ?c))"
      using cnt s_in by (simp add: free(4) used card_Diff_singleton of_nat_diff)
    have "unat ?p \<in> pool_used c \<longrightarrow> card (pool_used c) > 0" by (auto simp: card_gt_0_iff)
    then show "poolFree_' ?c = int POOL_SIZE - int (card (pool_used ?c))"
      using fr mem
      by (cases "?p = 0xFF") (simp_all add: free(5) free(3) card_Diff_singleton_if of_nat_diff)
  qed
qed (use inv in \<open>simp add: cache_freeBySeq_def\<close>)

subsection \<open>Inserting\<close>

text \<open>Evicting an occupied slot leaves what freeing it leaves, but for the \<open>in_use\<close> flag, which
  a successful insertion overwrites.\<close>

lemma cache_evict_free:
  assumes "in_use (pending_' c s)"
  shows "cache_evict s c = (cache_freeBySeq s cause c)
    \<lparr>pending_' := (pending_' c)(s := \<lparr>p_len = 0, poolIdx = 0xFF, in_use = True\<rparr>)\<rparr>"
proof -
  have "(pending_' c s)\<lparr>poolIdx := 0xFF, p_len := 0\<rparr> = \<lparr>p_len = 0, poolIdx = 0xFF, in_use = True\<rparr>"
    using assms by (cases "pending_' c s") simp
  then show ?thesis
    using assms
    by (intro ArqCache.equality)
      (simp_all add: cache_evict_def cache_freeBySeq_def cache_releasePool_def cache_decPending_def
        Let_def, simp add: fun_eq_iff)
qed

lemma cache_freeIdx_Some:
  assumes "cache_inv c" and "poolFree_' c > 0"
  obtains i where "cache_freeIdx c = Some i" and "i < POOL_SIZE" and "\<not> poolUsed_' c i"
proof -
  have ne: "card (pool_used c) \<noteq> POOL_SIZE" using assms by (simp add: cache_inv_def)
  have "\<exists>j < POOL_SIZE. \<not> poolUsed_' c j"
  proof (rule ccontr)
    assume "\<not> (\<exists>j < POOL_SIZE. \<not> poolUsed_' c j)"
    then have "pool_used c = {..<POOL_SIZE}" unfolding pool_used_def by blast
    then show False using ne by (metis card_lessThan)
  qed
  then obtain j where j: "j < POOL_SIZE" "\<not> poolUsed_' c j" by blast
  have "cache_freeIdx c \<noteq> None"
  proof
    assume "cache_freeIdx c = None"
    then have "j \<notin> set [0..<POOL_SIZE]" using j(2) unfolding cache_freeIdx_def find_None_iff by blast
    then show False using j(1) by simp
  qed
  then obtain i where i: "cache_freeIdx c = Some i" by blast
  then have "i \<in> set [0..<POOL_SIZE]" and "\<not> poolUsed_' c i"
    unfolding cache_freeIdx_def find_Some_iff by auto
  then show thesis using that i by simp
qed

text \<open>An insertion that has a pool buffer to go to (one is free, or the slot gives one
  back) is the freeing of the slot followed by one assignment.\<close>

definition cache_place :: "u8 \<Rightarrow> bytes \<Rightarrow> nat \<Rightarrow> ArqCache \<Rightarrow> ArqCache" where
  "cache_place s b i c =
     c\<lparr>pool_' := (pool_' c)(i := b @ drop (length b) (pool_' c i)),
       pending_' := (pending_' c)(s := \<lparr>p_len = of_nat (length b), poolIdx = of_nat i, in_use = True\<rparr>),
       poolUsed_' := (poolUsed_' c)(i := True),
       poolFree_' := poolFree_' c - 1,
       pendingCount_' := pendingCount_' c + 1\<rparr>"

lemma cache_freeBySeq_unused [simp]:
  "\<not> in_use (pending_' c s) \<Longrightarrow> cache_freeBySeq s cause c = c"
  by (simp add: cache_freeBySeq_def)

lemma cache_free_pending [simp]:
  "cache_inv c \<Longrightarrow> pending_' (cache_freeBySeq s cause c) = (pending_' c)(s := pending_init)"
proof (cases "in_use (pending_' c s)")
  case False
  assume "cache_inv c"
  then have "pending_' c s = pending_init"
    using False cache_inv_slot [of c s] by (simp add: slot_ok_def pending_init_def)
  then show ?thesis using False by auto
qed (rule cache_freeBySeq_in_use(1))

lemma cache_insert_place:
  assumes inv: "cache_inv c" and b: "b \<noteq> []" "length b \<le> 256"
    and room: "poolFree_' (cache_freeBySeq s SingleAck c) > 0"
  obtains i where "i < POOL_SIZE" and "\<not> poolUsed_' (cache_freeBySeq s SingleAck c) i"
    and "cache_insert s b c = cache_place s b i (cache_freeBySeq s SingleAck c)"
proof -
  let ?c = "cache_freeBySeq s SingleAck c"
  obtain i where i: "cache_freeIdx ?c = Some i" "i < POOL_SIZE" "\<not> poolUsed_' ?c i"
    using cache_freeIdx_Some [OF cache_inv_freeBySeq [OF inv] room] by blast
  define e where "e = (if in_use (pending_' c s) then cache_evict s c else c)"
  have idx: "cache_freeIdx e = Some i"
    using i(1) cache_evict_free [of c s SingleAck] by (auto simp: e_def cache_freeIdx_def)
  have fr: "\<not> poolFree_' e \<le> 0"
    using room cache_evict_free [of c s SingleAck] by (auto simp: e_def)
  have "cache_insert s b c = cache_place s b i e"
    using b fr idx unfolding cache_insert_def e_def [symmetric] Let_def
    by (simp add: cache_place_def cache_consts)
  also have "\<dots> = cache_place s b i ?c"
    using cache_evict_free [of c s SingleAck] inv
    by (auto simp: e_def cache_place_def fun_upd_idem_iff)
  finally show thesis using that i by blast
qed

lemma cache_inv_place:
  assumes inv: "cache_inv c" and free: "\<not> in_use (pending_' c s)"
    and i: "i < POOL_SIZE" "\<not> poolUsed_' c i" and b: "b \<noteq> []" "length b \<le> 256"
  shows "cache_inv (cache_place s b i c)"
proof -
  let ?c = "cache_place s b i c"
  have u8: "unat (of_nat i :: u8) = i"
    using i(1) by (intro unat_of_nat_u8) (simp add: cache_consts)
  have u16: "unat (of_nat (length b) :: u16) = length b"
    using b(2) by (simp add: unat_of_nat)
  have nff: "(of_nat i :: u8) \<noteq> 0xFF"
    using u8 i(1) by (auto simp: word_unat_eq_iff cache_consts)
  have used: "slots_used ?c = insert s (slots_used c)"
    by (auto simp: slots_used_def cache_place_def)
  have pooled: "slots_pooled ?c = slots_pooled c \<union> {s}"
    using nff by (auto simp: slots_pooled_def cache_place_def)
  have pool: "pool_used ?c = pool_used c \<union> {i}"
    using i by (auto simp: pool_used_def cache_place_def)
  have s_out: "s \<notin> slots_used c" "s \<notin> slots_pooled c"
    using free by (simp_all add: slots_used_def slots_pooled_def)
  have i_out: "i \<notin> pool_used c" using i by (simp add: pool_used_def)
  show ?thesis
  proof (rule cache_invI)
    show "slot_ok (pending_' ?c t)" for t
      using cache_inv_slot [OF inv, of t] i(1) b u8 u16
      by (auto simp: cache_place_def slot_ok_def)
    show "length (pool_' ?c j) = 256" for j
      using inv b by (auto simp: cache_place_def cache_inv_def)
    have "bij_betw (\<lambda>t. unat (poolIdx (pending_' ?c t))) (slots_pooled c) (pool_used c)"
      using inv s_out(2)
      by (subst bij_betw_cong [of _ _ "\<lambda>t. unat (poolIdx (pending_' c t))"])
        (auto simp: cache_place_def cache_inv_def)
    moreover have "unat (poolIdx (pending_' ?c s)) = i" by (simp add: cache_place_def u8)
    ultimately show "bij_betw (\<lambda>t. unat (poolIdx (pending_' ?c t))) (slots_pooled ?c) (pool_used ?c)"
      unfolding pooled pool
      using notIn_Un_bij_betw [OF s_out(2), of "\<lambda>t. unat (poolIdx (pending_' ?c t))" "pool_used c"] i_out
      by simp
    have "pendingCount_' ?c = pendingCount_' c + 1" by (simp add: cache_place_def)
    then show "pendingCount_' ?c = int (card (slots_used ?c))"
      using inv s_out(1) by (simp add: used cache_inv_def)
    have "poolFree_' ?c = poolFree_' c - 1" by (simp add: cache_place_def)
    then show "poolFree_' ?c = int POOL_SIZE - int (card (pool_used ?c))"
      using inv i_out by (simp add: pool cache_inv_def)
  qed
qed

lemma cache_peek_place:
  assumes inv: "cache_inv c" and i: "i < POOL_SIZE" "\<not> poolUsed_' c i"
    and b: "b \<noteq> []" "length b \<le> 256"
  shows "cache_peek t (cache_place s b i c) = (if t = s then Some b else cache_peek t c)"
proof -
  have u8: "unat (of_nat i :: u8) = i"
    using i(1) by (intro unat_of_nat_u8) (simp add: cache_consts)
  have u16: "unat (of_nat (length b) :: u16) = length b"
    using b(2) by (simp add: unat_of_nat)
  then have "(of_nat (length b) :: u16) \<noteq> 0" using b(1) by (metis length_0_conv unat_0)
  then have same: "cache_peek s (cache_place s b i c) = Some b"
    using i(1) u8 u16 by (simp add: cache_peek_def cache_place_def)
  have "unat (poolIdx (pending_' c t)) \<noteq> i \<or> unat (poolIdx (pending_' c t)) \<ge> POOL_SIZE"
    if use: "in_use (pending_' c t)"
  proof (cases "poolIdx (pending_' c t) = 0xFF")
    case False
    then have "unat (poolIdx (pending_' c t)) \<in> pool_used c"
      using inv use by (auto simp: cache_inv_def bij_betw_def slots_pooled_def)
    then show ?thesis using i(2) by (auto simp: pool_used_def)
  qed (simp add: cache_consts)
  then have "cache_peek t (cache_place s b i c) = cache_peek t c" if "t \<noteq> s"
    using that by (auto simp: cache_peek_def cache_place_def Let_def)
  with same show ?thesis by simp
qed

lemma cache_peek_freeBySeq:
  assumes inv: "cache_inv c"
  shows "cache_peek t (cache_freeBySeq s cause c) = (if t = s then None else cache_peek t c)"
proof (cases "in_use (pending_' c s)")
  case True
  show ?thesis
    using cache_freeBySeq_in_use(1, 2) [OF inv True, of cause]
    by (simp add: cache_peek_def pending_init_def Let_def)
qed (simp add: cache_peek_def)

lemma cache_peek_clearAll: "cache_peek t (cache_clearAll c) = None"
  by (simp add: cache_peek_def cache_clearAll_def pending_init_def)

subsection \<open>Room\<close>

lemma cache_count_bounds:
  assumes "cache_inv c"
  shows "0 \<le> pendingCount_' c" and "pendingCount_' c \<le> SLOTS"
    and "0 \<le> poolFree_' c" and "poolFree_' c \<le> int POOL_SIZE"
  using assms card_slots_le [of c] card_pool_used_le [of c]
  by (simp_all add: cache_inv_def cache_consts)

lemma cache_hasRoom_iff: "cache_hasRoom c \<longleftrightarrow> 0 < cache_freeRoom c"
  by (auto simp: cache_hasRoom_def cache_freeRoom_def Let_def)

lemma cache_free_counts:
  assumes "cache_inv c"
  shows "pendingCount_' (cache_freeBySeq s cause c) \<le> pendingCount_' c"
    and "poolFree_' c \<le> poolFree_' (cache_freeBySeq s cause c)"
    and "cache_freeRoom c \<le> cache_freeRoom (cache_freeBySeq s cause c)"
proof -
  show a: "pendingCount_' (cache_freeBySeq s cause c) \<le> pendingCount_' c"
    and b: "poolFree_' c \<le> poolFree_' (cache_freeBySeq s cause c)"
    using cache_freeBySeq_in_use(4, 5) [OF assms, of s cause]
    by (cases "in_use (pending_' c s)"; simp)+
  show "cache_freeRoom c \<le> cache_freeRoom (cache_freeBySeq s cause c)"
    using a b by (simp add: cache_freeRoom_def Let_def)
qed

text \<open>Insertion of a chunk that fits, in one statement.\<close>

lemma cache_insert_ok:
  assumes inv: "cache_inv c" and room: "0 < cache_freeRoom c" and b: "b \<noteq> []" "length b \<le> 256"
  shows "cache_inv (cache_insert s b c)"
    and "cache_peek t (cache_insert s b c) = (if t = s then Some b else cache_peek t c)"
    and "cache_freeRoom c - 1 \<le> cache_freeRoom (cache_insert s b c)"
    and "cache_slotInUse t (cache_insert s b c) \<longleftrightarrow> t = s \<or> cache_slotInUse t c"
    and "window_' (cache_insert s b c) = window_' c"
proof -
  let ?c = "cache_freeBySeq s SingleAck c"
  have fr: "0 < poolFree_' ?c"
    using room cache_free_counts(2) [OF inv, of s SingleAck]
    by (simp add: cache_freeRoom_def Let_def split: if_splits)
  obtain i where i: "i < POOL_SIZE" "\<not> poolUsed_' ?c i"
    "cache_insert s b c = cache_place s b i ?c"
    using cache_insert_place [OF inv b fr] by blast
  have inv': "cache_inv ?c" by (rule cache_inv_freeBySeq [OF inv])
  have unused: "\<not> in_use (pending_' ?c s)" using inv by (simp add: pending_init_def)
  show "cache_inv (cache_insert s b c)"
    unfolding i(3) by (rule cache_inv_place [OF inv' unused i(1, 2) b])
  show "cache_peek t (cache_insert s b c) = (if t = s then Some b else cache_peek t c)"
    unfolding i(3) by (simp add: cache_peek_place [OF inv' i(1, 2) b] cache_peek_freeBySeq [OF inv])
  show "cache_freeRoom c - 1 \<le> cache_freeRoom (cache_insert s b c)"
    using cache_free_counts(1, 2) [OF inv, of s SingleAck]
    unfolding i(3) by (simp add: cache_freeRoom_def cache_place_def Let_def)
  show "cache_slotInUse t (cache_insert s b c) \<longleftrightarrow> t = s \<or> cache_slotInUse t c"
    unfolding i(3) using inv by (auto simp: cache_slotInUse_def cache_place_def)
  show "window_' (cache_insert s b c) = window_' c"
    unfolding i(3)
    by (simp add: cache_place_def cache_freeBySeq_def cache_releasePool_def cache_decPending_def Let_def)
qed

subsection \<open>The host-test check follows from the invariant\<close>

lemma length_filter_slots:
  "length (filter P (map (\<lambda>i. f (of_nat i :: u8)) [0..<256])) = card {s. P (f s)}"
proof -
  have inj: "inj_on (\<lambda>i. of_nat i :: u8) (set [0..<256])"
    by (rule inj_onI) (metis atLeastLessThan_iff atLeastLessThan_upt unat_of_nat_u8)
  have surj: "set (map (\<lambda>i. of_nat i :: u8) [0..<256]) = UNIV"
  proof -
    have "s \<in> (\<lambda>i. of_nat i :: u8) ` {0..<256}" for s :: u8
      by (rule image_eqI [of _ _ "unat s"]) simp_all
    then show ?thesis by auto
  qed
  let ?l = "map (\<lambda>i. of_nat i :: u8) [0..<256]"
  have "length (filter P (map f ?l)) = length (filter (P \<circ> f) ?l)" by (simp add: filter_map comp_assoc)
  also have "\<dots> = card (set (filter (P \<circ> f) ?l))"
    using inj by (intro distinct_card [symmetric] distinct_filter) (simp add: distinct_map)
  also have "set (filter (P \<circ> f) ?l) = {s. P (f s)}"
    unfolding set_filter surj by simp
  finally show ?thesis by (simp add: comp_def)
qed

lemma length_filter_pool: "length (filter (poolUsed_' c) [0..<POOL_SIZE]) = card (pool_used c)"
proof -
  have "length (filter (poolUsed_' c) [0..<POOL_SIZE]) = card (set (filter (poolUsed_' c) [0..<POOL_SIZE]))"
    by (rule distinct_card [symmetric]) simp
  then show ?thesis by (simp add: pool_used_def)
qed

lemma cache_inv_asserts:
  assumes "cache_inv c"
  shows "cache_assertInvariants c"
proof -
  have pooled: "card (slots_pooled c) = card (pool_used c)"
    using assms by (auto simp: cache_inv_def intro: bij_betw_same_card)
  have slot: "if in_use p then int (unat (p_len p)) \<le> POOL_BUF_MAX else poolIdx p = 0xFF \<and> p_len p = 0"
    if "slot_ok p" for p
    using that by (auto simp: slot_ok_def cache_consts split: if_splits)
  have all: "list_all (\<lambda>p. if in_use p then int (unat (p_len p)) \<le> POOL_BUF_MAX
      else poolIdx p = 0xFF \<and> p_len p = 0) (map (\<lambda>i. pending_' c (of_nat i)) [0..<256])"
    unfolding list_all_iff set_map by (rule ballI) (erule imageE, hypsubst, rule slot, rule cache_inv_slot [OF assms])
  show ?thesis
    using assms cache_count_bounds [OF assms] card_pool_used_le [of c] pooled all
    unfolding cache_assertInvariants_def Let_def length_filter_slots length_filter_pool
    by (simp add: cache_inv_def slots_used_def slots_pooled_def)
qed

subsection \<open>The interface\<close>

text \<open>What the link relies on: a map from sequence bytes to chunks with room for a number of
  insertions it can ask for. \<open>inv\<close> is the provider's invariant.\<close>

locale arq_cache =
  fixes insert :: "u8 \<Rightarrow> bytes \<Rightarrow> 'c \<Rightarrow> 'c"
    and free :: "u8 \<Rightarrow> FreeCause \<Rightarrow> 'c \<Rightarrow> 'c"
    and clear :: "'c \<Rightarrow> 'c"
    and peek :: "u8 \<Rightarrow> 'c \<Rightarrow> bytes option"
    and freeRoom :: "'c \<Rightarrow> int"
    and inv :: "'c \<Rightarrow> bool"
  assumes inv_insert: "inv c \<Longrightarrow> 0 < freeRoom c \<Longrightarrow> b \<noteq> [] \<Longrightarrow> length b \<le> 256 \<Longrightarrow> inv (insert s b c)"
    and peek_insert: "inv c \<Longrightarrow> 0 < freeRoom c \<Longrightarrow> b \<noteq> [] \<Longrightarrow> length b \<le> 256 \<Longrightarrow>
      peek t (insert s b c) = (if t = s then Some b else peek t c)"
    and room_insert: "inv c \<Longrightarrow> 0 < freeRoom c \<Longrightarrow> b \<noteq> [] \<Longrightarrow> length b \<le> 256 \<Longrightarrow>
      freeRoom c - 1 \<le> freeRoom (insert s b c)"
    and inv_free: "inv c \<Longrightarrow> inv (free s cause c)"
    and peek_free: "inv c \<Longrightarrow> peek t (free s cause c) = (if t = s then None else peek t c)"
    and room_free: "inv c \<Longrightarrow> freeRoom c \<le> freeRoom (free s cause c)"
    and inv_clear: "inv c \<Longrightarrow> inv (clear c)"
    and peek_clear: "peek t (clear c) = None"
begin

text \<open>A batch of chunks under distinct sequence bytes, as many as there is room for: every
  one is retrievable afterwards, and nothing else is touched.\<close>

lemma insert_batch:
  assumes "inv c" and "int (length cs) \<le> freeRoom c" and "distinct (map fst cs)"
    and "\<forall>(s, b) \<in> set cs. b \<noteq> [] \<and> length b \<le> 256"
  shows "inv (fold (\<lambda>(s, b). insert s b) cs c) \<and>
    (\<forall>t. peek t (fold (\<lambda>(s, b). insert s b) cs c) =
      (case map_of cs t of Some b \<Rightarrow> Some b | None \<Rightarrow> peek t c))"
  using assms
proof (induction cs arbitrary: c)
  case (Cons sb cs)
  obtain s b where sb: "sb = (s, b)" by (cases sb)
  have pre: "0 < freeRoom c" "b \<noteq> []" "length b \<le> 256" using Cons.prems sb by auto
  have "s \<notin> fst ` set cs" using Cons.prems(3) sb by simp
  then have "map_of cs s = None" by (simp add: map_of_eq_None_iff)
  moreover have "int (length cs) \<le> freeRoom (insert s b c)"
    using room_insert [OF Cons.prems(1) pre, of s] Cons.prems(2) by simp
  ultimately show ?case
    using Cons.IH [of "insert s b c"] inv_insert [OF Cons.prems(1) pre, of s] Cons.prems sb
      peek_insert [OF Cons.prems(1) pre, where s = s]
    by (auto split: option.splits)
qed simp

text \<open>Freeing a set of sequence bytes forgets exactly those.\<close>

lemma free_batch:
  assumes "inv c"
  shows "inv (fold (\<lambda>s. free s cause) ss c) \<and> freeRoom c \<le> freeRoom (fold (\<lambda>s. free s cause) ss c) \<and>
    (\<forall>t. peek t (fold (\<lambda>s. free s cause) ss c) = (if t \<in> set ss then None else peek t c))"
  using assms
proof (induction ss arbitrary: c)
  case (Cons s ss)
  show ?case
    using Cons.IH [OF inv_free [OF Cons.prems, of s cause]] peek_free [OF Cons.prems, where s = s]
      room_free [OF Cons.prems, of s cause]
    by auto
qed simp

end

interpretation acache: arq_cache cache_insert cache_freeBySeq cache_clearAll cache_peek cache_freeRoom cache_inv
  by unfold_locales
    (simp_all add: cache_insert_ok cache_inv_freeBySeq cache_peek_freeBySeq cache_free_counts
      cache_inv_clearAll cache_peek_clearAll)

subsection \<open>Properties\<close>

text \<open>C19: the cache is a map. While there is room, inserting a chunk of at most 256 bytes
  makes exactly that chunk retrievable under its sequence byte and changes no other; freeing
  forgets exactly that byte; clearing forgets all.\<close>

theorem cache_refines_map:
  assumes "cache_inv c"
  shows "(cache_hasRoom c \<and> b \<noteq> [] \<and> length b \<le> 256 \<longrightarrow>
      cache_map (cache_insert s b c) = (cache_map c)(s \<mapsto> b)) \<and>
    cache_map (cache_freeBySeq s cause c) = (cache_map c)(s := None) \<and>
    cache_map (cache_clearAll c) = Map.empty"
  using assms
  by (auto simp: cache_map_def fun_eq_iff cache_hasRoom_iff acache.peek_insert acache.peek_free
      acache.peek_clear)

theorem cache_refines_map_witness:
  "cache_map (cache_insert 7 [1, 2] (cache_new 32)) = [7 \<mapsto> [1, 2]]"
proof -
  have "cache_map (cache_new 32) = Map.empty"
    by (simp add: cache_map_def cache_peek_def cache_new_def pending_init_def fun_eq_iff)
  moreover have "cache_hasRoom (cache_new 32)"
    by (simp add: cache_hasRoom_def cache_new_def cache_consts)
  ultimately show ?thesis
    using cache_refines_map [OF cache_inv_new [of 32], of "[1, 2]" 7 SingleAck] by simp
qed

text \<open>Every operation keeps the cache's invariant, under the guards the link calls it
  with, and the invariant implies the consistency check \<open>assertInvariants\<close> of the host tests:
  no pool buffer leaks, none is shared by two slots, and both counters are exact.\<close>

theorem cache_ops_invariant:
  assumes "cache_inv c"
  shows "(cache_hasRoom c \<and> b \<noteq> [] \<and> length b \<le> 256 \<longrightarrow> cache_inv (cache_insert s b c)) \<and>
    cache_inv (cache_freeBySeq s cause c) \<and> cache_inv (cache_clearAll c) \<and>
    cache_inv (cache_setWindow w c) \<and> cache_assertInvariants c"
  using assms
  by (auto simp: cache_hasRoom_iff acache.inv_insert acache.inv_free acache.inv_clear
      cache_inv_setWindow cache_inv_asserts)

theorem cache_ops_invariant_witness: "cache_assertInvariants (cache_insert 7 [1, 2] (cache_new 32))"
proof -
  have "cache_hasRoom (cache_new 32)"
    by (simp add: cache_hasRoom_def cache_new_def cache_consts)
  then have "cache_inv (cache_insert 7 [1, 2] (cache_new 32))"
    using cache_ops_invariant [OF cache_inv_new [of 32], of "[1, 2]" 7 SingleAck 1] by simp
  then show ?thesis by (rule cache_inv_asserts)
qed

text \<open>Outside those guards the consistency is lost. An insertion over an occupied slot
  gives the slot's buffer back before it looks at the new chunk; when the chunk is then
  refused (too long here) the slot stays marked in use while the count drops, and
  \<open>assertInvariants\<close> would fire.\<close>

theorem cache_refused_insert_drifts:
  assumes "cache_inv c" and "cache_slotInUse s c" and "256 < length b"
  shows "\<not> cache_assertInvariants (cache_insert s b c)"
proof -
  let ?c = "cache_insert s b c"
  have use: "in_use (pending_' c s)" using assms(2) by (simp add: cache_slotInUse_def)
  have eq: "?c = cache_evict s c"
    using assms(3) use by (auto simp: cache_insert_def cache_consts Let_def)
  have used: "slots_used ?c = slots_used c"
    using use by (auto simp: eq cache_evict_free [OF use, of SingleAck] slots_used_def)
  have "pendingCount_' ?c = pendingCount_' c - 1"
    using cache_freeBySeq_in_use(4) [OF assms(1) use, of SingleAck]
    by (simp add: eq cache_evict_free [OF use, of SingleAck])
  then have "int (card {s. in_use (pending_' ?c s)}) \<noteq> pendingCount_' ?c"
    using assms(1) used by (simp add: cache_inv_def slots_used_def)
  then show ?thesis
    unfolding cache_assertInvariants_def Let_def length_filter_slots by simp
qed

theorem cache_refused_insert_drifts_witness:
  "\<not> cache_assertInvariants (cache_insert 7 (replicate 257 0) (cache_insert 7 [1, 2] (cache_new 32)))"
proof (rule cache_refused_insert_drifts)
  have room: "0 < cache_freeRoom (cache_new 32)"
    by (simp add: cache_freeRoom_def cache_new_def cache_consts)
  show "cache_inv (cache_insert 7 [1, 2] (cache_new 32))"
    by (rule acache.inv_insert [OF cache_inv_new room]) simp_all
  show "cache_slotInUse 7 (cache_insert 7 [1, 2] (cache_new 32))"
    using cache_insert_ok(4) [OF cache_inv_new [of 32] room, of "[1, 2]" 7 7] by simp
qed simp

end
