(* ===== verification/AlConfig.thy ===== *)
theory AlConfig
  imports Complex_Main FrameRx
begin

text \<open>
  The configuration (\<open>AutoLinkConfig.h\<close>): its fields with the defaults of a device build, the
  chunk arithmetic every admission gate uses, the buffer floors, and the distribution of the
  free heap over the three buffers.

  A \<open>size_t\<close> is a \<open>nat\<close> here: the sizes are buffer sizes, far from the width of the type, and
  the subtractions of the source are guarded (\<open>nat\<close> subtraction is only used under its guard).
  \<open>minAcceptRate\<close> is the rational it denotes.
\<close>

definition AUTOLINK_MAX_BAUDS :: int where "AUTOLINK_MAX_BAUDS = 16"
definition AUTOLINK_ARQ_PIPELINE_WINDOW :: int where "AUTOLINK_ARQ_PIPELINE_WINDOW = 32"
definition AUTOLINK_APP_SETTLE_MS :: u32 where "AUTOLINK_APP_SETTLE_MS = 600"
definition AUTOLINK_WIRE_SETTLE_MS :: u32 where "AUTOLINK_WIRE_SETTLE_MS = 50"
definition AUTOLINK_DEFAULT_MAX_MSG :: nat where "AUTOLINK_DEFAULT_MAX_MSG = 5120"
definition COBS_SEQ_SPACE :: int where "COBS_SEQ_SPACE = 254"
definition ARQ_CHUNK_BUDGET :: int where "ARQ_CHUNK_BUDGET = AUTOLINK_ARQ_PIPELINE_WINDOW * 2"

lemmas config_consts [wire_defs] = AUTOLINK_MAX_BAUDS_def AUTOLINK_ARQ_PIPELINE_WINDOW_def
  AUTOLINK_APP_SETTLE_MS_def AUTOLINK_WIRE_SETTLE_MS_def AUTOLINK_DEFAULT_MAX_MSG_def
  COBS_SEQ_SPACE_def ARQ_CHUNK_BUDGET_def

subsection \<open>Chunk arithmetic\<close>

definition chunksForMsgLen :: "int \<Rightarrow> int" where
  "chunksForMsgLen len =
     (if len \<le> 0 then 0
      else if len + MSG_HDR \<le> MAX_CHUNK then 1
      else 1 + (len + MAX_CHUNK - 1) div MAX_CHUNK)"

definition maxLenForChunkBudget :: "int \<Rightarrow> int" where
  "maxLenForChunkBudget budget =
     (if budget \<le> 0 then 0
      else if budget = 1 then MAX_CHUNK - MSG_HDR
      else (budget - 1) * MAX_CHUNK)"

definition maxLenForFreeWindow :: "int \<Rightarrow> int \<Rightarrow> int" where
  "maxLenForFreeWindow window inflight =
     (if window \<le> 0 then MAX_CHUNK - MSG_HDR
      else if inflight < 0 then MAX_CHUNK - MSG_HDR
      else
        let free = window - inflight; free' = (if free < 1 then 1 else free) in
        maxLenForChunkBudget free')"

subsection \<open>The configuration\<close>

datatype Mode = SYNC | ASYNC

record AutoLinkConfig =
  cfg_allowedBauds :: "u32 list"
  cfg_allowedBaudsCount :: int
  cfg_errThreshold :: int
  cfg_delayMs :: int
  cfg_rxBufferSize :: nat
  cfg_txBufferSize :: nat
  cfg_streamBufferSize :: nat
  cfg_heapReserveBytes :: nat
  cfg_maxMsg :: nat
  cfg_idleTimeoutMs :: int
  cfg_pingSamplesPerBaud :: int
  cfg_minAcceptRate :: rat
  cfg_errRateWindow :: int
  cfg_mode :: Mode
  cfg_syncAckTimeoutMs :: int
  cfg_postLockQuietMs :: int
  cfg_maxRetx :: u8
  cfg_txDelayMs :: int
  cfg_asyncChunkGapMs :: int
  cfg_gbnResendBurstMax :: int

definition config_default :: AutoLinkConfig where
  "config_default =
     \<lparr>cfg_allowedBauds = [512000, 115200, 57600, 38400, 19200, 9600] @ replicate 10 0,
      cfg_allowedBaudsCount = 6, cfg_errThreshold = 100, cfg_delayMs = 50, cfg_rxBufferSize = 2048,
      cfg_txBufferSize = 256, cfg_streamBufferSize = 2048, cfg_heapReserveBytes = 24576,
      cfg_maxMsg = AUTOLINK_DEFAULT_MAX_MSG, cfg_idleTimeoutMs = 10000, cfg_pingSamplesPerBaud = 3,
      cfg_minAcceptRate = 1 / 2, cfg_errRateWindow = 30, cfg_mode = SYNC, cfg_syncAckTimeoutMs = 500,
      cfg_postLockQuietMs = 600, cfg_maxRetx = 5, cfg_txDelayMs = 0, cfg_asyncChunkGapMs = 1,
      cfg_gbnResendBurstMax = 8\<rparr>"

definition clampedCount :: "AutoLinkConfig \<Rightarrow> int" where
  "clampedCount cfg =
     (if cfg_allowedBaudsCount cfg < 0 then 0
      else if cfg_allowedBaudsCount cfg > AUTOLINK_MAX_BAUDS then AUTOLINK_MAX_BAUDS
      else cfg_allowedBaudsCount cfg)"

definition clampToMaxBauds :: "AutoLinkConfig \<Rightarrow> AutoLinkConfig" where
  "clampToMaxBauds cfg =
     (let c1 = (if cfg_allowedBaudsCount cfg < 0 then cfg\<lparr>cfg_allowedBaudsCount := 0\<rparr> else cfg) in
      if cfg_allowedBaudsCount c1 > AUTOLINK_MAX_BAUDS
      then c1\<lparr>cfg_allowedBaudsCount := AUTOLINK_MAX_BAUDS\<rparr> else c1)"

definition allowedBaudSafe :: "AutoLinkConfig \<Rightarrow> int \<Rightarrow> u32" where
  "allowedBaudSafe cfg i =
     (if i < 0 \<or> i \<ge> AUTOLINK_MAX_BAUDS then 0 else cfg_allowedBauds cfg ! nat i)"

subsection \<open>Buffer floors\<close>

definition streamBufferFloor :: "AutoLinkConfig \<Rightarrow> nat" where
  "streamBufferFloor cfg =
     (let floor = 2 * (cfg_maxMsg cfg + 6) in
      if cfg_streamBufferSize cfg > floor then cfg_streamBufferSize cfg else floor)"

definition uartRxBufferFloor :: "AutoLinkConfig \<Rightarrow> nat" where
  "uartRxBufferFloor cfg =
     (if cfg_mode cfg = SYNC then cfg_rxBufferSize cfg
      else
        let perChunk = nat MAX_CHUNK + 4; window = nat AUTOLINK_ARQ_PIPELINE_WINDOW;
            floor = (perChunk * window * 5) div 4 in
        if cfg_rxBufferSize cfg > floor then cfg_rxBufferSize cfg else floor)"

definition uartTxBufferFloor :: "AutoLinkConfig \<Rightarrow> nat" where
  "uartTxBufferFloor cfg =
     (if cfg_mode cfg = SYNC then
        let m = chunksForMsgLen (int (cfg_maxMsg cfg)); msgChunks = (if m < 1 then 1 else m);
            syncFloor = nat kWorstCaseCobsFrame * nat (msgChunks + 2) in
        if cfg_txBufferSize cfg > syncFloor then cfg_txBufferSize cfg else syncFloor
      else
        let perChunk = nat MAX_CHUNK + 4;
            burst = (if cfg_gbnResendBurstMax cfg > 0 then cfg_gbnResendBurstMax cfg else 0);
            retxFloor = perChunk * nat (burst + 1);
            m = chunksForMsgLen (int (cfg_maxMsg cfg)); msgChunks = (if m < 1 then 1 else m);
            msgFloor = perChunk * nat msgChunks;
            windowFloor = perChunk * nat AUTOLINK_ARQ_PIPELINE_WINDOW;
            f1 = (if retxFloor > msgFloor then retxFloor else msgFloor);
            floor = (if windowFloor > f1 then windowFloor else f1) in
        if cfg_txBufferSize cfg > floor then cfg_txBufferSize cfg else floor)"

definition capFloorByHeap :: "nat \<Rightarrow> nat \<Rightarrow> nat \<Rightarrow> nat \<Rightarrow> nat" where
  "capFloorByHeap want minFloor0 freeHeap reserve =
     (let minFloor = (if minFloor0 > want then want else minFloor0) in
      if reserve = 0 \<or> freeHeap = 0 then want
      else if freeHeap \<ge> want + reserve then want
      else
        let avail = (if freeHeap > reserve then freeHeap - reserve else 0) in
        if avail < minFloor then 0 else avail)"

definition uartTxBufferFloorCapped :: "AutoLinkConfig \<Rightarrow> nat \<Rightarrow> nat \<Rightarrow> nat" where
  "uartTxBufferFloorCapped cfg freeHeap reserve =
     (let floor = uartTxBufferFloor cfg;
          want = (if cfg_txBufferSize cfg > floor then cfg_txBufferSize cfg else floor) in
      capFloorByHeap want (nat kWorstCaseCobsFrame) freeHeap reserve)"

subsection \<open>Heap distribution\<close>

record HeapDistribution =
  streamBuf :: nat
  rxBuf :: nat
  txBuf :: nat
  postFree :: nat

text \<open>The \<open>take\<close> lambda: what is granted, and the budget left.\<close>

definition heap_take :: "nat \<Rightarrow> nat \<Rightarrow> nat \<Rightarrow> nat \<times> nat" where
  "heap_take want minFloor0 budget =
     (let minFloor = (if minFloor0 > want then want else minFloor0) in
      if want \<le> budget then (want, budget - want)
      else if budget \<ge> minFloor then (budget, 0)
      else (0, budget))"

definition distributeHeapBudget :: "AutoLinkConfig \<Rightarrow> nat \<Rightarrow> HeapDistribution" where
  "distributeHeapBudget cfg totalFreeHeap =
     (let b0 = (if totalFreeHeap > cfg_heapReserveBytes cfg then totalFreeHeap - cfg_heapReserveBytes cfg else 0);
          (sb, b1) = heap_take (streamBufferFloor cfg) (cfg_maxMsg cfg + 6) b0;
          (rb, b2) = heap_take (uartRxBufferFloor cfg) (cfg_rxBufferSize cfg) b1;
          txFloor = uartTxBufferFloor cfg;
          txWant = (if cfg_txBufferSize cfg > txFloor then cfg_txBufferSize cfg else txFloor);
          (tb, b3) = heap_take txWant (nat kWorstCaseCobsFrame) b2;
          used = sb + rb + tb in
      \<lparr>streamBuf = sb, rxBuf = rb, txBuf = tb,
       postFree = (if totalFreeHeap > used then totalFreeHeap - used else 0)\<rparr>)"

subsection \<open>Lemmas\<close>

lemma chunksForMsgLen_pos: "0 < len \<Longrightarrow> 1 \<le> chunksForMsgLen len"
  by (auto simp: chunksForMsgLen_def wire_defs)

lemma chunksForMsgLen_mono: "a \<le> b \<Longrightarrow> chunksForMsgLen a \<le> chunksForMsgLen b"
  by (auto simp: chunksForMsgLen_def wire_defs zdiv_mono1)

lemma heap_take_bounds:
  assumes "heap_take want m b = (g, b')"
  shows "g \<le> want" and "g + b' = b" and "g = 0 \<or> g = want \<or> m \<le> g"
  using assms by (auto simp: heap_take_def Let_def split: if_splits)

lemma heap_take_full: "want \<le> b \<Longrightarrow> heap_take want m b = (want, b - want)"
  by (simp add: heap_take_def Let_def)

subsection \<open>Properties\<close>

text \<open>\<open>maxLenForChunkBudget\<close> is the exact inverse of the chunk count: with a budget of
  at least one chunk, a non-empty message fits the budget if and only if it is no longer than
  the limit. The clamp the applications use never refuses a message the window would take, nor
  admits one it would not.\<close>

theorem chunk_budget_exact:
  assumes "1 \<le> budget" and "1 \<le> len"
  shows "chunksForMsgLen len \<le> budget \<longleftrightarrow> len \<le> maxLenForChunkBudget budget"
proof -
  define n where "n = (len + 249) div 250"
  have n: "250 * n \<le> len + 249" "len + 249 < 250 * n + 250"
    unfolding n_def by presburger+
  have c: "chunksForMsgLen len = (if len \<le> 244 then 1 else 1 + n)"
    using assms(2) by (auto simp: chunksForMsgLen_def wire_defs n_def)
  have m: "maxLenForChunkBudget budget = (if budget = 1 then 244 else (budget - 1) * 250)"
    using assms(1) by (auto simp: maxLenForChunkBudget_def wire_defs)
  show ?thesis
    unfolding c m using n assms by (auto split: if_splits)
qed

theorem chunk_budget_exact_witness:
  "chunksForMsgLen 500 \<le> 3 \<longleftrightarrow> 500 \<le> maxLenForChunkBudget 3"
  by (rule chunk_budget_exact) simp_all

text \<open>The heap distribution charges the reserve once and never grants more than is
  free: the three buffers together stay within the heap above the reserve, each is either
  refused (0), or at least its own minimum, or all it asked for, and with enough heap every
  buffer gets all it asked for.\<close>

theorem distributeHeapBudget_bounds:
  "let d = distributeHeapBudget cfg freeHeap in
    streamBuf d + rxBuf d + txBuf d \<le> freeHeap - cfg_heapReserveBytes cfg \<and>
    postFree d = freeHeap - (streamBuf d + rxBuf d + txBuf d) \<and>
    (streamBuf d = 0 \<or> cfg_maxMsg cfg + 6 \<le> streamBuf d) \<and>
    (rxBuf d = 0 \<or> cfg_rxBufferSize cfg \<le> rxBuf d) \<and>
    (txBuf d = 0 \<or> txBuf d \<ge> nat kWorstCaseCobsFrame \<or> txBuf d = uartTxBufferFloor cfg)"
proof -
  define b0 where "b0 = (if freeHeap > cfg_heapReserveBytes cfg then freeHeap - cfg_heapReserveBytes cfg else 0)"
  obtain sb b1 where 1: "heap_take (streamBufferFloor cfg) (cfg_maxMsg cfg + 6) b0 = (sb, b1)"
    by fastforce
  obtain rb b2 where 2: "heap_take (uartRxBufferFloor cfg) (cfg_rxBufferSize cfg) b1 = (rb, b2)"
    by fastforce
  have tx: "(if cfg_txBufferSize cfg > uartTxBufferFloor cfg then cfg_txBufferSize cfg
      else uartTxBufferFloor cfg) = uartTxBufferFloor cfg"
    by (auto simp: uartTxBufferFloor_def Let_def)
  obtain tb b3 where 3: "heap_take (uartTxBufferFloor cfg) (nat kWorstCaseCobsFrame) b2 = (tb, b3)"
    by fastforce
  have d: "distributeHeapBudget cfg freeHeap =
      \<lparr>streamBuf = sb, rxBuf = rb, txBuf = tb,
       postFree = (if freeHeap > sb + rb + tb then freeHeap - (sb + rb + tb) else 0)\<rparr>"
    unfolding distributeHeapBudget_def Let_def b0_def [symmetric] tx by (simp add: 1 2 3)
  have s: "cfg_maxMsg cfg + 6 \<le> streamBufferFloor cfg"
    by (simp add: streamBufferFloor_def Let_def)
  have r: "cfg_rxBufferSize cfg \<le> uartRxBufferFloor cfg"
    by (simp add: uartRxBufferFloor_def Let_def)
  have b0: "b0 = freeHeap - cfg_heapReserveBytes cfg" by (simp add: b0_def)
  show ?thesis
    using heap_take_bounds [OF 1] heap_take_bounds [OF 2] heap_take_bounds [OF 3] s r b0
    by (auto simp: d Let_def)
qed

text \<open>A buffer plan with room to spare is the plan the floors ask for, and every byte
  not granted stays free.\<close>

theorem distributeHeapBudget_enough:
  assumes "cfg_heapReserveBytes cfg + streamBufferFloor cfg + uartRxBufferFloor cfg + uartTxBufferFloor cfg \<le> freeHeap"
  shows "distributeHeapBudget cfg freeHeap =
    \<lparr>streamBuf = streamBufferFloor cfg, rxBuf = uartRxBufferFloor cfg, txBuf = uartTxBufferFloor cfg,
     postFree = freeHeap - (streamBufferFloor cfg + uartRxBufferFloor cfg + uartTxBufferFloor cfg)\<rparr>"
proof -
  have tx: "(if cfg_txBufferSize cfg > uartTxBufferFloor cfg then cfg_txBufferSize cfg
      else uartTxBufferFloor cfg) = uartTxBufferFloor cfg"
    by (auto simp: uartTxBufferFloor_def Let_def)
  show ?thesis
    using assms unfolding distributeHeapBudget_def tx Let_def
    by (auto simp: heap_take_full)
qed

theorem distributeHeapBudget_enough_witness:
  "streamBuf (distributeHeapBudget config_default 100000) = streamBufferFloor config_default"
  by (subst distributeHeapBudget_enough)
    (simp_all add: config_default_def streamBufferFloor_def uartRxBufferFloor_def
      uartTxBufferFloor_def chunksForMsgLen_def wire_defs)

text \<open>The frame size the admission gates reserve covers every frame the sender can
  build: a data chunk of any length, an ACK and a NAK all fit \<open>kWorstCaseCobsFrame\<close> bytes,
  and a data frame fits the 256-byte stack buffer it is built in.\<close>

theorem frames_fit_reserved_size:
  "int (length (cobsDataWire seq b)) \<le> kWorstCaseCobsFrame \<and> length (cobsDataWire seq b) \<le> 256 \<and>
   length (ackWire a n) \<le> RX_ACK_WIRE_BYTES \<and> length (nakWire m) \<le> RX_NAK_WIRE_BYTES"
proof -
  note wire = cobsWire_length
  have "length (cobsDataWire seq b) \<le> 255" by (rule cobsDataWire_length)
  moreover have "length (ackWire a n) \<le> 8"
    using wire [of "[ACK_TYPE, a, ucast (n AND 0xFF), ucast (drop_bit 8 n AND 0xFF)]"]
    by (simp add: ackWire_def)
  moreover have "length (nakWire m) \<le> 6"
    using wire [of "[NAK_TYPE, m]"] by (simp add: nakWire_def)
  ultimately show ?thesis by (simp add: wire_defs)
qed

end
