(* ===== verification/Decision.thy ===== *)
theory Decision
  imports Complex_Main AlPrelude
begin

text \<open>
  The pure decisions of the link layer (\<open>link/sweep/LinkDecision.h\<close>): the sweep's phase
  verdicts, the receiver's classification of a sequence number, and the sender's retransmission
  policy (slot verdict, back-off, burst cap, drop policy, dwell jitter, back-pressure).

  \<open>roundTripMs\<close> is computed in exact arithmetic: the C++ evaluates the same expression in
  double precision and truncates; for the bauds of the default list the two agree, and a baud
  of 0 (a division by zero in the source) is not used by its callers.
\<close>

definition roundTripMs :: "u32 \<Rightarrow> int" where
  "roundTripMs baud = (200000 + int (unat baud)) div (2 * int (unat baud))"

subsection \<open>Sweep verdicts\<close>

datatype SwpPhaseAction =
  SendPongAck | PromoteToPhase2 | PromoteToPhase3 | Lock | FallbackLockSlowest | DropToPhase1 | Stay

definition decideMasterPhase1Ack :: SwpPhaseAction where
  "decideMasterPhase1Ack = PromoteToPhase2"

definition decideMasterPhase2Ack :: SwpPhaseAction where
  "decideMasterPhase2Ack = PromoteToPhase3"

definition decideMasterPhase3Ack :: "int \<Rightarrow> int \<Rightarrow> SwpPhaseAction" where
  "decideMasterPhase3Ack acks needed = (if acks \<ge> needed then Lock else Stay)"

definition decideMasterPhase2Timeout :: "int \<Rightarrow> int \<Rightarrow> SwpPhaseAction" where
  "decideMasterPhase2Timeout spdI baudCount =
     (if spdI + 1 \<ge> baudCount then FallbackLockSlowest else Stay)"

definition decideMasterPhase3Timeout :: "int \<Rightarrow> int \<Rightarrow> SwpPhaseAction" where
  "decideMasterPhase3Timeout nextBaud baudCount =
     (if nextBaud \<ge> baudCount then FallbackLockSlowest else Stay)"

definition decidePongPhase1Ping :: SwpPhaseAction where
  "decidePongPhase1Ping = PromoteToPhase2"

definition decidePongPhase2Ping :: SwpPhaseAction where
  "decidePongPhase2Ping = PromoteToPhase3"

definition decidePongPhase3Ack :: "int \<Rightarrow> int \<Rightarrow> SwpPhaseAction" where
  "decidePongPhase3Ack acks needed = (if acks \<ge> needed then Lock else Stay)"

definition decidePongPhase3Ping :: "int \<Rightarrow> int \<Rightarrow> SwpPhaseAction" where
  "decidePongPhase3Ping acks needed = (if acks \<ge> needed then Lock else Stay)"

definition decidePongPhase2Timeout :: "int \<Rightarrow> int \<Rightarrow> SwpPhaseAction" where
  "decidePongPhase2Timeout spdI n = (if spdI < 0 then DropToPhase1 else Stay)"

text \<open>\<open>None\<close> is the C++'s false; \<open>Some\<close> carries the out parameter.\<close>

definition isLockPayload :: "u8 \<Rightarrow> int \<Rightarrow> int option" where
  "isLockPayload payload baudCount =
     (if payload < 0x44 then None
      else
        let idx = int (unat payload) - 0x44 in
        if idx \<ge> baudCount then None else Some idx)"

subsection \<open>Sequence classification\<close>

definition LD_SEQ_WRAP :: int where "LD_SEQ_WRAP = 254"

datatype GapClass = Forward | Stale | Gap

definition classifyGap :: "u8 \<Rightarrow> u8 \<Rightarrow> bool \<Rightarrow> GapClass \<times> int" where
  "classifyGap cobsSeq rxSeq rxSeqSet =
     (if \<not> rxSeqSet then (Forward, 0)
      else
        let expected = (if int (unat rxSeq) = LD_SEQ_WRAP - 1 then 0 else rxSeq + 1) in
        if cobsSeq = expected then (Forward, 0)
        else
          let d = int (unat cobsSeq) - int (unat rxSeq);
              diff = (if d < 0 then d + LD_SEQ_WRAP else d) in
          (if diff = 0 \<or> diff > LD_SEQ_WRAP div 2 then Stale else Gap, diff))"

subsection \<open>Retransmission policy\<close>

datatype ArqAction = Hold | Retx | Drop

definition decideArqSlot :: "u32 \<Rightarrow> u8 \<Rightarrow> u32 \<Rightarrow> u8 \<Rightarrow> ArqAction" where
  "decideArqSlot ageMs retxCount ackRtoMs maxRetx =
     (if ageMs < ackRtoMs then Hold else if retxCount \<ge> maxRetx then Drop else Retx)"

text \<open>The doubling loop: \<open>for (i = 1; i < noProgress && b < maxMs; i++) b <<= 1\<close>.\<close>

function gbnBackoff_loop :: "int \<Rightarrow> int \<Rightarrow> u64 \<Rightarrow> u64 \<Rightarrow> u64" where
  "gbnBackoff_loop i noProgress maxMs b =
     (if i < noProgress \<and> b < maxMs then gbnBackoff_loop (i + 1) noProgress maxMs (push_bit 1 b) else b)"
  by pat_completeness auto
termination
  by (relation "measure (\<lambda>(i, n, m, b). nat (n - i))") auto

declare gbnBackoff_loop.simps [simp del]

definition decideGbnBackoff :: "int \<Rightarrow> u32 \<Rightarrow> u32 \<Rightarrow> u32" where
  "decideGbnBackoff noProgress baseMs maxMs0 =
     (if noProgress \<le> 1 then baseMs
      else if baseMs = 0 then 0
      else
        let maxMs = (if maxMs0 < baseMs then baseMs else maxMs0);
            b = gbnBackoff_loop 1 noProgress (ucast maxMs) (ucast baseMs) in
        if b > ucast maxMs then maxMs else ucast b)"

definition decideGbnResendCap :: "int \<Rightarrow> int \<Rightarrow> int" where
  "decideGbnResendCap pending cap =
     (if pending \<le> 0 \<or> cap \<le> 0 then 0 else if pending < cap then pending else cap)"

datatype GbnDropDecision = GbnDrop | GbnKeep

definition decideGbnDropOnMaxRetx :: "u32 \<Rightarrow> u32 \<Rightarrow> u32 \<Rightarrow> GbnDropDecision" where
  "decideGbnDropOnMaxRetx now lastRxMs rtoMs =
     (if rtoMs \<le> 0 then GbnDrop
      else if lastRxMs = 0 then GbnDrop
      else if now - lastRxMs < rtoMs then GbnKeep else GbnDrop)"

definition jitterPhase1Dwell :: "int \<Rightarrow> u32 \<Rightarrow> int" where
  "jitterPhase1Dwell baseMs seed =
     (if baseMs \<le> 1 then (if baseMs < 1 then 1 else baseMs)
      else
        let s = baseMs div 6; span = (if s < 1 then 1 else s);
            r = seed * 2654435761 + 0x9E3779B9;
            off = int (unat (r mod u32_of_int (2 * span + 1))) - span;
            d = baseMs + off in
        if d < 1 then 1 else d)"

datatype AppBufAction = AppAccept | AppHoldAck

definition decideAppBuf :: "int \<Rightarrow> int \<Rightarrow> AppBufAction" where
  "decideAppBuf accepted incoming = (if accepted < incoming then AppHoldAck else AppAccept)"

subsection \<open>Lemmas\<close>

text \<open>The modular distance of the wire's 254 sequence numbers.\<close>

definition seqDist :: "u8 \<Rightarrow> u8 \<Rightarrow> int" where
  "seqDist a b = (int (unat b) - int (unat a)) mod 254"

lemma seqDist_eq:
  assumes "unat a < 254" and "unat b < 254"
  shows "seqDist a b =
    (if int (unat b) - int (unat a) < 0 then int (unat b) - int (unat a) + 254
     else int (unat b) - int (unat a))"
proof (cases "int (unat b) - int (unat a) < 0")
  case True
  then have "seqDist a b = (int (unat b) - int (unat a) + 254) mod 254"
    by (simp add: seqDist_def)
  also have "\<dots> = int (unat b) - int (unat a) + 254"
    using True assms by (intro mod_pos_pos_trivial) linarith+
  finally show ?thesis using True by simp
next
  case False
  then show ?thesis
    unfolding seqDist_def using assms by (subst mod_pos_pos_trivial) (linarith, linarith, simp)
qed

lemma gbnBackoff_loop_eq:
  assumes "unat b < 2 ^ 33" and "unat m < 2 ^ 32" and "0 < unat b"
  shows "min (unat (gbnBackoff_loop i (i + int k) m b)) (unat m) = min (unat b * 2 ^ k) (unat m)"
  using assms
proof (induction k arbitrary: i b)
  case 0
  show ?case by (subst gbnBackoff_loop.simps) simp
next
  case (Suc k)
  show ?case
  proof (cases "b < m")
    case True
    then have lt: "unat b < unat m" by (simp add: word_less_nat_alt)
    have dbl: "unat (push_bit 1 b) = 2 * unat b"
      using lt Suc.prems(2) by (simp add: unat_word_ariths)
    have "gbnBackoff_loop i (i + int (Suc k)) m b =
        gbnBackoff_loop (i + 1) (i + 1 + int k) m (push_bit 1 b)"
      using True by (subst gbnBackoff_loop.simps) (simp add: algebra_simps)
    then show ?thesis
      using Suc.IH [of "push_bit 1 b" "i + 1"] dbl lt Suc.prems by (simp add: algebra_simps)
  next
    case False
    then have ge: "unat m \<le> unat b" by (simp add: word_less_nat_alt not_less)
    then have "unat m \<le> unat b * 2 ^ Suc k"
      by (rule order_trans) simp
    with ge False show ?thesis by (subst gbnBackoff_loop.simps) (simp add: min_def)
  qed
qed

subsection \<open>Properties\<close>

text \<open>The receiver's classification is the distance from the last delivered number on
  the ring of 254: the next number alone is delivered, a repeat or anything more than half
  the ring ahead is stale, and the rest is a gap. (Both numbers are of the wire space.)\<close>

theorem classifyGap_ring:
  assumes "unat c < 254" and "unat r < 254"
  shows "fst (classifyGap c r True) =
    (if seqDist r c = 1 then Forward
     else if seqDist r c = 0 \<or> 127 < seqDist r c then Stale else Gap)"
proof -
  have one: "unat (r + 1) = unat r + 1"
    using assms(2) unat_Suc_u8 [of r] by simp
  have exp: "(if int (unat r) = LD_SEQ_WRAP - 1 then 0 else r + 1) = c \<longleftrightarrow> seqDist r c = 1"
    using assms one
    by (auto simp: seqDist_eq LD_SEQ_WRAP_def word_unat_eq_iff split: if_splits)
  have diff: "(let d = int (unat c) - int (unat r) in if d < 0 then d + LD_SEQ_WRAP else d) = seqDist r c"
    using assms by (simp add: seqDist_eq LD_SEQ_WRAP_def Let_def)
  show ?thesis
    using exp diff by (auto simp: classifyGap_def Let_def LD_SEQ_WRAP_def)
qed

theorem classifyGap_ring_witness:
  "fst (classifyGap 1 253 True) =
    (if seqDist 253 1 = 1 then Forward
     else if seqDist 253 1 = 0 \<or> 127 < seqDist 253 1 then Stale else Gap)"
  by (rule classifyGap_ring) simp_all

text \<open>The back-off of a stuck base doubles per round and stops at the ceiling, never
  below the base: after \<open>n\<close> rounds without progress it is \<open>baseMs * 2^(n-1)\<close>, cut at the larger
  of the two arguments, with no overflow for any argument.\<close>

theorem decideGbnBackoff_closed_form:
  "unat (decideGbnBackoff n baseMs maxMs) =
    min (unat baseMs * 2 ^ nat (n - 1)) (max (unat baseMs) (unat maxMs))"
proof (cases "n \<le> 1 \<or> baseMs = 0")
  case True
  then show ?thesis by (auto simp: decideGbnBackoff_def)
next
  case False
  define m where "m = (if maxMs < baseMs then baseMs else maxMs)"
  have m: "unat m = max (unat baseMs) (unat maxMs)"
    by (auto simp: m_def word_less_nat_alt max_def)
  let ?b = "gbnBackoff_loop 1 n (ucast m) (ucast baseMs)"
  have lt: "unat baseMs < 2 ^ 32" "unat m < 2 ^ 32"
    using unsigned_less [of baseMs, where 'a = nat] unsigned_less [of m, where 'a = nat] by simp_all
  have "n = 1 + int (nat (n - 1))" using False by simp
  then have "min (unat ?b) (unat (ucast m :: u64)) =
      min (unat (ucast baseMs :: u64) * 2 ^ nat (n - 1)) (unat (ucast m :: u64))"
    using gbnBackoff_loop_eq [of "ucast baseMs" "ucast m" 1 "nat (n - 1)"] lt False
    by (simp add: unat_gt_0)
  then have eq: "min (unat ?b) (unat m) = min (unat baseMs * 2 ^ nat (n - 1)) (unat m)"
    by simp
  have res: "decideGbnBackoff n baseMs maxMs = (if ?b > ucast m then m else ucast ?b)"
    using False by (simp add: decideGbnBackoff_def m_def Let_def)
  show ?thesis
  proof (cases "?b > ucast m")
    case True
    then have "unat m < unat ?b" by (simp add: word_less_nat_alt)
    with True eq m show ?thesis by (simp add: res)
  next
    case False
    then have le: "unat ?b \<le> unat m" by (simp add: word_less_nat_alt not_less)
    then have "unat ?b < 2 ^ 32" using lt by simp
    then have "unat (ucast ?b :: u32) = unat ?b"
      by (simp add: unsigned_ucast_eq take_bit_nat_eq_self)
    with False eq m le show ?thesis by (simp add: res)
  qed
qed

text \<open>The dwell jitter moves a phase-1 dwell by at most a sixth (at least 1 ms) either
  way and never below 1 ms, whatever the seed.\<close>

theorem jitterPhase1Dwell_bounds:
  assumes "2 \<le> baseMs" and "baseMs < 2 ^ 31"
  shows "let span = max 1 (baseMs div 6); d = jitterPhase1Dwell baseMs seed in
    1 \<le> d \<and> baseMs - span \<le> d \<and> d \<le> baseMs + span"
proof -
  define span where "span = max 1 (baseMs div 6)"
  define r where "r = seed * 2654435761 + (0x9E3779B9 :: u32)"
  have span: "1 \<le> span" "span < 2 ^ 30" "span < baseMs"
    using assms by (auto simp: span_def)
  have u: "uint (u32_of_int (2 * span + 1)) = 2 * span + 1"
    unfolding uint_word_of_int using span by (intro mod_pos_pos_trivial) simp_all
  have "u32_of_int (2 * span + 1) \<noteq> 0"
  proof
    assume "u32_of_int (2 * span + 1) = 0"
    then have "uint (u32_of_int (2 * span + 1)) = 0" by (simp only: uint_0_eq)
    then show False unfolding u using span by simp
  qed
  then have "r mod u32_of_int (2 * span + 1) < u32_of_int (2 * span + 1)"
    by (simp add: word_mod_less_divisor word_greater_zero_iff)
  then have "uint (r mod u32_of_int (2 * span + 1)) < 2 * span + 1"
    unfolding word_less_def u .
  then have "int (unat (r mod u32_of_int (2 * span + 1))) < 2 * span + 1"
    by (simp only: of_nat_unat)
  then have off: "0 \<le> int (unat (r mod u32_of_int (2 * span + 1)))"
    "int (unat (r mod u32_of_int (2 * span + 1))) \<le> 2 * span"
    by simp_all
  have "(if baseMs div 6 < 1 then 1 else baseMs div 6) = span"
    by (auto simp: span_def)
  then have "jitterPhase1Dwell baseMs seed =
      (let d = baseMs + (int (unat (r mod u32_of_int (2 * span + 1))) - span) in if d < 1 then 1 else d)"
    using assms(1) by (simp add: jitterPhase1Dwell_def Let_def r_def)
  then show ?thesis
    using off span unfolding span_def [symmetric] Let_def by (auto split: if_splits)
qed

theorem jitterPhase1Dwell_bounds_witness:
  "let span = max 1 (240 div 6); d = jitterPhase1Dwell 240 12345 in
    1 \<le> d \<and> 240 - span \<le> d \<and> d \<le> 240 + span"
  by (rule jitterPhase1Dwell_bounds) simp_all

end
