(* ===== verification/LinkArq.thy ===== *)
theory LinkArq
  imports AlConfig Decision
begin

text \<open>
  The sender-window bookkeeping of go-back-N (\<open>link/arq/LinkArq.h\<close>, \<open>link/arq/LinkArq.cpp\<close>):
  64 slots indexed by the sequence number modulo 64, each with its pending flag, retransmission
  counts, send time, message base and lap, and the acknowledged byte count.

  \<^item> the arrays are functions of the slot index (\<open>budgetIdx\<close> keeps every access below 64);
  \<^item> \<open>waitForAck\<close> gives the link lock away while it waits. What the other tasks do in the
    meantime is an argument: a list of \<^emph>\<open>windows\<close>, one per blocking point, each an arbitrary
    change of the state the HAL context reads (the ARQ and the clock). The model is of the
    device branch (\<open>ARDUINO\<close>); running out of windows is \<open>None\<close>.
\<close>

definition NO_BASE :: u8 where "NO_BASE = 0xFF"

record LinkArq =
  ackedPending_' :: "nat \<Rightarrow> bool"
  retxCount_' :: "nat \<Rightarrow> u8"
  nakCount_' :: "nat \<Rightarrow> u8"
  baseLap_' :: "nat \<Rightarrow> u8"
  nakWake_' :: bool
  nakWakeSeq_' :: u8
  sentAtMs_' :: "nat \<Rightarrow> u32"
  baseSeq_' :: "nat \<Rightarrow> u8"
  bytesRecvd_' :: "nat \<Rightarrow> u16"
  clearAllEpoch_' :: u32
  gbnBase_' :: u8
  gbnActive_' :: bool

subsection \<open>Operations\<close>

definition budgetIdx :: "u8 \<Rightarrow> nat" where
  "budgetIdx seq = unat seq mod nat ARQ_CHUNK_BUDGET"

definition idxOf :: "u8 \<Rightarrow> LinkArq \<Rightarrow> int" where
  "idxOf seq a =
     (let d0 = int (unat seq) - int (unat (gbnBase_' a));
          d = (if d0 < 0 then d0 + COBS_SEQ_SPACE else d0) in
      if d < AUTOLINK_ARQ_PIPELINE_WINDOW then d else -1)"

text \<open>The members as the class declares them, before the constructor's \<open>clearAll\<close>.\<close>

definition arq_fields_init :: LinkArq where
  "arq_fields_init =
     \<lparr>ackedPending_' = (\<lambda>_. False), retxCount_' = (\<lambda>_. 0), nakCount_' = (\<lambda>_. 0),
      baseLap_' = (\<lambda>_. 0), nakWake_' = False, nakWakeSeq_' = 0xFF, sentAtMs_' = (\<lambda>_. 0),
      baseSeq_' = (\<lambda>_. 0), bytesRecvd_' = (\<lambda>_. 0), clearAllEpoch_' = 0, gbnBase_' = 0,
      gbnActive_' = False\<rparr>"

definition arq_clearAll :: "LinkArq \<Rightarrow> LinkArq" where
  "arq_clearAll a =
     a\<lparr>bytesRecvd_' := (\<lambda>_. 0), ackedPending_' := (\<lambda>_. False), retxCount_' := (\<lambda>_. 0),
       nakCount_' := (\<lambda>_. 0), sentAtMs_' := (\<lambda>_. 0), baseSeq_' := (\<lambda>_. 0), baseLap_' := (\<lambda>_. 0),
       gbnBase_' := 0, gbnActive_' := False, clearAllEpoch_' := clearAllEpoch_' a + 1\<rparr>"

definition arq_new :: LinkArq where
  "arq_new = arq_clearAll arq_fields_init"

definition arq_setGbnBase :: "u8 \<Rightarrow> LinkArq \<Rightarrow> LinkArq" where
  "arq_setGbnBase seq a = a\<lparr>gbnBase_' := seq\<rparr>"

definition arq_setGbnActive :: "bool \<Rightarrow> LinkArq \<Rightarrow> LinkArq" where
  "arq_setGbnActive v a = a\<lparr>gbnActive_' := v\<rparr>"

definition arq_onSent :: "u8 \<Rightarrow> u8 \<Rightarrow> u32 \<Rightarrow> u8 \<Rightarrow> LinkArq \<Rightarrow> LinkArq" where
  "arq_onSent seq baseSeq nowMs baseLap a =
     (let bi = budgetIdx seq in
      a\<lparr>ackedPending_' := (ackedPending_' a)(bi := True),
        retxCount_' := (retxCount_' a)(bi := 0),
        nakCount_' := (nakCount_' a)(bi := 0),
        sentAtMs_' := (sentAtMs_' a)(bi := nowMs),
        baseSeq_' := (baseSeq_' a)(bi := (if baseSeq = NO_BASE then seq else baseSeq)),
        baseLap_' := (baseLap_' a)(bi := baseLap)\<rparr>)"

definition arq_rearmSlot :: "u8 \<Rightarrow> u32 \<Rightarrow> LinkArq \<Rightarrow> LinkArq" where
  "arq_rearmSlot seq nowMs a =
     (let bi = budgetIdx seq in
      a\<lparr>retxCount_' := (retxCount_' a)(bi := 0), sentAtMs_' := (sentAtMs_' a)(bi := nowMs)\<rparr>)"

definition arq_onAcked :: "u8 \<Rightarrow> u16 \<Rightarrow> LinkArq \<Rightarrow> LinkArq" where
  "arq_onAcked seq bytesRecvd a =
     (let bi = budgetIdx seq in
      a\<lparr>bytesRecvd_' := (bytesRecvd_' a)(bi := bytesRecvd),
        ackedPending_' := (ackedPending_' a)(bi := False),
        retxCount_' := (retxCount_' a)(bi := 0),
        nakCount_' := (nakCount_' a)(bi := 0)\<rparr>)"

definition arq_bytesFor :: "u8 \<Rightarrow> LinkArq \<Rightarrow> u16" where
  "arq_bytesFor seq a = bytesRecvd_' a (budgetIdx seq)"

definition arq_bytesForMessage :: "u8 \<Rightarrow> u8 \<Rightarrow> LinkArq \<Rightarrow> u16" where
  "arq_bytesForMessage baseSeq baseLap a =
     fold (\<lambda>i t. if baseSeq_' a i = baseSeq \<and> baseLap_' a i = baseLap then t + bytesRecvd_' a i else t)
       [0..<nat ARQ_CHUNK_BUDGET] 0"

definition arq_isPending :: "u8 \<Rightarrow> LinkArq \<Rightarrow> bool" where
  "arq_isPending seq a = ackedPending_' a (budgetIdx seq)"

definition satInc :: "u8 \<Rightarrow> u8" where
  "satInc x = (if x < 0xFF then x + 1 else x)"

definition arq_noteSuppressedNak :: "u8 \<Rightarrow> LinkArq \<Rightarrow> LinkArq" where
  "arq_noteSuppressedNak m a =
     (if \<not> arq_isPending m a then a
      else let bi = budgetIdx m in a\<lparr>nakCount_' := (nakCount_' a)(bi := satInc (nakCount_' a bi))\<rparr>)"

definition arq_onNaked :: "u8 \<Rightarrow> u32 \<Rightarrow> LinkArq \<Rightarrow> LinkArq" where
  "arq_onNaked m nowMs a =
     (if \<not> arq_isPending m a then a
      else
        let bi = budgetIdx m in
        a\<lparr>sentAtMs_' := (sentAtMs_' a)(bi := nowMs),
          nakCount_' := (nakCount_' a)(bi := satInc (nakCount_' a bi))\<rparr>)"

definition arq_setPending :: "u8 \<Rightarrow> bool \<Rightarrow> LinkArq \<Rightarrow> LinkArq" where
  "arq_setPending seq v a = a\<lparr>ackedPending_' := (ackedPending_' a)(budgetIdx seq := v)\<rparr>"

definition arq_pendingCount :: "LinkArq \<Rightarrow> int" where
  "arq_pendingCount a = int (length (filter (ackedPending_' a) [0..<nat ARQ_CHUNK_BUDGET]))"

definition arq_retxCountTotal :: "LinkArq \<Rightarrow> int" where
  "arq_retxCountTotal a = sum_list (map (\<lambda>i. int (unat (retxCount_' a i))) [0..<nat ARQ_CHUNK_BUDGET])"

definition arq_retxCountFor :: "u8 \<Rightarrow> LinkArq \<Rightarrow> u8" where
  "arq_retxCountFor seq a = retxCount_' a (budgetIdx seq)"

definition arq_nakCountFor :: "u8 \<Rightarrow> LinkArq \<Rightarrow> u8" where
  "arq_nakCountFor seq a = nakCount_' a (budgetIdx seq)"

definition arq_noteNakWake :: "u8 \<Rightarrow> LinkArq \<Rightarrow> LinkArq" where
  "arq_noteNakWake seq a = a\<lparr>nakWakeSeq_' := seq, nakWake_' := True\<rparr>"

definition arq_decideSlot :: "u8 \<Rightarrow> u32 \<Rightarrow> u32 \<Rightarrow> u8 \<Rightarrow> LinkArq \<Rightarrow> ArqAction" where
  "arq_decideSlot seq nowMs ackRtoMs maxRtx a =
     (if idxOf seq a < 0 then Hold
      else
        let bi = budgetIdx seq; age = nowMs - sentAtMs_' a bi in
        decideArqSlot age (retxCount_' a bi) ackRtoMs maxRtx)"

definition arq_applyRetx :: "u8 \<Rightarrow> u32 \<Rightarrow> bool \<Rightarrow> LinkArq \<Rightarrow> LinkArq" where
  "arq_applyRetx seq nowMs rtoDriven a =
     (let bi = budgetIdx seq;
          a1 = (if rtoDriven then a\<lparr>retxCount_' := (retxCount_' a)(bi := satInc (retxCount_' a bi))\<rparr> else a) in
      if rtoDriven then a1\<lparr>sentAtMs_' := (sentAtMs_' a1)(bi := nowMs)\<rparr> else a1)"

subsection \<open>Waiting for an ACK\<close>

definition arq_giveUp :: "u8 \<Rightarrow> LinkArq \<Rightarrow> LinkArq" where
  "arq_giveUp seq a =
     (let bi = budgetIdx seq in
      a\<lparr>ackedPending_' := (ackedPending_' a)(bi := False), retxCount_' := (retxCount_' a)(bi := 0)\<rparr>)"

text \<open>The context of a wait: how to read the ARQ and the clock in the shared state, and how
  to change the ARQ.\<close>

record 's ArqCtx =
  ctx_arq :: "'s \<Rightarrow> LinkArq"
  ctx_upd :: "(LinkArq \<Rightarrow> LinkArq) \<Rightarrow> 's \<Rightarrow> 's"
  ctx_now :: "'s \<Rightarrow> u32"

text \<open>Taking the lock back after the wait gave up: the ACK may have landed meanwhile.\<close>

definition waitForAck_fail :: "'s ArqCtx \<Rightarrow> u8 \<Rightarrow> u32 \<Rightarrow> 's \<Rightarrow> bool \<times> 's" where
  "waitForAck_fail ctx seq gen s =
     (if \<not> arq_isPending seq (ctx_arq ctx s) then
        (if clearAllEpoch_' (ctx_arq ctx s) \<noteq> gen then (False, s) else (True, s))
      else (False, ctx_upd ctx (arq_giveUp seq) s))"

fun waitForAck_loop ::
  "'s ArqCtx \<Rightarrow> u8 \<Rightarrow> u32 \<Rightarrow> u32 \<Rightarrow> ('s \<Rightarrow> 's) list \<Rightarrow> 's \<Rightarrow> (bool \<times> 's \<times> ('s \<Rightarrow> 's) list) option" where
  "waitForAck_loop ctx seq gen deadline [] s = None"
| "waitForAck_loop ctx seq gen deadline (w # ws) s =
     (let a = ctx_arq ctx s in
      if \<not> arq_isPending seq a then
        (let s' = w s in Some (clearAllEpoch_' (ctx_arq ctx s') = gen, s', ws))
      else if clearAllEpoch_' a \<noteq> gen then Some (False, w s, ws)
      else if nakWake_' a \<and> nakWakeSeq_' a = seq then
        (case waitForAck_fail ctx seq gen (w s) of (r, s') \<Rightarrow> Some (r, s', ws))
      else if ctx_now ctx s \<ge> deadline then
        (case waitForAck_fail ctx seq gen (w s) of (r, s') \<Rightarrow> Some (r, s', ws))
      else waitForAck_loop ctx seq gen deadline ws (w s))"

text \<open>The whole call: the NAK latch is cleared and the epoch read under the lock, then the
  lock goes; the first window runs before the clock is read.\<close>

definition waitForAck ::
  "'s ArqCtx \<Rightarrow> u8 \<Rightarrow> u32 \<Rightarrow> ('s \<Rightarrow> 's) list \<Rightarrow> 's \<Rightarrow> (bool \<times> 's \<times> ('s \<Rightarrow> 's) list) option" where
  "waitForAck ctx seq timeoutMs ws s =
     (case ws of
        [] \<Rightarrow> None
      | w # ws' \<Rightarrow>
          let gen = clearAllEpoch_' (ctx_arq ctx s);
              s1 = ctx_upd ctx (\<lambda>a. a\<lparr>nakWake_' := False, nakWakeSeq_' := 0xFF\<rparr>) s;
              s2 = w s1 in
          waitForAck_loop ctx seq gen (ctx_now ctx s2 + timeoutMs) ws' s2)"

subsection \<open>Slots\<close>

lemma budget_consts [simp]: "nat ARQ_CHUNK_BUDGET = 64"
  by (simp add: wire_defs)

lemma budgetIdx_lt [simp]: "budgetIdx seq < 64"
  by (simp add: budgetIdx_def)

lemma unat_satInc: "unat (satInc x) = min 255 (unat x + 1)"
proof (cases "x < 0xFF")
  case True
  then have "unat x < 255" by (simp add: word_less_nat_alt)
  with True show ?thesis by (simp add: satInc_def unat_Suc_u8)
next
  case False
  then have "unat x \<ge> 255" by (simp add: word_less_nat_alt not_less)
  then have "unat x = 255" using unat_u8_le [of x] by simp
  with False show ?thesis by (simp add: satInc_def)
qed

lemma budgetIdx_eq_iff:
  assumes "unat a < 254" and "unat b < 254" and "0 < seqDist a b" and "seqDist a b < 62"
  shows "budgetIdx a \<noteq> budgetIdx b"
proof
  assume "budgetIdx a = budgetIdx b"
  then have "unat a mod 64 = unat b mod 64" by (simp add: budgetIdx_def)
  then have "int (unat b) mod 64 = int (unat a) mod 64"
    by (metis of_nat_mod of_nat_numeral)
  then obtain k where k: "int (unat b) - int (unat a) = 64 * k"
    by (metis dvd_def mod_eq_dvd_iff)
  from k assms show False
    by (auto simp: seqDist_eq split: if_splits) presburger+
qed

lemma idxOf_seqDist:
  assumes "unat seq < 254" and "unat (gbnBase_' a) < 254"
  shows "idxOf seq a = (if seqDist (gbnBase_' a) seq < 32 then seqDist (gbnBase_' a) seq else -1)"
  using assms by (simp add: idxOf_def seqDist_eq wire_defs Let_def)

lemma seqDist_diff:
  assumes "unat a < 254" and "unat b < 254" and "unat c < 254" and "seqDist c a < seqDist c b"
  shows "seqDist a b = seqDist c b - seqDist c a"
  using assms by (auto simp: seqDist_eq split: if_splits)

lemma seqDist_inj:
  assumes "unat a < 254" and "unat b < 254" and "unat c < 254" and "seqDist c a = seqDist c b"
  shows "a = b"
  using assms by (auto simp: seqDist_eq word_unat_eq_iff split: if_splits)

lemma pendingCount_upd:
  "arq_pendingCount (a\<lparr>ackedPending_' := (ackedPending_' a)(budgetIdx seq := v)\<rparr>) =
     arq_pendingCount a - b2i (arq_isPending seq a) + b2i v"
proof -
  let ?n = "length (filter (ackedPending_' a) [0..<64])"
  have pos: "arq_isPending seq a \<longrightarrow> 0 < ?n"
    by (auto simp: arq_isPending_def filter_empty_conv intro!: bexI [of _ "budgetIdx seq"])
  have "int (length (filter ((ackedPending_' a)(budgetIdx seq := v)) [0..<64])) =
      int ?n - b2i (arq_isPending seq a) + b2i v"
    using pos
    by (subst length_filter_upt_fun_upd) (auto simp: arq_isPending_def of_nat_diff Suc_le_eq)
  then show ?thesis by (simp add: arq_pendingCount_def)
qed

subsection \<open>The wait\<close>

lemma waitForAck_fail_epoch:
  assumes "waitForAck_fail ctx seq gen s = (True, s')"
  shows "clearAllEpoch_' (ctx_arq ctx s') = gen \<and> \<not> arq_isPending seq (ctx_arq ctx s')"
  using assms by (auto simp: waitForAck_fail_def split: if_splits)

lemma waitForAck_loop_epoch:
  "waitForAck_loop ctx seq gen deadline ws s = Some (True, s', ws') \<Longrightarrow>
     clearAllEpoch_' (ctx_arq ctx s') = gen"
proof (induction ws arbitrary: s)
  case (Cons w ws)
  then show ?case
    using waitForAck_fail_epoch [of ctx seq gen "w s" s']
    by (auto simp: Let_def split: if_splits prod.splits)
qed simp

lemma waitForAck_loop_returns:
  assumes "k < length ws" and "deadline \<le> ctx_now ctx (fold (\<lambda>w s. w s) (take k ws) s)"
  shows "waitForAck_loop ctx seq gen deadline ws s \<noteq> None"
  using assms
proof (induction ws arbitrary: k s)
  case (Cons w ws)
  show ?case
  proof (cases k)
    case 0
    then show ?thesis using Cons.prems by (auto simp: Let_def split: prod.splits)
  next
    case (Suc j)
    then have "waitForAck_loop ctx seq gen deadline ws (w s) \<noteq> None"
      using Cons.prems by (intro Cons.IH [of j]) simp_all
    then show ?thesis by (auto simp: Let_def split: prod.splits)
  qed
qed simp

subsection \<open>Properties\<close>

text \<open>Two sequence numbers of one window never share a slot. The 64 slots do not divide
  the 254 sequence numbers, so the fixed index \<open>seq % 64\<close> collides at distance 62 across the
  wrap; below that distance, and so inside the 32-number window, it does not.\<close>

theorem window_slots_distinct:
  assumes "unat (gbnBase_' a) < 254" and "unat s < 254" and "unat t < 254"
    and "0 \<le> idxOf s a" and "0 \<le> idxOf t a" and "s \<noteq> t"
  shows "budgetIdx s \<noteq> budgetIdx t \<and> idxOf s a \<noteq> idxOf t a"
proof -
  let ?c = "gbnBase_' a"
  have s: "seqDist ?c s < 32" "idxOf s a = seqDist ?c s"
    and t: "seqDist ?c t < 32" "idxOf t a = seqDist ?c t"
    using assms by (auto simp: idxOf_seqDist split: if_splits)
  have ne: "seqDist ?c s \<noteq> seqDist ?c t"
    using seqDist_inj [of s t ?c] assms by auto
  have nn: "0 \<le> seqDist ?c s" "0 \<le> seqDist ?c t" by (simp_all add: seqDist_def)
  have "budgetIdx s \<noteq> budgetIdx t"
  proof (cases "seqDist ?c s < seqDist ?c t")
    case True
    then show ?thesis
      using seqDist_diff [OF assms(2, 3, 1) True] s t nn assms(2, 3)
      by (intro budgetIdx_eq_iff) simp_all
  next
    case False
    then have lt: "seqDist ?c t < seqDist ?c s" using ne by simp
    then have "budgetIdx t \<noteq> budgetIdx s"
      using seqDist_diff [OF assms(3, 2, 1) lt] s t nn assms(2, 3)
      by (intro budgetIdx_eq_iff) simp_all
    then show ?thesis by simp
  qed
  with ne s t show ?thesis by simp
qed

theorem window_slots_distinct_witness:
  "budgetIdx 253 \<noteq> budgetIdx 5 \<and>
   idxOf 253 (arq_setGbnBase 240 arq_new) \<noteq> idxOf 5 (arq_setGbnBase 240 arq_new)"
  by (rule window_slots_distinct)
    (simp_all add: arq_setGbnBase_def idxOf_def wire_defs)

text \<open>And at distance 62 the index does collide, so the slot array is not an injective
  index of 64 consecutive sequence numbers.\<close>

theorem budget_slots_collide:
  "budgetIdx 200 = budgetIdx 8 \<and> seqDist 200 8 = 62 \<and> 62 < ARQ_CHUNK_BUDGET"
  by (simp add: budgetIdx_def seqDist_def wire_defs)

text \<open>The pending count counts: sending a chunk adds one unless the slot was pending,
  acknowledging (or giving up) removes one if it was, and nothing else of the bookkeeping
  moves it.\<close>

theorem pendingCount_exact:
  "arq_pendingCount (arq_onSent s b now lap a) = arq_pendingCount a + (if arq_isPending s a then 0 else 1) \<and>
   arq_pendingCount (arq_onAcked s n a) = arq_pendingCount a - b2i (arq_isPending s a) \<and>
   arq_pendingCount (arq_giveUp s a) = arq_pendingCount a - b2i (arq_isPending s a) \<and>
   arq_pendingCount (arq_onNaked s now a) = arq_pendingCount a \<and>
   arq_pendingCount (arq_applyRetx s now rto a) = arq_pendingCount a \<and>
   arq_pendingCount (arq_rearmSlot s now a) = arq_pendingCount a \<and>
   arq_pendingCount (arq_clearAll a) = 0"
proof -
  have cong: "ackedPending_' x = ackedPending_' y \<Longrightarrow> arq_pendingCount x = arq_pendingCount y" for x y
    by (simp add: arq_pendingCount_def)
  note upd = pendingCount_upd [of a s True] pendingCount_upd [of a s False]
  have "arq_pendingCount (arq_onSent s b now lap a) =
      arq_pendingCount (a\<lparr>ackedPending_' := (ackedPending_' a)(budgetIdx s := True)\<rparr>)"
    by (rule cong) (simp add: arq_onSent_def Let_def)
  moreover have "arq_pendingCount (arq_onAcked s n a) =
      arq_pendingCount (a\<lparr>ackedPending_' := (ackedPending_' a)(budgetIdx s := False)\<rparr>)"
    by (rule cong) (simp add: arq_onAcked_def Let_def)
  moreover have "arq_pendingCount (arq_giveUp s a) =
      arq_pendingCount (a\<lparr>ackedPending_' := (ackedPending_' a)(budgetIdx s := False)\<rparr>)"
    by (rule cong) (simp add: arq_giveUp_def Let_def)
  moreover have "arq_pendingCount (arq_onNaked s now a) = arq_pendingCount a"
    by (rule cong) (simp add: arq_onNaked_def Let_def)
  moreover have "arq_pendingCount (arq_applyRetx s now rto a) = arq_pendingCount a"
    by (rule cong) (simp add: arq_applyRetx_def Let_def)
  moreover have "arq_pendingCount (arq_rearmSlot s now a) = arq_pendingCount a"
    by (rule cong) (simp add: arq_rearmSlot_def Let_def)
  moreover have "arq_pendingCount (arq_clearAll a) = 0"
    by (simp add: arq_pendingCount_def arq_clearAll_def)
  ultimately show ?thesis using upd by simp
qed

text \<open>The retransmission count is the number of timeout-driven rounds, saturating at 255
  instead of wrapping; resends asked for by NAKs leave it and the timer of the slot alone,
  however many there are.\<close>

theorem retxCount_saturates:
  "unat (arq_retxCountFor s (((\<lambda>a. arq_applyRetx s now True a) ^^ n) a)) =
     min 255 (unat (arq_retxCountFor s a) + n) \<and>
   ((\<lambda>a. arq_applyRetx s now False a) ^^ n) a = a"
proof (induction n)
  case 0
  then show ?case using unat_u8_le by simp
next
  case (Suc n)
  have step: "arq_retxCountFor s (arq_applyRetx s now True x) = satInc (arq_retxCountFor s x)" for x
    by (simp add: arq_retxCountFor_def arq_applyRetx_def Let_def)
  have nak: "arq_applyRetx s now False x = x" for x
    by (simp add: arq_applyRetx_def Let_def)
  show ?case using Suc by (simp add: step nak unat_satInc)
qed

text \<open>For the witnesses: an ARQ with its clock.\<close>

definition wait_demo_ctx :: "(LinkArq \<times> u32) ArqCtx" where
  "wait_demo_ctx = \<lparr>ctx_arq = fst, ctx_upd = (\<lambda>f s. (f (fst s), snd s)), ctx_now = snd\<rparr>"

text \<open>The wait returns. As soon as one of the windows leaves the clock at or past the
  deadline the call gives an answer, whatever ACKs for other chunks, NAKs or resets the
  windows brought: the budget is fixed at the start and not re-armed.\<close>

theorem waitForAck_returns:
  assumes "k < length ws" and "ctx_now ctx s1 + timeoutMs \<le> ctx_now ctx (fold (\<lambda>w s. w s) (take k ws) s1)"
    and "s1 = w (ctx_upd ctx (\<lambda>a. a\<lparr>nakWake_' := False, nakWakeSeq_' := 0xFF\<rparr>) s)"
  shows "waitForAck ctx seq timeoutMs (w # ws) s \<noteq> None"
  using waitForAck_loop_returns [OF assms(1, 2)] assms(3) by (simp add: waitForAck_def Let_def)

theorem waitForAck_returns_witness:
  "waitForAck wait_demo_ctx 7 2 (id # replicate 3 (\<lambda>s. (fst s, snd s + 1)))
      (arq_onSent 7 7 100 0 arq_new, 100) \<noteq> None"
  by (rule waitForAck_returns [of 2, OF _ _ refl])
    (simp_all add: wait_demo_ctx_def numeral_eq_Suc)

text \<open>The deadline is compared as a plain unsigned number. When \<open>t0 + timeoutMs\<close> wraps past
  2^32 ms the wait gives up on its first look at the clock, with no time elapsed: the chunk
  is marked not pending and its retransmission count is cleared.\<close>

theorem waitForAck_wrap_gives_up:
  "waitForAck wait_demo_ctx 7 500 [id, id] (arq_onSent 7 7 0xFFFFFFF0 0 arq_new, 0xFFFFFFF0) =
     Some (False, (arq_giveUp 7 ((arq_onSent 7 7 0xFFFFFFF0 0 arq_new)\<lparr>nakWake_' := False, nakWakeSeq_' := 0xFF\<rparr>),
       0xFFFFFFF0), [])"
  by (simp add: waitForAck_def wait_demo_ctx_def arq_onSent_def arq_isPending_def waitForAck_fail_def
      Let_def)

end
