(* ===== verification/LinkWait.thy ===== *)
theory LinkWait
  imports LinkArq
begin

text \<open>
  What a positive answer of \<open>waitForAck\<close> says about the other tasks. While the lock is free they
  can only change the ARQ through its operations (its members are private), so a window is a
  list of them; the answer is related to the operations that ran in the windows the wait used up.
\<close>

subsection \<open>The operations of the other tasks\<close>

text \<open>One constructor for each member of \<open>LinkArq\<close> that changes it; \<open>OpWait\<close> and \<open>OpGiveUp\<close> are the
  writes of another task's \<open>waitForAck\<close>.\<close>

datatype ArqOp =
    OpClearAll
  | OpSetGbnBase u8
  | OpSetGbnActive bool
  | OpSent u8 u8 u32 u8
  | OpRearm u8 u32
  | OpAcked u8 u16
  | OpSuppressedNak u8
  | OpNaked u8 u32
  | OpSetPending u8 bool
  | OpNakWake u8
  | OpRetx u8 u32 bool
  | OpWait
  | OpGiveUp u8

definition arq_startWait :: "LinkArq \<Rightarrow> LinkArq" where
  "arq_startWait a = a\<lparr>nakWake_' := False, nakWakeSeq_' := 0xFF\<rparr>"

fun arq_do :: "ArqOp \<Rightarrow> LinkArq \<Rightarrow> LinkArq" where
  "arq_do OpClearAll a = arq_clearAll a"
| "arq_do (OpSetGbnBase s) a = arq_setGbnBase s a"
| "arq_do (OpSetGbnActive v) a = arq_setGbnActive v a"
| "arq_do (OpSent s b now lap) a = arq_onSent s b now lap a"
| "arq_do (OpRearm s now) a = arq_rearmSlot s now a"
| "arq_do (OpAcked s n) a = arq_onAcked s n a"
| "arq_do (OpSuppressedNak m) a = arq_noteSuppressedNak m a"
| "arq_do (OpNaked m now) a = arq_onNaked m now a"
| "arq_do (OpSetPending s v) a = arq_setPending s v a"
| "arq_do (OpNakWake s) a = arq_noteNakWake s a"
| "arq_do (OpRetx s now rto) a = arq_applyRetx s now rto a"
| "arq_do OpWait a = arq_startWait a"
| "arq_do (OpGiveUp s) a = arq_giveUp s a"

text \<open>The operations after which the slot of \<open>seq\<close> is free, beside \<open>clearAll\<close>.\<close>

fun frees_slot :: "u8 \<Rightarrow> ArqOp \<Rightarrow> bool" where
  "frees_slot seq (OpAcked s n) = (budgetIdx s = budgetIdx seq)"
| "frees_slot seq (OpSetPending s v) = (budgetIdx s = budgetIdx seq \<and> \<not> v)"
| "frees_slot seq (OpGiveUp s) = (budgetIdx s = budgetIdx seq)"
| "frees_slot seq op = False"

lemmas arq_op_defs = arq_clearAll_def arq_setGbnBase_def arq_setGbnActive_def arq_onSent_def arq_rearmSlot_def
  arq_onAcked_def arq_noteSuppressedNak_def arq_onNaked_def arq_setPending_def arq_noteNakWake_def arq_applyRetx_def
  arq_startWait_def arq_giveUp_def Let_def

lemma do_epoch:
  "clearAllEpoch_' (arq_do op a) = clearAllEpoch_' a + (if op = OpClearAll then 1 else 0)"
  by (cases op) (simp_all add: arq_op_defs)

lemma ops_epoch:
  "clearAllEpoch_' (fold arq_do ops a) = clearAllEpoch_' a + of_nat (length (filter (\<lambda>op. op = OpClearAll) ops))"
  by (induction ops arbitrary: a) (simp_all add: do_epoch)

lemma do_frees:
  "arq_isPending seq a \<Longrightarrow> \<not> arq_isPending seq (arq_do op a) \<Longrightarrow> frees_slot seq op \<or> op = OpClearAll"
  by (cases op) (auto simp: arq_op_defs arq_isPending_def split: if_splits)

lemma ops_free:
  "arq_isPending seq a \<Longrightarrow> \<not> arq_isPending seq (fold arq_do ops a) \<Longrightarrow>
    \<exists>op \<in> set ops. frees_slot seq op \<or> op = OpClearAll"
proof (induction ops arbitrary: a)
  case (Cons op ops)
  then show ?case using do_frees [of seq a op] by (cases "arq_isPending seq (arq_do op a)") auto
qed simp

subsection \<open>The windows of a wait\<close>

text \<open>The windows \<open>ws\<close> run the operations \<open>oss\<close>, a list for each.\<close>

definition windows_do :: "'s ArqCtx \<Rightarrow> ('s \<Rightarrow> 's) list \<Rightarrow> ArqOp list list \<Rightarrow> bool" where
  "windows_do ctx ws oss \<longleftrightarrow>
     list_all2 (\<lambda>w ops. \<forall>t. ctx_arq ctx (w t) = fold arq_do ops (ctx_arq ctx t)) ws oss"

text \<open>What ran in the first \<open>n\<close> windows.\<close>

definition ran :: "nat \<Rightarrow> ArqOp list list \<Rightarrow> ArqOp list" where
  "ran n oss = concat (take n oss)"

lemma ran_simps [simp]: "ran 0 oss = []" "ran (Suc n) (ops # oss) = ops @ ran n oss"
  by (simp_all add: ran_def)

lemma ran_mono: "m \<le> n \<Longrightarrow> set (ran m oss) \<subseteq> set (ran n oss)"
  using set_take_subset_set_take [of m n oss] by (auto simp: ran_def)

lemma windows_do_Cons:
  "windows_do ctx (w # ws) oss \<longleftrightarrow>
     (\<exists>ops oss'. oss = ops # oss' \<and> (\<forall>t. ctx_arq ctx (w t) = fold arq_do ops (ctx_arq ctx t)) \<and> windows_do ctx ws oss')"
  by (auto simp: windows_do_def list_all2_Cons1)

lemma fail_ack:
  assumes "waitForAck_fail ctx seq gen s = (True, s')"
  shows "s' = s \<and> clearAllEpoch_' (ctx_arq ctx s) = gen \<and> \<not> arq_isPending seq (ctx_arq ctx s)"
  using assms by (auto simp: waitForAck_fail_def split: if_splits)

lemma loop_ran:
  "waitForAck_loop ctx seq gen deadline ws s = Some (True, s', ws') \<Longrightarrow> windows_do ctx ws oss \<Longrightarrow>
    \<exists>n. length ws = n + length ws' \<and> ctx_arq ctx s' = fold arq_do (ran n oss) (ctx_arq ctx s) \<and>
      clearAllEpoch_' (ctx_arq ctx s') = gen \<and>
      (\<exists>m \<le> n. \<not> arq_isPending seq (fold arq_do (ran m oss) (ctx_arq ctx s)))"
proof (induction ws arbitrary: s oss)
  case (Cons w ws)
  obtain ops oss' where o: "oss = ops # oss'" "\<And>t. ctx_arq ctx (w t) = fold arq_do ops (ctx_arq ctx t)" "windows_do ctx ws oss'"
    using Cons.prems(2) by (auto simp: windows_do_Cons)
  let ?a = "ctx_arq ctx s"
  have last: ?case if "s' = w s" "ws' = ws" "clearAllEpoch_' (ctx_arq ctx s') = gen"
      "\<not> arq_isPending seq ?a \<or> \<not> arq_isPending seq (ctx_arq ctx (w s))"
  proof -
    have "\<exists>m \<le> 1. \<not> arq_isPending seq (fold arq_do (ran m oss) ?a)"
      using that(4) o by (metis One_nat_def append_Nil2 fold_simps(1) le_numeral_extra(4) ran_simps zero_le_one)
    then show ?thesis using that o by (intro exI [of _ 1]) simp
  qed
  show ?case
  proof (cases "arq_isPending seq ?a")
    case False
    then show ?thesis using Cons.prems(1) last by (auto simp: Let_def)
  next
    case pend: True
    show ?thesis
    proof (cases "clearAllEpoch_' ?a \<noteq> gen")
      case True
      then show ?thesis using Cons.prems(1) pend by (simp add: Let_def)
    next
      case ep: False
      show ?thesis
      proof (cases "(nakWake_' ?a \<and> nakWakeSeq_' ?a = seq) \<or> ctx_now ctx s \<ge> deadline")
        case True
        then have "waitForAck_fail ctx seq gen (w s) = (True, s')" "ws' = ws"
          using Cons.prems(1) pend ep by (auto simp: Let_def split: prod.splits if_splits)
        then show ?thesis using last fail_ack [of ctx seq gen "w s" s'] by blast
      next
        case False
        then have "waitForAck_loop ctx seq gen deadline ws (w s) = Some (True, s', ws')"
          using Cons.prems(1) pend ep by (auto simp: Let_def split: if_splits)
        from Cons.IH [OF this o(3)] obtain n m where
          "length ws = n + length ws'" "ctx_arq ctx s' = fold arq_do (ran n oss') (ctx_arq ctx (w s))"
          "clearAllEpoch_' (ctx_arq ctx s') = gen" "m \<le> n" "\<not> arq_isPending seq (fold arq_do (ran m oss') (ctx_arq ctx (w s)))"
          by blast
        then show ?thesis using o
          by (intro exI [of _ "Suc n"] conjI exI [of _ "Suc m"]) simp_all
      qed
    qed
  qed
qed simp

text \<open>C11: a positive answer of \<open>waitForAck\<close> is about the session in which the wait began. The other tasks
  run any ARQ operations in the windows in which the lock is free, fewer than 2^32 of them
  \<open>clearAll\<close>. If the answer is positive, no \<open>clearAll\<close> ran in the windows the wait used up; if the slot
  was pending at the start, one of the operations in them freed it: an ACK, a \<open>setPending(false)\<close> or another wait's
  give-up for a number of that slot; and the wait itself left the ARQ as those operations made it, but for the latch it
  clears first.\<close>

theorem waitForAck_same_session:
  assumes "\<And>f t. ctx_arq ctx (ctx_upd ctx f t) = f (ctx_arq ctx t)" and "windows_do ctx ws oss"
    and "waitForAck ctx seq timeoutMs ws s = Some (True, s', ws')"
    and "length (filter (\<lambda>op. op = OpClearAll) (ran (length ws - length ws') oss)) < 2 ^ 32"
  shows "OpClearAll \<notin> set (ran (length ws - length ws') oss) \<and>
    (arq_isPending seq (ctx_arq ctx s) \<longrightarrow> (\<exists>op \<in> set (ran (length ws - length ws') oss). frees_slot seq op)) \<and>
    ctx_arq ctx s' = fold arq_do (ran (length ws - length ws') oss) (arq_startWait (ctx_arq ctx s))"
proof -
  obtain w ws1 where ws: "ws = w # ws1" using assms(3) by (cases ws) (simp_all add: waitForAck_def)
  obtain ops oss1 where o: "oss = ops # oss1" "\<And>t. ctx_arq ctx (w t) = fold arq_do ops (ctx_arq ctx t)" "windows_do ctx ws1 oss1"
    using assms(2) by (auto simp: ws windows_do_Cons)
  define s1 where "s1 = ctx_upd ctx (\<lambda>a. a\<lparr>nakWake_' := False, nakWakeSeq_' := 0xFF\<rparr>) s"
  define a1 where "a1 = arq_startWait (ctx_arq ctx s)"
  have a1: "ctx_arq ctx s1 = a1" "clearAllEpoch_' a1 = clearAllEpoch_' (ctx_arq ctx s)"
    "arq_isPending seq a1 = arq_isPending seq (ctx_arq ctx s)"
    using assms(1) by (simp_all add: s1_def a1_def arq_startWait_def arq_isPending_def)
  have "waitForAck_loop ctx seq (clearAllEpoch_' (ctx_arq ctx s)) (ctx_now ctx (w s1) + timeoutMs) ws1 (w s1) = Some (True, s', ws')"
    using assms(3) by (simp add: ws waitForAck_def s1_def Let_def)
  from loop_ran [OF this o(3)] obtain n m where
    n: "length ws1 = n + length ws'" "ctx_arq ctx s' = fold arq_do (ran n oss1) (ctx_arq ctx (w s1))"
      "clearAllEpoch_' (ctx_arq ctx s') = clearAllEpoch_' (ctx_arq ctx s)"
    and m: "m \<le> n" "\<not> arq_isPending seq (fold arq_do (ran m oss1) (ctx_arq ctx (w s1)))"
    by blast
  let ?ran = "ran (Suc n) oss"
  have len: "length ws - length ws' = Suc n" using n(1) by (simp add: ws)
  have fin: "ctx_arq ctx s' = fold arq_do ?ran a1" using n(2) o(1,2) a1(1) by simp
  have "of_nat (length (filter (\<lambda>op. op = OpClearAll) ?ran)) = (0 :: u32)"
    using ops_epoch [of ?ran a1] n(3) a1(2) by (simp add: fin)
  then have "length (filter (\<lambda>op. op = OpClearAll) ?ran) = 0"
    using unat_of_nat_u32 [OF assms(4)] by (simp only: len unat_0)
  then have none: "OpClearAll \<notin> set ?ran" by (simp only: length_0_conv filter_empty_conv) blast
  have "\<not> arq_isPending seq (fold arq_do (ran (Suc m) oss) a1)" using m(2) o(1,2) a1(1) by simp
  then have "arq_isPending seq (ctx_arq ctx s) \<longrightarrow> (\<exists>op \<in> set ?ran. frees_slot seq op)"
    using ops_free [of seq a1 "ran (Suc m) oss"] a1(3) none ran_mono [of "Suc m" "Suc n" oss] m(1) by blast
  then show ?thesis using none fin by (simp add: len a1_def)
qed

text \<open>The witness: a NAK for another chunk, the ACK, and the next chunk sent before the lock is got back.\<close>

definition wait_ops :: "ArqOp list list" where
  "wait_ops = [[OpNaked 9 100], [OpAcked 7 10], [OpSent 8 8 101 0]]"

definition wait_windows :: "(LinkArq \<times> u32 \<Rightarrow> LinkArq \<times> u32) list" where
  "wait_windows = map (\<lambda>ops s. (fold arq_do ops (fst s), snd s + 1)) wait_ops"

theorem waitForAck_same_session_witness:
  "\<exists>s'. waitForAck wait_demo_ctx 7 500 wait_windows (arq_onSent 7 7 100 0 arq_new, 100) = Some (True, s', []) \<and>
    fst s' = fold arq_do (concat wait_ops) (arq_startWait (arq_onSent 7 7 100 0 arq_new))"
proof -
  let ?s = "(arq_onSent 7 7 100 0 arq_new, 100) :: LinkArq \<times> u32"
  have ctx: "ctx_arq wait_demo_ctx (ctx_upd wait_demo_ctx f t) = f (ctx_arq wait_demo_ctx t)" for f t
    by (simp add: wait_demo_ctx_def)
  have do: "windows_do wait_demo_ctx wait_windows wait_ops"
    by (simp add: windows_do_def wait_windows_def wait_ops_def wait_demo_ctx_def)
  have ran: "ran (length wait_windows - length []) wait_ops = concat wait_ops"
    by (simp add: ran_def wait_windows_def wait_ops_def)
  obtain s' where r: "waitForAck wait_demo_ctx 7 500 wait_windows ?s = Some (True, s', [])"
    by (simp add: wait_windows_def wait_ops_def waitForAck_def wait_demo_ctx_def arq_onSent_def arq_onAcked_def
        arq_onNaked_def arq_isPending_def budgetIdx_def arq_new_def arq_clearAll_def Let_def)
  have few: "length (filter (\<lambda>op. op = OpClearAll) (ran (length wait_windows - length []) wait_ops)) < 2 ^ 32"
    unfolding ran by (simp add: wait_ops_def)
  have "ctx_arq wait_demo_ctx s' = fold arq_do (concat wait_ops) (arq_startWait (ctx_arq wait_demo_ctx ?s))"
    using waitForAck_same_session [OF ctx do r few] unfolding ran by blast
  then show ?thesis using r by (auto simp: wait_demo_ctx_def)
qed

end
