(* ===== verification/MsgCodec.thy ===== *)
theory MsgCodec
  imports FrameRx
begin

text \<open>
  The application-message layer (\<open>link/io/LinkMsgCodec.h\<close>, \<open>link/io/LinkMsgCodec.cpp\<close>): a
  6-byte header (length u32 and crc16, little endian) in front of each message of the
  in-order byte stream, the receive cursor \<open>LinkMsgCodec\<close>, and the scan that finds the next
  plausible header after a mismatch.

  The casts are the source's: \<open>(int)m.len\<close> of a 32-bit length is \<open>sint\<close>, so a limit of 2^31
  or more would show its negative lengths here too.
\<close>

subsection \<open>The code\<close>

record MsgHdr =
  mh_len :: u32
  mh_crc :: u16

definition msgHdrEncode :: "u32 \<Rightarrow> u16 \<Rightarrow> bytes" where
  "msgHdrEncode len crc =
     [ucast len, ucast (drop_bit 8 len), ucast (drop_bit 16 len), ucast (drop_bit 24 len),
      ucast crc, ucast (drop_bit 8 crc)]"

definition msgHdrDecode :: "bytes \<Rightarrow> MsgHdr" where
  "msgHdrDecode h =
     \<lparr>mh_len = ucast (h ! 0) OR push_bit 8 (ucast (h ! 1)) OR push_bit 16 (ucast (h ! 2)) OR
        push_bit 24 (ucast (h ! 3)),
      mh_crc = ucast (h ! 4) OR push_bit 8 (ucast (h ! 5))\<rparr>"

text \<open>One candidate offset of \<open>msgResyncScan\<close>: the three tests of the loop body.\<close>

definition resyncHit :: "bytes \<Rightarrow> nat \<Rightarrow> u64 \<Rightarrow> bool" where
  "resyncHit b d maxMsg =
     (let m = msgHdrDecode (drop d b); len = i32_of_u32 (mh_len m) in
      \<not> (mh_len m < 1 \<or> ucast (mh_len m) > maxMsg) \<and>
      \<not> int d + len + MSG_HDR > int (length b) \<and>
      crc16 (take (nat len) (drop (d + nat MSG_HDR) b)) = mh_crc m)"

function resync_loop :: "bytes \<Rightarrow> nat \<Rightarrow> u64 \<Rightarrow> int" where
  "resync_loop b d maxMsg =
     (if int d + MSG_HDR \<le> int (length b) then
        if resyncHit b d maxMsg then int d else resync_loop b (d + 1) maxMsg
      else -1)"
  by pat_completeness auto
termination
  by (relation "measure (\<lambda>(b, d, m). length b - d)") (auto simp: wire_defs)

declare resync_loop.simps [simp del]

definition msgResyncScan :: "bytes \<Rightarrow> u64 \<Rightarrow> int" where
  "msgResyncScan b maxMsg = resync_loop b 0 maxMsg"

text \<open>The receive cursor: \<open>len_ = -1\<close> between messages.\<close>

record LinkMsgCodec =
  len_' :: int
  crc_' :: u16

definition codec_init :: LinkMsgCodec where
  "codec_init = \<lparr>len_' = -1, crc_' = 0\<rparr>"

definition codec_inMsg :: "LinkMsgCodec \<Rightarrow> bool" where
  "codec_inMsg c \<longleftrightarrow> len_' c \<ge> 0"

definition codec_beginMsg :: "bytes \<Rightarrow> u64 \<Rightarrow> LinkMsgCodec \<Rightarrow> bool \<times> LinkMsgCodec" where
  "codec_beginMsg h maxMsg c =
     (let m = msgHdrDecode h in
      if mh_len m = 0 \<or> ucast (mh_len m) > maxMsg then (False, c)
      else (True, c\<lparr>len_' := i32_of_u32 (mh_len m), crc_' := mh_crc m\<rparr>))"

definition codec_reset :: "LinkMsgCodec \<Rightarrow> LinkMsgCodec" where
  "codec_reset c = c\<lparr>len_' := -1\<rparr>"

subsection \<open>Headers\<close>

lemma msgHdrEncode_length [simp]: "length (msgHdrEncode len crc) = 6"
  by (simp add: msgHdrEncode_def)

lemma u32_of_bytes:
  "ucast (ucast w :: u8) OR push_bit 8 (ucast (ucast (drop_bit 8 w) :: u8)) OR
     push_bit 16 (ucast (ucast (drop_bit 16 w) :: u8)) OR
     push_bit 24 (ucast (ucast (drop_bit 24 w) :: u8)) = w"
  for w :: u32
proof (rule bit_word_eqI)
  fix n assume "n < LENGTH(32)"
  then consider "n < 8" | "8 \<le> n" "n < 16" | "16 \<le> n" "n < 24" | "24 \<le> n" "n < 32"
    by fastforce
  then show "bit (ucast (ucast w :: u8) OR push_bit 8 (ucast (ucast (drop_bit 8 w) :: u8)) OR
     push_bit 16 (ucast (ucast (drop_bit 16 w) :: u8)) OR
     push_bit 24 (ucast (ucast (drop_bit 24 w) :: u8)) :: u32) n = bit w n"
    by cases (auto simp: bit_simps)
qed

lemma u16_of_two_bytes:
  "ucast (ucast w :: u8) OR push_bit 8 (ucast (ucast (drop_bit 8 w) :: u8)) = w"
  for w :: u16
  by (rule bit_word_eqI) (auto simp: bit_simps)

lemma msgHdrDecode_encode:
  "msgHdrDecode (msgHdrEncode len crc @ rest) = \<lparr>mh_len = len, mh_crc = crc\<rparr>"
  by (simp add: msgHdrDecode_def msgHdrEncode_def u32_of_bytes u16_of_two_bytes)

subsection \<open>The scan\<close>

lemma resync_loop_spec:
  "(resync_loop b d maxMsg = -1 \<and>
      (\<forall>j. d \<le> j \<and> int j + MSG_HDR \<le> int (length b) \<longrightarrow> \<not> resyncHit b j maxMsg)) \<or>
   (\<exists>r. resync_loop b d maxMsg = int r \<and> d \<le> r \<and> int r + MSG_HDR \<le> int (length b) \<and>
      resyncHit b r maxMsg \<and> (\<forall>j. d \<le> j \<and> j < r \<longrightarrow> \<not> resyncHit b j maxMsg))"
proof (induction b d maxMsg rule: resync_loop.induct)
  case (1 b d maxMsg)
  show ?case
  proof (cases "int d + MSG_HDR \<le> int (length b) \<and> \<not> resyncHit b d maxMsg")
    case True
    have split: "d \<le> j \<longleftrightarrow> j = d \<or> d + 1 \<le> j" for j by auto
    from True 1 show ?thesis
      by (subst (1 2) resync_loop.simps) (auto simp: split)
  next
    case False
    then show ?thesis
      by (subst (1 2) resync_loop.simps) (auto dest: spec [of _ d])
  qed
qed

lemma resyncHit_header:
  assumes "1 \<le> length msg" and "length msg < 2 ^ 31" and "of_nat (length msg) \<le> maxMsg"
  shows "resyncHit (junk @ msgHdrEncode (of_nat (length msg)) (crc16 msg) @ msg @ rest)
    (length junk) maxMsg"
proof -
  have u: "unat (of_nat (length msg) :: u32) = length msg"
    using assms(2) by (intro unat_of_nat_u32) simp
  then have s: "sint (of_nat (length msg) :: u32) = int (length msg)"
    using assms(2) by (simp add: sint_u32_small)
  have "\<not> (of_nat (length msg) :: u32) < 1"
    using assms(1) u by (auto simp: word_less_nat_alt)
  moreover have "ucast (of_nat (length msg) :: u32) = (of_nat (length msg) :: u64)"
    using assms(2) by (intro ucast_of_nat_u32) simp
  ultimately show ?thesis
    using assms(3) s by (simp add: resyncHit_def msgHdrDecode_encode wire_defs)
qed

subsection \<open>Properties\<close>

text \<open>A message header read back gives the length and checksum that were written, for
  every 32-bit length and 16-bit checksum, whatever follows it.\<close>

theorem msgHdr_roundtrip:
  "msgHdrDecode (msgHdrEncode len crc @ rest) = \<lparr>mh_len = len, mh_crc = crc\<rparr>"
  by (rule msgHdrDecode_encode)

lemma beginMsg_encode:
  assumes "length msg < 2 ^ 31" and "maxMsg < 2 ^ 31"
  shows "codec_beginMsg (msgHdrEncode (of_nat (length msg)) (crc16 msg)) maxMsg c =
    (if 1 \<le> length msg \<and> length msg \<le> unat maxMsg
     then (True, \<lparr>len_' = int (length msg), crc_' = crc16 msg\<rparr>) else (False, c))"
proof -
  have u: "unat (of_nat (length msg) :: u32) = length msg"
    using assms(1) by (intro unat_of_nat_u32) simp
  then have s: "sint (of_nat (length msg) :: u32) = int (length msg)"
    using assms(1) by (simp add: sint_u32_small)
  have z: "(of_nat (length msg) :: u32) = 0 \<longleftrightarrow> length msg = 0"
    by (simp only: word_unat_eq_iff u unat_0)
  have "unat (ucast (of_nat (length msg) :: u32) :: u64) = length msg"
    by (simp only: unat_ucast_u32 u)
  then have "ucast (of_nat (length msg) :: u32) > maxMsg \<longleftrightarrow> length msg > unat maxMsg"
    by (simp add: word_less_nat_alt)
  moreover have "msgHdrDecode (msgHdrEncode (of_nat (length msg)) (crc16 msg)) =
      \<lparr>mh_len = of_nat (length msg), mh_crc = crc16 msg\<rparr>"
    using msgHdrDecode_encode [of "of_nat (length msg)" "crc16 msg" "[]"] by (simp only: append_Nil2)
  ultimately show ?thesis
    by (simp only: codec_beginMsg_def Let_def MsgHdr.simps z s) (auto simp: Suc_le_eq)
qed

text \<open>The receive cursor opens exactly the message the sender announced. For a
  message of 1 to \<open>maxMsg\<close> bytes the header is accepted and the cursor then holds its length
  and checksum; for an empty or an oversized one it is refused and the cursor is
  unchanged.\<close>

theorem codec_beginMsg_announced:
  assumes "length msg < 2 ^ 31" and "maxMsg < 2 ^ 31"
  shows "codec_beginMsg (msgHdrEncode (of_nat (length msg)) (crc16 msg)) maxMsg c =
    (if 1 \<le> length msg \<and> length msg \<le> unat maxMsg
     then (True, \<lparr>len_' = int (length msg), crc_' = crc16 msg\<rparr>) else (False, c))"
  by (rule beginMsg_encode [OF assms])

theorem codec_beginMsg_announced_witness:
  "codec_beginMsg (msgHdrEncode (of_nat (length [7 :: u8, 8])) (crc16 [7, 8])) 100 codec_init =
    (True, \<lparr>len_' = 2, crc_' = crc16 [7, 8]\<rparr>)"
  by (subst codec_beginMsg_announced) simp_all

text \<open>The resync scan returns the first offset with a plausible header (length in
  bounds, body present, checksum right), and -1 exactly when there is none.\<close>

theorem msgResyncScan_first:
  "(msgResyncScan b maxMsg = -1 \<and>
      (\<forall>j. int j + MSG_HDR \<le> int (length b) \<longrightarrow> \<not> resyncHit b j maxMsg)) \<or>
   (\<exists>r. msgResyncScan b maxMsg = int r \<and> int r + MSG_HDR \<le> int (length b) \<and>
      resyncHit b r maxMsg \<and> (\<forall>j < r. \<not> resyncHit b j maxMsg))"
  using resync_loop_spec [of b 0 maxMsg] by (simp add: msgResyncScan_def)

text \<open>The witness evaluates the scan on a stream with one junk byte in front of a message.\<close>

theorem msgResyncScan_first_witness:
  "msgResyncScan ([9] @ msgHdrEncode 1 (crc16 [7]) @ [7]) 100 \<noteq> -1"
proof -
  have "resyncHit ([9] @ msgHdrEncode 1 (crc16 [7]) @ [7]) 1 100"
    using resyncHit_header [of "[7]" 100 "[9]" "[]"] by simp
  then show ?thesis
    using msgResyncScan_first [of "[9] @ msgHdrEncode 1 (crc16 [7]) @ [7]" 100]
    by (auto simp: wire_defs)
qed

text \<open>Resynchronisation loses no message. Whatever precedes a complete message in the
  stream, the scan does not skip it: the offset returned is at or before its header.\<close>

theorem msgResyncScan_finds_message:
  assumes "1 \<le> length msg" and "length msg < 2 ^ 31" and "of_nat (length msg) \<le> maxMsg"
  shows "let r = msgResyncScan (junk @ msgHdrEncode (of_nat (length msg)) (crc16 msg) @ msg @ rest) maxMsg
    in 0 \<le> r \<and> r \<le> int (length junk)"
proof -
  let ?b = "junk @ msgHdrEncode (of_nat (length msg)) (crc16 msg) @ msg @ rest"
  have "resyncHit ?b (length junk) maxMsg" by (rule resyncHit_header [OF assms])
  moreover have "int (length junk) + MSG_HDR \<le> int (length ?b)" by (simp add: wire_defs)
  moreover have "0 + int 0 = 0" by simp
  ultimately show ?thesis
    using resync_loop_spec [of ?b 0 maxMsg]
    by (auto simp: msgResyncScan_def Let_def) (meson not_le)
qed

theorem msgResyncScan_finds_message_witness:
  "let r = msgResyncScan ([9, 9] @ msgHdrEncode (of_nat (length [7 :: u8])) (crc16 [7]) @ [7] @ []) 100
   in 0 \<le> r \<and> r \<le> int (length [9 :: u8, 9])"
  by (rule msgResyncScan_finds_message) simp_all

end
