(* ===== verification/LinkState.thy ===== *)
theory LinkState
  imports MsgCodec ArqCache LinkArq
begin

text \<open>
  The state of a link and of the hardware under it.

  \<^item> \<open>Hal\<close> is the hardware abstraction \<open>IHal\<close> (\<open>hal/IHal.h\<close>) as the repository's own host
    implementation \<open>MockHal\<close> (\<open>test/common/MockHal.h\<close>) behaves: a clock, a bounded transmit
    ring, a bounded byte queue to the application, one timer. The fault injection of the
    mock and its peer pointer are left out; a break sent is counted.
  \<^item> \<open>Link\<close> is the object of \<open>link/Link.h\<close>. Its fields are grouped in records by what they are
    for (session and baud, the lock, breaks, receive side, transmit side, go-back-N, error
    window, counters); every member variable of the class appears under its own name, with
    the prefix of its group.
\<close>

subsection \<open>Enumerations\<close>

datatype State = OK | SWP

datatype ResetReason =
    Kickoff | UserDropLink | ErrThreshold | ErrRate | HealthWatchdog | GbnMaxRetx | GbnKeepRescue
  | PeerEpochMismatch | PeerBaudMismatch | BaudUpgrade

datatype FrameErrCause = BadHeader | OverLen | CrcFail

datatype SendMsgReason =
    SmOk | SmNotOk | SmPostLockQuiet | SmGbnWindowFull | SmPoolExhaust | SmLengthInvalid
  | SmLengthZero | SmChunksOverflow | SmSyncMidMessageTimeout | SmRateLimited | SmTxRingStall
  | SmNone

datatype ResendSource = SrcNak | SrcRto

datatype SweepPhase = NONE | PHASE1 | PHASE2 | PHASE3

subsection \<open>The hardware abstraction\<close>

record Hal =
  h_now :: u32
  h_spd :: u32
  h_txBuf :: bytes
  h_txCap :: nat
  h_appBuf :: bytes
  h_appBufCap :: "nat option"
  h_timerActive :: bool
  h_lastTimerMs :: int
  h_nextTimerAtMs :: u32
  h_sendBreakCalls :: nat
  h_discardTxCalls :: nat
  h_forceTryLockFail :: bool

definition INT32_MAX :: int where "INT32_MAX = 2147483647"

definition hal_txAvail :: "Hal \<Rightarrow> int" where
  "hal_txAvail h =
     (let room = int (h_txCap h) - int (length (h_txBuf h)) in if room < 0 then 0 else room)"

definition hal_tx :: "bytes \<Rightarrow> Hal \<Rightarrow> Hal" where
  "hal_tx b h =
     (let r = int (h_txCap h) - int (length (h_txBuf h)); room = (if r < 0 then 0 else r);
          n = (if int (length b) > room then room else int (length b)) in
      h\<lparr>h_txBuf := h_txBuf h @ take (nat n) b\<rparr>)"

definition hal_setSpd :: "u32 \<Rightarrow> Hal \<Rightarrow> Hal" where
  "hal_setSpd s h = h\<lparr>h_spd := s\<rparr>"

definition hal_sendBreak :: "Hal \<Rightarrow> Hal" where
  "hal_sendBreak h = h\<lparr>h_sendBreakCalls := h_sendBreakCalls h + 1\<rparr>"

definition hal_discardTx :: "Hal \<Rightarrow> Hal" where
  "hal_discardTx h = h\<lparr>h_discardTxCalls := h_discardTxCalls h + 1\<rparr>"

definition hal_startTimer :: "int \<Rightarrow> Hal \<Rightarrow> Hal" where
  "hal_startTimer ms h =
     h\<lparr>h_timerActive := True, h_lastTimerMs := ms, h_nextTimerAtMs := h_now h + u32_of_int ms\<rparr>"

definition hal_delayMs :: "int \<Rightarrow> Hal \<Rightarrow> Hal" where
  "hal_delayMs ms h = (if ms > 0 then h\<lparr>h_now := h_now h + u32_of_int ms\<rparr> else h)"

definition hal_delayUs :: "u32 \<Rightarrow> Hal \<Rightarrow> Hal" where
  "hal_delayUs us h =
     (let ms = (us + 999) div 1000 in if ms > 0 then h\<lparr>h_now := h_now h + ms\<rparr> else h)"

text \<open>The application queue: \<open>pushAppBuf\<close> takes bytes while there is room and returns how many,
  \<open>popAppBuf\<close> gives the oldest.\<close>

definition hal_appRoom :: "nat \<Rightarrow> Hal \<Rightarrow> nat" where
  "hal_appRoom n h =
     (case h_appBufCap h of None \<Rightarrow> n | Some cap \<Rightarrow> min n (cap - length (h_appBuf h)))"

definition hal_pushAppBuf :: "bytes \<Rightarrow> Hal \<Rightarrow> int \<times> Hal" where
  "hal_pushAppBuf b h =
     (let acc = hal_appRoom (length b) h in
      (int acc, h\<lparr>h_appBuf := h_appBuf h @ take acc b\<rparr>))"

definition hal_popAppBuf :: "int \<Rightarrow> Hal \<Rightarrow> bytes \<times> Hal" where
  "hal_popAppBuf max_len h =
     (take (nat max_len) (h_appBuf h), h\<lparr>h_appBuf := drop (nat max_len) (h_appBuf h)\<rparr>)"

definition hal_appBufAvailable :: "Hal \<Rightarrow> int" where
  "hal_appBufAvailable h = int (length (h_appBuf h))"

definition hal_appBufFree :: "Hal \<Rightarrow> int" where
  "hal_appBufFree h =
     (case h_appBufCap h of None \<Rightarrow> INT32_MAX | Some cap \<Rightarrow> int cap - int (length (h_appBuf h)))"

definition hal_clearAppBuf :: "Hal \<Rightarrow> Hal" where
  "hal_clearAppBuf h = h\<lparr>h_appBuf := []\<rparr>"

text \<open>The default of \<open>IHal\<close>, which the mock keeps: nothing to flush.\<close>

definition hal_flushRxHw :: "Hal \<Rightarrow> Hal" where
  "hal_flushRxHw h = h"

definition hal_setOkState :: "bool \<Rightarrow> Hal \<Rightarrow> Hal" where
  "hal_setOkState ok h = h"

definition hal_txRingSize :: "Hal \<Rightarrow> nat" where
  "hal_txRingSize h = h_txCap h"

definition hal_rxRingSize :: "Hal \<Rightarrow> nat" where
  "hal_rxRingSize h = 0"

subsection \<open>Sweep data\<close>

record SweepDwells =
  d_phase1 :: int
  d_phase2 :: "nat \<Rightarrow> int"
  d_phase2Slave :: "nat \<Rightarrow> int"
  d_phase3 :: int
  d_phase2Total :: int

record LinkSweep =
  sw_phase :: SweepPhase
  sw_phase3Baud :: int
  sw_phase3Acks :: int
  sw_dwells :: SweepDwells
  sw_phase2ElapsedMs :: int

definition RESWEEP_PREF_MAX_ATTEMPTS :: int where "RESWEEP_PREF_MAX_ATTEMPTS = 2"
definition RESWEEP_PREF_ATTEMPT_CEILING :: int where "RESWEEP_PREF_ATTEMPT_CEILING = 24"

definition sweep_init :: LinkSweep where
  "sweep_init =
     \<lparr>sw_phase = NONE, sw_phase3Baud = -1, sw_phase3Acks = 0,
      sw_dwells = \<lparr>d_phase1 = 0, d_phase2 = (\<lambda>_. 0), d_phase2Slave = (\<lambda>_. 0), d_phase3 = 0,
        d_phase2Total = 0\<rparr>,
      sw_phase2ElapsedMs = 0\<rparr>"

definition sweep_reset :: "LinkSweep \<Rightarrow> LinkSweep" where
  "sweep_reset s = s\<lparr>sw_phase := NONE, sw_phase3Baud := -1, sw_phase3Acks := 0, sw_phase2ElapsedMs := 0\<rparr>"

record BaudSweep =
  bs_scores :: "nat \<Rightarrow> int"
  bs_numBauds :: int
  bs_minAcceptRate :: rat
  bs_expectedSamples :: int

definition baudSweep_new :: "int \<Rightarrow> BaudSweep" where
  "baudSweep_new n =
     (let n1 = (if n < 0 then 0 else n); n2 = (if n1 > AUTOLINK_MAX_BAUDS then AUTOLINK_MAX_BAUDS else n1) in
      \<lparr>bs_scores = (\<lambda>_. 0), bs_numBauds = n2, bs_minAcceptRate = 1 / 2, bs_expectedSamples = -1\<rparr>)"

text \<open>\<open>configure\<close>: ping samples per baud, accept rate, expected samples (negative: the ping
  samples).\<close>

definition baudSweep_configure :: "int \<Rightarrow> rat \<Rightarrow> int \<Rightarrow> BaudSweep \<Rightarrow> BaudSweep" where
  "baudSweep_configure pingSamples rate expected b =
     (let e1 = (if expected < 0 then pingSamples else expected); e2 = (if e1 < 1 then 1 else e1) in
      b\<lparr>bs_minAcceptRate := rate, bs_expectedSamples := e2\<rparr>)"

definition baudSweep_score :: "int \<Rightarrow> BaudSweep \<Rightarrow> BaudSweep" where
  "baudSweep_score idx b =
     (if idx \<ge> 0 \<and> idx < bs_numBauds b
      then b\<lparr>bs_scores := (bs_scores b)(nat idx := bs_scores b (nat idx) + 1)\<rparr> else b)"

definition baudSweep_resetAll :: "BaudSweep \<Rightarrow> BaudSweep" where
  "baudSweep_resetAll b =
     b\<lparr>bs_scores := (\<lambda>i. if int i < bs_numBauds b then 0 else bs_scores b i)\<rparr>"

definition baudSweep_scoreAt :: "int \<Rightarrow> BaudSweep \<Rightarrow> int" where
  "baudSweep_scoreAt idx b = (if idx \<ge> 0 \<and> idx < bs_numBauds b then bs_scores b (nat idx) else 0)"

definition baudSweep_pickBest :: "BaudSweep \<Rightarrow> int" where
  "baudSweep_pickBest b =
     (let m = \<lfloor>bs_minAcceptRate b * of_int (bs_expectedSamples b)\<rfloor>; minHits = (if m < 1 then 1 else m) in
      case find (\<lambda>j. bs_scores b j \<ge> minHits) [0..<nat (bs_numBauds b)] of
        Some j \<Rightarrow> int j
      | None \<Rightarrow>
          (case find (\<lambda>j. bs_scores b j > 0) [0..<nat (bs_numBauds b)] of
             Some j \<Rightarrow> int j
           | None \<Rightarrow> -1))"

subsection \<open>The link\<close>

text \<open>Session, baud and sweep bookkeeping.\<close>

record Sess =
  s_state :: State
  s_spdI :: int
  s_pingSample :: int
  s_emptySweeps :: int
  s_sweepPongCount :: int
  s_wasEverOk :: bool
  s_linkPaused :: bool
  s_kickedOff :: bool
  s_sweepEpoch :: u8
  s_peerSweepEpoch :: u8
  s_peerSweepEpochKnown :: bool
  s_locksWithoutRecv :: int
  s_lastDiscMs :: u32
  s_recentDiscs :: int
  s_baudRetries :: int

record Pref =
  p_preferredBaud :: u8
  p_bestProvenBaud :: u8
  p_baudUpgradeAtMs :: u32
  p_baudUpgradeAttempts :: int
  p_resweepPrefPending :: bool
  p_resweepPrefAttempts :: int
  p_resweepPrefDeadlineMs :: u32

text \<open>The lock: when it was made, the quiet and settle windows after it.\<close>

record LockSt =
  k_lockedAtMs :: u32
  k_postLockFirstTxDone :: u32
  k_firstPeerResponseSeen :: bool
  k_settleUntilMs :: u32
  k_postLockQuietLogged :: bool

record BreakSt =
  b_breakSuspectMs :: u32
  b_breakSuspectSeen :: u8
  b_breaksSuppressed :: u64
  b_breakStormPending :: bool
  b_breakConfirmPending :: bool
  b_breakStormSeen :: bool

record RxSt =
  r_rxBuf :: bytes
  r_rxIdx :: nat
  r_okCarry :: bytes
  r_frameRx :: bytes
  r_msgRx :: LinkMsgCodec
  r_msgRxStartedMs :: u32
  r_lastRxMs :: u32
  r_lastValidRxMs :: u32
  r_rxSeqSet :: bool
  r_rxSeq :: u8
  r_rxSeqWrap :: u8
  r_lastRxSeq :: u8
  r_holdNakActive :: bool
  r_holdNakSeq :: u8
  r_holdNakWrap :: u8
  r_holdNakFreeAtSet :: int
  r_holdNakLastMs :: u32

record TxSt =
  t_txSeq :: u8
  t_txSeqLap :: u8
  t_lastTxMs :: u32
  t_txRejFirstMs :: u32
  t_txRejLastMs :: u32
  t_lastAckSeq :: u8
  t_lastNakSeq :: u8
  t_lastSendMsgReason :: SendMsgReason
  t_rateWindowStartMs :: u32
  t_rateWindowBytes :: u32
  t_rateNextAllowedMs :: u32

record GbnSt =
  g_gbnAttempts :: int
  g_gbnBackoffMs :: u32
  g_gbnLastRetxBase :: u8
  g_gbnLastResendMs :: u32
  g_gbnLastResendBase :: u8
  g_resendSource :: ResendSource
  g_gbnBaseStuckSinceMs :: u32
  g_gbnBaseStuckTrackedSeq :: u8
  g_lastOkTickMs :: u32
  g_gbnBaseStuckThresholdMs :: u32
  g_gbnBaseStuckThresholdOverridden :: bool
  g_consecutiveKeep :: int
  g_consecutiveAppBacklog :: int

record ErrSt =
  e_errs :: int
  e_errWindowStartMs :: u32
  e_errWindowCount :: int
  e_lastBadHeaderLogMs :: u32

record WireCnt =
  c_txBytes :: u64
  c_rxBytes :: u64
  c_acksSent :: u64
  c_naksSent :: u64
  c_holdNaksLiveness :: u64
  c_resyncDroppedBytes :: u64
  c_wireAckAggAcks :: u64
  c_wireAckAggFreed :: u64
  c_wireAckAggLastMs :: u32
  c_txBlockedMs :: u64
  c_gaps :: u64
  c_stale :: u64
  c_staleAmbiguous :: u64
  c_lostMsgs :: u64

record DropCnt =
  n_discCount :: u64
  n_frameErrs :: u64
  n_badHeaderErrs :: u64
  n_overLenErrs :: u64
  n_crcFailErrs :: u64
  n_droppedChunksOnReset :: u64
  n_postLockQuietDrops :: u64
  n_rateLimitedCount :: u64
  n_txRingStallDrops :: u64
  n_gbnWindowFullDrops :: u64
  n_poolExhaustDrops :: u64
  n_settleDrops :: u64
  n_resetReasonCounts :: "ResetReason \<Rightarrow> u64"
  n_resetCount :: u64
  n_lastResetReason :: ResetReason

record Link =
  l_hw :: Hal
  l_cache :: ArqCache
  l_isMaster :: bool
  l_cfg :: AutoLinkConfig
  l_s :: Sess
  l_p :: Pref
  l_k :: LockSt
  l_b :: BreakSt
  l_r :: RxSt
  l_t :: TxSt
  l_g :: GbnSt
  l_e :: ErrSt
  l_c :: WireCnt
  l_n :: DropCnt
  l_baudSweep :: BaudSweep
  l_sweep :: LinkSweep
  l_arq :: LinkArq

subsection \<open>Constants of the class\<close>

definition NO_PREFERRED_BAUD :: u8 where "NO_PREFERRED_BAUD = 0xFF"
definition BAUD_UPGRADE_MAX_ATTEMPTS :: int where "BAUD_UPGRADE_MAX_ATTEMPTS = 3"
definition BAUD_UPGRADE_DELAY_MS :: u32 where "BAUD_UPGRADE_DELAY_MS = 10000"
definition RATE_WINDOW_MS :: u32 where "RATE_WINDOW_MS = 1000"
definition WIRE_AGG_WINDOW_MS :: u32 where "WIRE_AGG_WINDOW_MS = 1000"
definition DISC_STORM_THRESHOLD :: int where "DISC_STORM_THRESHOLD = 3"
definition kPeerBaudMismatchThreshold :: int where "kPeerBaudMismatchThreshold = 3"
definition DEFAULT_GBN_KEEP_RESCUE_CAP :: int where "DEFAULT_GBN_KEEP_RESCUE_CAP = 3"
definition DEFAULT_GBN_APPBACKLOG_CAP :: int where "DEFAULT_GBN_APPBACKLOG_CAP = 5"
definition HOLD_NAK_LIVENESS_MS :: u32 where "HOLD_NAK_LIVENESS_MS = 1000"

definition CTRL_FRAME_SIZE :: nat where "CTRL_FRAME_SIZE = 5"
definition CTRL_FRAME_SEQ_IDX :: nat where "CTRL_FRAME_SEQ_IDX = 2"
definition CTRL_FRAME_PAYLOAD_IDX :: nat where "CTRL_FRAME_PAYLOAD_IDX = 3"
definition CTRL_FRAME_CRC_IDX :: nat where "CTRL_FRAME_CRC_IDX = 4"

definition BREAK_GRACE_MS :: u32 where "BREAK_GRACE_MS = 20"
definition BREAK_GRACE_FLOOR_MS :: u32 where "BREAK_GRACE_FLOOR_MS = 2"
definition BREAK_CONFIRM_MS :: u32 where "BREAK_CONFIRM_MS = 150"
definition BREAK_COALESCE_MS :: u32 where "BREAK_COALESCE_MS = 10"

lemmas link_consts [link_defs] = NO_PREFERRED_BAUD_def BAUD_UPGRADE_MAX_ATTEMPTS_def
  BAUD_UPGRADE_DELAY_MS_def RATE_WINDOW_MS_def WIRE_AGG_WINDOW_MS_def DISC_STORM_THRESHOLD_def
  kPeerBaudMismatchThreshold_def DEFAULT_GBN_KEEP_RESCUE_CAP_def DEFAULT_GBN_APPBACKLOG_CAP_def
  HOLD_NAK_LIVENESS_MS_def CTRL_FRAME_SIZE_def CTRL_FRAME_SEQ_IDX_def CTRL_FRAME_PAYLOAD_IDX_def
  CTRL_FRAME_CRC_IDX_def BREAK_GRACE_MS_def BREAK_GRACE_FLOOR_MS_def BREAK_CONFIRM_MS_def
  BREAK_COALESCE_MS_def RESWEEP_PREF_MAX_ATTEMPTS_def RESWEEP_PREF_ATTEMPT_CEILING_def

end
