(* ===== verification/LinkBase.thy ===== *)
theory LinkBase
  imports LinkState
begin

text \<open>
  The construction of a link and its pure helpers: the budgets and windows derived from the
  baud (\<open>link/Link.h\<close>, \<open>link/timers/LinkBreak.cpp\<close>, \<open>link/timers/LinkSweepGlue.cpp\<close>,
  \<open>link/timers/gbn/LinkTimersGbn.cpp\<close>, \<open>link/LinkApi.cpp\<close>) and the small bookkeeping steps.
  A \<open>uint32_t\<close> expression of the source is computed in \<open>u32\<close>, with its wrap-around.
\<close>

abbreviation l_now :: "Link \<Rightarrow> u32" where "l_now l \<equiv> h_now (l_hw l)"
abbreviation l_state :: "Link \<Rightarrow> State" where "l_state l \<equiv> s_state (l_s l)"
abbreviation l_spdI :: "Link \<Rightarrow> int" where "l_spdI l \<equiv> s_spdI (l_s l)"
abbreviation sync32 :: "Link \<Rightarrow> u32" where "sync32 l \<equiv> u32_of_int (cfg_syncAckTimeoutMs (l_cfg l))"

subsection \<open>Construction\<close>

definition link_new :: "Hal \<Rightarrow> ArqCache \<Rightarrow> bool \<Rightarrow> AutoLinkConfig \<Rightarrow> Link" where
  "link_new h cache master config =
     \<lparr>l_hw = h, l_cache = cache, l_isMaster = master, l_cfg = config,
      l_s = \<lparr>s_state = OK, s_spdI = 0, s_pingSample = 0, s_emptySweeps = 0, s_sweepPongCount = 0,
        s_wasEverOk = False, s_linkPaused = False, s_kickedOff = False, s_sweepEpoch = 0,
        s_peerSweepEpoch = 0, s_peerSweepEpochKnown = False, s_locksWithoutRecv = 0,
        s_lastDiscMs = 0, s_recentDiscs = 0, s_baudRetries = 0\<rparr>,
      l_p = \<lparr>p_preferredBaud = NO_PREFERRED_BAUD, p_bestProvenBaud = NO_PREFERRED_BAUD,
        p_baudUpgradeAtMs = 0, p_baudUpgradeAttempts = 0, p_resweepPrefPending = False,
        p_resweepPrefAttempts = 0, p_resweepPrefDeadlineMs = 0\<rparr>,
      l_k = \<lparr>k_lockedAtMs = 0, k_postLockFirstTxDone = 0, k_firstPeerResponseSeen = False,
        k_settleUntilMs = 0, k_postLockQuietLogged = False\<rparr>,
      l_b = \<lparr>b_breakSuspectMs = 0, b_breakSuspectSeen = 0, b_breaksSuppressed = 0,
        b_breakStormPending = False, b_breakConfirmPending = False, b_breakStormSeen = False\<rparr>,
      l_r = \<lparr>r_rxBuf = replicate 5 0, r_rxIdx = 0, r_okCarry = [], r_frameRx = [],
        r_msgRx = codec_init, r_msgRxStartedMs = 0, r_lastRxMs = 0, r_lastValidRxMs = 0,
        r_rxSeqSet = False, r_rxSeq = 0, r_rxSeqWrap = 0, r_lastRxSeq = 0xFF,
        r_holdNakActive = False, r_holdNakSeq = 0xFF, r_holdNakWrap = 0, r_holdNakFreeAtSet = 0,
        r_holdNakLastMs = 0\<rparr>,
      l_t = \<lparr>t_txSeq = 0, t_txSeqLap = 0, t_lastTxMs = 0, t_txRejFirstMs = 0, t_txRejLastMs = 0,
        t_lastAckSeq = 0xFF, t_lastNakSeq = 0xFF, t_lastSendMsgReason = SmOk,
        t_rateWindowStartMs = 0, t_rateWindowBytes = 0, t_rateNextAllowedMs = 0\<rparr>,
      l_g = \<lparr>g_gbnAttempts = 0, g_gbnBackoffMs = 0, g_gbnLastRetxBase = 0xFF,
        g_gbnLastResendMs = 0, g_gbnLastResendBase = 0xFF, g_resendSource = SrcRto,
        g_gbnBaseStuckSinceMs = 0, g_gbnBaseStuckTrackedSeq = 0xFF, g_lastOkTickMs = 0,
        g_gbnBaseStuckThresholdMs = 0, g_gbnBaseStuckThresholdOverridden = False,
        g_consecutiveKeep = 0, g_consecutiveAppBacklog = 0\<rparr>,
      l_e = \<lparr>e_errs = 0, e_errWindowStartMs = 0, e_errWindowCount = 0, e_lastBadHeaderLogMs = 0\<rparr>,
      l_c = \<lparr>c_txBytes = 0, c_rxBytes = 0, c_acksSent = 0, c_naksSent = 0, c_holdNaksLiveness = 0,
        c_resyncDroppedBytes = 0, c_wireAckAggAcks = 0, c_wireAckAggFreed = 0,
        c_wireAckAggLastMs = 0, c_txBlockedMs = 0, c_gaps = 0, c_stale = 0, c_staleAmbiguous = 0,
        c_lostMsgs = 0\<rparr>,
      l_n = \<lparr>n_discCount = 0, n_frameErrs = 0, n_badHeaderErrs = 0, n_overLenErrs = 0,
        n_crcFailErrs = 0, n_droppedChunksOnReset = 0, n_postLockQuietDrops = 0,
        n_rateLimitedCount = 0, n_txRingStallDrops = 0, n_gbnWindowFullDrops = 0,
        n_poolExhaustDrops = 0, n_settleDrops = 0, n_resetReasonCounts = (\<lambda>_. 0),
        n_resetCount = 0, n_lastResetReason = Kickoff\<rparr>,
      l_baudSweep = baudSweep_configure (cfg_pingSamplesPerBaud config) (cfg_minAcceptRate config) (-1)
        (baudSweep_new (clampedCount config)),
      l_sweep = sweep_init, l_arq = arq_new\<rparr>"

subsection \<open>Budgets\<close>

text \<open>\<open>cfg.clampToMaxBauds()\<close> also stores the clamped count.\<close>

definition l_clampBauds :: "Link \<Rightarrow> Link" where
  "l_clampBauds l = l_cfg_update clampToMaxBauds l"

definition l_baud :: "int \<Rightarrow> Link \<Rightarrow> u32" where
  "l_baud i l = allowedBaudSafe (l_cfg l) i"

definition resweepPrefBudgetMs :: "Link \<Rightarrow> u32" where
  "resweepPrefBudgetMs l =
     (let b0 = sync32 l * 8; b1 = (if b0 < 3000 then 3000 else b0) in
      if b1 > 5000 then 5000 else b1)"

definition interChunkGapMs :: "Link \<Rightarrow> int" where
  "interChunkGapMs l =
     (if cfg_mode (l_cfg l) \<noteq> ASYNC then 0
      else if cfg_asyncChunkGapMs (l_cfg l) < 0 then 0 else cfg_asyncChunkGapMs (l_cfg l))"

definition gbnBackoffCapMs :: "Link \<Rightarrow> u32" where
  "gbnBackoffCapMs l = (let cap = sync32 l * 8 in if cap < sync32 l then sync32 l else cap)"

definition baudAwareStuckThresholdMs :: "Link \<Rightarrow> u32" where
  "baudAwareStuckThresholdMs l =
     (if l_spdI l < 0 \<or> l_spdI l \<ge> cfg_allowedBaudsCount (l_cfg l) then sync32 l
      else
        let baud = l_baud (l_spdI l) l in
        if baud = 0 then sync32 l
        else
          let pending = arq_pendingCount (l_arq l) in
          if pending \<le> 0 then sync32 l
          else
            let pendingBytes = pending * (MAX_CHUNK + MSG_HDR);
                drain = ucast ((word_of_int pendingBytes :: u64) * 10000 div ucast baud) :: u32;
                total = drain + u32_of_int (roundTripMs baud) in
            if total < sync32 l then sync32 l else total)"

text \<open>\<open>chunkBytes * 10u * 1000u / baud\<close> of one full chunk.\<close>

definition chunkTxMs :: "u32 \<Rightarrow> u32" where
  "chunkTxMs baud = (u32_of_int MAX_CHUNK + 4) * 10 * 1000 div baud"

definition baudAwareRtoMs :: "Link \<Rightarrow> int" where
  "baudAwareRtoMs l =
     (let baud = l_baud (l_spdI l) l in
      if baud = 0 then cfg_syncAckTimeoutMs (l_cfg l)
      else
        let rto = chunkTxMs baud * 2 in
        if rto > sync32 l then i32_of_u32 rto else cfg_syncAckTimeoutMs (l_cfg l))"

definition gbnResendFlightMs :: "Link \<Rightarrow> int" where
  "gbnResendFlightMs l =
     (let baud = l_baud (l_spdI l) l in
      if baud = 0 then cfg_syncAckTimeoutMs (l_cfg l)
      else let rtt = chunkTxMs baud * 2 in if rtt > 2 then i32_of_u32 rtt else 2)"

definition breakGraceMs :: "Link \<Rightarrow> u32" where
  "breakGraceMs l =
     (if l_spdI l < 0 \<or> l_spdI l \<ge> cfg_allowedBaudsCount (l_cfg l) then BREAK_GRACE_MS
      else
        let rt = roundTripMs (l_baud (l_spdI l) l);
            rt' = (if rt < i32_of_u32 BREAK_GRACE_FLOOR_MS then i32_of_u32 BREAK_GRACE_FLOOR_MS else rt) in
        u32_of_int rt')"

definition breakConfirmMs :: "Link \<Rightarrow> u32" where
  "breakConfirmMs l =
     (if l_spdI l < 0 \<or> l_spdI l \<ge> cfg_allowedBaudsCount (l_cfg l) then BREAK_CONFIRM_MS
      else
        let baud = l_baud (l_spdI l) l in
        if baud = 0 then BREAK_CONFIRM_MS
        else
          let twoChunkFlight = u32_of_int (MAX_CHUNK + MSG_HDR) * 20 * 1000 div baud in
          if twoChunkFlight > BREAK_CONFIRM_MS then twoChunkFlight else BREAK_CONFIRM_MS)"

definition okTickMs :: "Link \<Rightarrow> int" where
  "okTickMs l =
     (let sync = cfg_syncAckTimeoutMs (l_cfg l);
          k0 = cfg_idleTimeoutMs (l_cfg l) div 3;
          k1 = (if k0 < 50 then 50 else k0);
          k2 = (if k1 < sync then sync else k1) in
      if cfg_mode (l_cfg l) = ASYNC then
        (let k3 = (if k2 > sync then sync else k2) in if k3 < 50 then 50 else k3)
      else k2)"

definition bestSpd :: "Link \<Rightarrow> int" where
  "bestSpd l =
     (let best = baudSweep_pickBest (l_baudSweep l) in
      if best < 0 then 0
      else
        case find (\<lambda>j. baudSweep_scoreAt (int j) (l_baudSweep l) > 0) [0..<nat best] of
          Some j \<Rightarrow> int j
        | None \<Rightarrow> best)"

definition reorderExpectedSeq :: "Link \<Rightarrow> u8" where
  "reorderExpectedSeq l = (if r_rxSeq (l_r l) = COBS_SEQ_MAX then 0 else r_rxSeq (l_r l) + 1)"

definition nextSeq :: "u8 \<Rightarrow> u8" where
  "nextSeq s = (if s = COBS_SEQ_MAX then 0 else s + 1)"

definition txQuiet :: "Link \<Rightarrow> bool" where
  "txQuiet l =
     (if cfg_postLockQuietMs (l_cfg l) \<le> 0 \<or> k_lockedAtMs (l_k l) = 0 then False
      else if k_postLockFirstTxDone (l_k l) = k_lockedAtMs (l_k l) then False
      else if k_postLockFirstTxDone (l_k l) \<noteq> 0 \<and> k_firstPeerResponseSeen (l_k l) then False
      else
        let m = (if s_recentDiscs (l_s l) > 4 then 4 else s_recentDiscs (l_s l));
            rto = baudAwareRtoMs l;
            b = l_baud (l_spdI l) l;
            chunkTx = (if b > 0 then u32_of_int MAX_CHUNK * 10 * 1000 div b else 0);
            rtoFloor = u32_of_int rto + chunkTx;
            quiet = u32_of_int (cfg_postLockQuietMs (l_cfg l)) * u32_of_int m;
            quiet' = (if rtoFloor > quiet then rtoFloor else quiet) in
        l_now l - k_lockedAtMs (l_k l) < quiet')"

subsection \<open>Small steps\<close>

definition noteTxReject :: "Link \<Rightarrow> Link" where
  "noteTxReject l =
     (let t = (if l_now l = 0 then 1 else l_now l) in
      l_t_update (\<lambda>x. x\<lparr>t_txRejFirstMs := (if t_txRejFirstMs x = 0 then t else t_txRejFirstMs x),
        t_txRejLastMs := t\<rparr>) l)"

definition noteValidFrameOk :: "Link \<Rightarrow> Link" where
  "noteValidFrameOk l =
     (if b_breakSuspectMs (l_b l) = 0 then l
      else if l_now l - b_breakSuspectMs (l_b l) < breakGraceMs l then l
      else if b_breakSuspectSeen (l_b l) = 0 then l_b_update (\<lambda>b. b\<lparr>b_breakSuspectSeen := 1\<rparr>) l
      else l_b_update (\<lambda>b. b\<lparr>b_breakSuspectMs := 0, b_breakSuspectSeen := 0,
        b_breaksSuppressed := b_breaksSuppressed b + 1\<rparr>) l)"

definition changeState :: "State \<Rightarrow> Link \<Rightarrow> Link" where
  "changeState newState l =
     (if l_state l \<noteq> newState
      then l_hw_update (hal_setOkState (newState = OK)) (l_s_update (\<lambda>s. s\<lparr>s_state := newState\<rparr>) l)
      else l)"

definition resetSeq :: "Link \<Rightarrow> Link" where
  "resetSeq l =
     (let l1 = l_t_update (\<lambda>t. t\<lparr>t_txSeq := 0, t_txSeqLap := t_txSeqLap t + 1\<rparr>) l in
      if \<not> s_wasEverOk (l_s l1) \<and> cfg_mode (l_cfg l1) = ASYNC
      then l_r_update (\<lambda>r. r\<lparr>r_rxSeqSet := True, r_rxSeq := COBS_SEQ_MAX\<rparr>) l1
      else l_r_update (\<lambda>r. r\<lparr>r_rxSeqSet := False, r_rxSeq := 0\<rparr>) l1)"

definition msgRx_reset :: "Link \<Rightarrow> Link" where
  "msgRx_reset l = l_r_update (\<lambda>r. r\<lparr>r_msgRx := codec_reset (r_msgRx r), r_msgRxStartedMs := 0\<rparr>) l"

subsection \<open>Statistics and diagnostics\<close>

definition resetStats :: "Link \<Rightarrow> Link" where
  "resetStats l = l_c_update (\<lambda>c. c\<lparr>c_txBytes := 0, c_rxBytes := 0\<rparr>) l"

definition resetErrors :: "Link \<Rightarrow> Link" where
  "resetErrors l =
     l_e_update (\<lambda>e. e\<lparr>e_lastBadHeaderLogMs := 0, e_errWindowCount := 0, e_errWindowStartMs := l_now l\<rparr>)
      (l_n_update (\<lambda>n. n\<lparr>n_discCount := 0, n_frameErrs := 0, n_droppedChunksOnReset := 0,
         n_badHeaderErrs := 0, n_overLenErrs := 0, n_crcFailErrs := 0, n_gbnWindowFullDrops := 0,
         n_poolExhaustDrops := 0\<rparr>) l)"

definition resetDiag :: "Link \<Rightarrow> Link" where
  "resetDiag l = l_c_update (\<lambda>c. c\<lparr>c_gaps := 0, c_stale := 0, c_lostMsgs := 0\<rparr>) l"

definition clearErr :: "Link \<Rightarrow> Link" where
  "clearErr l = (if e_errs (l_e l) > 0 then l_e_update (\<lambda>e. e\<lparr>e_errs := 0\<rparr>) l else l)"

definition getCurrentBaud :: "Link \<Rightarrow> u32" where
  "getCurrentBaud l =
     (if l_spdI l \<ge> 0 \<and> l_spdI l < clampedCount (l_cfg l) then l_baud (l_spdI l) l else 0)"

definition onTxBlockedNote :: "u32 \<Rightarrow> Link \<Rightarrow> Link" where
  "onTxBlockedNote ms l = l_c_update (\<lambda>c. c\<lparr>c_txBlockedMs := c_txBlockedMs c + ucast ms\<rparr>) l"

end
