(* ===== verification/LinkTx.thy ===== *)
theory LinkTx
  imports LinkBase
begin

text \<open>
  The transmit side of the link (\<open>link/io/LinkTx.cpp\<close>): the 5-byte control frame of the
  sweep, the COBS data frame with its ring gate, the acknowledged data frame that registers
  the chunk with the ARQ and the cache, and the small ACK and NAK frames.

  A function that returns a bool in the source returns it here as the first component.
\<close>

definition sweepFrame :: "u8 \<Rightarrow> u8 \<Rightarrow> bytes" where
  "sweepFrame epoch payload =
     [0xAA, 0x55, epoch, payload, crc8 [0xAA, 0x55, epoch, payload]]"

definition sendSweepFrame :: "u8 \<Rightarrow> Link \<Rightarrow> Link" where
  "sendSweepFrame payload l =
     (let l1 = l_hw_update (hal_tx (sweepFrame (s_sweepEpoch (l_s l)) payload)) l;
          l2 = l_c_update (\<lambda>c. c\<lparr>c_txBytes := c_txBytes c + of_nat CTRL_FRAME_SIZE\<rparr>) l1 in
      l_t_update (\<lambda>t. t\<lparr>t_lastTxMs := l_now l2\<rparr>) l2)"

definition sendPongAck :: "Link \<Rightarrow> Link" where
  "sendPongAck l = sendSweepFrame PONG_CMD l"

definition noteRingStall :: "Link \<Rightarrow> Link" where
  "noteRingStall l = l_n_update (\<lambda>n. n\<lparr>n_txRingStallDrops := n_txRingStallDrops n + 1\<rparr>) l"

definition buildAndTxCobsFrame :: "u8 \<Rightarrow> bytes \<Rightarrow> Link \<Rightarrow> bool \<times> Link" where
  "buildAndTxCobsFrame seq b l =
     (if hal_txAvail (l_hw l) < kWorstCaseCobsFrame then (False, noteTxReject (noteRingStall l))
      else (True, l_hw_update (hal_tx (cobsDataWire seq b)) l))"

definition sendCobsFrame :: "bytes \<Rightarrow> Link \<Rightarrow> bool \<times> Link" where
  "sendCobsFrame b l =
     (case buildAndTxCobsFrame (t_txSeq (l_t l)) b l of
        (ok, l1) \<Rightarrow>
          if \<not> ok then (False, l1)
          else if t_txSeq (l_t l1) = COBS_SEQ_MAX
          then (True, l_t_update (\<lambda>t. t\<lparr>t_txSeq := 0, t_txSeqLap := t_txSeqLap t + 1\<rparr>) l1)
          else (True, l_t_update (\<lambda>t. t\<lparr>t_txSeq := t_txSeq t + 1\<rparr>) l1))"

text \<open>Opening the go-back-N window at the first chunk of a burst.\<close>

definition openGbnWindow :: "u8 \<Rightarrow> Link \<Rightarrow> Link" where
  "openGbnWindow seq l =
     l_arq_update (arq_setGbnActive True)
      (l_g_update (\<lambda>g. g\<lparr>g_gbnAttempts := 0, g_gbnBackoffMs := 0, g_gbnLastRetxBase := 0xFF,
         g_consecutiveKeep := 0\<rparr>)
       (l_arq_update (arq_setGbnBase seq) l))"

text \<open>The sequence number used, or 0xFF when nothing was sent.\<close>

definition sendCobsFrameAcked :: "bytes \<Rightarrow> u8 \<Rightarrow> Link \<Rightarrow> u8 \<times> Link" where
  "sendCobsFrameAcked b baseSeq l =
     (let seq = t_txSeq (l_t l) in
      if b \<noteq> [] \<and> \<not> cache_hasRoom (l_cache l)
      then (0xFF, l_n_update (\<lambda>n. n\<lparr>n_poolExhaustDrops := n_poolExhaustDrops n + 1\<rparr>) l)
      else
        (case sendCobsFrame b l of
           (ok, l1) \<Rightarrow>
             if \<not> ok then (0xFF, l1)
             else
               let l2 = (if cfg_mode (l_cfg l1) \<noteq> SYNC \<and> \<not> gbnActive_' (l_arq l1)
                         then openGbnWindow seq l1 else l1);
                   l3 = l_arq_update (arq_onSent seq baseSeq (l_now l2) (t_txSeqLap (l_t l2))) l2;
                   l4 = (if b \<noteq> [] then l_cache_update (cache_insert seq b) l3 else l3) in
               (seq, l4)))"

definition resendCobsFrame :: "u8 \<Rightarrow> bytes \<Rightarrow> Link \<Rightarrow> bool \<times> Link" where
  "resendCobsFrame seq b l =
     (case buildAndTxCobsFrame seq b l of
        (ok, l1) \<Rightarrow>
          if \<not> ok then (False, l1)
          else
            let l2 = (if b \<noteq> [] then l_c_update (\<lambda>c. c\<lparr>c_txBytes := c_txBytes c + of_nat (length b)\<rparr>) l1
                      else l1) in
            (True, l_t_update (\<lambda>t. t\<lparr>t_lastTxMs := l_now l2\<rparr>) l2))"

text \<open>The frame is built from the bytes before the CRC, which the C++ puts in the last slot.\<close>

definition txSmallCobs :: "bytes \<Rightarrow> Link \<Rightarrow> Link" where
  "txSmallCobs raw l =
     (let frame = cobsWire raw in
      if hal_txAvail (l_hw l) < int (length frame) then noteRingStall l
      else
        let l1 = l_hw_update (hal_tx frame) l;
            l2 = l_c_update (\<lambda>c. c\<lparr>c_txBytes := c_txBytes c + of_nat (length frame)\<rparr>) l1 in
        l_t_update (\<lambda>t. t\<lparr>t_lastTxMs := l_now l2\<rparr>) l2)"

definition sendCtrlCobsFrame :: "u8 \<Rightarrow> u8 \<Rightarrow> Link \<Rightarrow> Link" where
  "sendCtrlCobsFrame type seq l = txSmallCobs [type, seq] l"

definition sendAckFrame :: "u8 \<Rightarrow> u16 \<Rightarrow> Link \<Rightarrow> Link" where
  "sendAckFrame acked bytesRecvd l =
     l_c_update (\<lambda>c. c\<lparr>c_acksSent := c_acksSent c + 1\<rparr>)
      (txSmallCobs [ACK_TYPE, acked, ucast (bytesRecvd AND 0xFF), ucast (drop_bit 8 bytesRecvd AND 0xFF)] l)"

definition sendNakFrame :: "u8 \<Rightarrow> Link \<Rightarrow> Link" where
  "sendNakFrame missing l =
     l_c_update (\<lambda>c. c\<lparr>c_naksSent := c_naksSent c + 1\<rparr>) (sendCtrlCobsFrame NAK_TYPE missing l)"

subsection \<open>What reaches the wire\<close>

abbreviation wire :: "Link \<Rightarrow> bytes" where "wire l \<equiv> h_txBuf (l_hw l)"

lemma hal_tx_fits:
  "int (length b) \<le> hal_txAvail h \<Longrightarrow> hal_tx b h = h\<lparr>h_txBuf := h_txBuf h @ b\<rparr>"
  by (auto simp: hal_tx_def hal_txAvail_def Let_def split: if_splits)

lemma hal_tx_frame [frame_simps]:
  "h_now (hal_tx b h) = h_now h" "h_appBuf (hal_tx b h) = h_appBuf h"
  "h_appBufCap (hal_tx b h) = h_appBufCap h" "h_txCap (hal_tx b h) = h_txCap h"
  "h_sendBreakCalls (hal_tx b h) = h_sendBreakCalls h" "h_spd (hal_tx b h) = h_spd h"
  by (simp_all add: hal_tx_def Let_def)

lemma hal_txAvail_tx: "hal_txAvail (hal_tx b h) = max 0 (hal_txAvail h - int (length b))"
  by (auto simp: hal_tx_def hal_txAvail_def Let_def)

lemma buildAndTx_cases:
  obtains (stall) "hal_txAvail (l_hw l) < kWorstCaseCobsFrame"
      "buildAndTxCobsFrame seq b l = (False, noteTxReject (noteRingStall l))"
    | (sent) "kWorstCaseCobsFrame \<le> hal_txAvail (l_hw l)"
      "buildAndTxCobsFrame seq b l =
         (True, l_hw_update (\<lambda>h. h\<lparr>h_txBuf := h_txBuf h @ cobsDataWire seq b\<rparr>) l)"
proof (cases "hal_txAvail (l_hw l) < kWorstCaseCobsFrame")
  case True
  then show thesis using that(1) by (simp add: buildAndTxCobsFrame_def)
next
  case False
  have "hal_tx (cobsDataWire seq b) (l_hw l) =
      (l_hw l)\<lparr>h_txBuf := h_txBuf (l_hw l) @ cobsDataWire seq b\<rparr>"
    using False cobsDataWire_length [of seq b]
    by (intro hal_tx_fits) (simp add: wire_defs)
  then show thesis
    using that(2) False by (cases l) (simp add: buildAndTxCobsFrame_def)
qed

end
