(* ===== verification/LinkReset.thy ===== *)
theory LinkReset
  imports LinkTx
begin

text \<open>
  The state machine's transitions between the sweep and the locked link: the three sweep
  phases and their dwells (\<open>link/sweep/LinkSweep.cpp\<close>), the reset (\<open>link/LinkCore.cpp\<close>), the
  error path and the user's drop (\<open>link/LinkApi.cpp\<close>), the lock (\<open>link/timers/LinkSweepGlue.cpp\<close>)
  and the start (\<open>begin\<close>, \<open>kickoff\<close>).

  \<open>computeDwells\<close> is in exact arithmetic: \<open>250 * n * 1.1\<close> and \<open>3 * rt * 1.5\<close> truncated.
\<close>

abbreviation hw :: "(Hal \<Rightarrow> Hal) \<Rightarrow> Link \<Rightarrow> Link" where "hw f l \<equiv> l_hw_update f l"

subsection \<open>Sweep phases\<close>

definition l_baudCount :: "Link \<Rightarrow> int" where
  "l_baudCount l = clampedCount (l_cfg l)"

definition computeDwells :: "Link \<Rightarrow> Link" where
  "computeDwells l =
     (let pongSweepMs = 250 * l_baudCount l;
          masterDwell = pongSweepMs * 11 div 10;
          rt0 = roundTripMs (l_baud 0 l) in
      l_sweep_update (\<lambda>s. s\<lparr>sw_dwells :=
        \<lparr>d_phase1 = cfg_delayMs (l_cfg l), d_phase2 = (\<lambda>_. masterDwell), d_phase2Slave = (\<lambda>_. 250),
         d_phase3 = 9 * rt0 div 2 + 1, d_phase2Total = 16 * 250 * 5 + 200\<rparr>\<rparr>) l)"

definition setSpdI :: "int \<Rightarrow> Link \<Rightarrow> Link" where
  "setSpdI i l = l_s_update (\<lambda>s. s\<lparr>s_spdI := i\<rparr>) l"

definition enterPhase1 :: "Link \<Rightarrow> Link" where
  "enterPhase1 l =
     (let l1 = l_sweep_update (\<lambda>s. s\<lparr>sw_phase := PHASE1\<rparr>) l;
          l2 = l_s_update (\<lambda>s. s\<lparr>s_sweepPongCount := 0\<rparr>) l1;
          slowest = l_baudCount l2 - 1;
          l3 = hw (hal_setSpd (l_baud slowest l2)) (setSpdI slowest l2) in
      if l_isMaster l3
      then (let l4 = sendSweepFrame PING_CMD l3 in
            hw (hal_startTimer (d_phase1 (sw_dwells (l_sweep l4)))) l4)
      else hw (hal_startTimer (d_phase2 (sw_dwells (l_sweep l3)) 0 + 200)) l3)"

definition enterPhase2 :: "Link \<Rightarrow> Link" where
  "enterPhase2 l =
     (let l1 = l_sweep_update (\<lambda>s. s\<lparr>sw_phase := PHASE2\<rparr>) l;
          l2 = hw (hal_setSpd (l_baud 0 l1)) (setSpdI 0 l1) in
      if l_isMaster l2
      then
        (let l3 = sendSweepFrame PING_CMD l2;
             l4 = l_sweep_update (\<lambda>s. s\<lparr>sw_phase2ElapsedMs := 0\<rparr>) l3;
             d = sw_dwells (l_sweep l4);
             sub = (if d_phase2Slave d 0 \<le> 0 \<or> d_phase2Slave d 0 > d_phase2 d 0 then d_phase2 d 0
                    else d_phase2Slave d 0) in
         hw (hal_startTimer sub) l4)
      else hw (hal_startTimer (d_phase2Slave (sw_dwells (l_sweep l2)) 0)) l2)"

definition phase3ArmMs :: "u32 \<Rightarrow> int \<Rightarrow> int" where
  "phase3ArmMs baud acks =
     (let rt0 = roundTripMs baud; rt = (if rt0 < 50 then 50 else rt0);
          t3 = rt * (PHASE3_ACKS_NEEDED - acks + 1) + 100 in
      if t3 < 200 then 200 else t3)"

definition enterPhase3 :: "int \<Rightarrow> Link \<Rightarrow> Link" where
  "enterPhase3 chosenBaud l =
     (let l1 = l_sweep_update (\<lambda>s. s\<lparr>sw_phase := PHASE3, sw_phase3Baud := chosenBaud, sw_phase3Acks := 0\<rparr>) l;
          l2 = hw (hal_setSpd (l_baud chosenBaud l1)) l1;
          t3 = phase3ArmMs (l_baud chosenBaud l1) 0 in
      if l_isMaster l2 then hw (hal_startTimer t3) (sendSweepFrame PING_CMD l2)
      else hw (hal_startTimer (t3 * (RESWEEP_PREF_MAX_ATTEMPTS + 1))) l2)"

text \<open>The device branch: the master's phase-1 dwell is jittered with the clock.\<close>

definition phase1ArmMs :: "Link \<Rightarrow> int" where
  "phase1ArmMs l =
     (if \<not> l_isMaster l then d_phase2 (sw_dwells (l_sweep l)) 0 + 200
      else jitterPhase1Dwell (d_phase1 (sw_dwells (l_sweep l)))
        (l_now l XOR (if l_isMaster l then 0xA5 else 0x5A)))"

subsection \<open>Reset\<close>

text \<open>The accounting of a disconnect: \<open>if (count && state == State::OK)\<close>.\<close>

definition fairChanceMs :: "Link \<Rightarrow> u32" where
  "fairChanceMs l =
     u32_of_int (if cfg_postLockQuietMs (l_cfg l) > 0 then cfg_postLockQuietMs (l_cfg l) else 0) +
     u32_of_int (2 * cfg_syncAckTimeoutMs (l_cfg l))"

definition noteDisconnect :: "ResetReason \<Rightarrow> bool \<Rightarrow> Link \<Rightarrow> Link" where
  "noteDisconnect reason endedOkSession l =
     (let l1 = l_n_update (\<lambda>n. n\<lparr>n_discCount := n_discCount n + 1\<rparr>) l;
          l2 = (if reason \<noteq> PeerEpochMismatch
                then l_s_update (\<lambda>s. s\<lparr>s_sweepEpoch := s_sweepEpoch s + 1\<rparr>) l1 else l1);
          dnow = l_now l2 in
      if s_wasEverOk (l_s l2) \<and> endedOkSession then
        l_s_update (\<lambda>s. s\<lparr>
          s_recentDiscs := (if s_lastDiscMs s \<noteq> 0 \<and> dnow - s_lastDiscMs s < 10000
                            then s_recentDiscs s + 1 else 1),
          s_lastDiscMs := dnow,
          s_locksWithoutRecv := (if k_lockedAtMs (l_k l2) \<noteq> 0 \<and> dnow - k_lockedAtMs (l_k l2) \<ge> fairChanceMs l2
                                 then s_locksWithoutRecv s + 1 else s_locksWithoutRecv s)\<rparr>) l2
      else l2)"

text \<open>What every reset clears.\<close>

definition resetCommon :: "Link \<Rightarrow> Link" where
  "resetCommon l =
     (let now = l_now l;
          l1 = l_s_update (\<lambda>s. s\<lparr>s_sweepPongCount := 0, s_baudRetries := 0, s_pingSample := 0, s_emptySweeps := 0\<rparr>) l;
          l2 = msgRx_reset (l_r_update (\<lambda>r. r\<lparr>r_rxIdx := 0, r_okCarry := []\<rparr>) l1);
          l3 = l_r_update (\<lambda>r. r\<lparr>r_frameRx := framer_reset, r_lastRxMs := now\<rparr>) l2;
          l4 = l_baudSweep_update baudSweep_resetAll l3;
          l5 = l_e_update (\<lambda>e. e\<lparr>e_errs := 0, e_errWindowStartMs := now, e_errWindowCount := 0\<rparr>) l4 in
      l_t_update (\<lambda>t. t\<lparr>t_txRejFirstMs := 0, t_txRejLastMs := 0\<rparr>) l5)"

text \<open>What the end of a locked session clears: \<open>if (endedOkSession)\<close>.\<close>

definition resetSession :: "Link \<Rightarrow> Link" where
  "resetSession l =
     (let l1 = (if gbnActive_' (l_arq l) \<and> arq_pendingCount (l_arq l) > 0
                then l_n_update (\<lambda>n. n\<lparr>n_droppedChunksOnReset :=
                       n_droppedChunksOnReset n + word_of_int (arq_pendingCount (l_arq l))\<rparr>) l
                else l);
          l2 = resetSeq (l_arq_update arq_clearAll l1);
          l3 = l_t_update (\<lambda>t. t\<lparr>t_lastAckSeq := 0xFF, t_lastNakSeq := 0xFF\<rparr>) l2;
          l4 = l_r_update (\<lambda>r. r\<lparr>r_lastRxSeq := 0xFF, r_holdNakActive := False, r_holdNakSeq := 0xFF,
                 r_holdNakFreeAtSet := 0, r_holdNakWrap := 0, r_rxSeqWrap := 0\<rparr>) l3;
          l5 = l_k_update (\<lambda>k. k\<lparr>k_postLockQuietLogged := False, k_postLockFirstTxDone := 0,
                 k_firstPeerResponseSeen := False\<rparr>) l4 in
      l_g_update (\<lambda>g. g\<lparr>g_gbnAttempts := 0, g_gbnBackoffMs := 0, g_gbnLastRetxBase := 0xFF,
        g_gbnLastResendBase := 0xFF, g_resendSource := SrcRto, g_gbnLastResendMs := 0,
        g_gbnBaseStuckSinceMs := 0, g_gbnBaseStuckTrackedSeq := 0xFF, g_consecutiveKeep := 0\<rparr>) l5)"

text \<open>Where the sweep restarts: at the preferred baud, if it may be kept, or at phase 1. The
  conjunction is evaluated left to right, and its \<open>clampToMaxBauds\<close> stores the count.\<close>

definition resetSweep :: "bool \<Rightarrow> Link \<Rightarrow> Link" where
  "resetSweep preservePreferredBaud l =
     (let pref = p_preferredBaud (l_p l);
          first = (preservePreferredBaud \<and> s_wasEverOk (l_s l) \<and> pref \<noteq> NO_PREFERRED_BAUD);
          l1 = (if first then l_clampBauds l else l) in
      if first \<and> pref < word_of_int (cfg_allowedBaudsCount (l_cfg l1)) \<and>
         s_recentDiscs (l_s l1) < DISC_STORM_THRESHOLD \<and>
         s_locksWithoutRecv (l_s l1) < kPeerBaudMismatchThreshold \<and>
         \<not> b_breakStormSeen (l_b l1)
      then
        (let l2 = enterPhase3 (int (unat pref)) (setSpdI (int (unat pref)) l1) in
         l_p_update (\<lambda>p. p\<lparr>p_resweepPrefPending := True, p_resweepPrefAttempts := 0,
           p_resweepPrefDeadlineMs := l_now l2 + resweepPrefBudgetMs l2\<rparr>) l2)
      else
        l_p_update (\<lambda>p. p\<lparr>p_resweepPrefPending := False, p_resweepPrefAttempts := 0,
          p_resweepPrefDeadlineMs := 0\<rparr>) (enterPhase1 l1))"

definition reset_unlocked :: "bool \<Rightarrow> bool \<Rightarrow> ResetReason \<Rightarrow> Link \<Rightarrow> Link" where
  "reset_unlocked count preservePreferredBaud reason l =
     (let endedOkSession = (l_state l = OK);
          l1 = l_n_update (\<lambda>n. n\<lparr>n_resetReasonCounts := (n_resetReasonCounts n)(reason := n_resetReasonCounts n reason + 1),
                 n_resetCount := n_resetCount n + 1, n_lastResetReason := reason\<rparr>) l;
          l2 = (if count \<and> l_state l1 = OK then noteDisconnect reason endedOkSession l1 else l1);
          l3 = setSpdI 0 (changeState SWP l2);
          slaveMayPreserve = (\<not> l_isMaster l3 \<and> reason = HealthWatchdog);
          l4 = (if \<not> preservePreferredBaud \<or> (\<not> l_isMaster l3 \<and> \<not> slaveMayPreserve)
                then l_p_update (\<lambda>p. p\<lparr>p_preferredBaud := NO_PREFERRED_BAUD,
                       p_bestProvenBaud := NO_PREFERRED_BAUD, p_baudUpgradeAtMs := 0,
                       p_baudUpgradeAttempts := 0, p_resweepPrefPending := False\<rparr>) l3
                else l3);
          l5 = resetCommon l4;
          l6 = (if endedOkSession then resetSession l5 else l5);
          l7 = l_b_update (\<lambda>b. b\<lparr>b_breakSuspectMs := 0, b_breakSuspectSeen := 0\<rparr>) l6;
          l8 = resetSweep preservePreferredBaud (hw hal_clearAppBuf l7) in
      hw hal_discardTx (l_cache_update cache_clearAll l8))"

subsection \<open>Errors and the user's calls\<close>

text \<open>True asks the caller to send a break once it has given the lock back.\<close>

definition countFrameErr :: "FrameErrCause \<Rightarrow> DropCnt \<Rightarrow> DropCnt" where
  "countFrameErr cause n =
     (let n1 = n\<lparr>n_frameErrs := n_frameErrs n + 1\<rparr> in
      case cause of
        BadHeader \<Rightarrow> n1\<lparr>n_badHeaderErrs := n_badHeaderErrs n1 + 1\<rparr>
      | OverLen \<Rightarrow> n1\<lparr>n_overLenErrs := n_overLenErrs n1 + 1\<rparr>
      | CrcFail \<Rightarrow> n1\<lparr>n_crcFailErrs := n_crcFailErrs n1 + 1\<rparr>)"

definition err_unlocked :: "FrameErrCause \<Rightarrow> Link \<Rightarrow> bool \<times> Link" where
  "err_unlocked cause l =
     (if l_state l \<noteq> OK then (False, l)
      else
        let l1 = l_n_update (countFrameErr cause) (l_e_update (\<lambda>e. e\<lparr>e_errs := e_errs e + 1\<rparr>) l);
            now = l_now l1;
            l2 = l_e_update (\<lambda>e. if now - e_errWindowStartMs e \<ge> 1000
                   then e\<lparr>e_errWindowStartMs := now, e_errWindowCount := 1\<rparr>
                   else e\<lparr>e_errWindowCount := e_errWindowCount e + 1\<rparr>) l1 in
        if e_errs (l_e l2) > cfg_errThreshold (l_cfg l2)
        then (True, reset_unlocked True False ErrThreshold l2)
        else if cfg_errRateWindow (l_cfg l2) > 0 \<and> e_errWindowCount (l_e l2) > cfg_errRateWindow (l_cfg l2)
        then (True, reset_unlocked True False ErrRate l2)
        else (False, l2))"

definition err :: "FrameErrCause \<Rightarrow> Link \<Rightarrow> Link" where
  "err cause l =
     (case err_unlocked cause l of (trigger, l1) \<Rightarrow> if trigger then hw hal_sendBreak l1 else l1)"

definition dropLink :: "Link \<Rightarrow> Link" where
  "dropLink l =
     (if l_state l \<noteq> OK then l
      else
        let l1 = reset_unlocked True False UserDropLink l in
        if l_state l1 = SWP then hw hal_sendBreak l1 else l1)"

definition flushRx :: "Link \<Rightarrow> Link" where
  "flushRx l =
     (let l1 = msgRx_reset (hw hal_clearAppBuf l);
          l2 = l_r_update (\<lambda>r. r\<lparr>r_rxSeqSet := False, r_rxSeq := 0\<rparr>) l1 in
      hw hal_flushRxHw l2)"

subsection \<open>The lock\<close>

definition lockOk :: "int \<Rightarrow> Link \<Rightarrow> Link" where
  "lockOk idx l =
     (if l_state l = OK then l
      else
        let w = (word_of_int idx :: u8);
            now = l_now l;
            l1 = setSpdI idx (hw (hal_setSpd (l_baud idx l)) l);
            l2 = l_e_update (\<lambda>e. e\<lparr>e_errs := 0\<rparr>) l1;
            l3 = l_p_update (\<lambda>p. p\<lparr>p_preferredBaud := w,
                   p_bestProvenBaud := (if p_bestProvenBaud p = NO_PREFERRED_BAUD \<or> w < p_bestProvenBaud p
                                        then w else p_bestProvenBaud p)\<rparr>) l2;
            l4 = l_p_update (\<lambda>p.
                   if p_bestProvenBaud p \<noteq> NO_PREFERRED_BAUD \<and> w > p_bestProvenBaud p \<and>
                      p_baudUpgradeAttempts p < BAUD_UPGRADE_MAX_ATTEMPTS
                   then p\<lparr>p_baudUpgradeAtMs := now + BAUD_UPGRADE_DELAY_MS\<rparr>
                   else p\<lparr>p_baudUpgradeAtMs := 0,
                     p_baudUpgradeAttempts := (if w \<le> p_bestProvenBaud p then 0 else p_baudUpgradeAttempts p)\<rparr>) l3;
            l5 = l_s_update (\<lambda>s. s\<lparr>s_baudRetries := 0\<rparr>) l4;
            l6 = l_e_update (\<lambda>e. e\<lparr>e_errWindowStartMs := now, e_errWindowCount := 0\<rparr>) l5;
            l7 = l_r_update (\<lambda>r. r\<lparr>r_lastRxMs := now, r_lastValidRxMs := now\<rparr>)
                   (l_t_update (\<lambda>t. t\<lparr>t_lastTxMs := now\<rparr>) l6);
            l8 = l_k_update (\<lambda>k. k\<lparr>k_lockedAtMs := now, k_postLockFirstTxDone := now,
                   k_firstPeerResponseSeen := False, k_postLockQuietLogged := False,
                   k_settleUntilMs := now + AUTOLINK_WIRE_SETTLE_MS\<rparr>) l7;
            l9 = hw hal_flushRxHw (hw hal_clearAppBuf l8);
            l10 = l_g_update (\<lambda>g. g\<lparr>g_gbnAttempts := 0, g_gbnBackoffMs := 0, g_gbnLastRetxBase := 0xFF,
                    g_gbnLastResendBase := 0xFF, g_gbnLastResendMs := 0, g_consecutiveKeep := 0,
                    g_gbnBaseStuckThresholdMs := sync32 l, g_gbnBaseStuckThresholdOverridden := False\<rparr>) l9;
            l11 = changeState OK l10;
            l12 = l_s_update (\<lambda>s. s\<lparr>s_wasEverOk := True\<rparr>) l11;
            l13 = l_p_update (\<lambda>p. p\<lparr>p_resweepPrefPending := False, p_resweepPrefAttempts := 0\<rparr>) l12 in
        hw (hal_startTimer (okTickMs l13)) l13)"

subsection \<open>Start\<close>

definition kickoff :: "Link \<Rightarrow> Link" where
  "kickoff l =
     (if l_state l = OK then l
      else if s_linkPaused (l_s l) then l
      else
        let l1 = l_b_update (\<lambda>b. b\<lparr>b_breakStormSeen := False\<rparr>) (l_s_update (\<lambda>s. s\<lparr>s_kickedOff := True\<rparr>) l) in
        if l_isMaster l1 then
          (let l2 = reset_unlocked False False Kickoff l1;
               l3 = l_s_update (\<lambda>s. s\<lparr>s_sweepEpoch := s_sweepEpoch s + 1\<rparr>) l2 in
           hw hal_sendBreak l3)
        else
          (let l2 = l_clampBauds (changeState SWP l1);
               l3 = setSpdI (cfg_allowedBaudsCount (l_cfg l2) - 1) l2;
               l4 = l_s_update (\<lambda>s. s\<lparr>s_sweepEpoch := s_sweepEpoch s + 1, s_pingSample := 0\<rparr>) l3;
               l5 = l_b_update (\<lambda>b. b\<lparr>b_breakSuspectMs := 0, b_breakSuspectSeen := 0\<rparr>)
                      (l_r_update (\<lambda>r. r\<lparr>r_rxIdx := 0\<rparr>) l4);
               l6 = l_r_update (\<lambda>r. r\<lparr>r_frameRx := framer_reset\<rparr>) (msgRx_reset l5);
               l7 = resetSeq (l_baudSweep_update baudSweep_resetAll l6);
               l8 = hw hal_clearAppBuf (l_sweep_update (\<lambda>s. s\<lparr>sw_phase := PHASE1\<rparr>) l7);
               l9 = hw (hal_setSpd (l_baud (l_spdI l8) l8)) l8 in
           hw (hal_startTimer (d_phase2 (sw_dwells (l_sweep l9)) 0 + 200)) l9))"

text \<open>\<open>begin\<close>: the ring the HAL installed decides whether the link starts and how deep the
  go-back-N window may be. \<open>SIZE_MAX\<close> is the heap argument of the source's fallback; with it
  and a zero reserve the fallback is the uncapped floor.\<close>

definition begin_window :: "Link \<Rightarrow> nat \<Rightarrow> int" where
  "begin_window l installFloor =
     (let perChunkFloor = (if cfg_mode (l_cfg l) = SYNC then nat kWorstCaseCobsFrame else nat (MAX_CHUNK + 4));
          f0 = int (installFloor div perChunkFloor); f1 = (if f0 < 1 then 1 else f0);
          rx0 = hal_rxRingSize (l_hw l); rxBuf = (if rx0 = 0 then streamBufferFloor (l_cfg l) else rx0);
          rxFrames = (if rxBuf > 0 then int (rxBuf div nat (MAX_CHUNK + MSG_HDR)) else 0) in
      if rxFrames > 0 \<and> f1 > rxFrames then rxFrames else f1)"

definition link_begin :: "Link \<Rightarrow> bool \<times> Link" where
  "link_begin l =
     (let hwRing = hal_txRingSize (l_hw l);
          installFloor = (if hwRing > 0 then hwRing
                          else uartTxBufferFloorCapped (l_cfg l) (2 ^ 32 - 1) 0) in
      if int installFloor < kWorstCaseCobsFrame
      then (False, l_s_update (\<lambda>s. s\<lparr>s_state := SWP\<rparr>) l)
      else
        let l1 = l_cache_update (cache_setWindow (begin_window l installFloor)) l;
            l2 = l_s_update (\<lambda>s. s\<lparr>s_kickedOff := False\<rparr>) (computeDwells l1);
            l3 = (if l_state l2 = OK then changeState SWP l2 else l2);
            l4 = l_b_update (\<lambda>b. b\<lparr>b_breakSuspectMs := 0, b_breakSuspectSeen := 0\<rparr>) l3 in
        if s_linkPaused (l_s l4) then (True, l4) else (True, kickoff l4))"

end
