(* ===== verification/LinkSwp.thy ===== *)
theory LinkSwp
  imports LinkReset
begin

text \<open>
  The sweep: the handler of a control frame (\<open>link/timers/LinkSweepGlue.cpp\<close>) and the timer
  (\<open>link/timers/LinkTimersSwp.cpp\<close>) of a link that is not locked. The master pings, the slave
  answers; phase 1 finds the peer at the slowest baud, phase 2 walks the bauds, phase 3
  confirms one with \<open>PHASE3_ACKS_NEEDED\<close> answers and locks it.
\<close>

definition incPhase3Acks :: "Link \<Rightarrow> Link" where
  "incPhase3Acks l = l_sweep_update (\<lambda>s. s\<lparr>sw_phase3Acks := sw_phase3Acks s + 1\<rparr>) l"

definition sweepReset :: "Link \<Rightarrow> Link" where
  "sweepReset l = l_sweep_update sweep_reset l"

text \<open>\<open>hw.setSpd(cfg.allowedBaudSafe(i)); spdI = i;\<close>\<close>

definition selectBaud :: "int \<Rightarrow> Link \<Rightarrow> Link" where
  "selectBaud i l = setSpdI i (hw (hal_setSpd (l_baud i l)) l)"

subsection \<open>Verdicts applied\<close>

definition applyMasterSwpAction :: "SwpPhaseAction \<Rightarrow> Link \<Rightarrow> bool \<times> Link" where
  "applyMasterSwpAction a l =
     (case a of
        PromoteToPhase2 \<Rightarrow> (False, enterPhase2 l)
      | PromoteToPhase3 \<Rightarrow> (False, enterPhase3 (l_spdI l) l)
      | Lock \<Rightarrow>
          let baud = sw_phase3Baud (l_sweep l);
              l1 = selectBaud baud (sweepReset l);
              l2 = sendSweepFrame (LOCK_CMD + word_of_int baud) l1 in
          (False, lockOk baud l2)
      | Stay \<Rightarrow>
          let baud = sw_phase3Baud (l_sweep l);
              l1 = sendSweepFrame PING_CMD l;
              t3 = phase3ArmMs (l_baud baud l1) (sw_phase3Acks (l_sweep l1)) in
          (False, hw (hal_startTimer t3) l1)
      | FallbackLockSlowest \<Rightarrow> (False, l)
      | SendPongAck \<Rightarrow> (False, l)
      | DropToPhase1 \<Rightarrow> (False, l))"

definition applyPongSwpAction :: "SwpPhaseAction \<Rightarrow> Link \<Rightarrow> bool \<times> Link" where
  "applyPongSwpAction a l =
     (case a of
        SendPongAck \<Rightarrow> (False, sendPongAck l)
      | PromoteToPhase3 \<Rightarrow> (False, sendPongAck (enterPhase3 (l_spdI l) l))
      | Lock \<Rightarrow>
          let lb = sw_phase3Baud (l_sweep l);
              l1 = selectBaud lb (sweepReset l);
              l2 = sendSweepFrame (LOCK_CMD + word_of_int lb) l1 in
          (False, lockOk lb l2)
      | Stay \<Rightarrow> (False, sendPongAck l)
      | PromoteToPhase2 \<Rightarrow>
          let l1 = enterPhase2 (sendPongAck l) in
          (False, hw (hal_startTimer (d_phase2Slave (sw_dwells (l_sweep l1)) 0)) l1)
      | FallbackLockSlowest \<Rightarrow> (False, l)
      | DropToPhase1 \<Rightarrow> (False, l))"

subsection \<open>A control frame while sweeping\<close>

definition notePeerEpoch :: "u8 \<Rightarrow> Link \<Rightarrow> Link" where
  "notePeerEpoch cobsSeq l =
     (if \<not> s_peerSweepEpochKnown (l_s l)
      then l_s_update (\<lambda>s. s\<lparr>s_peerSweepEpoch := cobsSeq, s_peerSweepEpochKnown := True\<rparr>) l
      else if cobsSeq \<noteq> s_peerSweepEpoch (l_s l)
      then l_s_update (\<lambda>s. s\<lparr>s_peerSweepEpoch := cobsSeq\<rparr>) l
      else l)"

definition handlePong :: "Link \<Rightarrow> bool \<times> Link" where
  "handlePong l =
     (let l1 = l_s_update (\<lambda>s. s\<lparr>s_sweepPongCount := s_sweepPongCount s + 1\<rparr>) l in
      case sw_phase (l_sweep l1) of
        PHASE1 \<Rightarrow> applyMasterSwpAction decideMasterPhase1Ack l1
      | PHASE2 \<Rightarrow> applyMasterSwpAction decideMasterPhase2Ack l1
      | PHASE3 \<Rightarrow>
          let newAcks = sw_phase3Acks (l_sweep l1) + 1 in
          applyMasterSwpAction (decideMasterPhase3Ack newAcks PHASE3_ACKS_NEEDED) (incPhase3Acks l1)
      | NONE \<Rightarrow> (False, l1))"

definition handlePing :: "Link \<Rightarrow> bool \<times> Link" where
  "handlePing l =
     (let l1 = l_baudSweep_update (baudSweep_score (l_spdI l)) l in
      case sw_phase (l_sweep l1) of
        PHASE1 \<Rightarrow> applyPongSwpAction decidePongPhase1Ping l1
      | PHASE2 \<Rightarrow> applyPongSwpAction decidePongPhase2Ping l1
      | PHASE3 \<Rightarrow>
          let newAcks = sw_phase3Acks (l_sweep l1) + 1 in
          applyPongSwpAction (decidePongPhase3Ping newAcks PHASE3_ACKS_NEEDED) (incPhase3Acks l1)
      | NONE \<Rightarrow> (False, l1))"

definition handleSwp :: "u8 \<Rightarrow> u8 \<Rightarrow> Link \<Rightarrow> bool \<times> Link" where
  "handleSwp cobsSeq payload l =
     (let l1 = l_clampBauds (notePeerEpoch cobsSeq l) in
      case isLockPayload payload (cfg_allowedBaudsCount (l_cfg l1)) of
        Some lockIdx \<Rightarrow> (False, lockOk lockIdx (sweepReset (selectBaud lockIdx l1)))
      | None \<Rightarrow>
          if \<not> l_isMaster l1 \<and> payload = REQ_CMD then
            (let best = bestSpd l1 in (False, lockOk best (sendSweepFrame (word_of_int best) l1)))
          else if l_isMaster l1 \<and> payload = PONG_CMD then handlePong l1
          else if \<not> l_isMaster l1 \<and> payload = PING_CMD then handlePing l1
          else (False, l1))"

subsection \<open>The sweep timer\<close>

text \<open>The dwell of one baud and its ping sub-tick.\<close>

definition subTickMs :: "int \<Rightarrow> Link \<Rightarrow> int" where
  "subTickMs i l =
     (let d = sw_dwells (l_sweep l); dwell = d_phase2 d (nat i); sub = d_phase2Slave d (nat i) in
      if sub \<le> 0 \<or> sub > dwell then dwell else sub)"

text \<open>No answer in the whole sweep: back to phase 1 at the slowest baud, not a blind lock.\<close>

definition restartAtSlowest :: "Link \<Rightarrow> Link" where
  "restartAtSlowest l =
     (let slowest = cfg_allowedBaudsCount (l_cfg l) - 1;
          l1 = setSpdI slowest l in
      enterPhase1 (hw (hal_setSpd (l_baud slowest l1)) l1))"

definition masterPhase2Tick :: "Link \<Rightarrow> Link" where
  "masterPhase2Tick l =
     (let dwell = d_phase2 (sw_dwells (l_sweep l)) (nat (l_spdI l));
          subTick = subTickMs (l_spdI l) l;
          l1 = l_sweep_update (\<lambda>s. s\<lparr>sw_phase2ElapsedMs := sw_phase2ElapsedMs s + subTick\<rparr>) l in
      if sw_phase2ElapsedMs (l_sweep l1) < dwell
      then hw (hal_startTimer subTick) (sendSweepFrame PING_CMD l1)
      else
        let l2 = l_sweep_update (\<lambda>s. s\<lparr>sw_phase2ElapsedMs := 0\<rparr>) l1;
            l3 = l_clampBauds (setSpdI (l_spdI l2 + 1) l2);
            count = cfg_allowedBaudsCount (l_cfg l3) in
        if decideMasterPhase2Timeout (l_spdI l3) count = FallbackLockSlowest then
          (if s_sweepPongCount (l_s l3) < 1 then restartAtSlowest l3
           else
             let lb = count - 1;
                 l4 = selectBaud lb (sweepReset l3);
                 l5 = sendSweepFrame (LOCK_CMD + word_of_int lb) l4 in
             lockOk lb l5)
        else
          let l4 = sendSweepFrame PING_CMD (hw (hal_setSpd (l_baud (l_spdI l3) l3)) l3) in
          hw (hal_startTimer (subTickMs (l_spdI l4) l4)) l4)"

text \<open>Is the camp on the preferred baud still open? The deadline test is wrap-safe.\<close>

definition campOpen :: "Link \<Rightarrow> bool" where
  "campOpen l \<longleftrightarrow>
     p_resweepPrefDeadlineMs (l_p l) \<noteq> 0 \<and>
     i32_of_u32 (p_resweepPrefDeadlineMs (l_p l) - l_now l) > 0 \<and>
     p_resweepPrefAttempts (l_p l) < RESWEEP_PREF_ATTEMPT_CEILING"

definition masterCampTick :: "Link \<Rightarrow> Link" where
  "masterCampTick l =
     (if campOpen l then
        (let l1 = l_p_update (\<lambda>p. p\<lparr>p_resweepPrefAttempts := p_resweepPrefAttempts p + 1\<rparr>) l;
             l2 = sendSweepFrame PING_CMD l1;
             t3 = phase3ArmMs (l_baud (sw_phase3Baud (l_sweep l2)) l2) (sw_phase3Acks (l_sweep l2)) in
         hw (hal_startTimer t3) l2)
      else
        let l1 = l_p_update (\<lambda>p. p\<lparr>p_resweepPrefAttempts := 0, p_resweepPrefPending := False,
                   p_resweepPrefDeadlineMs := 0\<rparr>) l;
            l2 = l_clampBauds (sweepReset l1);
            l3 = selectBaud (cfg_allowedBaudsCount (l_cfg l2) - 1) l2;
            l4 = l_sweep_update (\<lambda>s. s\<lparr>sw_phase := PHASE1\<rparr>) l3;
            l5 = sendSweepFrame PING_CMD l4 in
        hw (hal_startTimer (phase1ArmMs l5)) l5)"

definition masterPhase3Tick :: "Link \<Rightarrow> Link" where
  "masterPhase3Tick l =
     (if p_resweepPrefPending (l_p l) then masterCampTick l
      else
        let next = sw_phase3Baud (l_sweep l) + 1;
            l1 = l_clampBauds l;
            count = cfg_allowedBaudsCount (l_cfg l1) in
        if decideMasterPhase3Timeout next count = FallbackLockSlowest then
          (if s_sweepPongCount (l_s l1) < 1 then restartAtSlowest l1
           else lockOk (count - 1) (selectBaud (count - 1) (sweepReset l1)))
        else
          let l2 = selectBaud next (sweepReset l1);
              l3 = sendSweepFrame PING_CMD l2 in
          hw (hal_startTimer (d_phase2 (sw_dwells (l_sweep l3)) (nat (l_spdI l3)))) l3)"

definition slavePhase2Tick :: "Link \<Rightarrow> Link" where
  "slavePhase2Tick l =
     (if l_spdI l \<le> 0 then
        (if cfg_allowedBaudsCount (l_cfg l) \<le> 1
         then hw (hal_startTimer (d_phase2Slave (sw_dwells (l_sweep l)) 0)) l
         else
           let l1 = l_clampBauds l;
               l2 = selectBaud (cfg_allowedBaudsCount (l_cfg l1) - 1) l1 in
           hw (hal_startTimer (d_phase2Slave (sw_dwells (l_sweep l2)) (nat (l_spdI l2)))) l2)
      else
        let dwell = d_phase2Slave (sw_dwells (l_sweep l)) (nat (l_spdI l));
            l1 = setSpdI (l_spdI l - 1) l in
        if decidePongPhase2Timeout (l_spdI l1) 0 = DropToPhase1 then enterPhase1 l1
        else hw (hal_startTimer dwell) (hw (hal_setSpd (l_baud (l_spdI l1) l1)) l1))"

text \<open>The slave's camp on the preferred baud: the re-arm is half the idle timeout, cut to what
  is left of the deadline.\<close>

definition slaveCampRearmMs :: "Link \<Rightarrow> int" where
  "slaveCampRearmMs l =
     (let half = (if cfg_idleTimeoutMs (l_cfg l) div 2 < 1000 then 1000 else cfg_idleTimeoutMs (l_cfg l) div 2) in
      if p_resweepPrefDeadlineMs (l_p l) \<noteq> 0 then
        (let remaining = i32_of_u32 (p_resweepPrefDeadlineMs (l_p l)) - i32_of_u32 (l_now l) in
         if remaining > 0 then
           (let budget = (if remaining - 100 < 250 then 250 else remaining - 100) in
            if half > budget then budget else half)
         else half)
      else half)"

definition slaveCampTick :: "Link \<Rightarrow> Link" where
  "slaveCampTick l =
     (let deadlineElapsed = p_resweepPrefDeadlineMs (l_p l) \<noteq> 0 \<and>
            i32_of_u32 (l_now l - p_resweepPrefDeadlineMs (l_p l)) \<ge> 0 in
      if \<not> deadlineElapsed \<and> p_resweepPrefAttempts (l_p l) < RESWEEP_PREF_MAX_ATTEMPTS then
        (let l1 = l_p_update (\<lambda>p. p\<lparr>p_resweepPrefAttempts := p_resweepPrefAttempts p + 1\<rparr>) l in
         hw (hal_startTimer (slaveCampRearmMs l1)) l1)
      else
        enterPhase1 (l_p_update (\<lambda>p. p\<lparr>p_resweepPrefAttempts := 0, p_resweepPrefDeadlineMs := 0,
          p_preferredBaud := NO_PREFERRED_BAUD, p_resweepPrefPending := False\<rparr>) l))"

definition onTimerSwp :: "Link \<Rightarrow> Link" where
  "onTimerSwp l =
     (if l_isMaster l then
        (case sw_phase (l_sweep l) of
           PHASE1 \<Rightarrow>
             let l1 = l_s_update (\<lambda>s. s\<lparr>s_pingSample := s_pingSample s + 1\<rparr>) (sendSweepFrame PING_CMD l) in
             hw (hal_startTimer (phase1ArmMs l1)) l1
         | PHASE2 \<Rightarrow> masterPhase2Tick l
         | PHASE3 \<Rightarrow> masterPhase3Tick l
         | NONE \<Rightarrow> enterPhase1 l)
      else
        let l1 = l_s_update (\<lambda>s. s\<lparr>s_emptySweeps := s_emptySweeps s + 1\<rparr>) l in
        (case sw_phase (l_sweep l1) of
           PHASE1 \<Rightarrow> hw (hal_startTimer (phase1ArmMs l1)) l1
         | PHASE2 \<Rightarrow> slavePhase2Tick l1
         | _ \<Rightarrow> slaveCampTick l1))"

end
