(* ===== verification/LinkGbn.thy ===== *)
theory LinkGbn
  imports LinkReset
begin

text \<open>
  Go-back-N retransmission: the resend of one cached chunk (\<open>link/timers/LinkTimersOk.cpp\<close>), the
  burst that resends the window from its base (\<open>link/timers/LinkTimerBreak.cpp\<close>) and the
  timer-driven sweep that decides between waiting, resending, rescuing and giving the link
  up (\<open>link/timers/gbn/LinkTimersGbn.cpp\<close>).
\<close>

subsection \<open>Resending\<close>

definition retxSeq :: "u8 \<Rightarrow> Link \<Rightarrow> bool \<times> Link" where
  "retxSeq seq l =
     (if \<not> cache_slotInUse seq (l_cache l) then (True, l)
      else
        (case cache_peek seq (l_cache l) of
           Some buf \<Rightarrow> resendCobsFrame seq buf l
         | None \<Rightarrow> resendCobsFrame seq [] l))"

text \<open>The loop over the burst: it stops at a full transmit ring.\<close>

fun resendBurst :: "nat \<Rightarrow> u8 \<Rightarrow> u32 \<Rightarrow> Link \<Rightarrow> Link" where
  "resendBurst 0 s now l = l"
| "resendBurst (Suc n) s now l =
     (if hal_txAvail (l_hw l) < kWorstCaseCobsFrame then l
      else
        (case retxSeq s l of
           (ok, l1) \<Rightarrow>
             if \<not> ok then l1
             else
               resendBurst n (nextSeq s) now
                 (l_arq_update (arq_applyRetx s now (g_resendSource (l_g l1) = SrcRto)) l1)))"

definition gbnResendWindow :: "u32 \<Rightarrow> Link \<Rightarrow> Link" where
  "gbnResendWindow now l =
     (if \<not> gbnActive_' (l_arq l) then l
      else
        let s = gbnBase_' (l_arq l);
            burst = decideGbnResendCap (arq_pendingCount (l_arq l)) (cfg_gbnResendBurstMax (l_cfg l));
            l1 = l_g_update (\<lambda>g. g\<lparr>g_gbnLastResendBase := s, g_gbnLastResendMs := now\<rparr>) l in
        resendBurst (nat burst) s now l1)"

definition gbnRetxBaseAndRearm :: "u32 \<Rightarrow> Link \<Rightarrow> Link" where
  "gbnRetxBaseAndRearm now l =
     (let base = gbnBase_' (l_arq l);
          l1 = (if g_gbnLastRetxBase (l_g l) \<noteq> 0xFF \<and> g_gbnLastRetxBase (l_g l) \<noteq> base
                then l_g_update (\<lambda>g. g\<lparr>g_gbnAttempts := 0, g_gbnBackoffMs := 0, g_consecutiveKeep := 0\<rparr>) l
                else l);
          l2 = l_g_update (\<lambda>g. g\<lparr>g_gbnAttempts := g_gbnAttempts g + 1, g_gbnLastRetxBase := base\<rparr>) l1;
          l3 = l_g_update (\<lambda>g. g\<lparr>g_gbnBackoffMs :=
                 decideGbnBackoff (g_gbnAttempts g) (sync32 l2) (gbnBackoffCapMs l2),
                 g_resendSource := SrcRto\<rparr>) l2;
          l4 = gbnResendWindow now l3 in
      l_g_update (\<lambda>g. g\<lparr>g_gbnBaseStuckSinceMs := now\<rparr>) l4)"

subsection \<open>The timer's sweep\<close>

definition rto32 :: "Link \<Rightarrow> u32" where
  "rto32 l = u32_of_int (baudAwareRtoMs l)"

text \<open>The first half: the stuck threshold, the late-tick and application-backlog excuses, and
  the tracking of the base.\<close>

definition sweepRetx_track :: "u32 \<Rightarrow> Link \<Rightarrow> Link" where
  "sweepRetx_track now l =
     (let l1 = (if \<not> g_gbnBaseStuckThresholdOverridden (l_g l)
                then l_g_update (\<lambda>g. g\<lparr>g_gbnBaseStuckThresholdMs := baudAwareStuckThresholdMs l\<rparr>) l else l);
          priorOkTick = g_lastOkTickMs (l_g l1);
          floor0 = u32_of_int (okTickMs l1) * 3;
          stallFloor = (if floor0 < rto32 l1 then rto32 l1 else floor0);
          appBacklog = (hal_appBufAvailable (l_hw l1) > 0);
          l2 = l_g_update (\<lambda>g. g\<lparr>g_lastOkTickMs := now\<rparr>) l1;
          l3 = (if priorOkTick \<noteq> 0 \<and> now - priorOkTick > stallFloor
                then l_g_update (\<lambda>g. g\<lparr>g_gbnBaseStuckSinceMs := now\<rparr>) l2 else l2);
          l4 = (if appBacklog then
                  (if g_consecutiveAppBacklog (l_g l3) < DEFAULT_GBN_APPBACKLOG_CAP
                   then l_g_update (\<lambda>g. g\<lparr>g_gbnBaseStuckSinceMs := now,
                          g_consecutiveAppBacklog := g_consecutiveAppBacklog g + 1\<rparr>) l3
                   else l3)
                else l_g_update (\<lambda>g. g\<lparr>g_consecutiveAppBacklog := 0\<rparr>) l3) in
      if gbnBase_' (l_arq l4) \<noteq> g_gbnBaseStuckTrackedSeq (l_g l4)
      then l_g_update (\<lambda>g. g\<lparr>g_gbnBaseStuckTrackedSeq := gbnBase_' (l_arq l4), g_gbnBaseStuckSinceMs := now,
             g_consecutiveAppBacklog := 0\<rparr>) l4
      else l4)"

definition ackRtoMs :: "Link \<Rightarrow> u32" where
  "ackRtoMs l = (if rto32 l < sync32 l then sync32 l else rto32 l)"

definition baseStormStuck :: "u32 \<Rightarrow> Link \<Rightarrow> bool" where
  "baseStormStuck now l =
     (let t0 = g_gbnBaseStuckThresholdMs (l_g l); b = g_gbnBackoffMs (l_g l) + ackRtoMs l;
          threshold = (if b > t0 then b else t0) in
      now - g_gbnBaseStuckSinceMs (l_g l) \<ge> threshold)"

text \<open>The base has run out of retries: keep it while the reverse channel is alive, a bounded
  number of times, or reset the link.\<close>

definition gbnGiveUp :: "u32 \<Rightarrow> Link \<Rightarrow> bool \<times> Link" where
  "gbnGiveUp now l =
     (if decideGbnDropOnMaxRetx now (r_lastRxMs (l_r l)) (sync32 l) = GbnKeep then
        (if g_consecutiveKeep (l_g l) \<ge> DEFAULT_GBN_KEEP_RESCUE_CAP then
           (let l1 = reset_unlocked True False GbnKeepRescue
                       (l_g_update (\<lambda>g. g\<lparr>g_consecutiveKeep := 0\<rparr>) l) in
            (l_state l1 = SWP, l1))
         else
           let l1 = l_g_update (\<lambda>g. g\<lparr>g_consecutiveKeep := g_consecutiveKeep g + 1\<rparr>) l;
               l2 = l_arq_update (arq_rearmSlot (gbnBase_' (l_arq l1)) now) l1 in
           (False, l_g_update (\<lambda>g. g\<lparr>g_gbnAttempts := 0, g_gbnBackoffMs := 0, g_gbnLastRetxBase := 0xFF\<rparr>) l2))
      else
        let l1 = reset_unlocked True True GbnMaxRetx (l_g_update (\<lambda>g. g\<lparr>g_consecutiveKeep := 0\<rparr>) l) in
        (l_state l1 = SWP, l1))"

text \<open>True tells the caller that the link was reset.\<close>

definition sweepRetx :: "u32 \<Rightarrow> Link \<Rightarrow> bool \<times> Link" where
  "sweepRetx now l =
     (if cfg_mode (l_cfg l) = SYNC \<or> \<not> gbnActive_' (l_arq l) then (False, l)
      else
        let l1 = sweepRetx_track now l;
            base = gbnBase_' (l_arq l1);
            stuck = baseStormStuck now l1;
            a = arq_decideSlot base now (ackRtoMs l1) (cfg_maxRetx (l_cfg l1)) (l_arq l1) in
        if a = Retx then (False, gbnRetxBaseAndRearm now l1)
        else if a = Hold \<and> \<not> stuck then (False, l1)
        else if a = Drop \<or> stuck \<and> arq_retxCountFor base (l_arq l1) \<ge> 2 then gbnGiveUp now l1
        else (False, gbnRetxBaseAndRearm now l1))"

end
