(* ===== verification/LinkRx.thy ===== *)
theory LinkRx
  imports LinkSwp LinkGbn
begin

text \<open>
  The receive side of the link (\<open>link/io/LinkRx.cpp\<close>): the handlers of a data chunk, an ACK, a
  NAK and a bad frame, the handler of a control frame, and \<open>onRx\<close>, which picks the 5-byte
  control frames out of the byte stream and hands the rest to the framer.

  A handler's bool is the framer's "stop": the frame was dropped or the link was reset. The
  framer's buffer is a field of the link; \<open>feedLink\<close> gives it to \<open>feed\<close> and stores it back.
\<close>

subsection \<open>A data chunk\<close>

text \<open>A chunk already delivered is acknowledged again, unless it is too far back to be a
  duplicate of this session's window.\<close>

definition onPayload_stale :: "u8 \<Rightarrow> bytes \<Rightarrow> int \<Rightarrow> Link \<Rightarrow> bool \<times> Link" where
  "onPayload_stale cobsSeq b diff l =
     (let l1 = l_c_update (\<lambda>c. c\<lparr>c_stale := c_stale c + 1\<rparr>) l;
          back = LD_SEQ_WRAP - diff;
          genuineDup = (diff = 0 \<or> back \<le> 2 * AUTOLINK_ARQ_PIPELINE_WINDOW) in
      if \<not> genuineDup
      then (False, l_c_update (\<lambda>c. c\<lparr>c_staleAmbiguous := c_staleAmbiguous c + 1\<rparr>) l1)
      else (False, sendAckFrame cobsSeq (of_nat (length b)) l1))"

definition onPayload_gapSync :: "u8 \<Rightarrow> bytes \<Rightarrow> int \<Rightarrow> Link \<Rightarrow> bool \<times> Link" where
  "onPayload_gapSync cobsSeq b diff l =
     (let n = int (length b) in
      if n > 0 \<and> hal_appBufFree (l_hw l) \<ge> n then
        (case hal_pushAppBuf b (l_hw l) of
           (acc, h) \<Rightarrow>
             let l1 = l_hw_update (\<lambda>_. h) l in
             if acc = n
             then (False, sendAckFrame cobsSeq 0 (l_c_update (\<lambda>c. c\<lparr>c_gaps := c_gaps c + 1,
                     c_lostMsgs := c_lostMsgs c + word_of_int diff,
                     c_rxBytes := c_rxBytes c + word_of_int acc\<rparr>) l1))
             else (False, sendNakFrame cobsSeq l1))
      else if n > 0 then (False, sendNakFrame cobsSeq l)
      else (False, sendAckFrame cobsSeq 0 (l_c_update (\<lambda>c. c\<lparr>c_gaps := c_gaps c + 1,
              c_lostMsgs := c_lostMsgs c + word_of_int diff\<rparr>) l)))"

definition onPayload_gap :: "Link \<Rightarrow> bool \<times> Link" where
  "onPayload_gap l =
     (let expSeq = reorderExpectedSeq l in
      if r_holdNakActive (l_r l) \<and> expSeq = r_holdNakSeq (l_r l) \<and> r_rxSeqWrap (l_r l) = r_holdNakWrap (l_r l)
      then (False, l)
      else (False, sendNakFrame expSeq
              (l_c_update (\<lambda>c. c\<lparr>c_gaps := c_gaps c + 1, c_lostMsgs := c_lostMsgs c + 1\<rparr>) l)))"

text \<open>No room for the chunk: hold it, with one NAK, another when room has grown, and a
  liveness NAK per \<open>HOLD_NAK_LIVENESS_MS\<close>.\<close>

definition onPayload_hold :: "u8 \<Rightarrow> Link \<Rightarrow> bool \<times> Link" where
  "onPayload_hold cobsSeq l =
     (let r = l_r l; now = l_now l; free = hal_appBufFree (l_hw l);
          freshHold = (\<not> r_holdNakActive r \<or> r_holdNakSeq r \<noteq> cobsSeq \<or> r_holdNakWrap r \<noteq> r_rxSeqWrap r);
          liveness = (\<not> freshHold \<and> now - r_holdNakLastMs r \<ge> HOLD_NAK_LIVENESS_MS) in
      if freshHold then
        (False, sendNakFrame cobsSeq (l_r_update (\<lambda>r. r\<lparr>r_holdNakActive := True, r_holdNakSeq := cobsSeq,
           r_holdNakWrap := r_rxSeqWrap r, r_holdNakFreeAtSet := free, r_holdNakLastMs := now\<rparr>) l))
      else if free > r_holdNakFreeAtSet r then
        (False, sendNakFrame cobsSeq (l_r_update (\<lambda>r. r\<lparr>r_holdNakFreeAtSet := free, r_holdNakLastMs := now\<rparr>) l))
      else if liveness then
        (False, sendNakFrame cobsSeq (l_c_update (\<lambda>c. c\<lparr>c_holdNaksLiveness := c_holdNaksLiveness c + 1\<rparr>)
           (l_r_update (\<lambda>r. r\<lparr>r_holdNakLastMs := now\<rparr>) l)))
      else (False, l))"

text \<open>The expected chunk with room for it: delivered to the application, then acknowledged.\<close>

definition onPayload_deliver :: "u8 \<Rightarrow> bytes \<Rightarrow> Link \<Rightarrow> bool \<times> Link" where
  "onPayload_deliver cobsSeq b l =
     (case hal_pushAppBuf b (l_hw l) of
        (acc, h) \<Rightarrow>
          let l1 = l_hw_update (\<lambda>_. h) l in
          if acc \<noteq> int (length b) then (False, sendNakFrame cobsSeq l1)
          else
            let l2 = l_c_update (\<lambda>c. c\<lparr>c_rxBytes := c_rxBytes c + word_of_int acc\<rparr>) l1;
                r = l_r l2;
                l3 = (if r_holdNakActive r \<and> cobsSeq = r_holdNakSeq r \<and> r_rxSeqWrap r = r_holdNakWrap r
                      then l_r_update (\<lambda>r. r\<lparr>r_holdNakActive := False, r_holdNakSeq := 0xFF,
                             r_holdNakFreeAtSet := 0, r_holdNakLastMs := 0\<rparr>) l2
                      else l2);
                l4 = l_r_update (\<lambda>r. r\<lparr>
                       r_rxSeqWrap := (if r_rxSeqSet r \<and> cobsSeq < r_rxSeq r \<and> r_rxSeq r - cobsSeq > 127
                                       then r_rxSeqWrap r + 1 else r_rxSeqWrap r),
                       r_rxSeq := cobsSeq, r_rxSeqSet := True\<rparr>) l3;
                l5 = sendAckFrame cobsSeq (of_nat (length b)) l4 in
            (False, clearErr l5))"

definition onPayload_forward :: "u8 \<Rightarrow> bytes \<Rightarrow> Link \<Rightarrow> bool \<times> Link" where
  "onPayload_forward cobsSeq b l =
     (if b = [] then (False, clearErr (l_r_update (\<lambda>r. r\<lparr>r_rxSeq := cobsSeq, r_rxSeqSet := True\<rparr>) l))
      else if hal_appBufFree (l_hw l) < int (length b) then onPayload_hold cobsSeq l
      else onPayload_deliver cobsSeq b l)"

definition onPayload :: "u8 \<Rightarrow> bytes \<Rightarrow> Link \<Rightarrow> bool \<times> Link" where
  "onPayload cobsSeq b l =
     (if l_state l \<noteq> OK then (True, l)
      else
        let l1 = noteValidFrameOk l;
            l2 = l_r_update (\<lambda>r. r\<lparr>r_lastValidRxMs := l_now l1, r_lastRxSeq := cobsSeq\<rparr>) l1 in
        (case classifyGap cobsSeq (r_rxSeq (l_r l2)) (r_rxSeqSet (l_r l2)) of
           (Stale, diff) \<Rightarrow> onPayload_stale cobsSeq b diff l2
         | (Gap, diff) \<Rightarrow>
             if cfg_mode (l_cfg l2) = SYNC then onPayload_gapSync cobsSeq b diff l2 else onPayload_gap l2
         | (Forward, diff) \<Rightarrow> onPayload_forward cobsSeq b l2))"

subsection \<open>An ACK\<close>

text \<open>One chunk acknowledged: its ARQ slot, its cache buffer, the last-NAK note.\<close>

definition ackOne :: "u8 \<Rightarrow> u16 \<Rightarrow> FreeCause \<Rightarrow> Link \<Rightarrow> Link" where
  "ackOne s n cause l =
     (let l1 = l_cache_update (cache_freeBySeq s cause) (l_arq_update (arq_onAcked s n) l) in
      if t_lastNakSeq (l_t l1) = s then l_t_update (\<lambda>t. t\<lparr>t_lastNakSeq := 0xFF\<rparr>) l1 else l1)"

text \<open>The cumulative walk from the base to the acknowledged number: how many were freed, and
  whether the acknowledged number was reached within the window.\<close>

function ackWalk :: "int \<Rightarrow> u8 \<Rightarrow> u8 \<Rightarrow> u16 \<Rightarrow> Link \<Rightarrow> int \<times> bool \<times> Link" where
  "ackWalk freed s acked bytesRecvd l =
     (let freed' = freed + 1 in
      if freed' > AUTOLINK_ARQ_PIPELINE_WINDOW then (freed', False, l)
      else
        let n = (if s \<noteq> acked
                 then (case cache_peek s (l_cache l) of Some b \<Rightarrow> of_nat (length b) | None \<Rightarrow> 0)
                 else bytesRecvd);
            l1 = ackOne s n CumulativeBackfill l in
        if s = acked then (freed', True, l1)
        else ackWalk freed' (nextSeq s) acked bytesRecvd l1)"
  by pat_completeness auto
termination
  by (relation "measure (\<lambda>(freed, s, acked, n, l). nat (AUTOLINK_ARQ_PIPELINE_WINDOW - freed))")
    (auto simp: wire_defs)

declare ackWalk.simps [simp del]

text \<open>What any ACK or NAK of a locked link shows: the peer is there.\<close>

definition notePeerResponse :: "Link \<Rightarrow> Link" where
  "notePeerResponse l =
     (let l1 = l_s_update (\<lambda>s. s\<lparr>s_locksWithoutRecv := 0\<rparr>) l;
          l2 = l_r_update (\<lambda>r. r\<lparr>r_lastValidRxMs := l_now l1\<rparr>) l1 in
      l_k_update (\<lambda>k. if k_postLockFirstTxDone k \<noteq> 0 \<and> k_postLockFirstTxDone k \<noteq> k_lockedAtMs k
                      then k\<lparr>k_firstPeerResponseSeen := True\<rparr> else k) l2)"

definition onAck_commit :: "u8 \<Rightarrow> u16 \<Rightarrow> Link \<Rightarrow> Link" where
  "onAck_commit acked bytesRecvd l =
     (case ackWalk 0 (gbnBase_' (l_arq l)) acked bytesRecvd l of
        (freed, walkOk, l1) \<Rightarrow>
          let l2 = (if walkOk then l_arq_update (arq_setGbnBase (nextSeq acked)) l1 else l1);
              l3 = l_c_update (\<lambda>c. c\<lparr>c_wireAckAggFreed := c_wireAckAggFreed c + word_of_int freed\<rparr>) l2;
              l4 = l_g_update (\<lambda>g. g\<lparr>g_gbnAttempts := 0, g_gbnBackoffMs := 0, g_gbnLastRetxBase := 0xFF,
                     g_gbnLastResendBase := 0xFF, g_consecutiveKeep := 0\<rparr>) l3 in
          l_arq_update (\<lambda>a. arq_setGbnActive (arq_pendingCount a > 0) a) l4)"

definition onAck :: "u8 \<Rightarrow> u16 \<Rightarrow> Link \<Rightarrow> bool \<times> Link" where
  "onAck acked bytesRecvd l =
     (if l_state l \<noteq> OK then (False, l)
      else
        let l1 = notePeerResponse (l_c_update (\<lambda>c. c\<lparr>c_wireAckAggAcks := c_wireAckAggAcks c + 1\<rparr>) l) in
        if \<not> arq_isPending acked (l_arq l1) then (False, l1)
        else
          let l2 = l_t_update (\<lambda>t. t\<lparr>t_lastAckSeq := acked,
                     t_lastNakSeq := (if t_lastNakSeq t = acked then 0xFF else t_lastNakSeq t)\<rparr>) l1;
              l3 = l_s_update (\<lambda>s. s\<lparr>s_recentDiscs := 0\<rparr>) l2;
              l4 = noteValidFrameOk (l_c_update (\<lambda>c. c\<lparr>c_rxBytes := c_rxBytes c + of_nat RX_ACK_WIRE_BYTES\<rparr>) l3) in
          if cfg_mode (l_cfg l4) = SYNC \<or> \<not> gbnActive_' (l_arq l4)
          then (False, l_cache_update (cache_freeBySeq acked SingleAck)
                  (l_arq_update (arq_onAcked acked bytesRecvd) l4))
          else if idxOf acked (l_arq l4) < 0 then (False, l4)
          else (False, onAck_commit acked bytesRecvd l4))"

subsection \<open>A NAK\<close>

text \<open>A NAK above the base acknowledges everything below it: the walk of the base up to the
  missing number.\<close>

function nakWalk :: "int \<Rightarrow> u8 \<Rightarrow> Link \<Rightarrow> Link" where
  "nakWalk freed missing l =
     (let base = gbnBase_' (l_arq l) in
      if base = missing then l
      else if idxOf base (l_arq l) < 0 \<or> freed + 1 > AUTOLINK_ARQ_PIPELINE_WINDOW then l
      else nakWalk (freed + 1) missing
             (l_arq_update (arq_setGbnBase (nextSeq base)) (ackOne base 0 NakCumulative l)))"
  by pat_completeness auto
termination
  by (relation "measure (\<lambda>(freed, missing, l). nat (AUTOLINK_ARQ_PIPELINE_WINDOW - freed))")
    (auto simp: wire_defs)

declare nakWalk.simps [simp del]

text \<open>The NAK of the base itself: dropped when the slot has been asked for too often or was
  resent within twice the resend's flight time, else the window is resent.\<close>

definition nakDedupMs :: "Link \<Rightarrow> int" where
  "nakDedupMs l = (let w = gbnResendFlightMs l * 2 in if w < 16 then 16 else w)"

definition onNak_base :: "u8 \<Rightarrow> Link \<Rightarrow> Link" where
  "onNak_base missing l =
     (let now = l_now l in
      if arq_nakCountFor missing (l_arq l) > cfg_maxRetx (l_cfg l)
      then l_arq_update (arq_noteSuppressedNak missing) l
      else if g_gbnLastResendBase (l_g l) = missing \<and>
              now - g_gbnLastResendMs (l_g l) < u32_of_int (nakDedupMs l)
      then l_arq_update (arq_noteSuppressedNak missing) l
      else
        let l1 = l_g_update (\<lambda>g. g\<lparr>g_resendSource := SrcNak\<rparr>) l in
        gbnResendWindow now (l_arq_update (arq_onNaked missing now) l1))"

definition onNak :: "u8 \<Rightarrow> Link \<Rightarrow> bool \<times> Link" where
  "onNak missing l =
     (if l_state l \<noteq> OK then (False, l)
      else
        let l1 = notePeerResponse (l_s_update (\<lambda>s. s\<lparr>s_recentDiscs := 0\<rparr>) l) in
        if \<not> arq_isPending missing (l_arq l1) then (False, l1)
        else
          let l2 = l_c_update (\<lambda>c. c\<lparr>c_rxBytes := c_rxBytes c + of_nat RX_NAK_WIRE_BYTES\<rparr>)
                     (l_t_update (\<lambda>t. t\<lparr>t_lastNakSeq := missing\<rparr>) l1) in
          if cfg_mode (l_cfg l2) = SYNC then (False, l_arq_update (arq_noteNakWake missing) l2)
          else
            let l3 = (if gbnActive_' (l_arq l2) \<and> missing \<noteq> gbnBase_' (l_arq l2) \<and> idxOf missing (l_arq l2) \<ge> 0
                      then nakWalk 0 missing l2 else l2) in
            if gbnActive_' (l_arq l3) \<and> missing = gbnBase_' (l_arq l3)
            then (False, onNak_base missing l3)
            else (False, l3))"

definition onFrameError :: "Link \<Rightarrow> bool \<times> Link" where
  "onFrameError l = err_unlocked CrcFail l"

subsection \<open>The framer's listener\<close>

definition link_listener :: "Link listener" where
  "link_listener e l =
     (case (case e of
              OnAck a n \<Rightarrow> onAck a n l
            | OnNak m \<Rightarrow> onNak m l
            | OnPayload s b \<Rightarrow> onPayload s b l
            | OnFrameError \<Rightarrow> onFrameError l) of
        (stop, l') \<Rightarrow> (l', stop))"

definition feedLink :: "bytes \<Rightarrow> Link \<Rightarrow> nat \<times> Link" where
  "feedLink bs l =
     (case feed link_listener bs (r_frameRx (l_r l)) l of
        (c, buf, l') \<Rightarrow> (c, l_r_update (\<lambda>r. r\<lparr>r_frameRx := buf\<rparr>) l'))"

subsection \<open>A control frame\<close>

definition ctrlFrameReady :: "u8 \<Rightarrow> u8 \<Rightarrow> State \<Rightarrow> Link \<Rightarrow> bool \<times> Link" where
  "ctrlFrameReady cs pl cur l = (if cur = SWP then handleSwp cs pl l else (False, l))"

definition processCtrlFrame :: "State \<Rightarrow> Link \<Rightarrow> bool \<times> Link" where
  "processCtrlFrame cur l =
     (let rx = r_rxBuf (l_r l) in
      if crc8 (take (CTRL_FRAME_SIZE - 1) rx) \<noteq> rx ! CTRL_FRAME_CRC_IDX then
        (if l_now l < k_settleUntilMs (l_k l)
         then (False, l_n_update (\<lambda>n. n\<lparr>n_settleDrops := n_settleDrops n + 1\<rparr>) l)
         else err_unlocked CrcFail l)
      else
        let l1 = l_r_update (\<lambda>r. r\<lparr>r_lastValidRxMs := l_now l\<rparr>) l;
            cs = rx ! CTRL_FRAME_SEQ_IDX; pl = rx ! CTRL_FRAME_PAYLOAD_IDX in
        if cur = OK then
          (let l2 = noteValidFrameOk l1 in
           if pl = PING_CMD \<and> s_peerSweepEpochKnown (l_s l2) \<and> cs \<noteq> s_peerSweepEpoch (l_s l2) then
             (let epochDelta = cs - s_peerSweepEpoch (l_s l2);
                  l3 = l_s_update (\<lambda>s. s\<lparr>s_peerSweepEpoch := cs\<rparr>) l2 in
              (True, reset_unlocked True True
                 (if epochDelta \<ge> 1 \<and> epochDelta \<le> 8 then HealthWatchdog else PeerEpochMismatch) l3))
           else if pl = PING_CMD then
             (let l3 = (if \<not> s_peerSweepEpochKnown (l_s l2)
                        then l_s_update (\<lambda>s. s\<lparr>s_peerSweepEpoch := cs, s_peerSweepEpochKnown := True\<rparr>) l2
                        else l2) in
              (False, sendPongAck l3))
           else (False, l2))
        else ctrlFrameReady cs pl cur l1)"

end
