(* ===== verification/LinkStream.thy ===== *)
theory LinkStream
  imports LinkRx
begin

text \<open>
  \<open>Link::onRx\<close> (\<open>link/io/LinkRx.cpp\<close>): a batch of received bytes. A locked link scans it for
  complete 5-byte control frames, keeps an incomplete one at the end of the batch in
  \<open>okCarry_\<close> for the next call, and feeds everything else to the COBS framer; a sweeping link
  assembles control frames byte by byte.

  The outer loop reads the state anew in every round, so that the bytes behind a frame that
  reset the link are read as a sweeping link reads them. It has fuel: every round consumes a
  byte of the batch, so \<open>length data + 1\<close> rounds are enough (\<open>LinkInv.onRx_total\<close>).
\<close>

subsection \<open>A locked link\<close>

definition ctrlHead :: "bytes \<Rightarrow> nat \<Rightarrow> bool" where
  "ctrlHead data i \<longleftrightarrow>
     data ! i = 0xAA \<and> length data - i \<ge> CTRL_FRAME_SIZE \<and> data ! (i + 1) = 0x55"

definition ctrlTail :: "bytes \<Rightarrow> nat \<Rightarrow> bool" where
  "ctrlTail data i \<longleftrightarrow>
     data ! i = 0xAA \<and> length data - i < CTRL_FRAME_SIZE \<and>
     (length data - i < 2 \<or> data ! (i + 1) = 0x55)"

definition slice :: "nat \<Rightarrow> nat \<Rightarrow> bytes \<Rightarrow> bytes" where
  "slice a b data = take (b - a) (drop a data)"

definition feedSlice :: "nat \<Rightarrow> nat \<Rightarrow> bytes \<Rightarrow> Link \<Rightarrow> nat \<times> Link" where
  "feedSlice start i data l = (if i > start then feedLink (slice start i data) l else (0, l))"

definition loadCtrl :: "bytes \<Rightarrow> Link \<Rightarrow> Link" where
  "loadCtrl frame l = l_r_update (\<lambda>r. r\<lparr>r_rxBuf := frame, r_rxIdx := 0\<rparr>) l"

text \<open>The scan: where the bytes not yet fed start, the position, whether a break is due.\<close>

function onRx_scan :: "bytes \<Rightarrow> nat \<Rightarrow> nat \<Rightarrow> bool \<Rightarrow> Link \<Rightarrow> nat \<times> nat \<times> bool \<times> Link" where
  "onRx_scan data start i brk l =
     (if i < length data then
        (if ctrlHead data i then
           (if crc8 (slice i (i + 4) data) = data ! (i + 4) then
              (case feedSlice start i data l of
                 (c, l1) \<Rightarrow>
                   if i > start \<and> l_state l1 \<noteq> OK then (start, start + c, brk, l1)
                   else
                     (case processCtrlFrame OK (loadCtrl (slice i (i + 5) data) l1) of
                        (b, l2) \<Rightarrow> onRx_scan data (i + 5) (i + 5) (brk \<or> b) l2))
            else onRx_scan data start (i + 1) brk l)
         else if ctrlTail data i then
           (case feedSlice start i data l of
              (c, l1) \<Rightarrow>
                if i > start \<and> l_state l1 \<noteq> OK then (start, start + c, brk, l1)
                else (length data, length data, brk,
                      l_r_update (\<lambda>r. r\<lparr>r_okCarry := r_okCarry r @ drop i data\<rparr>) l1))
         else onRx_scan data start (i + 1) brk l)
      else (start, i, brk, l))"
  by pat_completeness auto
termination
  by (relation "measure (\<lambda>(data, start, i, brk, l). length data - i)") auto

declare onRx_scan.simps [simp del]

text \<open>A round ends with: stop the loop, position, break due, link.\<close>

definition onRx_ok :: "bytes \<Rightarrow> nat \<Rightarrow> Link \<Rightarrow> bool \<times> nat \<times> bool \<times> Link" where
  "onRx_ok data i l =
     (case onRx_scan data i i False l of
        (start, i1, brk, l1) \<Rightarrow>
          (case (if i1 > start \<and> l_state l1 = OK
                 then (case feedLink (slice start i1 data) l1 of (c, l2) \<Rightarrow> (start + c, l2))
                 else (i1, l1)) of
             (i2, l2) \<Rightarrow> (False, i2, brk \<or> l_state l2 \<noteq> OK, l2)))"

text \<open>The tail of the last batch, completed with the head of this one.\<close>

definition onRx_carry :: "bytes \<Rightarrow> nat \<Rightarrow> Link \<Rightarrow> bool \<times> nat \<times> bool \<times> Link" where
  "onRx_carry data i l =
     (let n = min (CTRL_FRAME_SIZE - length (r_okCarry (l_r l))) (length data - i);
          carry = r_okCarry (l_r l) @ take n (drop i data); i1 = i + n in
      if length carry < CTRL_FRAME_SIZE
      then (True, i1, False, l_r_update (\<lambda>r. r\<lparr>r_okCarry := carry\<rparr>) l)
      else
        let l1 = l_r_update (\<lambda>r. r\<lparr>r_okCarry := []\<rparr>) l in
        if carry ! 1 = 0x55 \<and> crc8 (take (CTRL_FRAME_SIZE - 1) carry) = carry ! CTRL_FRAME_CRC_IDX
        then (case processCtrlFrame OK (loadCtrl (take CTRL_FRAME_SIZE carry) l1) of
                (b, l2) \<Rightarrow> (False, i1, b, l2))
        else (case feedLink (take CTRL_FRAME_SIZE carry) l1 of
                (c, l2) \<Rightarrow> (False, i1, l_state l2 \<noteq> OK, l2)))"

subsection \<open>A sweeping link\<close>

definition onRx_swp :: "bytes \<Rightarrow> nat \<Rightarrow> Link \<Rightarrow> bool \<times> nat \<times> bool \<times> Link" where
  "onRx_swp data i l =
     (let b = data ! i; idx = r_rxIdx (l_r l) in
      if idx = 0 \<and> b \<noteq> 0xAA then (False, i + 1, False, l)
      else if idx = 1 \<and> b \<noteq> 0x55 then (False, i + 1, False, l_r_update (\<lambda>r. r\<lparr>r_rxIdx := 0\<rparr>) l)
      else
        let l1 = l_r_update (\<lambda>r. r\<lparr>r_rxBuf := (r_rxBuf r)[idx := b], r_rxIdx := idx + 1\<rparr>) l in
        if idx + 1 = CTRL_FRAME_SIZE then
          (case processCtrlFrame (l_state l) (l_r_update (\<lambda>r. r\<lparr>r_rxIdx := 0\<rparr>) l1) of
             (brk, l2) \<Rightarrow> (brk, i + 1, brk, l2))
        else (False, i + 1, False, l1))"

subsection \<open>The batch\<close>

definition onRx_step :: "bytes \<Rightarrow> nat \<Rightarrow> Link \<Rightarrow> bool \<times> nat \<times> bool \<times> Link" where
  "onRx_step data i l =
     (if l_state l = OK
      then (if r_okCarry (l_r l) \<noteq> [] then onRx_carry data i l else onRx_ok data i l)
      else onRx_swp data i l)"

fun onRx_loop :: "nat \<Rightarrow> bytes \<Rightarrow> nat \<Rightarrow> bool \<Rightarrow> Link \<Rightarrow> (bool \<times> Link) option" where
  "onRx_loop 0 data i brk l = None"
| "onRx_loop (Suc fuel) data i brk l =
     (if i < length data then
        (case onRx_step data i l of
           (stop, i', b, l') \<Rightarrow>
             if stop then Some (brk \<or> b, l') else onRx_loop fuel data i' (brk \<or> b) l')
      else Some (brk, l))"

definition onRx :: "bytes \<Rightarrow> Link \<Rightarrow> Link option" where
  "onRx data l =
     (case onRx_loop (length data + 1) data 0 False (l_r_update (\<lambda>r. r\<lparr>r_lastRxMs := l_now l\<rparr>) l) of
        None \<Rightarrow> None
      | Some (brk, l') \<Rightarrow> Some (if brk then hw hal_sendBreak l' else l'))"

end
