(* ===== verification/LinkHealth.thy ===== *)
theory LinkHealth
  imports LinkReset
begin

text \<open>
  The health watchdog of a locked link (\<open>link/timers/LinkHealth.h\<close>): a pure decision on a
  snapshot of the link's clocks and windows.

  The \<open>int\<close> to \<open>uint32_t\<close> comparisons of the source are kept: a window given as an \<open>int\<close> is
  compared as \<open>u32_of_int\<close>.
\<close>

record HealthState =
  hs_rejFirstMs :: u32
  hs_rejLastMs :: u32
  hs_lastRxMs :: u32
  hs_lastTxMs :: u32
  hs_lastAnyRxMs :: u32
  hs_rtoMs :: u32
  hs_pending :: int
  hs_ackRxMs :: u32
  hs_peerStalledMs :: int
  hs_frameErrs :: u64
  hs_poolFull :: bool
  hs_sync :: bool
  hs_isMaster :: bool
  hs_campBudgetMs :: u32
  hs_gbnActive :: bool
  hs_gbnAttempts :: int
  hs_gbnBudgetOpen :: bool

datatype HealthAction =
    Keep | DropTxStall | DropAsymIdle | DropIdle | DropPoolExhaust | DropDeadLink | DropSilentPeer
  | DropPeerBaudMismatch | DropPeerStalled | DropPeerReset

definition healthFastIdleRxMs :: int where "healthFastIdleRxMs = 300"
definition healthFastIdleTxMs :: int where "healthFastIdleTxMs = 1000"

definition healthFastIdleRxMsAtBaud :: "u32 \<Rightarrow> int" where
  "healthFastIdleRxMsAtBaud rtoMs =
     (let fromRto = i32_of_u32 (2 * rtoMs) in
      if fromRto > healthFastIdleRxMs then fromRto else healthFastIdleRxMs)"

definition healthDeadPeerMs :: "int \<Rightarrow> int" where
  "healthDeadPeerMs idleTimeoutMs = 3 * idleTimeoutMs"

definition healthPeerStalledMs :: "u32 \<Rightarrow> int \<Rightarrow> u32 \<Rightarrow> int" where
  "healthPeerStalledMs baud pending backoffFloorMs =
     (let w0 = 2000;
          w1 = (if baud \<noteq> 0 \<and> pending > 0 then
                  (let drain = pending * (250 + 6) * 10 * 1000 div int (unat baud); w = drain * 2 in
                   if w < 2000 then 2000 else w)
                else w0) in
      if i32_of_u32 backoffFloorMs > w1 then i32_of_u32 backoffFloorMs else w1)"

definition decideHealth :: "HealthState \<Rightarrow> u32 \<Rightarrow> int \<Rightarrow> int \<Rightarrow> u32 \<Rightarrow> HealthAction" where
  "decideHealth h now idleTimeoutMs deadPeerMs rtoMs =
     (let idle = u32_of_int idleTimeoutMs;
          rxAge = now - hs_lastRxMs h; txAge = now - hs_lastTxMs h;
          heard = (hs_lastRxMs h \<noteq> 0);
          rxIdleFloor = u32_of_int (healthFastIdleRxMsAtBaud rtoMs) in
      if hs_rejFirstMs h \<noteq> 0 \<and> now - hs_rejFirstMs h > idle \<and> now - hs_rejLastMs h \<le> idle then DropTxStall
      else if hs_pending h > 0 \<and> rxAge > idle \<and> txAge > idle then DropDeadLink
      else if heard \<and> rxAge > u32_of_int deadPeerMs then DropSilentPeer
      else if heard \<and> \<not> hs_sync h \<and> \<not> hs_isMaster h \<and> hs_campBudgetMs h > 0 \<and>
              rxAge > 2 * hs_campBudgetMs h then DropPeerReset
      else if hs_sync h then Keep
      else if heard \<and> rxAge > rxIdleFloor \<and> rxAge > 2 * rtoMs \<and>
              txAge < u32_of_int healthFastIdleTxMs \<and> hs_pending h > 0
      then (if hs_gbnActive h \<and> hs_gbnBudgetOpen h then Keep else DropAsymIdle)
      else if heard \<and> rxAge > idle \<and> txAge > idle \<and> (hs_pending h > 0 \<or> hs_frameErrs h > 0) then DropIdle
      else if heard \<and> hs_poolFull h \<and> hs_pending h > 0 \<and> rxAge > rxIdleFloor \<and> rxAge > 2 * rtoMs
      then DropPoolExhaust
      else if hs_pending h > 0 \<and> hs_ackRxMs h \<noteq> 0 \<and> hs_peerStalledMs h > 0 \<and>
              now - hs_ackRxMs h > u32_of_int (hs_peerStalledMs h) then DropPeerStalled
      else Keep)"

definition shouldEscalatePeerBaudMismatch :: "int \<Rightarrow> int \<Rightarrow> bool" where
  "shouldEscalatePeerBaudMismatch locks threshold = (locks \<ge> threshold)"

end
