(* ===== verification/LinkTimer.thy ===== *)
theory LinkTimer
  imports LinkSwp LinkGbn LinkHealth
begin

text \<open>
  The timer of the link (\<open>link/timers/LinkTimersOk.cpp\<close>) and the break events
  (\<open>link/timers/LinkTimerBreak.cpp\<close>): the health check, the tick of a locked link, the
  dispatch, and the debounce of a break, which resets the link only when it is confirmed.
\<close>

subsection \<open>Health\<close>

definition healthSnapshot :: "Link \<Rightarrow> HealthState" where
  "healthSnapshot l =
     (let rto = rto32 l; pending = arq_pendingCount (l_arq l) in
      \<lparr>hs_rejFirstMs = t_txRejFirstMs (l_t l), hs_rejLastMs = t_txRejLastMs (l_t l),
       hs_lastRxMs = r_lastValidRxMs (l_r l), hs_lastTxMs = t_lastTxMs (l_t l),
       hs_lastAnyRxMs = r_lastRxMs (l_r l), hs_rtoMs = rto, hs_pending = pending,
       hs_ackRxMs = r_lastValidRxMs (l_r l),
       hs_peerStalledMs = healthPeerStalledMs (getCurrentBaud l) pending (g_gbnBackoffMs (l_g l) + rto),
       hs_frameErrs = n_frameErrs (l_n l), hs_poolFull = (\<not> cache_hasRoom (l_cache l)),
       hs_sync = (cfg_mode (l_cfg l) = SYNC), hs_isMaster = l_isMaster l,
       hs_campBudgetMs = resweepPrefBudgetMs l, hs_gbnActive = gbnActive_' (l_arq l),
       hs_gbnAttempts = g_gbnAttempts (l_g l),
       hs_gbnBudgetOpen = (g_gbnAttempts (l_g l) < int (unat (cfg_maxRetx (l_cfg l))))\<rparr>)"

definition healthVerdict :: "u32 \<Rightarrow> Link \<Rightarrow> HealthAction" where
  "healthVerdict now l =
     (let h = healthSnapshot l; idle = cfg_idleTimeoutMs (l_cfg l);
          a = (if idle > 0 then decideHealth h now idle (healthDeadPeerMs idle) (hs_rtoMs h) else Keep);
          fair = (k_lockedAtMs (l_k l) \<noteq> 0 \<and> now - k_lockedAtMs (l_k l) \<ge> fairChanceMs l) in
      if a = Keep \<and> fair \<and>
         shouldEscalatePeerBaudMismatch (s_locksWithoutRecv (l_s l)) kPeerBaudMismatchThreshold
      then DropPeerBaudMismatch else a)"

definition applyHealth :: "u32 \<Rightarrow> Link \<Rightarrow> HealthAction \<times> Link" where
  "applyHealth now l =
     (let a = healthVerdict now l in
      if a = Keep then (a, l)
      else
        let l1 = (if a = DropPeerBaudMismatch
                  then l_p_update (\<lambda>p. p\<lparr>p_preferredBaud := NO_PREFERRED_BAUD, p_resweepPrefPending := False\<rparr>) l
                  else l) in
        (a, reset_unlocked True True HealthWatchdog l1))"

subsection \<open>The tick of a locked link\<close>

definition okTick_wireAgg :: "u32 \<Rightarrow> Link \<Rightarrow> Link" where
  "okTick_wireAgg now l =
     l_c_update (\<lambda>c.
       if c_wireAckAggAcks c > 0 \<and> c_wireAckAggLastMs c \<noteq> 0 \<and> now - c_wireAckAggLastMs c \<ge> WIRE_AGG_WINDOW_MS
       then c\<lparr>c_wireAckAggAcks := 0, c_wireAckAggFreed := 0, c_wireAckAggLastMs := now\<rparr>
       else if c_wireAckAggLastMs c = 0 then c\<lparr>c_wireAckAggLastMs := now\<rparr>
       else c) l"

definition baudUpgradeDue :: "u32 \<Rightarrow> Link \<Rightarrow> bool" where
  "baudUpgradeDue now l \<longleftrightarrow>
     p_baudUpgradeAtMs (l_p l) \<noteq> 0 \<and> i32_of_u32 (now - p_baudUpgradeAtMs (l_p l)) \<ge> 0 \<and>
     p_bestProvenBaud (l_p l) \<noteq> NO_PREFERRED_BAUD \<and>
     (word_of_int (l_spdI l) :: u8) > p_bestProvenBaud (l_p l) \<and>
     p_baudUpgradeAttempts (l_p l) < BAUD_UPGRADE_MAX_ATTEMPTS"

definition okTick_upgrade :: "Link \<Rightarrow> bool \<times> Link" where
  "okTick_upgrade l =
     (let l1 = l_p_update (\<lambda>p. p\<lparr>p_baudUpgradeAtMs := 0, p_baudUpgradeAttempts := p_baudUpgradeAttempts p + 1,
                 p_preferredBaud := p_bestProvenBaud p\<rparr>) l;
          l2 = reset_unlocked False True BaudUpgrade l1 in
      (l_state l2 = SWP, l2))"

text \<open>The idle keepalive: a ping every half idle timeout.\<close>

definition keepalive :: "u32 \<Rightarrow> Link \<Rightarrow> Link" where
  "keepalive now l = l_t_update (\<lambda>t. t\<lparr>t_lastTxMs := now\<rparr>) (sendSweepFrame PING_CMD l)"

text \<open>A break is suspected: confirm it, or poll again, keeping an idle link's keepalive going.\<close>

definition okTick_break :: "u32 \<Rightarrow> Link \<Rightarrow> bool \<times> Link" where
  "okTick_break now l =
     (let confirmMs = breakConfirmMs l; elapsed = now - b_breakSuspectMs (l_b l) in
      if elapsed \<ge> confirmMs then
        (let l1 = l_b_update (\<lambda>b. b\<lparr>b_breakSuspectMs := 0, b_breakSuspectSeen := 0\<rparr>) l;
             l2 = hw hal_flushRxHw (hw hal_flushRxHw (hw hal_clearAppBuf l1)) in
         (True, reset_unlocked True True HealthWatchdog l2))
      else
        let remain = confirmMs - elapsed in
        (case (if cfg_idleTimeoutMs (l_cfg l) > 0 \<and> arq_pendingCount (l_arq l) = 0 then
                 (let half = u32_of_int (cfg_idleTimeoutMs (l_cfg l)) div 2;
                      sinceTx = now - t_lastTxMs (l_t l);
                      due = (sinceTx \<ge> half);
                      l1 = (if due then keepalive now l else l);
                      dueIn = half - (if due then 0 else sinceTx) in
                  (if dueIn < remain then dueIn else remain, l1))
               else (remain, l)) of
           (nextPoll, l1) \<Rightarrow>
             (False, hw (hal_startTimer (i32_of_u32 (if nextPoll < 1 then 1 else nextPoll))) l1)))"

definition okTick_idle :: "u32 \<Rightarrow> Link \<Rightarrow> Link" where
  "okTick_idle now l =
     (let l1 = (if cfg_idleTimeoutMs (l_cfg l) > 0 \<and> arq_pendingCount (l_arq l) = 0 \<and>
                   now - t_lastTxMs (l_t l) > u32_of_int (cfg_idleTimeoutMs (l_cfg l)) div 2
                then keepalive now l else l);
          n0 = u32_of_int (okTickMs l1);
          next = (if g_gbnBackoffMs (l_g l1) > n0 then g_gbnBackoffMs (l_g l1) else n0) in
      hw (hal_startTimer (i32_of_u32 next)) l1)"

definition onTimerOk :: "Link \<Rightarrow> bool \<times> Link" where
  "onTimerOk l =
     (if s_linkPaused (l_s l) then (False, hw (hal_startTimer (okTickMs l)) l)
      else
        let now = l_now l; l1 = okTick_wireAgg now l in
        if baudUpgradeDue now l1 then okTick_upgrade l1
        else if b_breakSuspectMs (l_b l1) \<noteq> 0 then okTick_break now l1
        else
          (case applyHealth now l1 of
             (a, l2) \<Rightarrow>
               if a \<noteq> Keep then (True, l2)
               else
                 (case sweepRetx now l2 of
                    (r, l3) \<Rightarrow> if r then (True, l3) else (False, okTick_idle now l3))))"

subsection \<open>The timer\<close>

text \<open>A break is sent after the lock is given back.\<close>

definition onTimer :: "Link \<Rightarrow> Link" where
  "onTimer l =
     (if b_breakStormPending (l_b l) then
        (let l1 = l_b_update (\<lambda>b. b\<lparr>b_breakStormPending := False, b_breakStormSeen := True\<rparr>) l;
             l2 = reset_unlocked True False PeerBaudMismatch l1 in
         if l_state l2 \<noteq> OK then hw hal_sendBreak l2 else l2)
      else if b_breakConfirmPending (l_b l) then
        (let l1 = l_b_update (\<lambda>b. b\<lparr>b_breakConfirmPending := False\<rparr>) l in
         hw hal_flushRxHw (reset_unlocked True True HealthWatchdog l1))
      else
        (case l_state l of
           OK \<Rightarrow> (case onTimerOk l of (brk, l1) \<Rightarrow> if brk then hw hal_sendBreak l1 else l1)
         | SWP \<Rightarrow> onTimerSwp l))"

subsection \<open>Break events\<close>

text \<open>The first break of a suspicion: when the timer has to look again.\<close>

definition breakArmMs :: "u32 \<Rightarrow> Link \<Rightarrow> u32" where
  "breakArmMs now l =
     (let confirmMs = breakConfirmMs l;
          armMs = (if cfg_idleTimeoutMs (l_cfg l) > 0 \<and> arq_pendingCount (l_arq l) = 0 then
                     (let half = u32_of_int (cfg_idleTimeoutMs (l_cfg l)) div 2;
                          sinceTx = now - t_lastTxMs (l_t l);
                          dueIn = (if sinceTx \<ge> half then 0 else half - sinceTx) in
                      if dueIn < confirmMs then dueIn else confirmMs)
                   else confirmMs) in
      if armMs < 1 then 1 else armMs)"

definition onBreak :: "Link \<Rightarrow> Link" where
  "onBreak l =
     (if h_forceTryLockFail (l_hw l) then l
      else if l_state l \<noteq> OK then hw hal_clearAppBuf l
      else
        let now = l_now l; sus = b_breakSuspectMs (l_b l); confirm = i32_of_u32 (breakConfirmMs l) in
        if sus \<noteq> 0 \<and> now - sus < BREAK_COALESCE_MS then hw (hal_startTimer confirm) l
        else if sus = 0 then
          (let l1 = l_b_update (\<lambda>b. b\<lparr>b_breakSuspectMs := (if now = 0 then 1 else now), b_breakSuspectSeen := 0\<rparr>) l in
           hw (hal_startTimer (i32_of_u32 (breakArmMs now l1))) l1)
        else if b_breakSuspectSeen (l_b l) = 0 then
          hw (hal_startTimer 1)
            (l_b_update (\<lambda>b. b\<lparr>b_breakSuspectMs := 0, b_breakConfirmPending := True\<rparr>) l)
        else hw (hal_startTimer confirm) (l_b_update (\<lambda>b. b\<lparr>b_breakSuspectSeen := 0\<rparr>) l))"

definition onBreakStorm :: "Link \<Rightarrow> Link" where
  "onBreakStorm l =
     (if h_forceTryLockFail (l_hw l) then l
      else l_b_update (\<lambda>b. b\<lparr>b_breakStormPending := True\<rparr>) l)"

end
