(* ===== verification/LinkSend.thy ===== *)
theory LinkSend
  imports LinkGbn
begin

text \<open>
  Sending a message (\<open>link/LinkApi.cpp\<close>, \<open>link/timers/LinkTimersOk.cpp\<close>, \<open>link/io/LinkTx.cpp\<close>):
  the refusals, the rate limiter, the acknowledged SYNC path with its retransmission ladder,
  the ASYNC path over the go-back-N window, and the raw stream \<open>write\<close>.

  Where the code gives the link lock away (\<open>drainTxRing\<close>, \<open>waitForAck\<close>, the gap between two
  chunks), the other tasks run: what they do is the next entry of a list of \<^emph>\<open>windows\<close>. A
  function that needs a window and has none left is \<open>None\<close>.
\<close>

type_synonym windows = "(Link \<Rightarrow> Link) list"

definition link_ctx :: "Link ArqCtx" where
  "link_ctx = \<lparr>ctx_arq = l_arq, ctx_upd = l_arq_update, ctx_now = (\<lambda>l. h_now (l_hw l))\<rparr>"

definition setReason :: "SendMsgReason \<Rightarrow> Link \<Rightarrow> Link" where
  "setReason r l = l_t_update (\<lambda>t. t\<lparr>t_lastSendMsgReason := r\<rparr>) l"

definition notePoolExhaust :: "Link \<Rightarrow> Link" where
  "notePoolExhaust l = l_n_update (\<lambda>n. n\<lparr>n_poolExhaustDrops := n_poolExhaustDrops n + 1\<rparr>) (noteTxReject l)"

text \<open>\<open>txBytes += n; lastTxMs = hw.nowMs();\<close>\<close>

definition noteTx :: "nat \<Rightarrow> Link \<Rightarrow> Link" where
  "noteTx n l =
     l_t_update (\<lambda>t. t\<lparr>t_lastTxMs := l_now l\<rparr>) (l_c_update (\<lambda>c. c\<lparr>c_txBytes := c_txBytes c + of_nat n\<rparr>) l)"

subsection \<open>Waiting for the transmit ring\<close>

text \<open>One round: look at the state and the cache, give the lock away for a millisecond, look at
  the clock.\<close>

fun drain_loop :: "int \<Rightarrow> u32 \<Rightarrow> windows \<Rightarrow> Link \<Rightarrow> (bool \<times> SendMsgReason \<times> Link \<times> windows) option" where
  "drain_loop need deadline ws l =
     (if hal_txAvail (l_hw l) \<ge> need then Some (True, SmNone, l, ws)
      else if l_state l \<noteq> OK then Some (False, SmNotOk, l, ws)
      else if \<not> cache_hasRoom (l_cache l) then Some (False, SmPoolExhaust, notePoolExhaust l, ws)
      else
        (case ws of
           [] \<Rightarrow> None
         | w # ws' \<Rightarrow>
             let l1 = w (hw (hal_delayMs 1) l) in
             if i32_of_u32 (l_now l1 - deadline) \<ge> 0
             then Some (False, SmTxRingStall, noteTxReject (noteRingStall l1), ws')
             else drain_loop need deadline ws' l1))"

declare drain_loop.simps [simp del]

definition drainTxRing :: "int \<Rightarrow> windows \<Rightarrow> Link \<Rightarrow> (bool \<times> SendMsgReason \<times> Link \<times> windows) option" where
  "drainTxRing need0 ws l =
     (let need = (if need0 < kWorstCaseCobsFrame then kWorstCaseCobsFrame else need0) in
      if hal_txAvail (l_hw l) \<ge> need then Some (True, SmNone, l, ws)
      else drain_loop need (l_now l + rto32 l + 1) ws l)"

subsection \<open>The SYNC ladder\<close>

record SyncOp =
  so_seq :: u8
  so_raw :: bytes
  so_attempt :: int
  so_started :: bool
  so_firstStepMs :: u32

definition syncOp_new :: "u8 \<Rightarrow> bytes \<Rightarrow> SyncOp" where
  "syncOp_new seq raw =
     \<lparr>so_seq = seq, so_raw = raw, so_attempt = 0, so_started = False, so_firstStepMs = 0\<rparr>"

definition onSentSync :: "u8 \<Rightarrow> Link \<Rightarrow> Link" where
  "onSentSync seq l = l_arq_update (arq_onSent seq NO_BASE (l_now l) (t_txSeqLap (l_t l))) l"

definition syncRtoStep :: "SyncOp \<Rightarrow> windows \<Rightarrow> Link \<Rightarrow> (bool \<times> SyncOp \<times> Link \<times> windows) option" where
  "syncRtoStep op ws l =
     (let now = l_now l;
          op1 = (if \<not> so_started op then op\<lparr>so_started := True, so_firstStepMs := now\<rparr> else op);
          budgetMs = ucast (cfg_maxRetx (l_cfg l)) * sync32 l in
      if now - so_firstStepMs op1 \<ge> budgetMs then Some (False, op1, l, ws)
      else
        let op2 = op1\<lparr>so_attempt := so_attempt op1 + 1\<rparr> in
        (case drainTxRing 0 ws l of
           None \<Rightarrow> None
         | Some (ok, r, l1, ws1) \<Rightarrow>
             if \<not> ok then Some (False, op2, l1, ws1)
             else
               (case buildAndTxCobsFrame (so_seq op2) (so_raw op2) l1 of
                  (sent, l2) \<Rightarrow>
                    if \<not> sent then Some (False, op2, l2, ws1)
                    else
                      let l3 = onSentSync (so_seq op2) l2 in
                      Some (True, op2, l_t_update (\<lambda>t. t\<lparr>t_lastTxMs := l_now l3\<rparr>) l3, ws1))))"

lemma drain_loop_windows:
  "drain_loop need dl ws l = Some (ok, r, l', ws') \<Longrightarrow> length ws' \<le> length ws"
proof (induction ws arbitrary: l)
  case Nil
  then show ?case by (subst (asm) drain_loop.simps) (auto split: if_splits)
next
  case (Cons w ws)
  then show ?case
    by (subst (asm) drain_loop.simps) (fastforce simp: Let_def split: if_splits)
qed

lemma drainTxRing_windows:
  "drainTxRing need ws l = Some (ok, r, l', ws') \<Longrightarrow> length ws' \<le> length ws"
  by (auto simp: drainTxRing_def Let_def split: if_splits dest: drain_loop_windows)

lemma syncRtoStep_windows:
  "syncRtoStep op ws l = Some (ok, op', l', ws') \<Longrightarrow> length ws' \<le> length ws"
  by (auto simp: syncRtoStep_def Let_def split: if_splits option.splits prod.splits
      dest!: drainTxRing_windows)

lemma waitForAck_loop_windows:
  "waitForAck_loop ctx seq gen dl ws l = Some (r, l', ws') \<Longrightarrow> length ws' < length ws"
proof (induction ws arbitrary: l)
  case (Cons w ws)
  then show ?case by (fastforce simp: Let_def split: if_splits prod.splits)
qed simp

lemma waitForAck_windows:
  "waitForAck ctx seq t ws l = Some (r, l', ws') \<Longrightarrow> length ws' < length ws"
  by (auto simp: waitForAck_def Let_def split: list.splits dest: waitForAck_loop_windows)

text \<open>Wait; on a timeout of a link that is still locked, send the chunk again.\<close>

function syncAwaitAcked :: "SyncOp \<Rightarrow> windows \<Rightarrow> Link \<Rightarrow> (bool \<times> Link \<times> windows) option" where
  "syncAwaitAcked op ws l =
     (case waitForAck link_ctx (so_seq op) (sync32 l) ws l of
        None \<Rightarrow> None
      | Some (True, l1, ws1) \<Rightarrow> Some (True, l1, ws1)
      | Some (False, l1, ws1) \<Rightarrow>
          if l_state l1 \<noteq> OK then Some (False, l1, ws1)
          else
            (case syncRtoStep op ws1 l1 of
               None \<Rightarrow> None
             | Some (False, op2, l2, ws2) \<Rightarrow> Some (False, l2, ws2)
             | Some (True, op2, l2, ws2) \<Rightarrow> syncAwaitAcked op2 ws2 l2))"
  by pat_completeness auto
termination
  by (relation "measure (\<lambda>(op, ws, l). length ws)")
    (auto dest!: waitForAck_windows syncRtoStep_windows)

declare syncAwaitAcked.simps [simp del]

definition onSyncAckTimeout :: "bool \<Rightarrow> Link \<Rightarrow> bool \<times> Link" where
  "onSyncAckTimeout midMessage l =
     (let l1 = noteTxReject l in
      if \<not> midMessage \<or> l_state l1 \<noteq> OK then (False, l1)
      else
        let l2 = reset_unlocked True False HealthWatchdog l1 in (l_state l2 = SWP, l2))"

text \<open>One chunk of a SYNC message up to its ACK. The answers tell apart a chunk that was never
  sent, one that was not acknowledged, and one that was.\<close>

datatype SyncChunk = NotSent | NotAcked | Acked

definition syncChunk :: "bytes \<Rightarrow> nat \<Rightarrow> windows \<Rightarrow> Link \<Rightarrow> (SyncChunk \<times> Link \<times> windows) option" where
  "syncChunk raw txCount ws l =
     (let op = syncOp_new (t_txSeq (l_t l)) raw in
      case drainTxRing 0 ws l of
        None \<Rightarrow> None
      | Some (ok, r, l1, ws1) \<Rightarrow>
          if \<not> ok then Some (NotSent, l1, ws1)
          else
            (case sendCobsFrame raw l1 of
               (sent, l2) \<Rightarrow>
                 if \<not> sent then Some (NotSent, l2, ws1)
                 else
                   (case syncAwaitAcked op ws1 (onSentSync (so_seq op) (noteTx txCount l2)) of
                      None \<Rightarrow> None
                    | Some (a, l3, ws2) \<Rightarrow> Some (if a then Acked else NotAcked, l3, ws2))))"

text \<open>The chunks after the header of a long message.\<close>

function syncBody :: "bytes \<Rightarrow> windows \<Rightarrow> Link \<Rightarrow> (bool \<times> Link \<times> windows) option" where
  "syncBody rest ws l =
     (if rest = [] then Some (True, l, ws)
      else if l_state l \<noteq> OK then Some (False, l, ws)
      else
        let chunk = take (nat MAX_CHUNK) rest in
        (case syncChunk chunk (length chunk) ws l of
           None \<Rightarrow> None
         | Some (Acked, l1, ws1) \<Rightarrow> syncBody (drop (nat MAX_CHUNK) rest) ws1 l1
         | Some (_, l1, ws1) \<Rightarrow> Some (False, setReason SmSyncMidMessageTimeout l1, ws1)))"
  by pat_completeness auto
termination
  by (relation "measure (\<lambda>(rest, ws, l). length rest)") (auto simp: wire_defs)

declare syncBody.simps [simp del]

text \<open>The SYNC branch: success, break due, base sequence number.\<close>

definition sendMsg_sync ::
  "bytes \<Rightarrow> windows \<Rightarrow> Link \<Rightarrow> (bool \<times> bool \<times> u8 \<times> Link \<times> windows) option" where
  "sendMsg_sync b ws l =
     (let seq = t_txSeq (l_t l); hdr = msgHdrEncode (of_nat (length b)) (crc16 b) in
      if int (length b) + MSG_HDR \<le> MAX_CHUNK then
        (case syncChunk (hdr @ b) (length b) ws l of
           None \<Rightarrow> None
         | Some (NotSent, l1, ws1) \<Rightarrow> Some (False, False, 0, setReason SmSyncMidMessageTimeout l1, ws1)
         | Some (NotAcked, l1, ws1) \<Rightarrow>
             (case onSyncAckTimeout False l1 of (brk, l2) \<Rightarrow> Some (False, brk, seq, l2, ws1))
         | Some (Acked, l1, ws1) \<Rightarrow> Some (True, False, seq, l1, ws1))
      else
        (case syncChunk hdr 0 ws l of
           None \<Rightarrow> None
         | Some (NotSent, l1, ws1) \<Rightarrow> Some (False, False, 0, setReason SmSyncMidMessageTimeout l1, ws1)
         | Some (NotAcked, l1, ws1) \<Rightarrow>
             (case onSyncAckTimeout True l1 of (brk, l2) \<Rightarrow> Some (False, brk, seq, l2, ws1))
         | Some (Acked, l1, ws1) \<Rightarrow>
             (case syncBody b ws1 l1 of
                None \<Rightarrow> None
              | Some (ok, l2, ws2) \<Rightarrow> Some (ok, False, seq, l2, ws2))))"

end
