(* ===== verification/LinkApi.thy ===== *)
theory LinkApi
  imports LinkSend
begin

text \<open>
  \<open>sendMsg\<close> and \<open>recvMsg\<close> (\<open>link/LinkApi.cpp\<close>): the refusals in the code's order, the rate
  limiter, the ASYNC loop over the chunks, the result; the raw stream \<open>write\<close>; the reading
  of one message with the resynchronisation after a bad header.

  A refusal of \<open>sendMsg\<close> is an \<open>Inl\<close> with what the caller gets.
\<close>

record SendRet =
  sr_ok :: bool
  sr_base :: u8
  sr_out :: "(u8 \<times> u8) option"

definition refused :: "SendMsgReason \<Rightarrow> Link \<Rightarrow> (SendRet \<times> Link) + Link" where
  "refused r l = Inl (\<lparr>sr_ok = False, sr_base = 0, sr_out = None\<rparr>, setReason r l)"

subsection \<open>Refusals\<close>

definition sendMsg_guards :: "int \<Rightarrow> Link \<Rightarrow> (SendRet \<times> Link) + Link" where
  "sendMsg_guards len l =
     (if len = 0 then Inl (\<lparr>sr_ok = True, sr_base = 0, sr_out = None\<rparr>, setReason SmLengthZero l)
      else if len < 0 \<or> len > int (cfg_maxMsg (l_cfg l)) then refused SmLengthInvalid l
      else
        let chunks = chunksForMsgLen len; async = (cfg_mode (l_cfg l) \<noteq> SYNC) in
        if chunks \<le> 0 \<or> chunks > COBS_SEQ_SPACE then refused SmChunksOverflow l
        else if l_state l \<noteq> OK then refused SmNotOk l
        else if txQuiet l then
          refused SmPostLockQuiet (l_n_update (\<lambda>n. n\<lparr>n_postLockQuietDrops := n_postLockQuietDrops n + 1\<rparr>) l)
        else if async \<and> arq_pendingCount (l_arq l) + chunks > window_' (l_cache l) then
          refused SmGbnWindowFull
            (l_n_update (\<lambda>n. n\<lparr>n_gbnWindowFullDrops := n_gbnWindowFullDrops n + 1\<rparr>) (noteTxReject l))
        else Inr l)"

text \<open>The rate limiter: a debt until \<open>rateNextAllowedMs_\<close>, and a budget of one second of line
  rate per window. \<open>rateDrain\<close> is the credit for the time gone by, \<open>rateRoll\<close> the start of a new
  window.\<close>

definition rateDrain :: "u32 \<Rightarrow> u32 \<Rightarrow> TxSt \<Rightarrow> TxSt" where
  "rateDrain now lineRateBps t =
     (if t_rateWindowStartMs t \<noteq> 0 \<and> i32_of_u32 (now - t_rateWindowStartMs t) > 0 then
        (let elapsedMs = now - t_rateWindowStartMs t;
             drained = (ucast ((ucast elapsedMs :: u64) * ucast lineRateBps div 1000) :: u32) in
         if drained \<ge> t_rateWindowBytes t then t\<lparr>t_rateWindowBytes := 0\<rparr>
         else t\<lparr>t_rateWindowBytes := t_rateWindowBytes t - drained\<rparr>)
      else t)"

definition rateRoll :: "u32 \<Rightarrow> TxSt \<Rightarrow> TxSt" where
  "rateRoll now t =
     (if t_rateNextAllowedMs t \<noteq> 0
      then t\<lparr>t_rateWindowStartMs := now, t_rateWindowBytes := 0, t_rateNextAllowedMs := 0\<rparr>
      else if now - t_rateWindowStartMs t \<ge> RATE_WINDOW_MS
      then t\<lparr>t_rateWindowStartMs := now, t_rateWindowBytes := 0\<rparr>
      else t)"

definition rateRefused :: "Link \<Rightarrow> (SendRet \<times> Link) + Link" where
  "rateRefused l =
     refused SmRateLimited (l_n_update (\<lambda>n. n\<lparr>n_rateLimitedCount := n_rateLimitedCount n + 1\<rparr>) l)"

definition sendMsg_rate :: "int \<Rightarrow> Link \<Rightarrow> (SendRet \<times> Link) + Link" where
  "sendMsg_rate len l =
     (let b = l_baud (l_spdI l) l in
      if b > 0 \<and> l_spdI l \<ge> 0 \<and> l_spdI l < cfg_allowedBaudsCount (l_cfg l) then
        (let now = l_now l; lineRateBps = b div 10 in
         if i32_of_u32 (now - t_rateNextAllowedMs (l_t l)) < 0 then rateRefused l
         else
           let l1 = l_t_update (\<lambda>t. rateRoll now (rateDrain now lineRateBps t)) l; n = u32_of_int len in
           if n > lineRateBps then
             Inr (l_t_update (\<lambda>t. t\<lparr>t_rateNextAllowedMs :=
                    now + ((n + lineRateBps - 1) div lineRateBps) * RATE_WINDOW_MS\<rparr>) l1)
           else if t_rateWindowBytes (l_t l1) + n > lineRateBps then rateRefused l1
           else Inr (l_t_update (\<lambda>t. t\<lparr>t_rateWindowBytes := t_rateWindowBytes t + n\<rparr>) l1))
      else Inr l)"

definition noteFirstTx :: "Link \<Rightarrow> Link" where
  "noteFirstTx l =
     (if k_postLockFirstTxDone (l_k l) = k_lockedAtMs (l_k l) \<and> k_lockedAtMs (l_k l) \<noteq> 0
      then l_k_update (\<lambda>k. k\<lparr>k_postLockFirstTxDone := l_now l\<rparr>) l else l)"

subsection \<open>The ASYNC branch\<close>

lemma drain_loop_avail:
  "drain_loop need dl ws l = Some (True, r, l', ws') \<Longrightarrow> need \<le> hal_txAvail (l_hw l')"
proof (induction ws arbitrary: l)
  case Nil
  then show ?case by (subst (asm) drain_loop.simps) (auto split: if_splits)
next
  case (Cons w ws)
  then show ?case
    by (subst (asm) drain_loop.simps) (fastforce simp: Let_def split: if_splits)
qed

lemma drainTxRing_avail:
  "drainTxRing need ws l = Some (True, r, l', ws') \<Longrightarrow> kWorstCaseCobsFrame \<le> hal_txAvail (l_hw l')"
  by (auto simp: drainTxRing_def Let_def split: if_splits dest: drain_loop_avail)

lemma rest_shorter:
  "rest \<noteq> [] \<Longrightarrow> Suc 0 < 2 * length rest"
  "rest \<noteq> [] \<Longrightarrow> Suc (2 * (length rest - 250)) < 2 * length rest"
  by (cases rest, auto)+

text \<open>The chunks after the header. A round either waits for the ring and starts again or sends
  one chunk and, between two chunks, gives the lock away for the inter-chunk gap.\<close>

function asyncBody :: "u8 \<Rightarrow> bytes \<Rightarrow> windows \<Rightarrow> Link \<Rightarrow> (bool \<times> Link \<times> windows) option" where
  "asyncBody baseSeq rest ws l =
     (if rest = [] then Some (True, l, ws)
      else if l_state l \<noteq> OK then Some (False, l, ws)
      else if \<not> cache_hasRoom (l_cache l) then Some (False, setReason SmPoolExhaust (notePoolExhaust l), ws)
      else if hal_txAvail (l_hw l) < kWorstCaseCobsFrame then
        (case drainTxRing 0 ws l of
           None \<Rightarrow> None
         | Some (True, r, l1, ws1) \<Rightarrow> asyncBody baseSeq rest ws1 l1
         | Some (False, r, l1, ws1) \<Rightarrow> Some (False, if r \<noteq> SmNone then setReason r l1 else l1, ws1))
      else
        let chunk = take (nat MAX_CHUNK) rest; rest' = drop (nat MAX_CHUNK) rest in
        (case sendCobsFrameAcked chunk baseSeq l of
           (chunkSeq, l1) \<Rightarrow>
             if chunkSeq = 0xFF then Some (False, setReason SmPoolExhaust (notePoolExhaust l1), ws)
             else
               let l2 = noteTx (length chunk) l1; gap = interChunkGapMs l2 in
               if rest' \<noteq> [] \<and> gap > 0 then
                 (case ws of
                    [] \<Rightarrow> None
                  | w # ws1 \<Rightarrow>
                      let l3 = w (hw (hal_delayUs (u32_of_int gap * 1000)) l2) in
                      if l_state l3 \<noteq> OK then Some (False, l3, ws1)
                      else asyncBody baseSeq rest' ws1 l3)
               else asyncBody baseSeq rest' ws l2))"
  by pat_completeness auto
termination
  by (relation "measure (\<lambda>(s, rest, ws, l). 2 * length rest +
        (if hal_txAvail (l_hw l) < kWorstCaseCobsFrame then 1 else 0))")
    (auto simp: wire_defs rest_shorter split: if_splits dest!: drainTxRing_avail)

declare asyncBody.simps [simp del]

text \<open>An early return is an \<open>Inl\<close>.\<close>

definition sendMsg_async ::
  "bytes \<Rightarrow> windows \<Rightarrow> Link \<Rightarrow> ((SendRet \<times> Link) + (bool \<times> u8 \<times> Link \<times> windows)) option" where
  "sendMsg_async b ws l =
     (let hdr = msgHdrEncode (of_nat (length b)) (crc16 b); chunks = chunksForMsgLen (int (length b));
          early = (\<lambda>r l. Some (Inl (\<lparr>sr_ok = False, sr_base = 0, sr_out = None\<rparr>, setReason r l))) in
      if int (length b) + MSG_HDR \<le> MAX_CHUNK then
        (case sendCobsFrameAcked (hdr @ b) NO_BASE l of
           (baseSeq, l1) \<Rightarrow>
             if baseSeq = 0xFF then early SmPoolExhaust (notePoolExhaust l1)
             else Some (Inr (True, baseSeq, noteTx (length b) l1, ws)))
      else if hal_txAvail (l_hw l) < kWorstCaseCobsFrame then early SmTxRingStall (noteRingStall l)
      else if cache_freeRoom (l_cache l) < chunks then early SmPoolExhaust (notePoolExhaust l)
      else
        (case sendCobsFrameAcked hdr NO_BASE l of
           (baseSeq, l1) \<Rightarrow>
             if baseSeq = 0xFF then early SmPoolExhaust (noteTxReject l1)
             else
               (case asyncBody baseSeq b ws l1 of
                  None \<Rightarrow> None
                | Some (ok, l2, ws1) \<Rightarrow> Some (Inr (ok, baseSeq, l2, ws1)))))"

subsection \<open>The call\<close>

definition sendMsg_finish :: "bool \<Rightarrow> bool \<Rightarrow> u8 \<Rightarrow> Link \<Rightarrow> SendRet \<times> Link" where
  "sendMsg_finish ok brk baseSeq l =
     (let l1 = (if ok then l_t_update (\<lambda>t. t\<lparr>t_txRejFirstMs := 0, t_txRejLastMs := 0\<rparr>) l else l);
          l2 = (if ok \<or> t_lastSendMsgReason (l_t l1) = SmOk
                then setReason (if ok then SmOk else SmNotOk) l1 else l1);
          l3 = (if brk then hw hal_sendBreak l2 else l2) in
      (\<lparr>sr_ok = ok, sr_base = baseSeq, sr_out = Some (baseSeq, t_txSeqLap (l_t l3))\<rparr>, l3))"

definition sendMsg :: "bytes \<Rightarrow> int \<Rightarrow> windows \<Rightarrow> Link \<Rightarrow> (SendRet \<times> Link) option" where
  "sendMsg b len ws l =
     (case sendMsg_guards len l of
        Inl r \<Rightarrow> Some r
      | Inr l1 \<Rightarrow>
          (case sendMsg_rate len l1 of
             Inl r \<Rightarrow> Some r
           | Inr l2 \<Rightarrow>
               let msg = take (nat len) b; l3 = noteFirstTx l2 in
               if cfg_mode (l_cfg l3) = SYNC then
                 (case sendMsg_sync msg ws l3 of
                    None \<Rightarrow> None
                  | Some (ok, brk, baseSeq, l4, ws1) \<Rightarrow> Some (sendMsg_finish ok brk baseSeq l4))
               else
                 (case sendMsg_async msg ws l3 of
                    None \<Rightarrow> None
                  | Some (Inl r) \<Rightarrow> Some r
                  | Some (Inr (ok, baseSeq, l4, ws1)) \<Rightarrow> Some (sendMsg_finish ok False baseSeq l4))))"

subsection \<open>The raw stream\<close>

text \<open>The answer of \<open>sendCobsFrame\<close> is not looked at.\<close>

function sendRaw :: "bytes \<Rightarrow> Link \<Rightarrow> int \<times> Link" where
  "sendRaw rest l =
     (if rest = [] \<or> l_state l \<noteq> OK then (0, l)
      else
        let chunk = take (nat MAX_CHUNK) rest; rest' = drop (nat MAX_CHUNK) rest;
            l1 = noteTx (length chunk) (snd (sendCobsFrame chunk l));
            gap = interChunkGapMs l1;
            l2 = (if rest' \<noteq> [] \<and> gap > 0 then hw (hal_delayUs (u32_of_int gap * 1000)) l1 else l1) in
        (case sendRaw rest' l2 of (n, l3) \<Rightarrow> (int (length chunk) + n, l3)))"
  by pat_completeness auto
termination
  by (relation "measure (\<lambda>(rest, l). length rest)") (auto simp: wire_defs)

declare sendRaw.simps [simp del]

definition sendMsg_unlocked :: "bytes \<Rightarrow> Link \<Rightarrow> int \<times> Link" where
  "sendMsg_unlocked b l =
     (if l_state l \<noteq> OK then (0, l) else if txQuiet l then (0, l) else sendRaw b l)"

definition link_write :: "bytes \<Rightarrow> int \<Rightarrow> Link \<Rightarrow> int \<times> Link" where
  "link_write b len l = (if len \<le> 0 then (0, l) else sendMsg_unlocked (take (nat len) b) l)"

text \<open>\<open>buildAndSendMsg\<close>: header and chunks without acknowledgement; the last number used.\<close>

function sendChunks :: "bytes \<Rightarrow> u8 \<Rightarrow> Link \<Rightarrow> u8 \<times> Link" where
  "sendChunks rest lastSeq l =
     (if rest = [] then (lastSeq, l)
      else
        let chunk = take (nat MAX_CHUNK) rest in
        sendChunks (drop (nat MAX_CHUNK) rest) (t_txSeq (l_t l))
          (noteTx (length chunk) (snd (sendCobsFrame chunk l))))"
  by pat_completeness auto
termination
  by (relation "measure (\<lambda>(rest, s, l). length rest)") (auto simp: wire_defs)

declare sendChunks.simps [simp del]

definition buildAndSendMsg :: "bytes \<Rightarrow> Link \<Rightarrow> u8 \<times> Link" where
  "buildAndSendMsg b l =
     (let hdr = msgHdrEncode (of_nat (length b)) (crc16 b); seq = t_txSeq (l_t l) in
      if int (length b) + MSG_HDR \<le> MAX_CHUNK
      then (seq, noteTx (length b) (snd (sendCobsFrame (hdr @ b) l)))
      else sendChunks b seq (noteTx 0 (snd (sendCobsFrame hdr l))))"

subsection \<open>Reading\<close>

function readStream :: "int \<Rightarrow> Hal \<Rightarrow> bytes \<times> Hal" where
  "readStream n h =
     (if n > 0 then
        (case hal_popAppBuf n h of
           (bs, h1) \<Rightarrow>
             if bs = [] then ([], h1)
             else (case readStream (n - int (length bs)) h1 of (cs, h2) \<Rightarrow> (bs @ cs, h2)))
      else ([], h))"
  by pat_completeness auto
termination
  by (relation "measure (\<lambda>(n, h). nat n)") (auto simp: hal_popAppBuf_def)

declare readStream.simps [simp del]

definition link_readStream :: "int \<Rightarrow> Link \<Rightarrow> bytes \<times> Link" where
  "link_readStream n l = (case readStream n (l_hw l) of (bs, h) \<Rightarrow> (bs, l_hw_update (\<lambda>_. h) l))"

text \<open>\<open>findMsgHeaderResync\<close>; the scratch buffer is taken to be allocated.\<close>

definition findMsgHeaderResync :: "int \<Rightarrow> Link \<Rightarrow> int \<times> Link" where
  "findMsgHeaderResync max_scan l =
     (let avail = hal_appBufAvailable (l_hw l) in
      if avail < MSG_HDR then (-1, l)
      else
        let scan = (if max_scan > 0 \<and> max_scan < avail then max_scan else avail);
            snapLen = (if scan + MSG_HDR > avail then avail else scan + MSG_HDR) in
        (case hal_popAppBuf snapLen (l_hw l) of
           (snap, h) \<Rightarrow>
             let d = msgResyncScan snap (of_nat (cfg_maxMsg (l_cfg l))) in
             if d \<ge> 0 then (d, l_hw_update (\<lambda>_. snd (hal_pushAppBuf (drop (nat d) snap) h)) l)
             else (avail, l_c_update (\<lambda>c. c\<lparr>c_resyncDroppedBytes := c_resyncDroppedBytes c + word_of_int avail\<rparr>)
                     (l_hw_update (\<lambda>_. hal_clearAppBuf h) l))))"

text \<open>The loop that throws an over-long message away. Without bytes to read it does not end,
  which is \<open>None\<close>.\<close>

function sinkLoop :: "int \<Rightarrow> Link \<Rightarrow> Link option" where
  "sinkLoop left l =
     (if left > 0 then
        (case link_readStream (min left 256) l of
           (bs, l1) \<Rightarrow> if bs = [] then None else sinkLoop (left - int (length bs)) l1)
      else Some l)"
  by pat_completeness auto
termination
  by (relation "measure (\<lambda>(left, l). nat left)") auto

declare sinkLoop.simps [simp del]

definition recvStaleLimitMs :: "Link \<Rightarrow> u32" where
  "recvStaleLimitMs l =
     (let syncFloor = 2 * sync32 l;
          asyncFloor = ucast (cfg_maxRetx (l_cfg l)) * rto32 l + gbnBackoffCapMs l in
      if asyncFloor > syncFloor then asyncFloor else syncFloor)"

definition noteBadHeader :: "Link \<Rightarrow> Link" where
  "noteBadHeader l =
     l_e_update (\<lambda>e. if e_lastBadHeaderLogMs e = 0 \<or> l_now l - e_lastBadHeaderLogMs e \<ge> 1000
                     then e\<lparr>e_lastBadHeaderLogMs := l_now l\<rparr> else e) l"

definition resyncAll :: "Link \<Rightarrow> Link" where
  "resyncAll l = snd (findMsgHeaderResync (int (cfg_maxMsg (l_cfg l)) + MSG_HDR) l)"

text \<open>The header: \<open>Inl\<close> ends the call.\<close>

definition recvMsg_header :: "Link \<Rightarrow> (int \<times> Link) + Link" where
  "recvMsg_header l =
     (if codec_inMsg (r_msgRx (l_r l)) then Inr l
      else if hal_appBufAvailable (l_hw l) < MSG_HDR then Inl (0, l)
      else
        (case link_readStream MSG_HDR l of
           (h, l1) \<Rightarrow>
             (case codec_beginMsg h (of_nat (cfg_maxMsg (l_cfg l1))) (r_msgRx (l_r l1)) of
                (ok, codec) \<Rightarrow>
                  let l2 = l_r_update (\<lambda>r. r\<lparr>r_msgRx := codec\<rparr>) l1 in
                  if \<not> ok then Inl (-1, err BadHeader (noteBadHeader (resyncAll l2)))
                  else Inr (l_r_update (\<lambda>r. r\<lparr>r_msgRxStartedMs := l_now l2\<rparr>) l2))))"

definition recvMsg_body :: "int \<Rightarrow> Link \<Rightarrow> (int \<times> bytes \<times> Link) option" where
  "recvMsg_body max_len l =
     (let len = len_' (r_msgRx (l_r l)); expCrc = crc_' (r_msgRx (l_r l)) in
      if hal_appBufAvailable (l_hw l) < len then Some (0, [], l)
      else
        let l1 = msgRx_reset l in
        if len > max_len then
          (case sinkLoop len l1 of None \<Rightarrow> None | Some l2 \<Rightarrow> Some (-1, [], err OverLen l2))
        else
          (case link_readStream len l1 of
             (out, l2) \<Rightarrow>
               if crc16 out = expCrc
               then Some (len, out, l_s_update (\<lambda>s. s\<lparr>s_locksWithoutRecv := 0, s_recentDiscs := 0\<rparr>) l2)
               else Some (-1, out, err CrcFail l2)))"

text \<open>The answer, the bytes written to the caller's buffer, the link.\<close>

definition recvMsg :: "int \<Rightarrow> Link \<Rightarrow> (int \<times> bytes \<times> Link) option" where
  "recvMsg max_len l =
     (if codec_inMsg (r_msgRx (l_r l)) \<and> r_msgRxStartedMs (l_r l) \<noteq> 0 \<and>
         l_now l - r_msgRxStartedMs (l_r l) > recvStaleLimitMs l
      then Some (-1, [], err BadHeader (resyncAll (msgRx_reset l)))
      else
        (case recvMsg_header l of
           Inl (n, l1) \<Rightarrow> Some (n, [], l1)
         | Inr l1 \<Rightarrow> recvMsg_body max_len l1))"

end
