(* ===== verification/LinkInv.thy ===== *)
theory LinkInv
  imports LinkStream LinkTimer LinkApi
begin

text \<open>
  The invariant of a link and its preservation by every operation: the bounded buffers stay
  within their bounds, the retransmission cache stays a map, the sequence numbers stay within
  the wire's 254, and the error and reset totals are the sums of their parts.
\<close>

subsection \<open>The invariant\<close>

definition hal_inv :: "Hal \<Rightarrow> bool" where
  "hal_inv h \<longleftrightarrow> length (h_txBuf h) \<le> h_txCap h \<and>
     (case h_appBufCap h of None \<Rightarrow> True | Some cap \<Rightarrow> length (h_appBuf h) \<le> cap)"

definition rx_inv :: "nat \<Rightarrow> RxSt \<Rightarrow> bool" where
  "rx_inv cb r \<longleftrightarrow> length (r_rxBuf r) = CTRL_FRAME_SIZE \<and> r_rxIdx r < CTRL_FRAME_SIZE \<and>
     length (r_okCarry r) \<le> cb \<and> length (r_frameRx r) \<le> 256"

definition reset_reasons :: "ResetReason list" where
  "reset_reasons = [Kickoff, UserDropLink, ErrThreshold, ErrRate, HealthWatchdog, GbnMaxRetx,
     GbnKeepRescue, PeerEpochMismatch, PeerBaudMismatch, BaudUpgrade]"

definition cnt_inv :: "DropCnt \<Rightarrow> bool" where
  "cnt_inv n \<longleftrightarrow> n_frameErrs n = n_badHeaderErrs n + n_overLenErrs n + n_crcFailErrs n \<and>
     n_resetCount n = sum_list (map (n_resetReasonCounts n) reset_reasons)"

definition seq_ok :: "u8 \<Rightarrow> bool" where
  "seq_ok s \<longleftrightarrow> s \<le> COBS_SEQ_MAX"

definition linv :: "nat \<Rightarrow> Link \<Rightarrow> bool" where
  "linv cb l \<longleftrightarrow> hal_inv (l_hw l) \<and> cache_inv (l_cache l) \<and> rx_inv cb (l_r l) \<and>
     seq_ok (t_txSeq (l_t l)) \<and> seq_ok (gbnBase_' (l_arq l)) \<and> cnt_inv (l_n l)"

definition link_inv :: "Link \<Rightarrow> bool" where
  "link_inv l = linv 4 l"

named_theorems inv_simps

lemma seq_ok_inc [inv_simps]: "seq_ok s \<Longrightarrow> s \<noteq> COBS_SEQ_MAX \<Longrightarrow> seq_ok (s + 1)"
  unfolding seq_ok_def by (metis inc_le order_le_imp_less_or_eq)

lemma seq_ok_0 [inv_simps]: "seq_ok 0"
  by (simp add: seq_ok_def wire_defs)

lemma seq_ok_next [inv_simps]: "seq_ok s \<Longrightarrow> seq_ok (nextSeq s)"
  by (simp add: nextSeq_def seq_ok_inc seq_ok_0)

subsection \<open>Updates of one group\<close>

lemma cnt_inv_other [inv_simps]:
  "cnt_inv (n\<lparr>n_discCount := v\<rparr>) = cnt_inv n" "cnt_inv (n\<lparr>n_droppedChunksOnReset := v\<rparr>) = cnt_inv n"
  "cnt_inv (n\<lparr>n_postLockQuietDrops := v\<rparr>) = cnt_inv n" "cnt_inv (n\<lparr>n_rateLimitedCount := v\<rparr>) = cnt_inv n"
  "cnt_inv (n\<lparr>n_txRingStallDrops := v\<rparr>) = cnt_inv n" "cnt_inv (n\<lparr>n_gbnWindowFullDrops := v\<rparr>) = cnt_inv n"
  "cnt_inv (n\<lparr>n_poolExhaustDrops := v\<rparr>) = cnt_inv n" "cnt_inv (n\<lparr>n_settleDrops := v\<rparr>) = cnt_inv n"
  by (simp_all add: cnt_inv_def)

lemma cnt_inv_reset [inv_simps]:
  assumes "cnt_inv n"
  shows "cnt_inv (n\<lparr>n_resetReasonCounts := (n_resetReasonCounts n)(r := n_resetReasonCounts n r + 1),
    n_resetCount := n_resetCount n + 1, n_lastResetReason := r\<rparr>)"
  using assms by (cases r) (simp_all add: cnt_inv_def reset_reasons_def)

lemma cnt_inv_err [inv_simps]: "cnt_inv n \<Longrightarrow> cnt_inv (countFrameErr cause n)"
  by (cases cause) (simp_all add: cnt_inv_def countFrameErr_def Let_def)

lemma hal_inv_ops [inv_simps]:
  assumes "hal_inv h"
  shows "hal_inv (hal_tx b h)" "hal_inv (hal_setSpd s h)" "hal_inv (hal_sendBreak h)"
    "hal_inv (hal_discardTx h)" "hal_inv (hal_startTimer ms h)" "hal_inv (hal_delayMs ms h)"
    "hal_inv (hal_delayUs us h)" "hal_inv (hal_clearAppBuf h)" "hal_inv (hal_flushRxHw h)"
    "hal_inv (hal_setOkState ok h)" "hal_inv (snd (hal_pushAppBuf b h))"
    "hal_inv (snd (hal_popAppBuf n h))" "hal_inv (snd (readStream m h))"
proof -
  have pop: "hal_inv (snd (hal_popAppBuf n h))" if "hal_inv h" for n h
    using that by (auto simp: hal_inv_def hal_popAppBuf_def split: option.splits)
  then show "hal_inv (snd (hal_popAppBuf n h))" using assms .
  show "hal_inv (snd (readStream m h))"
    using assms
  proof (induction m h rule: readStream.induct)
    case (1 n h)
    then show ?case
      using pop [OF 1(2), of n] by (subst readStream.simps) (auto split: prod.splits)
  qed
  show "hal_inv (hal_tx b h)"
    using assms by (auto simp: hal_inv_def hal_tx_def Let_def split: option.splits)
  show "hal_inv (snd (hal_pushAppBuf b h))"
    using assms by (auto simp: hal_inv_def hal_pushAppBuf_def hal_appRoom_def Let_def split: option.splits)
qed (use assms in \<open>simp_all add: hal_inv_def hal_setSpd_def hal_sendBreak_def hal_discardTx_def
  hal_startTimer_def hal_delayMs_def hal_delayUs_def hal_clearAppBuf_def hal_flushRxHw_def
  hal_setOkState_def Let_def split: option.splits\<close>)

lemma arq_base_ops [inv_simps]:
  "gbnBase_' (arq_onSent s b now lap a) = gbnBase_' a" "gbnBase_' (arq_onAcked s n a) = gbnBase_' a"
  "gbnBase_' (arq_onNaked s now a) = gbnBase_' a" "gbnBase_' (arq_applyRetx s now rto a) = gbnBase_' a"
  "gbnBase_' (arq_rearmSlot s now a) = gbnBase_' a" "gbnBase_' (arq_setGbnActive v a) = gbnBase_' a"
  "gbnBase_' (arq_setGbnBase s a) = s" "gbnBase_' (arq_clearAll a) = 0"
  "gbnBase_' (arq_noteSuppressedNak s a) = gbnBase_' a" "gbnBase_' (arq_noteNakWake s a) = gbnBase_' a"
  "gbnBase_' (arq_giveUp s a) = gbnBase_' a"
  by (simp_all add: arq_onSent_def arq_onAcked_def arq_onNaked_def arq_applyRetx_def arq_rearmSlot_def
      arq_setGbnActive_def arq_setGbnBase_def arq_clearAll_def arq_noteSuppressedNak_def
      arq_noteNakWake_def arq_giveUp_def Let_def)

lemmas cache_ops_inv [inv_simps] = acache.inv_free acache.inv_clear cache_inv_setWindow

lemma sendCobsFrame_frame:
  "l_cache (snd (sendCobsFrame b l)) = l_cache l"
  "l_arq (snd (sendCobsFrame b l)) = l_arq l"
  "l_state (snd (sendCobsFrame b l)) = l_state l"
  by (simp_all add: sendCobsFrame_def buildAndTxCobsFrame_def noteTxReject_def noteRingStall_def Let_def)

lemma ackOne_base [simp]: "gbnBase_' (l_arq (ackOne s n cause l)) = gbnBase_' (l_arq l)"
  by (simp add: ackOne_def inv_simps Let_def)

lemma feedLink_progress: "bs \<noteq> [] \<Longrightarrow> 0 < fst (feedLink bs l)"
  using feed_loop_progress [of bs 0 link_listener "r_frameRx (l_r l)" l]
  by (simp add: feedLink_def feed_def split_beta)

lemma slice_nonempty: "a < b \<Longrightarrow> a < length data \<Longrightarrow> slice a b data \<noteq> []"
  by (simp add: slice_def)

lemma ctrlHead_slice: "ctrlHead data i \<Longrightarrow> length (slice i (i + 5) data) = CTRL_FRAME_SIZE"
  by (auto simp: ctrlHead_def slice_def CTRL_FRAME_SIZE_def)

subsection \<open>The contract of an operation\<close>

text \<open>The invariant has a bound on the control-frame bytes kept from the last batch: four
  between two batches, none while a batch of a locked link is scanned. Every lemma is proved
  for both at once, for a fixed bound.\<close>

locale carry_bound =
  fixes cb :: nat
  assumes cb_lt: "cb < CTRL_FRAME_SIZE"
begin

lemma link_inv_other [inv_simps]:
  "linv cb (l_s_update fs l) = linv cb l" "linv cb (l_p_update fp l) = linv cb l"
  "linv cb (l_k_update fk l) = linv cb l" "linv cb (l_b_update fb l) = linv cb l"
  "linv cb (l_g_update fg l) = linv cb l" "linv cb (l_e_update fe l) = linv cb l"
  "linv cb (l_c_update fc l) = linv cb l" "linv cb (l_sweep_update fw l) = linv cb l"
  "linv cb (l_baudSweep_update fv l) = linv cb l" "linv cb (l_cfg_update fx l) = linv cb l"
  by (simp_all add: linv_def)

lemma link_inv_parts [inv_simps]:
  assumes "linv cb l"
  shows "hal_inv (l_hw l)" "cache_inv (l_cache l)" "rx_inv cb (l_r l)" "seq_ok (t_txSeq (l_t l))"
    "seq_ok (gbnBase_' (l_arq l))" "cnt_inv (l_n l)"
  using assms by (simp_all add: linv_def)

lemma link_inv_upd [inv_simps]:
  "linv cb l \<Longrightarrow> hal_inv (fh (l_hw l)) \<Longrightarrow> linv cb (l_hw_update fh l)"
  "linv cb l \<Longrightarrow> cache_inv (fc (l_cache l)) \<Longrightarrow> linv cb (l_cache_update fc l)"
  "linv cb l \<Longrightarrow> rx_inv cb (fr (l_r l)) \<Longrightarrow> linv cb (l_r_update fr l)"
  "linv cb l \<Longrightarrow> seq_ok (t_txSeq (ft (l_t l))) \<Longrightarrow> linv cb (l_t_update ft l)"
  "linv cb l \<Longrightarrow> seq_ok (gbnBase_' (fa (l_arq l))) \<Longrightarrow> linv cb (l_arq_update fa l)"
  "linv cb l \<Longrightarrow> cnt_inv (fn (l_n l)) \<Longrightarrow> linv cb (l_n_update fn l)"
  by (simp_all add: linv_def)

lemma rx_inv_other [inv_simps]:
  "rx_inv cb (r\<lparr>r_lastRxMs := t\<rparr>) = rx_inv cb r" "rx_inv cb (r\<lparr>r_lastValidRxMs := t\<rparr>) = rx_inv cb r"
  "rx_inv cb (r\<lparr>r_msgRx := m\<rparr>) = rx_inv cb r" "rx_inv cb (r\<lparr>r_msgRxStartedMs := t\<rparr>) = rx_inv cb r"
  "rx_inv cb (r\<lparr>r_rxSeqSet := v\<rparr>) = rx_inv cb r" "rx_inv cb (r\<lparr>r_rxSeq := s\<rparr>) = rx_inv cb r"
  "rx_inv cb (r\<lparr>r_rxSeqWrap := s\<rparr>) = rx_inv cb r" "rx_inv cb (r\<lparr>r_lastRxSeq := s\<rparr>) = rx_inv cb r"
  "rx_inv cb (r\<lparr>r_holdNakActive := v\<rparr>) = rx_inv cb r" "rx_inv cb (r\<lparr>r_holdNakSeq := s\<rparr>) = rx_inv cb r"
  "rx_inv cb (r\<lparr>r_holdNakWrap := s\<rparr>) = rx_inv cb r" "rx_inv cb (r\<lparr>r_holdNakFreeAtSet := f\<rparr>) = rx_inv cb r"
  "rx_inv cb (r\<lparr>r_holdNakLastMs := t\<rparr>) = rx_inv cb r"
  by (simp_all add: rx_inv_def)

lemma rx_inv_buffers [inv_simps]:
  "rx_inv cb r \<Longrightarrow> rx_inv cb (r\<lparr>r_okCarry := c\<rparr>) \<longleftrightarrow> length c \<le> cb"
  "rx_inv cb r \<Longrightarrow> rx_inv cb (r\<lparr>r_frameRx := b\<rparr>) \<longleftrightarrow> length b \<le> 256"
  "rx_inv cb r \<Longrightarrow> rx_inv cb (r\<lparr>r_rxIdx := 0\<rparr>)"
  "rx_inv cb r \<Longrightarrow> rx_inv cb (r\<lparr>r_rxBuf := x\<rparr>) \<longleftrightarrow> length x = CTRL_FRAME_SIZE"
  by (auto simp: rx_inv_def CTRL_FRAME_SIZE_def)

subsection \<open>Transmission\<close>

lemma inv_small [inv_simps]:
  assumes "linv cb l"
  shows "linv cb (noteTxReject l)" "linv cb (noteRingStall l)" "linv cb (noteValidFrameOk l)"
    "linv cb (changeState st l)" "linv cb (resetSeq l)" "linv cb (msgRx_reset l)"
    "linv cb (clearErr l)" "linv cb (setSpdI i l)" "linv cb (l_clampBauds l)"
    "linv cb (notePoolExhaust l)" "linv cb (noteTx n l)" "linv cb (setReason r l)"
    "linv cb (resetStats l)" "linv cb (resetErrors l)" "linv cb (resetDiag l)"
  using assms link_inv_parts [OF assms]
  by (simp_all add: inv_simps noteTxReject_def noteRingStall_def noteValidFrameOk_def changeState_def
      resetSeq_def msgRx_reset_def clearErr_def setSpdI_def l_clampBauds_def notePoolExhaust_def
      noteTx_def setReason_def resetStats_def resetErrors_def resetDiag_def cnt_inv_def rx_inv_def Let_def)

lemma inv_tx [inv_simps]:
  assumes "linv cb l"
  shows "linv cb (sendSweepFrame pl l)" "linv cb (sendPongAck l)" "linv cb (txSmallCobs raw l)"
    "linv cb (sendAckFrame s n l)" "linv cb (sendNakFrame s l)"
    "linv cb (snd (buildAndTxCobsFrame s b l))" "linv cb (snd (sendCobsFrame b l))"
    "linv cb (snd (resendCobsFrame s b l))" "seq_ok q \<Longrightarrow> linv cb (openGbnWindow q l)"
proof -
  note [simp] = inv_simps link_inv_parts
  show sweep: "linv cb (sendSweepFrame pl l)" for pl
    using assms by (simp add: sendSweepFrame_def Let_def)
  show "linv cb (sendPongAck l)" by (simp add: sendPongAck_def sweep)
  show small: "linv cb (txSmallCobs raw l)" for raw
    using assms by (simp add: txSmallCobs_def Let_def)
  show "linv cb (sendAckFrame s n l)" by (simp add: sendAckFrame_def small)
  show "linv cb (sendNakFrame s l)" by (simp add: sendNakFrame_def sendCtrlCobsFrame_def small)
  show build: "linv cb (snd (buildAndTxCobsFrame s b l))" for s b
    using assms by (simp add: buildAndTxCobsFrame_def)
  show "linv cb (snd (sendCobsFrame b l))"
    using build [of "t_txSeq (l_t l)" b] by (simp add: sendCobsFrame_def split_beta)
  show "linv cb (snd (resendCobsFrame s b l))"
    by (simp add: resendCobsFrame_def Let_def split_beta build)
  show "seq_ok q \<Longrightarrow> linv cb (openGbnWindow q l)"
    using assms by (simp add: openGbnWindow_def)
qed

lemma inv_acked [inv_simps]:
  assumes inv: "linv cb l" and len: "length b \<le> 256"
  shows "linv cb (snd (sendCobsFrameAcked b base l))"
proof -
  obtain ok l1 where s: "sendCobsFrame b l = (ok, l1)" by (cases "sendCobsFrame b l")
  have i1: "linv cb l1" using inv_tx(7) [OF inv, of b] s by simp
  have c1: "l_cache l1 = l_cache l" using sendCobsFrame_frame(1) [of b l] s by simp
  let ?q = "t_txSeq (l_t l)"
  let ?l2 = "if cfg_mode (l_cfg l1) \<noteq> SYNC \<and> \<not> gbnActive_' (l_arq l1) then openGbnWindow ?q l1 else l1"
  have i2: "linv cb ?l2" using i1 inv by (simp add: inv_simps link_inv_parts)
  have c2: "l_cache ?l2 = l_cache l" using c1 by (simp add: openGbnWindow_def)
  show ?thesis
    using i2 i1 inv len c2
    by (simp add: sendCobsFrameAcked_def s Let_def inv_simps cache_hasRoom_iff acache.inv_insert
        del: if_split)
qed

subsection \<open>Reset, lock and sweep\<close>

lemma inv_phases [inv_simps]:
  assumes "linv cb l"
  shows "linv cb (enterPhase1 l)" "linv cb (enterPhase2 l)" "linv cb (enterPhase3 i l)"
    "linv cb (noteDisconnect r e l)" "linv cb (computeDwells l)"
  using assms
  by (simp_all add: inv_simps enterPhase1_def enterPhase2_def enterPhase3_def noteDisconnect_def
      computeDwells_def Let_def)

lemma inv_reset_parts [inv_simps]:
  assumes "linv cb l"
  shows "linv cb (resetCommon l)" "linv cb (resetSession l)" "linv cb (resetSweep p l)"
proof -
  show "linv cb (resetCommon l)"
    using assms by (simp add: inv_simps resetCommon_def framer_reset_def CTRL_FRAME_SIZE_def Let_def)
  show "linv cb (resetSession l)"
    using assms by (simp add: inv_simps resetSession_def Let_def)
  show "linv cb (resetSweep p l)"
    using assms by (simp add: inv_simps resetSweep_def Let_def)
qed

lemma inv_reset [inv_simps]: "linv cb l \<Longrightarrow> linv cb (reset_unlocked count pres reason l)"
  by (simp add: inv_simps reset_unlocked_def Let_def)

lemma inv_err [inv_simps]:
  assumes "linv cb l"
  shows "linv cb (snd (err_unlocked cause l))" "linv cb (err cause l)" "linv cb (dropLink l)"
    "linv cb (flushRx l)"
proof -
  show e: "linv cb (snd (err_unlocked cause l))"
    using assms by (simp add: inv_simps err_unlocked_def Let_def)
  show "linv cb (err cause l)"
    using e by (simp add: inv_simps err_def split_beta)
  show "linv cb (dropLink l)" "linv cb (flushRx l)"
    using assms by (simp_all add: inv_simps dropLink_def flushRx_def Let_def)
qed

lemma inv_lock [inv_simps]: "linv cb l \<Longrightarrow> linv cb (lockOk i l)"
  by (simp add: inv_simps lockOk_def Let_def)

lemma inv_start [inv_simps]:
  assumes "linv cb l"
  shows "linv cb (kickoff l)" "linv cb (snd (link_begin l))"
proof -
  show "linv cb (kickoff l)"
    using assms by (simp add: inv_simps kickoff_def framer_reset_def Let_def)
  have k: "linv cb x \<Longrightarrow> linv cb (kickoff x)" for x
    by (simp add: inv_simps kickoff_def framer_reset_def Let_def)
  show "linv cb (snd (link_begin l))"
    using assms by (simp add: inv_simps k link_begin_def Let_def)
qed

lemma inv_swp_small [inv_simps]:
  assumes "linv cb l"
  shows "linv cb (incPhase3Acks l)" "linv cb (sweepReset l)" "linv cb (selectBaud i l)"
    "linv cb (notePeerEpoch e l)" "linv cb (restartAtSlowest l)"
  using assms
  by (simp_all add: inv_simps incPhase3Acks_def sweepReset_def selectBaud_def notePeerEpoch_def
      restartAtSlowest_def Let_def)

lemma inv_swp_actions [inv_simps]:
  assumes "linv cb l"
  shows "linv cb (snd (applyMasterSwpAction a l))" "linv cb (snd (applyPongSwpAction a l))"
  using assms
  by (cases a; simp add: inv_simps applyMasterSwpAction_def applyPongSwpAction_def Let_def)+

lemma inv_handleSwp [inv_simps]: "linv cb l \<Longrightarrow> linv cb (snd (handleSwp cs pl l))"
  by (simp add: inv_simps handleSwp_def handlePong_def handlePing_def Let_def
      split: option.split SweepPhase.split)

lemma inv_swp_ticks [inv_simps]:
  assumes "linv cb l"
  shows "linv cb (masterPhase2Tick l)" "linv cb (masterCampTick l)" "linv cb (masterPhase3Tick l)"
    "linv cb (slavePhase2Tick l)" "linv cb (slaveCampTick l)"
proof -
  show "linv cb (masterPhase2Tick l)" "linv cb (slavePhase2Tick l)" "linv cb (slaveCampTick l)"
    using assms
    by (simp_all add: inv_simps masterPhase2Tick_def slavePhase2Tick_def slaveCampTick_def Let_def)
  show c: "linv cb (masterCampTick l)"
    using assms by (simp add: inv_simps masterCampTick_def Let_def)
  show "linv cb (masterPhase3Tick l)"
    using assms c by (simp add: inv_simps masterPhase3Tick_def Let_def)
qed

lemma inv_onTimerSwp [inv_simps]: "linv cb l \<Longrightarrow> linv cb (onTimerSwp l)"
  by (simp add: inv_simps onTimerSwp_def Let_def split: SweepPhase.split)

subsection \<open>Go-back-N and the timer\<close>

lemma inv_retxSeq [inv_simps]: "linv cb l \<Longrightarrow> linv cb (snd (retxSeq s l))"
  by (simp add: inv_simps retxSeq_def split: option.split)

lemma inv_resendBurst [inv_simps]: "linv cb l \<Longrightarrow> linv cb (resendBurst n s now l)"
proof (induction n arbitrary: s l)
  case (Suc n)
  have "linv cb (snd (retxSeq s l))" by (rule inv_retxSeq [OF Suc.prems])
  then show ?case
    using Suc by (simp add: inv_simps split_beta del: split_paired_All)
qed simp

lemma inv_gbn [inv_simps]:
  assumes "linv cb l"
  shows "linv cb (gbnResendWindow now l)" "linv cb (gbnRetxBaseAndRearm now l)"
    "linv cb (sweepRetx_track now l)" "linv cb (snd (gbnGiveUp now l))"
    "linv cb (snd (sweepRetx now l))"
proof -
  have w: "linv cb (gbnResendWindow now l)" if "linv cb l" for l
    using that by (simp add: inv_simps gbnResendWindow_def Let_def)
  have r: "linv cb (gbnRetxBaseAndRearm now l)" if "linv cb l" for l
    using that by (simp add: inv_simps gbnRetxBaseAndRearm_def w Let_def)
  have t: "linv cb (sweepRetx_track now l)"
    using assms by (simp add: inv_simps sweepRetx_track_def Let_def)
  have g: "linv cb (snd (gbnGiveUp now l))" if "linv cb l" for l
    using that by (simp add: inv_simps gbnGiveUp_def Let_def)
  show "linv cb (gbnResendWindow now l)" "linv cb (gbnRetxBaseAndRearm now l)"
    "linv cb (sweepRetx_track now l)" "linv cb (snd (gbnGiveUp now l))"
    "linv cb (snd (sweepRetx now l))"
    using assms t w r g by (simp_all add: sweepRetx_def Let_def)
qed

lemma inv_okTicks [inv_simps]:
  assumes "linv cb l"
  shows "linv cb (snd (applyHealth now l))" "linv cb (okTick_wireAgg now l)"
    "linv cb (snd (okTick_upgrade l))" "linv cb (keepalive now l)"
    "linv cb (snd (okTick_break now l))" "linv cb (okTick_idle now l)"
proof -
  show "linv cb (snd (applyHealth now l))" "linv cb (okTick_wireAgg now l)"
    "linv cb (snd (okTick_upgrade l))"
    using assms by (simp_all add: inv_simps applyHealth_def okTick_wireAgg_def okTick_upgrade_def Let_def)
  show k: "linv cb (keepalive now l)"
    using assms by (simp add: inv_simps keepalive_def)
  show "linv cb (snd (okTick_break now l))" "linv cb (okTick_idle now l)"
    using assms k by (simp_all add: inv_simps okTick_break_def okTick_idle_def Let_def)
qed

lemma inv_onTimer [inv_simps]:
  assumes "linv cb l"
  shows "linv cb (snd (onTimerOk l))" "linv cb (onTimer l)" "linv cb (onBreak l)"
    "linv cb (onBreakStorm l)"
proof -
  show t: "linv cb (snd (onTimerOk l))"
    using assms by (simp add: inv_simps onTimerOk_def Let_def split_beta)
  show "linv cb (onTimer l)"
    using assms t by (simp add: inv_simps onTimer_def Let_def split_beta split: State.split)
  show "linv cb (onBreak l)" "linv cb (onBreakStorm l)"
    using assms by (simp_all add: inv_simps onBreak_def onBreakStorm_def Let_def)
qed

subsection \<open>Reception\<close>

lemma inv_push [inv_simps]:
  assumes "linv cb l"
  shows "hal_pushAppBuf b (l_hw l) = (acc, h) \<Longrightarrow> linv cb (l_hw_update (\<lambda>_. h) l)"
    and "hal_popAppBuf n (l_hw l) = (bs, h) \<Longrightarrow> linv cb (l_hw_update (\<lambda>_. h) l)"
    and "readStream n (l_hw l) = (bs, h) \<Longrightarrow> linv cb (l_hw_update (\<lambda>_. h) l)"
  using hal_inv_ops(11) [of "l_hw l" b] hal_inv_ops(12) [of "l_hw l" n] hal_inv_ops(13) [of "l_hw l" n]
    assms
  by (auto simp: link_inv_upd link_inv_parts)

lemma inv_onPayload [inv_simps]:
  assumes "linv cb l"
  shows "linv cb (snd (onPayload_stale s b d l))" "linv cb (snd (onPayload_gapSync s b d l))"
    "linv cb (snd (onPayload_gap l))" "linv cb (snd (onPayload_hold s l))"
    "linv cb (snd (onPayload_deliver s b l))" "linv cb (snd (onPayload_forward s b l))"
    "linv cb (snd (onPayload s b l))"
proof -
  have stale: "linv cb (snd (onPayload_stale s b d l))" if "linv cb l" for d l
    using that by (simp add: inv_simps onPayload_stale_def Let_def)
  have sync: "linv cb (snd (onPayload_gapSync s b d l))" if "linv cb l" for d l
    using that by (simp add: inv_simps onPayload_gapSync_def Let_def split: prod.split)
  have gap: "linv cb (snd (onPayload_gap l))" if "linv cb l" for l
    using that by (simp add: inv_simps onPayload_gap_def Let_def)
  have hold: "linv cb (snd (onPayload_hold s l))" if "linv cb l" for l
    using that by (simp add: inv_simps onPayload_hold_def Let_def)
  have del: "linv cb (snd (onPayload_deliver s b l))" if "linv cb l" for l
    using that by (simp add: inv_simps onPayload_deliver_def Let_def split: prod.split)
  have fwd: "linv cb (snd (onPayload_forward s b l))" if "linv cb l" for l
    using that hold del by (simp add: inv_simps onPayload_forward_def)
  show "linv cb (snd (onPayload_stale s b d l))" "linv cb (snd (onPayload_gapSync s b d l))"
    "linv cb (snd (onPayload_gap l))" "linv cb (snd (onPayload_hold s l))"
    "linv cb (snd (onPayload_deliver s b l))" "linv cb (snd (onPayload_forward s b l))"
    using assms stale sync gap hold del fwd by simp_all
  show "linv cb (snd (onPayload s b l))"
    using assms stale sync gap fwd
    by (simp add: inv_simps onPayload_def Let_def split: prod.split GapClass.split)
qed

lemma inv_ackOne [inv_simps]: "linv cb l \<Longrightarrow> linv cb (ackOne s n cause l)"
  by (simp add: inv_simps ackOne_def Let_def)

lemma inv_ackWalk:
  "linv cb l \<Longrightarrow> seq_ok s \<Longrightarrow> ackWalk freed s acked n l = (freed', ok, l') \<Longrightarrow>
     linv cb l' \<and> (ok \<longrightarrow> seq_ok acked)"
proof (induction freed s acked n l rule: ackWalk.induct)
  case (1 freed s acked n l)
  show ?case
  proof (cases "freed + 1 > AUTOLINK_ARQ_PIPELINE_WINDOW \<or> s = acked")
    case True
    then show ?thesis
      using "1.prems" by (subst (asm) ackWalk.simps) (auto simp: inv_simps Let_def split: if_splits)
  next
    case False
    then show ?thesis
      using "1.prems" "1.IH" [OF refl _ refl refl]
      by (subst (asm) ackWalk.simps) (simp add: inv_simps Let_def)
  qed
qed

lemma inv_nakWalk [inv_simps]: "linv cb l \<Longrightarrow> linv cb (nakWalk freed missing l)"
proof (induction freed missing l rule: nakWalk.induct)
  case (1 freed missing l)
  then show ?case by (subst nakWalk.simps) (simp add: inv_simps Let_def)
qed

lemma inv_acks [inv_simps]:
  assumes "linv cb l"
  shows "linv cb (notePeerResponse l)" "linv cb (onAck_commit a n l)" "linv cb (snd (onAck a n l))"
    "linv cb (onNak_base m l)" "linv cb (snd (onNak m l))" "linv cb (snd (onFrameError l))"
proof -
  have resp: "linv cb (notePeerResponse l)" if "linv cb l" for l
    using that by (simp add: inv_simps notePeerResponse_def Let_def)
  have commit: "linv cb (onAck_commit a n l)" if "linv cb l" for l
    using that inv_ackWalk [OF that link_inv_parts(5) [OF that], of 0 a n]
    by (auto simp: inv_simps onAck_commit_def Let_def split: prod.split)
  have base: "linv cb (onNak_base m l)" if "linv cb l" for l
    using that by (simp add: inv_simps onNak_base_def Let_def)
  show "linv cb (notePeerResponse l)" "linv cb (onAck_commit a n l)" "linv cb (onNak_base m l)"
    "linv cb (snd (onFrameError l))"
    using assms by (simp_all add: resp commit base onFrameError_def inv_err)
  show "linv cb (snd (onAck a n l))"
    using assms by (simp add: inv_simps resp commit onAck_def Let_def)
  show "linv cb (snd (onNak m l))"
    using assms by (simp add: inv_simps resp base onNak_def Let_def)
qed

lemma inv_listener: "linv cb l \<Longrightarrow> linv cb (fst (link_listener e l))"
  by (cases e) (simp_all add: link_listener_def split_beta inv_simps)

end

sublocale carry_bound \<subseteq> rxl: frame_listener link_listener "linv cb"
  by unfold_locales (rule inv_listener)

subsection \<open>The batch\<close>

context carry_bound
begin

lemma inv_feedLink [inv_simps]:
  assumes "linv cb l"
  shows "linv cb (snd (feedLink bs l))"
proof -
  have "length (r_frameRx (l_r l)) \<le> 256"
    using link_inv_parts(3) [OF assms] by (simp add: rx_inv_def)
  then show ?thesis
    using rxl.feed_inv [OF assms, of bs "r_frameRx (l_r l)"]
      feed_loop_buf_bound [of "r_frameRx (l_r l)" link_listener bs 0 l]
    by (simp add: feedLink_def feed_def split_beta inv_simps)
qed

lemma inv_ctrl [inv_simps]:
  assumes "linv cb l"
  shows "linv cb (snd (processCtrlFrame cur l))"
    "length f = CTRL_FRAME_SIZE \<Longrightarrow> linv cb (loadCtrl f l)"
    "linv cb (snd (feedSlice a b data l))"
  using assms
  by (simp_all add: inv_simps processCtrlFrame_def ctrlFrameReady_def loadCtrl_def feedSlice_def Let_def)

end

interpretation empty_carry: carry_bound 0
  by unfold_locales (simp add: CTRL_FRAME_SIZE_def)

interpretation kept_carry: carry_bound 4
  by unfold_locales (simp add: CTRL_FRAME_SIZE_def)

lemma linv_empty: "linv 0 l \<longleftrightarrow> link_inv l \<and> r_okCarry (l_r l) = []"
  by (auto simp: linv_def link_inv_def rx_inv_def)

text \<open>The scan consumes, and keeps at most four bytes.\<close>

lemma scan_ok:
  assumes "linv 0 l" and "s0 \<le> start" and "start \<le> i" and "s0 < length data"
    and "start < i \<longrightarrow> start < length data" and "onRx_scan data start i brk l = (start', i', brk', l')"
  shows "s0 < i' \<and> s0 \<le> start' \<and> (start' < i' \<longrightarrow> start' < length data) \<and> link_inv l' \<and>
    (l_state l' = OK \<and> start' < i' \<longrightarrow> linv 0 l')"
  using assms
proof (induction data start i brk l rule: onRx_scan.induct)
  case (1 data start i brk l)
  have prog: "start < i \<Longrightarrow> 0 < fst (feedSlice start i data l)"
    using "1.prems" by (simp add: feedSlice_def feedLink_progress slice_nonempty)
  obtain c l1 where f: "feedSlice start i data l = (c, l1)" by (cases "feedSlice start i data l")
  have i1: "linv 0 l1" using empty_carry.inv_ctrl(3) [OF "1.prems"(1), of start i data] f by simp
  consider (stop) "\<not> i < length data"
    | (bad) "i < length data" "ctrlHead data i" "crc8 (slice i (i + 4) data) \<noteq> data ! (i + 4)"
    | (reset) "i < length data" "ctrlHead data i \<and> crc8 (slice i (i + 4) data) = data ! (i + 4) \<or>
          \<not> ctrlHead data i \<and> ctrlTail data i" "i > start \<and> l_state l1 \<noteq> OK"
    | (ctrl) "i < length data" "ctrlHead data i" "crc8 (slice i (i + 4) data) = data ! (i + 4)"
        "\<not> (i > start \<and> l_state l1 \<noteq> OK)"
    | (tail) "i < length data" "\<not> ctrlHead data i" "ctrlTail data i" "\<not> (i > start \<and> l_state l1 \<noteq> OK)"
    | (byte) "i < length data" "\<not> ctrlHead data i" "\<not> ctrlTail data i"
    by blast
  then show ?case
  proof cases
    case stop
    then show ?thesis
      using "1.prems" by (subst (asm) onRx_scan.simps) (auto simp: linv_empty)
  next
    case bad
    then show ?thesis
      using "1.prems" "1.IH"(2) by (subst (asm) onRx_scan.simps) auto
  next
    case reset
    then show ?thesis
      using "1.prems" prog f i1 by (subst (asm) onRx_scan.simps) (auto simp: linv_empty)
  next
    case ctrl
    obtain b l2 where p: "processCtrlFrame OK (loadCtrl (slice i (i + 5) data) l1) = (b, l2)"
      by (cases "processCtrlFrame OK (loadCtrl (slice i (i + 5) data) l1)")
    have i2: "linv 0 l2"
      using empty_carry.inv_ctrl(1) [OF empty_carry.inv_ctrl(2) [OF i1 ctrlHead_slice [OF ctrl(2)]], of OK]
        p by simp
    show ?thesis
      using "1.prems" "1.IH"(1) [OF ctrl(1-3) f [symmetric] ctrl(4) p [symmetric] i2] ctrl f p
      by (subst (asm) onRx_scan.simps) auto
  next
    case tail
    then have "length (drop i data) < 5" by (simp add: ctrlTail_def CTRL_FRAME_SIZE_def)
    then have "link_inv (l_r_update (\<lambda>r. r\<lparr>r_okCarry := r_okCarry r @ drop i data\<rparr>) l1)"
      using i1 by (simp add: linv_empty link_inv_def linv_def rx_inv_def)
    then show ?thesis
      using "1.prems" tail f by (subst (asm) onRx_scan.simps) auto
  next
    case byte
    then show ?thesis
      using "1.prems" "1.IH"(3) by (subst (asm) onRx_scan.simps) auto
  qed
qed

lemma step_carry:
  assumes inv: "link_inv l" and c: "r_okCarry (l_r l) \<noteq> []" and i: "i < length data"
    and s: "onRx_carry data i l = (stop, i', b, l')"
  shows "i < i' \<and> link_inv l'"
proof -
  let ?k = "r_okCarry (l_r l)" and ?l1 = "l_r_update (\<lambda>r. r\<lparr>r_okCarry := []\<rparr>) l"
  let ?n = "min (CTRL_FRAME_SIZE - length ?k) (length data - i)"
  let ?c = "?k @ take ?n (drop i data)"
  have k: "length ?k < 5"
    using kept_carry.link_inv_parts(3) [of l] inv by (simp add: link_inv_def rx_inv_def)
  then have n: "0 < ?n" using i by (simp add: CTRL_FRAME_SIZE_def)
  have i0: "linv 0 ?l1"
    using inv by (simp add: link_inv_def linv_def rx_inv_def)
  have i4: "length ?c < CTRL_FRAME_SIZE \<Longrightarrow> link_inv (l_r_update (\<lambda>r. r\<lparr>r_okCarry := ?c\<rparr>) l)"
    using inv by (simp add: link_inv_def linv_def rx_inv_def CTRL_FRAME_SIZE_def)
  have full: "\<not> length ?c < CTRL_FRAME_SIZE \<Longrightarrow> length (take CTRL_FRAME_SIZE ?c) = CTRL_FRAME_SIZE"
    by simp
  have ctrl: "\<not> length ?c < CTRL_FRAME_SIZE \<Longrightarrow>
      link_inv (snd (processCtrlFrame OK (loadCtrl (take CTRL_FRAME_SIZE ?c) ?l1)))"
    using empty_carry.inv_ctrl(1) [OF empty_carry.inv_ctrl(2) [OF i0 full], of OK] linv_empty by blast
  have fed: "link_inv (snd (feedLink (take CTRL_FRAME_SIZE ?c) ?l1))"
    using empty_carry.inv_feedLink [OF i0] linv_empty by blast
  define m where "m = ?n"
  define c where "c = ?k @ take m (drop i data)"
  have eq: "onRx_carry data i l =
      (if length c < CTRL_FRAME_SIZE then (True, i + m, False, l_r_update (\<lambda>r. r\<lparr>r_okCarry := c\<rparr>) l)
       else if c ! 1 = 0x55 \<and> crc8 (take (CTRL_FRAME_SIZE - 1) c) = c ! CTRL_FRAME_CRC_IDX
       then let x = processCtrlFrame OK (loadCtrl (take CTRL_FRAME_SIZE c) ?l1) in (False, i + m, fst x, snd x)
       else let l2 = snd (feedLink (take CTRL_FRAME_SIZE c) ?l1) in (False, i + m, l_state l2 \<noteq> OK, l2))"
    unfolding m_def c_def onRx_carry_def Let_def split_beta by (rule refl)
  show ?thesis
    using s n i4 ctrl fed unfolding eq m_def [symmetric] c_def [symmetric]
    by (auto simp: Let_def split: if_split_asm)
qed

lemma step_ok:
  assumes inv: "link_inv l" and c: "r_okCarry (l_r l) = []" and i: "i < length data"
    and s: "onRx_ok data i l = (stop, i', b, l')"
  shows "i < i' \<and> link_inv l'"
proof -
  obtain start i1 brk l1 where sc: "onRx_scan data i i False l = (start, i1, brk, l1)"
    by (cases "onRx_scan data i i False l")
  have i0: "linv 0 l" using inv c by (simp add: linv_empty)
  note sc' = scan_ok [OF i0 order_refl order_refl i _ sc]
  have p: "start < i1 \<Longrightarrow> 0 < fst (feedLink (slice start i1 data) l1)"
    using sc' by (simp add: feedLink_progress slice_nonempty)
  have f: "l_state l1 = OK \<Longrightarrow> start < i1 \<Longrightarrow> link_inv (snd (feedLink (slice start i1 data) l1))"
    using sc' empty_carry.inv_feedLink linv_empty by blast
  show ?thesis
    using s sc' p f by (auto simp: onRx_ok_def sc split_beta split: if_splits)
qed

lemma step_swp:
  assumes inv: "link_inv l" and s: "onRx_swp data i l = (stop, i', b, l')"
  shows "i < i' \<and> link_inv l'"
proof -
  let ?idx = "r_rxIdx (l_r l)"
  let ?l1 = "l_r_update (\<lambda>r. r\<lparr>r_rxBuf := (r_rxBuf r)[?idx := data ! i], r_rxIdx := ?idx + 1\<rparr>) l"
  have r: "rx_inv 4 (l_r l)" using inv by (simp add: link_inv_def linv_def)
  have i0: "linv 4 (l_r_update (\<lambda>r. r\<lparr>r_rxIdx := 0\<rparr>) ?l1)" "linv 4 (l_r_update (\<lambda>r. r\<lparr>r_rxIdx := 0\<rparr>) l)"
    "?idx + 1 \<noteq> CTRL_FRAME_SIZE \<Longrightarrow> linv 4 ?l1"
    using inv r by (auto simp: link_inv_def linv_def rx_inv_def CTRL_FRAME_SIZE_def)
  show ?thesis
    using s inv i0 kept_carry.inv_ctrl(1) [OF i0(1), of "l_state l"]
    by (auto simp: onRx_swp_def link_inv_def Let_def split_beta split: if_splits)
qed

lemma step_progress:
  assumes "link_inv l" and "i < length data" and "onRx_step data i l = (stop, i', b, l')"
  shows "i < i' \<and> link_inv l'"
proof -
  consider "l_state l = OK" "r_okCarry (l_r l) \<noteq> []" "onRx_carry data i l = (stop, i', b, l')"
    | "l_state l = OK" "r_okCarry (l_r l) = []" "onRx_ok data i l = (stop, i', b, l')"
    | "onRx_swp data i l = (stop, i', b, l')"
    using assms(3) unfolding onRx_step_def by meson
  then show ?thesis
  proof cases
    case 1
    then show ?thesis by (intro step_carry [OF assms(1) _ assms(2)])
  next
    case 2
    then show ?thesis by (intro step_ok [OF assms(1) _ assms(2)])
  next
    case 3
    then show ?thesis by (rule step_swp [OF assms(1)])
  qed
qed

lemma loop_returns:
  "link_inv l \<Longrightarrow> length data - i < fuel \<Longrightarrow>
     \<exists>brk' l'. onRx_loop fuel data i brk l = Some (brk', l') \<and> link_inv l'"
proof (induction fuel arbitrary: i brk l)
  case (Suc fuel)
  show ?case
  proof (cases "i < length data")
    case True
    obtain stop i' b l' where s: "onRx_step data i l = (stop, i', b, l')"
      by (cases "onRx_step data i l")
    have "i < i' \<and> link_inv l'" by (rule step_progress [OF Suc.prems(1) True s])
    then show ?thesis
      using Suc.IH [of l' i' "brk \<or> b"] Suc.prems True by (auto simp: s)
  qed (use Suc.prems in simp)
qed simp

text \<open>The receive interrupt's batch is always processed to its end, and keeps the invariant.\<close>

lemma onRx_total:
  assumes "link_inv l"
  shows "\<exists>l'. onRx data l = Some l' \<and> link_inv l'"
proof -
  let ?l = "l_r_update (\<lambda>r. r\<lparr>r_lastRxMs := l_now l\<rparr>) l"
  have "link_inv ?l" using assms by (simp add: link_inv_def inv_simps)
  then obtain brk l' where "onRx_loop (length data + 1) data 0 False ?l = Some (brk, l')" "link_inv l'"
    using loop_returns [of ?l data 0 "length data + 1" False] by auto
  then show ?thesis by (simp add: onRx_def link_inv_def inv_simps)
qed

end
