(* ===== verification/LinkSystem.thy ===== *)
theory LinkSystem
  imports LinkInv
begin

text \<open>
  The link as a state machine: the entry points the tasks and interrupts call, as steps on
  the state, and the invariant of every reachable state. A send is a step whose windows are
  sequences of the other tasks' steps.
\<close>

subsection \<open>The calls that give the lock away\<close>

definition windows_ok :: "windows \<Rightarrow> bool" where
  "windows_ok ws \<longleftrightarrow> (\<forall>w \<in> set ws. \<forall>l. link_inv l \<longrightarrow> link_inv (w l))"

lemma windows_ok_Cons: "windows_ok (w # ws) \<longleftrightarrow> (\<forall>l. link_inv l \<longrightarrow> link_inv (w l)) \<and> windows_ok ws"
  by (simp add: windows_ok_def)

lemmas inv4 = kept_carry.link_inv_other [folded link_inv_def] kept_carry.link_inv_upd [folded link_inv_def]
  kept_carry.inv_small [folded link_inv_def] kept_carry.inv_tx [folded link_inv_def]
  kept_carry.inv_acked [folded link_inv_def] kept_carry.inv_reset [folded link_inv_def]
  kept_carry.inv_err [folded link_inv_def] kept_carry.link_inv_parts [folded link_inv_def]

text \<open>The lemmas of one bound, for a link between two calls.\<close>

lemma inv_drain_loop:
  "windows_ok ws \<Longrightarrow> link_inv l \<Longrightarrow> drain_loop need dl ws l = Some (ok, r, l', ws') \<Longrightarrow>
     link_inv l' \<and> windows_ok ws'"
proof (induction ws arbitrary: l)
  case Nil
  then show ?case by (subst (asm) drain_loop.simps) (auto simp: inv4 windows_ok_def split: if_splits)
next
  case (Cons w ws)
  let ?l = "w (hw (hal_delayMs 1) l)"
  have i: "link_inv ?l" using Cons.prems by (simp add: windows_ok_Cons inv4 hal_inv_ops)
  have "windows_ok ws" using Cons.prems by (simp add: windows_ok_Cons)
  then have ih: "drain_loop need dl ws ?l = Some (ok, r, l', ws') \<longrightarrow> link_inv l' \<and> windows_ok ws'"
    using Cons.IH [OF _ i] by blast
  have p: "link_inv (notePoolExhaust l)" "link_inv (noteTxReject (noteRingStall ?l))"
    using Cons.prems i by (simp_all add: inv4)
  consider "l' = l" "ws' = w # ws" | "l' = notePoolExhaust l" "ws' = w # ws"
    | "l' = noteTxReject (noteRingStall ?l)" "ws' = ws"
    | "drain_loop need dl ws ?l = Some (ok, r, l', ws')"
    using Cons.prems(3) unfolding drain_loop.simps [of need dl "w # ws"] Let_def list.case
    by (simp only: option.inject prod.inject split: if_split_asm)
  then show ?case by cases (use Cons.prems ih p \<open>windows_ok ws\<close> in simp_all)
qed

lemma inv_drain:
  "windows_ok ws \<Longrightarrow> link_inv l \<Longrightarrow> drainTxRing need ws l = Some (ok, r, l', ws') \<Longrightarrow>
     link_inv l' \<and> windows_ok ws'"
  by (auto simp: drainTxRing_def Let_def split: if_splits dest: inv_drain_loop)

lemma inv_wait_loop:
  "windows_ok ws \<Longrightarrow> link_inv l \<Longrightarrow> waitForAck_loop link_ctx seq gen dl ws l = Some (r, l', ws') \<Longrightarrow>
     link_inv l' \<and> windows_ok ws'"
proof (induction ws arbitrary: l)
  case (Cons w ws)
  have i: "link_inv (w l)" using Cons.prems by (simp add: windows_ok_Cons)
  have f: "link_inv (snd (waitForAck_fail link_ctx seq gen (w l)))"
    using i by (simp add: waitForAck_fail_def link_ctx_def inv4 arq_base_ops)
  have w: "windows_ok ws" using Cons.prems by (simp add: windows_ok_Cons)
  then have ih: "waitForAck_loop link_ctx seq gen dl ws (w l) = Some (r, l', ws') \<longrightarrow>
      link_inv l' \<and> windows_ok ws'"
    using Cons.IH [OF _ i] by blast
  let ?f = "waitForAck_fail link_ctx seq gen (w l)"
  consider "l' = w l" "ws' = ws" | "l' = snd ?f" "ws' = ws"
    | "waitForAck_loop link_ctx seq gen dl ws (w l) = Some (r, l', ws')"
    using Cons.prems(3) unfolding waitForAck_loop.simps Let_def split_beta
    by (simp only: option.inject prod.inject split: if_split_asm)
  then show ?case by cases (use i f ih w in simp_all)
qed simp

lemma inv_wait:
  assumes "windows_ok ws" and "link_inv l" and "waitForAck link_ctx seq t ws l = Some (r, l', ws')"
  shows "link_inv l' \<and> windows_ok ws'"
proof (cases ws)
  case (Cons w ws1)
  let ?l = "w (l_arq_update (\<lambda>a. a\<lparr>nakWake_' := False, nakWakeSeq_' := 0xFF\<rparr>) l)"
  have i: "link_inv ?l" "windows_ok ws1" using assms Cons by (simp_all add: windows_ok_Cons inv4)
  have "waitForAck_loop link_ctx seq (clearAllEpoch_' (l_arq l)) (h_now (l_hw ?l) + t) ws1 ?l =
      Some (r, l', ws')"
    using assms(3) unfolding Cons waitForAck_def Let_def link_ctx_def by simp
  then show ?thesis by (rule inv_wait_loop [OF i(2, 1)])
qed (use assms in \<open>simp add: waitForAck_def\<close>)

lemma inv_onSentSync: "link_inv l \<Longrightarrow> link_inv (onSentSync s l)"
  by (simp add: onSentSync_def inv4 arq_base_ops)

lemma inv_rtoStep:
  assumes "windows_ok ws" and "link_inv l" and "syncRtoStep op ws l = Some (ok, op', l', ws')"
  shows "link_inv l' \<and> windows_ok ws'"
proof (cases "drainTxRing 0 ws l")
  case None
  then show ?thesis using assms by (auto simp: syncRtoStep_def Let_def split: if_splits)
next
  case (Some x)
  obtain ok1 r l1 ws1 where x: "x = (ok1, r, l1, ws1)" by (cases x)
  have d: "link_inv l1" "windows_ok ws1" using inv_drain [OF assms(1, 2)] Some x by blast+
  have "link_inv (snd (buildAndTxCobsFrame (so_seq op) (so_raw op) l1))" by (simp add: inv4 d)
  then show ?thesis
    using assms d Some x
    by (auto simp: syncRtoStep_def Let_def split_beta inv4 inv_onSentSync split: if_splits)
qed

lemma inv_await:
  "windows_ok ws \<Longrightarrow> link_inv l \<Longrightarrow> syncAwaitAcked op ws l = Some (ok, l', ws') \<Longrightarrow>
     link_inv l' \<and> windows_ok ws'"
proof (induction op ws l rule: syncAwaitAcked.induct)
  case (1 op ws l)
  obtain a l1 ws1 where w: "waitForAck link_ctx (so_seq op) (sync32 l) ws l = Some (a, l1, ws1)"
    using "1.prems"(3) by (subst (asm) syncAwaitAcked.simps) (auto split: option.splits)
  have i1: "link_inv l1" "windows_ok ws1" using inv_wait [OF "1.prems"(1, 2) w] by blast+
  show ?case
  proof (cases "a \<or> l_state l1 \<noteq> OK")
    case True
    then show ?thesis
      using "1.prems"(3) i1 by (subst (asm) syncAwaitAcked.simps) (cases a; simp add: w)
  next
    case False
    obtain c op2 l2 ws2 where r: "syncRtoStep op ws1 l1 = Some (c, op2, l2, ws2)"
      using "1.prems"(3) False
      by (subst (asm) syncAwaitAcked.simps) (auto simp: w split: option.splits)
    have i2: "link_inv l2" "windows_ok ws2" using inv_rtoStep [OF i1(2, 1) r] by blast+
    show ?thesis
    proof (cases c)
      case True
      have "syncAwaitAcked op2 ws2 l2 = Some (ok, l', ws')"
        using "1.prems"(3) False True by (subst (asm) syncAwaitAcked.simps) (simp add: w r)
      moreover have "a = False" "\<not> l_state l1 \<noteq> OK" "c = True" using False True by simp_all
      ultimately show ?thesis
        by (intro "1.IH" [OF w refl _ refl _ r refl _ refl refl i2(2, 1)])
    next
      case not_c: False
      then show ?thesis
        using "1.prems"(3) False i2 by (subst (asm) syncAwaitAcked.simps) (simp add: w r)
    qed
  qed
qed

lemma inv_syncChunk:
  assumes "windows_ok ws" and "link_inv l" and "syncChunk raw n ws l = Some (r, l', ws')"
  shows "link_inv l' \<and> windows_ok ws'"
proof (cases "drainTxRing 0 ws l")
  case None
  then show ?thesis using assms by (simp add: syncChunk_def Let_def)
next
  case (Some x)
  obtain ok1 r1 l1 ws1 where x: "x = (ok1, r1, l1, ws1)" by (cases x)
  have d: "link_inv l1" "windows_ok ws1" using inv_drain [OF assms(1, 2)] Some x by blast+
  have s: "link_inv (snd (sendCobsFrame raw l1))" by (simp add: inv4 d)
  then have o: "link_inv (onSentSync (t_txSeq (l_t l)) (noteTx n (snd (sendCobsFrame raw l1))))"
    by (simp add: inv_onSentSync inv4)
  show ?thesis
    using assms d s Some x inv_await [OF d(2) o]
    by (auto simp: syncChunk_def syncOp_new_def Let_def split_beta split: if_splits option.splits)
qed

lemma inv_syncBody:
  "windows_ok ws \<Longrightarrow> link_inv l \<Longrightarrow> syncBody rest ws l = Some (ok, l', ws') \<Longrightarrow>
     link_inv l' \<and> windows_ok ws'"
proof (induction rest ws l rule: syncBody.induct)
  case (1 rest ws l)
  let ?c = "take (nat MAX_CHUNK) rest"
  consider (stop) "rest = [] \<or> l_state l \<noteq> OK" | (go) "rest \<noteq> []" "l_state l = OK" by blast
  then show ?case
  proof cases
    case stop
    then show ?thesis using "1.prems" by (subst (asm) syncBody.simps) (auto split: if_splits)
  next
    case go
    then show ?thesis
      using "1.prems" inv_syncChunk [OF "1.prems"(1, 2), of ?c "length ?c"] "1.IH" [OF go(1) _ refl]
      by (subst (asm) syncBody.simps)
        (auto simp: Let_def inv4 split: option.splits prod.splits SyncChunk.splits)
  qed
qed

lemma inv_sendMsg_sync:
  assumes "windows_ok ws" and "link_inv l" and "sendMsg_sync b ws l = Some (ok, brk, seq, l', ws')"
  shows "link_inv l'"
proof -
  let ?hdr = "msgHdrEncode (of_nat (length b)) (crc16 b)"
  have t: "link_inv (snd (onSyncAckTimeout mid l))" if "link_inv l" for mid l
    using that by (simp add: onSyncAckTimeout_def inv4 Let_def)
  have chunk: "link_inv l1 \<and> windows_ok ws1" if "syncChunk raw n ws l = Some (r, l1, ws1)" for raw n r l1 ws1
    by (rule inv_syncChunk [OF assms(1, 2) that])
  show ?thesis
  proof (cases "int (length b) + MSG_HDR \<le> MAX_CHUNK")
    case True
    then show ?thesis
      using assms(3) chunk [of "?hdr @ b" "length b"] t
      by (auto simp: sendMsg_sync_def Let_def split_beta inv4 split: option.splits SyncChunk.splits)
  next
    case False
    then show ?thesis
      using assms(3) chunk [of ?hdr 0] t
      by (auto simp: sendMsg_sync_def Let_def split_beta inv4 split: option.splits SyncChunk.splits
          dest: inv_syncBody)
  qed
qed

lemma inv_asyncBody:
  "windows_ok ws \<Longrightarrow> link_inv l \<Longrightarrow> asyncBody seq rest ws l = Some (ok, l', ws') \<Longrightarrow> link_inv l'"
proof (induction seq rest ws l rule: asyncBody.induct)
  case (1 seq rest ws l)
  let ?c = "take (nat MAX_CHUNK) rest"
  consider (stop) "rest = [] \<or> l_state l \<noteq> OK \<or> \<not> cache_hasRoom (l_cache l)"
    | (wait) "rest \<noteq> []" "l_state l = OK" "cache_hasRoom (l_cache l)" "hal_txAvail (l_hw l) < kWorstCaseCobsFrame"
    | (go) "rest \<noteq> []" "l_state l = OK" "cache_hasRoom (l_cache l)" "\<not> hal_txAvail (l_hw l) < kWorstCaseCobsFrame"
    by blast
  then show ?case
  proof cases
    case stop
    then show ?thesis
      using "1.prems" by (subst (asm) asyncBody.simps) (auto simp: inv4 split: if_splits)
  next
    case wait
    obtain ok1 r l1 ws1 where d: "drainTxRing 0 ws l = Some (ok1, r, l1, ws1)"
      using "1.prems"(3) wait by (subst (asm) asyncBody.simps) (auto split: option.splits)
    have i: "link_inv l1" "windows_ok ws1" using inv_drain [OF "1.prems"(1, 2) d] by blast+
    show ?thesis
    proof (cases ok1)
      case True
      have "asyncBody seq rest ws1 l1 = Some (ok, l', ws')"
        using "1.prems"(3) wait d True by (subst (asm) asyncBody.simps) simp
      then show ?thesis using "1.IH"(1) wait d True i by simp
    next
      case False
      then show ?thesis
        using "1.prems"(3) wait d i by (subst (asm) asyncBody.simps) (auto simp: inv4)
    qed
  next
    case go
    obtain q l1 where s: "sendCobsFrameAcked ?c seq l = (q, l1)" by (cases "sendCobsFrameAcked ?c seq l")
    have i1: "link_inv l1"
      using kept_carry.inv_acked [of l ?c seq] "1.prems"(2) s by (simp add: wire_defs link_inv_def)
    let ?l2 = "noteTx (length ?c) l1"
    have i2: "link_inv ?l2" using i1 by (simp add: inv4)
    have ih: "link_inv l'" if "asyncBody seq (drop (nat MAX_CHUNK) rest) ws ?l2 = Some (ok, l', ws')" "q \<noteq> 0xFF"
      "\<not> (drop (nat MAX_CHUNK) rest \<noteq> [] \<and> interChunkGapMs ?l2 > 0)"
      by (rule "1.IH"(3) [OF go(1) _ _ _ refl refl s [symmetric] that(2) refl refl that(3) "1.prems"(1) i2 that(1)])
        (use go in simp_all)
    show ?thesis
    proof (cases "q \<noteq> 0xFF \<and> drop (nat MAX_CHUNK) rest \<noteq> [] \<and> interChunkGapMs ?l2 > 0")
      case True
      then obtain w ws1 where w: "ws = w # ws1"
        using "1.prems"(3) go s by (subst (asm) asyncBody.simps) (auto simp: Let_def split: list.splits)
      let ?l3 = "w (hw (hal_delayUs (u32_of_int (interChunkGapMs ?l2) * 1000)) ?l2)"
      have i3: "link_inv ?l3" "windows_ok ws1"
        using "1.prems"(1) i2 w by (simp_all add: windows_ok_Cons inv4 hal_inv_ops)
      have "l_state ?l3 \<noteq> OK \<and> l' = ?l3 \<or> l_state ?l3 = OK \<and>
          asyncBody seq (drop (nat MAX_CHUNK) rest) ws1 ?l3 = Some (ok, l', ws')"
        using "1.prems"(3) go s True w
        by (subst (asm) asyncBody.simps) (simp add: Let_def split: if_split_asm)
      then show ?thesis
        using i3 "1.IH"(2) [OF go(1) _ _ _ refl refl s [symmetric] _ refl refl True [THEN conjunct2] w refl _ i3(2, 1)]
          go True by auto
    next
      case False
      then show ?thesis
        using "1.prems"(3) go s ih i1
        by (subst (asm) asyncBody.simps) (auto simp: Let_def inv4 split: if_split_asm)
    qed
  qed
qed

lemma inv_sendMsg_async:
  assumes ws: "windows_ok ws" and inv: "link_inv l" and s: "sendMsg_async b ws l = Some x"
  shows "case x of Inl (r, l') \<Rightarrow> link_inv l' | Inr (ok, seq, l', ws') \<Rightarrow> link_inv l'"
proof -
  let ?hdr = "msgHdrEncode (of_nat (length b)) (crc16 b)"
  have small: "link_inv (snd (sendCobsFrameAcked (?hdr @ b) NO_BASE l))"
    if "int (length b) + MSG_HDR \<le> MAX_CHUNK"
    using that inv kept_carry.inv_acked [of l "?hdr @ b" NO_BASE] by (simp add: link_inv_def wire_defs)
  have hdr: "link_inv (snd (sendCobsFrameAcked ?hdr NO_BASE l))"
    using inv kept_carry.inv_acked [of l ?hdr NO_BASE] by (simp add: link_inv_def)
  show ?thesis
  proof (cases "int (length b) + MSG_HDR \<le> MAX_CHUNK")
    case True
    then show ?thesis
      using s small by (auto simp: sendMsg_async_def Let_def split_beta inv4 split: if_splits)
  next
    case False
    then show ?thesis
      using s hdr inv
      by (auto simp: sendMsg_async_def Let_def split_beta inv4 split: if_splits option.splits
          dest!: inv_asyncBody [OF ws hdr])
  qed
qed

lemma inv_guards:
  assumes "link_inv l"
  shows "case sendMsg_guards len l of Inl (r, l') \<Rightarrow> link_inv l' | Inr l' \<Rightarrow> link_inv l'"
    and "case sendMsg_rate len l of Inl (r, l') \<Rightarrow> link_inv l' | Inr l' \<Rightarrow> link_inv l'"
proof -
  have tx: "t_txSeq (rateRoll now (rateDrain now bps t)) = t_txSeq t" for now bps t
    by (simp add: rateRoll_def rateDrain_def Let_def)
  show "case sendMsg_guards len l of Inl (r, l') \<Rightarrow> link_inv l' | Inr l' \<Rightarrow> link_inv l'"
    using assms by (simp add: sendMsg_guards_def refused_def Let_def inv4 cnt_inv_other)
  show "case sendMsg_rate len l of Inl (r, l') \<Rightarrow> link_inv l' | Inr l' \<Rightarrow> link_inv l'"
    using assms by (simp add: sendMsg_rate_def rateRefused_def refused_def Let_def inv4 cnt_inv_other tx)
qed

lemma inv_sendMsg:
  assumes "windows_ok ws" and "link_inv l" and "sendMsg b len ws l = Some (r, l')"
  shows "link_inv l'"
proof -
  have fin: "link_inv (snd (sendMsg_finish ok brk q x))" if "link_inv x" for ok brk q x
    using that by (simp add: sendMsg_finish_def Let_def inv4 hal_inv_ops)
  have first: "link_inv (noteFirstTx x)" if "link_inv x" for x
    using that by (simp add: noteFirstTx_def inv4)
  show ?thesis
  proof (cases "sendMsg_guards len l")
    case (Inl a)
    then show ?thesis using assms inv_guards(1) [OF assms(2), of len] by (auto simp: sendMsg_def)
  next
    case (Inr l1)
    have i1: "link_inv l1" using inv_guards(1) [OF assms(2), of len] Inr by simp
    show ?thesis
    proof (cases "sendMsg_rate len l1")
      case (Inl a)
      then show ?thesis
        using assms Inr inv_guards(2) [OF i1, of len] by (auto simp: sendMsg_def)
    next
      case r: (Inr l2)
      have i3: "link_inv (noteFirstTx l2)" using inv_guards(2) [OF i1, of len] r first by simp
      let ?l3 = "noteFirstTx l2" and ?b = "take (nat len) b"
      consider (sync) ok brk q l4 ws1 where "sendMsg_sync ?b ws ?l3 = Some (ok, brk, q, l4, ws1)"
          "(r, l') = sendMsg_finish ok brk q l4"
        | (early) "sendMsg_async ?b ws ?l3 = Some (Inl (r, l'))"
        | (async) ok q l4 ws1 where "sendMsg_async ?b ws ?l3 = Some (Inr (ok, q, l4, ws1))"
          "(r, l') = sendMsg_finish ok False q l4"
        using assms(3) Inr r
        by (cases "cfg_mode (l_cfg ?l3) = SYNC")
          (auto simp: sendMsg_def Let_def split: option.splits sum.splits)
      then show ?thesis
      proof cases
        case sync
        then show ?thesis using fin inv_sendMsg_sync [OF assms(1) i3 sync(1)] by (metis snd_conv)
      next
        case early
        then show ?thesis using inv_sendMsg_async [OF assms(1) i3 early] by simp
      next
        case async
        then show ?thesis using fin inv_sendMsg_async [OF assms(1) i3 async(1)] by (metis (mono_tags, lifting) old.prod.case old.sum.simps(6) snd_conv)
      qed
    qed
  qed
qed

lemma inv_readStream:
  "link_inv l \<Longrightarrow> link_inv (snd (link_readStream n l))"
  by (simp add: link_readStream_def split_beta inv4 hal_inv_ops)

lemma inv_sendRaw: "link_inv l \<Longrightarrow> link_inv (snd (sendRaw rest l))"
proof (induction rest l rule: sendRaw.induct)
  case (1 rest l)
  then show ?case
    by (subst sendRaw.simps) (simp add: Let_def split_beta inv4 hal_inv_ops)
qed

lemma inv_write: "link_inv l \<Longrightarrow> link_inv (snd (link_write b n l))"
  by (simp add: link_write_def sendMsg_unlocked_def inv_sendRaw)

lemma inv_resync: "link_inv l \<Longrightarrow> link_inv (snd (findMsgHeaderResync n l))"
  by (simp add: findMsgHeaderResync_def Let_def split_beta inv4 hal_inv_ops)

lemma inv_sinkLoop: "link_inv l \<Longrightarrow> sinkLoop left l = Some l' \<Longrightarrow> link_inv l'"
proof (induction left l rule: sinkLoop.induct)
  case (1 left l)
  obtain bs l1 where r: "link_readStream (min left 256) l = (bs, l1)"
    by (cases "link_readStream (min left 256) l")
  have i: "link_inv l1" using inv_readStream [OF "1.prems"(1), of "min left 256"] r by simp
  show ?case
  proof (cases "left > 0 \<and> bs \<noteq> []")
    case True
    then have "sinkLoop (left - int (length bs)) l1 = Some l'"
      using "1.prems"(2) r by (subst (asm) sinkLoop.simps) simp
    then show ?thesis using "1.IH" True r i by simp
  next
    case False
    then show ?thesis
      using "1.prems" r by (subst (asm) sinkLoop.simps) (auto split: if_splits)
  qed
qed

lemma inv_recvMsg:
  assumes inv: "link_inv l" and r: "recvMsg max_len l = Some (n, out, l')"
  shows "link_inv l'"
proof -
  have resync: "link_inv (resyncAll x)" if "link_inv x" for x
    using that by (simp add: resyncAll_def inv_resync)
  have bad: "link_inv (noteBadHeader x)" if "link_inv x" for x
    using that by (simp add: noteBadHeader_def inv4)
  have hdr: "case recvMsg_header l of Inl (n, l') \<Rightarrow> link_inv l' | Inr l' \<Rightarrow> link_inv l'"
    using inv inv_readStream [OF inv, of MSG_HDR] resync bad
    by (simp add: recvMsg_header_def Let_def split_beta inv4 kept_carry.rx_inv_other)
  have body: "link_inv l'" if i: "link_inv x" and b: "recvMsg_body max_len x = Some (n, out, l')" for x
  proof -
    have i1: "link_inv (msgRx_reset x)" using i by (simp add: inv4)
    have "link_inv (snd (link_readStream m (msgRx_reset x)))" for m by (rule inv_readStream [OF i1])
    then show ?thesis
      using b i i1
      by (auto simp: recvMsg_body_def Let_def split_beta inv4 split: if_splits option.splits
          dest!: inv_sinkLoop [OF i1])
  qed
  show ?thesis
    using r hdr body resync inv
    by (auto simp: recvMsg_def inv4 split: if_splits sum.splits)
qed

subsection \<open>Steps\<close>

text \<open>What another task, an interrupt or the environment does between two blocking points of
  a send: a batch of bytes, a timer, a break or a break storm, the clock, the UART taking bytes
  from the ring, and the calls of the application that do not send.\<close>

inductive task_step :: "Link \<Rightarrow> Link \<Rightarrow> bool" where
  rx: "onRx data l = Some l' \<Longrightarrow> task_step l l'"
| timer: "task_step l (onTimer l)"
| break_event: "task_step l (onBreak l)"
| break_storm: "task_step l (onBreakStorm l)"
| tick: "task_step l (hw (hal_delayMs ms) l)"
| uart: "task_step l (hw (\<lambda>h. h\<lparr>h_txBuf := drop n (h_txBuf h)\<rparr>) l)"
| recv: "recvMsg max_len l = Some (n, out, l') \<Longrightarrow> task_step l l'"
| read: "task_step l (snd (link_readStream n l))"
| drop: "task_step l (dropLink l)"
| flush: "task_step l (flushRx l)"
| report: "task_step l (err cause l)"
| forget: "task_step l (clearErr l)"
| restart: "task_step l (kickoff l)"
| begin_link: "task_step l (snd (link_begin l))"
| pause: "task_step l (l_s_update (\<lambda>s. s\<lparr>s_linkPaused := p\<rparr>) l)"
| stats: "task_step l (resetStats l)"
| errors: "task_step l (resetErrors l)"
| diag: "task_step l (resetDiag l)"

inductive link_step :: "Link \<Rightarrow> Link \<Rightarrow> bool" where
  task: "task_step l l' \<Longrightarrow> link_step l l'"
| send: "\<forall>w \<in> set ws. \<forall>x. task_step\<^sup>*\<^sup>* x (w x) \<Longrightarrow> sendMsg b len ws l = Some (r, l') \<Longrightarrow> link_step l l'"
| raw_write: "link_step l (snd (link_write b len l))"
| raw_send: "length b \<le> nat (cfg_maxMsg (l_cfg l)) \<Longrightarrow> link_step l (snd (buildAndSendMsg b l))"

inductive_cases link_step_elims: "link_step l l'"

definition link_start :: "Hal \<Rightarrow> int \<Rightarrow> bool \<Rightarrow> AutoLinkConfig \<Rightarrow> Link" where
  "link_start h window master config = snd (link_begin (link_new h (cache_new window) master config))"

subsection \<open>Reachable states\<close>

lemma inv_link_new: "hal_inv h \<Longrightarrow> link_inv (link_new h (cache_new w) master config)"
  by (simp add: link_inv_def linv_def link_new_def cache_inv_new rx_inv_def cnt_inv_def
      reset_reasons_def CTRL_FRAME_SIZE_def seq_ok_0 arq_new_def arq_base_ops)

lemma inv_task_step: "task_step l l' \<Longrightarrow> link_inv l \<Longrightarrow> link_inv l'"
proof (induction rule: task_step.induct)
  case (rx data l l')
  then show ?case using onRx_total [of l data] by simp
next
  case (uart l n)
  then show ?case by (auto simp: link_inv_def linv_def hal_inv_def split: option.splits)
next
  case (recv max_len l n out l')
  then show ?case using inv_recvMsg by blast
next
  case (read l n)
  then show ?case by (simp add: inv_readStream)
qed (simp_all add: link_inv_def inv_simps)

lemma inv_task_steps: "task_step\<^sup>*\<^sup>* l l' \<Longrightarrow> link_inv l \<Longrightarrow> link_inv l'"
  by (induction rule: rtranclp_induct) (auto intro: inv_task_step)

lemma inv_sendChunks: "link_inv l \<Longrightarrow> link_inv (snd (sendChunks rest q l))"
proof (induction rest q l rule: sendChunks.induct)
  case (1 rest q l)
  then show ?case by (subst sendChunks.simps) (simp add: Let_def inv4)
qed

lemma inv_link_step:
  assumes "link_step l l'" and "link_inv l"
  shows "link_inv l'"
  using assms
proof (cases rule: link_step.cases)
  case (send ws b len r)
  have "windows_ok ws" using send(1) inv_task_steps by (auto simp: windows_ok_def)
  then show ?thesis using inv_sendMsg send(2) assms(2) by blast
qed (auto simp: inv_write buildAndSendMsg_def inv_sendChunks inv4 Let_def assms(2) intro: inv_task_step)

text \<open>Every state a link can reach, by any interleaving of its tasks, satisfies the invariant.\<close>

lemma inv_reachable:
  assumes "hal_inv h" and "link_step\<^sup>*\<^sup>* (link_start h window master config) l"
  shows "link_inv l"
proof -
  have "link_inv (link_start h window master config)"
    using kept_carry.inv_start(2) inv_link_new [OF assms(1)] by (simp add: link_start_def link_inv_def)
  from assms(2) this show ?thesis
    by (induction rule: rtranclp_induct) (auto intro: inv_link_step)
qed

end
