(* ===== verification/LinkDemo.thy ===== *)
theory LinkDemo
  imports LinkSystem
begin

text \<open>
  A concrete pair of links for the witnesses: two ASYNC links at 512000 baud that are locked
  and idle, a sender and a receiver, and the sender after one chunk of the window.
\<close>

definition demo_hal :: Hal where
  "demo_hal =
     \<lparr>h_now = 5000, h_spd = 512000, h_txBuf = [], h_txCap = 4096, h_appBuf = [], h_appBufCap = Some 4096,
      h_timerActive = False, h_lastTimerMs = 0, h_nextTimerAtMs = 0, h_sendBreakCalls = 0,
      h_discardTxCalls = 0, h_forceTryLockFail = False\<rparr>"

definition demo_cfg :: AutoLinkConfig where
  "demo_cfg = config_default\<lparr>cfg_mode := ASYNC\<rparr>"

definition demo_link :: "bool \<Rightarrow> Link" where
  "demo_link master = link_new demo_hal (cache_new 8) master demo_cfg"

definition demo_sent :: Link where
  "demo_sent = snd (sendCobsFrameAcked [1, 2, 3] NO_BASE (demo_link True))"

lemma demo_hal_inv: "hal_inv demo_hal"
  by (simp add: hal_inv_def demo_hal_def)

lemma demo_inv: "link_inv (demo_link m)"
  by (simp add: demo_link_def inv_link_new demo_hal_inv)

lemma demo_sent_inv: "link_inv demo_sent"
  by (simp add: demo_sent_def inv4 demo_inv)

lemma demo_simps [simp]:
  "l_state (demo_link m) = OK" "l_cfg (demo_link m) = demo_cfg" "cfg_mode demo_cfg = ASYNC"
  "l_hw (demo_link m) = demo_hal" "l_isMaster (demo_link m) = m" "l_cache (demo_link m) = cache_new 8"
  "t_txSeq (l_t (demo_link m)) = 0" "l_arq (demo_link m) = arq_new" "l_spdI (demo_link m) = 0"
  by (simp_all add: demo_link_def demo_cfg_def link_new_def)

lemma demo_room: "cache_hasRoom (cache_new 8)" "hal_txAvail demo_hal = 4096"
  by (simp_all add: cache_new_def cache_hasRoom_def SLOTS_def POOL_SIZE_def demo_hal_def
      hal_txAvail_def wire_defs Let_def)

lemma demo_hal_simps [simp]: "h_now demo_hal = 5000" "h_txBuf demo_hal = []" "h_appBuf demo_hal = []"
  "h_txCap demo_hal = 4096"
  by (simp_all add: demo_hal_def)

lemma demo_sent_simps [simp]:
  "l_state demo_sent = OK" "l_cfg demo_sent = demo_cfg" "l_spdI demo_sent = 0"
  "h_now (l_hw demo_sent) = 5000" "h_txCap (l_hw demo_sent) = 4096"
  by (simp_all add: demo_sent_def sendCobsFrameAcked_def sendCobsFrame_def buildAndTxCobsFrame_def
      openGbnWindow_def demo_room frame_simps wire_defs Let_def)

end
