(* ===== verification/LinkDelivery.thy ===== *)
theory LinkDelivery
  imports LinkDemo
begin

text \<open>
  What the receive side guarantees: the application's queue grows only by the expected chunk,
  whole; nothing is acknowledged that was not delivered, now or before; an ACK moves the
  sender's window exactly to the number it names; a resend repeats what was sent.
\<close>

subsection \<open>Reachable states\<close>

text \<open>C4: every state a link can reach is well-formed: from \<open>begin\<close> on, by any interleaving of
  received bytes, timers, breaks, the clock, the UART, the application's calls and sends whose
  unlocked gaps run any of these, the rings and buffers stay within their bounds, the cache
  stays a map, every sequence number is one of the wire's 254, and the error and reset totals
  are the sums of their parts.\<close>

theorem reachable_inv:
  assumes "hal_inv h" and "link_step\<^sup>*\<^sup>* (link_start h window master config) l"
  shows "length (h_txBuf (l_hw l)) \<le> h_txCap (l_hw l) \<and>
    (\<forall>cap. h_appBufCap (l_hw l) = Some cap \<longrightarrow> length (h_appBuf (l_hw l)) \<le> cap) \<and>
    cache_inv (l_cache l) \<and>
    length (r_rxBuf (l_r l)) = CTRL_FRAME_SIZE \<and> r_rxIdx (l_r l) < CTRL_FRAME_SIZE \<and>
    length (r_okCarry (l_r l)) < CTRL_FRAME_SIZE \<and> length (r_frameRx (l_r l)) \<le> 256 \<and>
    t_txSeq (l_t l) \<le> COBS_SEQ_MAX \<and> gbnBase_' (l_arq l) \<le> COBS_SEQ_MAX \<and>
    n_frameErrs (l_n l) = n_badHeaderErrs (l_n l) + n_overLenErrs (l_n l) + n_crcFailErrs (l_n l) \<and>
    n_resetCount (l_n l) = sum_list (map (n_resetReasonCounts (l_n l)) reset_reasons)"
  using inv_reachable [OF assms]
  by (auto simp: link_inv_def linv_def hal_inv_def rx_inv_def cnt_inv_def seq_ok_def CTRL_FRAME_SIZE_def)

theorem reachable_inv_witness:
  "length (r_okCarry (l_r (onTimer (link_start demo_hal 8 True demo_cfg)))) < CTRL_FRAME_SIZE"
proof -
  have "link_step\<^sup>*\<^sup>* (link_start demo_hal 8 True demo_cfg) (onTimer (link_start demo_hal 8 True demo_cfg))"
    by (intro r_into_rtranclp link_step.task task_step.timer)
  then show ?thesis by (rule reachable_inv [OF demo_hal_inv, THEN conjunct2, THEN conjunct2, THEN conjunct2,
        THEN conjunct2, THEN conjunct2, THEN conjunct1])
qed

text \<open>C15: whatever arrives, handling it ends: a well-formed link, locked or sweeping, takes any
  batch of bytes in finitely many rounds and is well-formed afterwards.\<close>

theorem onRx_returns:
  assumes "link_inv l"
  shows "\<exists>l'. onRx data l = Some l' \<and> link_inv l'"
  by (rule onRx_total [OF assms])

theorem onRx_returns_witness:
  "\<exists>l'. onRx [0xAA, 0x55, 1, 2, 3, 0xAA] (demo_link False) = Some l' \<and> link_inv l'"
  by (rule onRx_returns [OF demo_inv])

subsection \<open>What a frame leaves on the wire\<close>

lemma txSmall_frame [frame_simps]:
  "l_arq (txSmallCobs raw l) = l_arq l" "l_cache (txSmallCobs raw l) = l_cache l"
  "l_r (txSmallCobs raw l) = l_r l" "l_s (txSmallCobs raw l) = l_s l"
  "l_g (txSmallCobs raw l) = l_g l" "l_k (txSmallCobs raw l) = l_k l" "l_e (txSmallCobs raw l) = l_e l"
  "h_appBuf (l_hw (txSmallCobs raw l)) = h_appBuf (l_hw l)"
  "l_cfg (txSmallCobs raw l) = l_cfg l" "l_now (txSmallCobs raw l) = l_now l"
  "t_txSeq (l_t (txSmallCobs raw l)) = t_txSeq (l_t l)"
  by (simp_all add: txSmallCobs_def noteRingStall_def Let_def frame_simps)

lemma txSmall_wire:
  "wire (txSmallCobs raw l) =
     (if hal_txAvail (l_hw l) < int (length (cobsWire raw)) then wire l else wire l @ cobsWire raw)"
  by (simp add: txSmallCobs_def noteRingStall_def Let_def hal_tx_fits)

text \<open>The two answers of the receiver; a full ring drops them.\<close>

definition answered :: "bytes \<Rightarrow> Link \<Rightarrow> Link \<Rightarrow> bool" where
  "answered f l l' \<longleftrightarrow> wire l' = wire l @ f \<or> wire l' = wire l"

lemma sendAck_frame [frame_simps]:
  "l_arq (sendAckFrame s n l) = l_arq l" "l_cache (sendAckFrame s n l) = l_cache l"
  "l_r (sendAckFrame s n l) = l_r l" "l_s (sendAckFrame s n l) = l_s l"
  "l_e (sendAckFrame s n l) = l_e l" "h_appBuf (l_hw (sendAckFrame s n l)) = h_appBuf (l_hw l)"
  "l_arq (sendNakFrame s l) = l_arq l" "l_cache (sendNakFrame s l) = l_cache l"
  "l_r (sendNakFrame s l) = l_r l" "l_s (sendNakFrame s l) = l_s l"
  "h_appBuf (l_hw (sendNakFrame s l)) = h_appBuf (l_hw l)"
  by (simp_all add: sendAckFrame_def sendNakFrame_def sendCtrlCobsFrame_def frame_simps)

lemma sendAck_answered: "answered (ackWire s n) l (sendAckFrame s n l)"
  by (simp add: answered_def sendAckFrame_def txSmall_wire ackWire_def)

lemma sendNak_answered: "answered (nakWire s) l (sendNakFrame s l)"
  by (simp add: answered_def sendNakFrame_def sendCtrlCobsFrame_def txSmall_wire nakWire_def)

lemma answered_cong: "wire l = wire m \<Longrightarrow> answered f l l' = answered f m l'"
  by (simp add: answered_def)

subsection \<open>Delivery\<close>

lemma classify_Forward:
  "fst (classifyGap s r True) = Forward \<longleftrightarrow> s = (if r = COBS_SEQ_MAX then 0 else r + 1)"
proof -
  have "int (unat r) = 253 \<longleftrightarrow> r = 0xFD" by (simp add: word_unat_eq_iff)
  then show ?thesis by (simp add: classifyGap_def LD_SEQ_WRAP_def wire_defs Let_def)
qed

lemma push_room:
  assumes "int (length b) \<le> hal_appBufFree h"
  shows "hal_pushAppBuf b h = (int (length b), h\<lparr>h_appBuf := h_appBuf h @ b\<rparr>)"
  using assms
  by (auto simp: hal_pushAppBuf_def hal_appBufFree_def hal_appRoom_def min_def Let_def split: option.splits)

abbreviation app :: "Link \<Rightarrow> bytes" where "app l \<equiv> h_appBuf (l_hw l)"

definition in_order :: "u8 \<Rightarrow> Link \<Rightarrow> bool" where
  "in_order s l \<longleftrightarrow> (r_rxSeqSet (l_r l) \<longrightarrow> s = reorderExpectedSeq l)"

lemma noteValid_frame [frame_simps]:
  "l_r (noteValidFrameOk l) = l_r l" "l_hw (noteValidFrameOk l) = l_hw l"
  "l_cfg (noteValidFrameOk l) = l_cfg l" "l_s (noteValidFrameOk l) = l_s l"
  "l_arq (noteValidFrameOk l) = l_arq l" "l_cache (noteValidFrameOk l) = l_cache l"
  "l_t (noteValidFrameOk l) = l_t l" "l_g (noteValidFrameOk l) = l_g l" "l_e (noteValidFrameOk l) = l_e l"
  by (simp_all add: noteValidFrameOk_def)

lemma clearErr_frame [frame_simps]:
  "l_r (clearErr l) = l_r l" "l_hw (clearErr l) = l_hw l" "l_s (clearErr l) = l_s l"
  by (simp_all add: clearErr_def)

lemma answered_clearErr: "answered f l (clearErr l') = answered f l l'"
  by (simp add: answered_def frame_simps)

lemma answered_from:
  assumes "wire m = wire l"
  shows "answered (ackWire s n) l (sendAckFrame s n m)" "answered (nakWire s) l (sendNakFrame s m)"
    "answered f l m"
  using sendAck_answered [of s n m] sendNak_answered [of s m] assms by (simp_all add: answered_def)

lemma hold_outcome:
  assumes "onPayload_hold s l = (stop, l')"
  shows "app l' = app l \<and> r_rxSeq (l_r l') = r_rxSeq (l_r l) \<and> answered (nakWire s) l l'"
  using assms
  by (auto simp: onPayload_hold_def Let_def frame_simps answered_from split: if_splits)

lemma gap_outcome:
  assumes "onPayload_gap l = (stop, l')"
  shows "app l' = app l \<and> r_rxSeq (l_r l') = r_rxSeq (l_r l) \<and>
    answered (nakWire (reorderExpectedSeq l)) l l'"
  using assms by (auto simp: onPayload_gap_def Let_def frame_simps answered_from split: if_splits)

lemma stale_outcome:
  assumes "onPayload_stale s b d l = (stop, l')"
  shows "app l' = app l \<and> r_rxSeq (l_r l') = r_rxSeq (l_r l) \<and> answered (ackWire s (of_nat (length b))) l l'"
  using assms by (auto simp: onPayload_stale_def Let_def frame_simps answered_from split: if_splits)

lemma deliver_outcome:
  assumes "int (length b) \<le> hal_appBufFree (l_hw l)" and "onPayload_deliver s b l = (stop, l')"
  shows "app l' = app l @ b \<and> r_rxSeq (l_r l') = s \<and> r_rxSeqSet (l_r l') \<and>
    answered (ackWire s (of_nat (length b))) l l'"
  using assms(2) unfolding onPayload_deliver_def push_room [OF assms(1)] Let_def prod.case
  by (auto simp: frame_simps answered_clearErr answered_from)



subsection \<open>Runs of sequence numbers\<close>

definition seqRun :: "u8 \<Rightarrow> nat \<Rightarrow> u8 list" where
  "seqRun s k = map (\<lambda>i. (nextSeq ^^ i) s) [0..<k]"

lemma seqRun_Suc: "seqRun s (Suc k) = s # seqRun (nextSeq s) k"
  by (simp add: seqRun_def upt_rec [of 0] map_Suc_upt [symmetric] funpow_swap1 comp_def del: upt_Suc)

lemma unat_nextSeq: "unat s < 254 \<Longrightarrow> unat (nextSeq s) = (unat s + 1) mod 254"
proof -
  assume a: "unat s < 254"
  have "s = 0xFD \<longleftrightarrow> unat s = 253" by (simp add: word_unat_eq_iff)
  then show ?thesis using a by (auto simp: nextSeq_def wire_defs unat_Suc_u8)
qed

lemma unat_nextSeq_pow: "unat s < 254 \<Longrightarrow> unat ((nextSeq ^^ k) s) = (unat s + k) mod 254"
  by (induction k) (simp_all add: unat_nextSeq mod_Suc_eq)

lemma nextSeq_pow_inj:
  assumes "unat s < 254" and "j < k" and "k < 254"
  shows "(nextSeq ^^ j) s \<noteq> (nextSeq ^^ k) s"
proof
  assume "(nextSeq ^^ j) s = (nextSeq ^^ k) s"
  then have "(unat s + k) mod 254 = (unat s + j) mod 254"
    using assms(1) by (metis unat_nextSeq_pow)
  then have "254 dvd (unat s + k) - (unat s + j)"
    using assms(2) by (subst mod_eq_dvd_iff_nat [symmetric]) simp_all
  then have "254 dvd k - j" by simp
  then have "254 \<le> k - j" using assms(2) by (intro dvd_imp_le) simp_all
  then show False using assms(2, 3) by simp
qed

lemma seqRun_distinct:
  assumes "unat s < 254" and "k \<le> 254"
  shows "distinct (seqRun s k)"
proof -
  have "inj_on (\<lambda>i. (nextSeq ^^ i) s) {0..<k}"
  proof (rule inj_onI)
    fix i j
    assume ij: "i \<in> {0..<k}" "j \<in> {0..<k}" "(nextSeq ^^ i) s = (nextSeq ^^ j) s"
    then have "\<not> i < j" "\<not> j < i"
      using nextSeq_pow_inj [OF assms(1), of i j] nextSeq_pow_inj [OF assms(1), of j i] assms(2) by auto
    then show "i = j" by simp
  qed
  then show ?thesis by (simp add: seqRun_def distinct_map)
qed

lemma idxOf_pow:
  assumes "unat (gbnBase_' a) < 254" and "unat s < 254" and "0 \<le> idxOf s a"
  shows "s = (nextSeq ^^ nat (idxOf s a)) (gbnBase_' a)" and "idxOf s a < 32"
proof -
  have d: "seqDist (gbnBase_' a) s < 32" "idxOf s a = seqDist (gbnBase_' a) s"
    using assms by (auto simp: idxOf_seqDist split: if_splits)
  then show "idxOf s a < 32" by simp
  have "unat (gbnBase_' a) + nat (seqDist (gbnBase_' a) s) = unat s \<or>
      unat (gbnBase_' a) + nat (seqDist (gbnBase_' a) s) = unat s + 254"
    using assms(1, 2) by (simp add: seqDist_eq) linarith
  then have "unat ((nextSeq ^^ nat (idxOf s a)) (gbnBase_' a)) = unat s"
    using assms d by (auto simp: unat_nextSeq_pow)
  then show "s = (nextSeq ^^ nat (idxOf s a)) (gbnBase_' a)" by (simp add: word_unat_eq_iff)
qed

subsection \<open>The acknowledgement walk\<close>

lemma ackOne_frame [frame_simps]:
  "l_cache (ackOne s n c l) = cache_freeBySeq s c (l_cache l)"
  "l_arq (ackOne s n c l) = arq_onAcked s n (l_arq l)"
  "l_hw (ackOne s n c l) = l_hw l" "l_r (ackOne s n c l) = l_r l" "l_s (ackOne s n c l) = l_s l"
  "l_cfg (ackOne s n c l) = l_cfg l" "t_txSeq (l_t (ackOne s n c l)) = t_txSeq (l_t l)"
  by (simp_all add: ackOne_def Let_def)

lemma onAcked_pending:
  "ackedPending_' (arq_onAcked s n a) i \<longleftrightarrow> ackedPending_' a i \<and> i \<noteq> budgetIdx s"
  "bytesRecvd_' (arq_onAcked s n a) (budgetIdx s) = n"
  by (auto simp: arq_onAcked_def Let_def)

definition walked :: "u8 list \<Rightarrow> Link \<Rightarrow> Link \<Rightarrow> bool" where
  "walked run l l' \<longleftrightarrow>
     l_cache l' = fold (\<lambda>s. cache_freeBySeq s CumulativeBackfill) run (l_cache l) \<and>
     (\<forall>i. ackedPending_' (l_arq l') i \<longleftrightarrow> ackedPending_' (l_arq l) i \<and> i \<notin> budgetIdx ` set run) \<and>
     gbnBase_' (l_arq l') = gbnBase_' (l_arq l) \<and> l_hw l' = l_hw l \<and> l_r l' = l_r l \<and>
     l_s l' = l_s l \<and> t_txSeq (l_t l') = t_txSeq (l_t l)"

lemma ackWalk_run:
  assumes "unat s < 254" and "freed + int k + 1 \<le> AUTOLINK_ARQ_PIPELINE_WINDOW" and "0 \<le> freed"
    and "acked = (nextSeq ^^ k) s"
  shows "\<exists>l'. ackWalk freed s acked n l = (freed + int k + 1, True, l') \<and>
    walked (seqRun s (Suc k)) l l' \<and> bytesRecvd_' (l_arq l') (budgetIdx acked) = n"
  using assms
proof (induction k arbitrary: freed s l)
  case 0
  then show ?case
    by (subst ackWalk.simps)
      (simp add: Let_def walked_def seqRun_def frame_simps onAcked_pending arq_base_ops)
next
  case (Suc k)
  have ne: "s \<noteq> acked" using nextSeq_pow_inj [of s 0 "Suc k"] Suc.prems by (simp add: wire_defs)
  let ?m = "case cache_peek s (l_cache l) of Some b \<Rightarrow> of_nat (length b) | None \<Rightarrow> 0"
  let ?l = "ackOne s ?m CumulativeBackfill l"
  have "unat (nextSeq s) < 254" using Suc.prems(1) by (simp add: unat_nextSeq)
  then obtain l' where l': "ackWalk (freed + 1) (nextSeq s) acked n ?l = (freed + 1 + int k + 1, True, l')"
      "walked (seqRun (nextSeq s) (Suc k)) ?l l'" "bytesRecvd_' (l_arq l') (budgetIdx acked) = n"
    using Suc.IH [of "nextSeq s" "freed + 1" ?l] Suc.prems by (auto simp: funpow_swap1)
  have "walked (seqRun s (Suc (Suc k))) l l'"
    using l'(2) by (auto simp: walked_def seqRun_Suc [of s] frame_simps onAcked_pending arq_base_ops)
  then show ?case
    using l' ne Suc.prems by (subst ackWalk.simps) (simp add: Let_def)
qed

subsection \<open>An ACK\<close>

lemma notePeerResponse_frame [frame_simps]:
  "l_arq (notePeerResponse l) = l_arq l" "l_cache (notePeerResponse l) = l_cache l"
  "l_hw (notePeerResponse l) = l_hw l" "l_cfg (notePeerResponse l) = l_cfg l"
  "l_t (notePeerResponse l) = l_t l" "l_g (notePeerResponse l) = l_g l"
  "l_state (notePeerResponse l) = l_state l"
  by (simp_all add: notePeerResponse_def Let_def)

lemma pendingCount_cong:
  "ackedPending_' a = ackedPending_' b \<Longrightarrow> arq_pendingCount a = arq_pendingCount b"
  by (simp add: arq_pendingCount_def)

lemma seq_ok_lt: "seq_ok s \<longleftrightarrow> unat s < 254"
  by (auto simp: seq_ok_def wire_defs word_le_nat_alt)

lemma onAck_commit_walked:
  assumes "seq_ok (gbnBase_' (l_arq l))" and "seq_ok acked" and "0 \<le> idxOf acked (l_arq l)"
  shows "\<exists>m. walked (seqRun (gbnBase_' (l_arq l)) (Suc (nat (idxOf acked (l_arq l))))) l m \<and>
    bytesRecvd_' (l_arq m) (budgetIdx acked) = n \<and>
    l_cache (onAck_commit acked n l) = l_cache m \<and> l_hw (onAck_commit acked n l) = l_hw m \<and>
    t_txSeq (l_t (onAck_commit acked n l)) = t_txSeq (l_t m) \<and>
    l_arq (onAck_commit acked n l) =
      (l_arq m)\<lparr>gbnBase_' := nextSeq acked, gbnActive_' := arq_pendingCount (l_arq m) > 0\<rparr>"
proof -
  let ?k = "nat (idxOf acked (l_arq l))"
  have k: "acked = (nextSeq ^^ ?k) (gbnBase_' (l_arq l))" "idxOf acked (l_arq l) < 32"
    using idxOf_pow [of "l_arq l" acked] assms by (simp_all add: seq_ok_lt)
  obtain m where m: "ackWalk 0 (gbnBase_' (l_arq l)) acked n l = (int ?k + 1, True, m)"
      "walked (seqRun (gbnBase_' (l_arq l)) (Suc ?k)) l m" "bytesRecvd_' (l_arq m) (budgetIdx acked) = n"
    using ackWalk_run [of "gbnBase_' (l_arq l)" 0 ?k acked n l] assms k by (auto simp: seq_ok_lt wire_defs)
  have "arq_pendingCount ((l_arq m)\<lparr>gbnBase_' := q\<rparr>) = arq_pendingCount (l_arq m)" for q
    by (rule pendingCount_cong) simp
  then show ?thesis
    using m by (intro exI [of _ m]) (simp add: onAck_commit_def Let_def arq_setGbnBase_def arq_setGbnActive_def)
qed

lemma onAck_commits:
  assumes inv: "link_inv l" and st: "l_state l = OK" "cfg_mode (l_cfg l) = ASYNC" "gbnActive_' (l_arq l)"
    and acked: "arq_isPending acked (l_arq l)" "0 \<le> idxOf acked (l_arq l)" "acked \<le> COBS_SEQ_MAX"
    and run: "run = seqRun (gbnBase_' (l_arq l)) (Suc (nat (idxOf acked (l_arq l))))"
    and l': "onAck acked n l = (stop, l')"
  shows "gbnBase_' (l_arq l') = nextSeq acked \<and>
    (\<forall>t. cache_peek t (l_cache l') = (if t \<in> set run then None else cache_peek t (l_cache l))) \<and>
    (\<forall>t. arq_isPending t (l_arq l') \<longleftrightarrow> arq_isPending t (l_arq l) \<and> budgetIdx t \<notin> budgetIdx ` set run) \<and>
    arq_bytesFor acked (l_arq l') = n \<and>
    (gbnActive_' (l_arq l') \<longleftrightarrow> 0 < arq_pendingCount (l_arq l')) \<and>
    wire l' = wire l \<and> app l' = app l \<and> t_txSeq (l_t l') = t_txSeq (l_t l) \<and> \<not> stop"
proof -
  obtain x where x: "l_arq x = l_arq l" "l_cache x = l_cache l" "l_hw x = l_hw l"
      "t_txSeq (l_t x) = t_txSeq (l_t l)" "onAck acked n l = (False, onAck_commit acked n x)"
  proof (rule that)
    let ?y = "notePeerResponse (l_c_update (\<lambda>c. c\<lparr>c_wireAckAggAcks := c_wireAckAggAcks c + 1\<rparr>) l)"
    let ?z = "l_s_update (\<lambda>s. s\<lparr>s_recentDiscs := 0\<rparr>) (l_t_update (\<lambda>t. t\<lparr>t_lastAckSeq := acked,
      t_lastNakSeq := (if t_lastNakSeq t = acked then 0xFF else t_lastNakSeq t)\<rparr>) ?y)"
    let ?x = "noteValidFrameOk (l_c_update (\<lambda>c. c\<lparr>c_rxBytes := c_rxBytes c + of_nat RX_ACK_WIRE_BYTES\<rparr>) ?z)"
    show "l_arq ?x = l_arq l" "l_cache ?x = l_cache l" "l_hw ?x = l_hw l"
      "t_txSeq (l_t ?x) = t_txSeq (l_t l)" "onAck acked n l = (False, onAck_commit acked n ?x)"
      using st acked by (simp_all add: onAck_def Let_def frame_simps)
  qed
  have ok: "seq_ok (gbnBase_' (l_arq x))" "seq_ok acked" "cache_inv (l_cache x)"
    using kept_carry.link_inv_parts [of l] inv acked(3) x by (simp_all add: link_inv_def seq_ok_def)
  obtain m where m: "walked run x m" "bytesRecvd_' (l_arq m) (budgetIdx acked) = n"
      "l_cache l' = l_cache m" "l_hw l' = l_hw m" "t_txSeq (l_t l') = t_txSeq (l_t m)"
      "l_arq l' = (l_arq m)\<lparr>gbnBase_' := nextSeq acked, gbnActive_' := arq_pendingCount (l_arq m) > 0\<rparr>"
    using onAck_commit_walked [OF ok(1, 2), of n] acked(2) x l' run by auto
  have "arq_pendingCount (l_arq l') = arq_pendingCount (l_arq m)"
    by (rule pendingCount_cong) (simp add: m(6))
  moreover have "cache_peek t (l_cache l') = (if t \<in> set run then None else cache_peek t (l_cache l))" for t
    using acache.free_batch [OF ok(3), of CumulativeBackfill run] m(1, 3) x(2) by (simp add: walked_def)
  ultimately show ?thesis
    using m x l' by (simp add: walked_def arq_isPending_def arq_bytesFor_def)
qed

text \<open>C5: an ACK for a chunk of the window acknowledges exactly the chunks from the base up to it:
  those slots are no longer pending, their buffers are forgotten, no other slot or buffer
  changes, and the base is the next number; the window closes when nothing is pending. It
  sends nothing and takes no new number.\<close>

theorem ack_commits_window:
  assumes inv: "link_inv l" and st: "l_state l = OK" "cfg_mode (l_cfg l) = ASYNC" "gbnActive_' (l_arq l)"
    and acked: "arq_isPending acked (l_arq l)" "0 \<le> idxOf acked (l_arq l)" "acked \<le> COBS_SEQ_MAX"
    and run: "run = seqRun (gbnBase_' (l_arq l)) (Suc (nat (idxOf acked (l_arq l))))"
    and l': "onAck acked n l = (stop, l')"
  shows "gbnBase_' (l_arq l') = nextSeq acked \<and>
    (\<forall>t. cache_peek t (l_cache l') = (if t \<in> set run then None else cache_peek t (l_cache l))) \<and>
    (\<forall>t. arq_isPending t (l_arq l') \<longleftrightarrow> arq_isPending t (l_arq l) \<and> budgetIdx t \<notin> budgetIdx ` set run) \<and>
    arq_bytesFor acked (l_arq l') = n \<and>
    (gbnActive_' (l_arq l') \<longleftrightarrow> 0 < arq_pendingCount (l_arq l')) \<and>
    wire l' = wire l \<and> app l' = app l \<and> t_txSeq (l_t l') = t_txSeq (l_t l) \<and> \<not> stop"
  by (rule onAck_commits [OF assms])

text \<open>An ACK for a number that is not pending (a repeated or a late one), and any ACK on a
  link that is not locked, leaves the window, the cache, the wire and the back-off alone.\<close>

theorem late_ack_ignored:
  assumes "\<not> arq_isPending acked (l_arq l) \<or> l_state l \<noteq> OK" and "onAck acked n l = (stop, l')"
  shows "l_arq l' = l_arq l \<and> l_cache l' = l_cache l \<and> l_hw l' = l_hw l \<and> l_g l' = l_g l \<and>
    l_t l' = l_t l \<and> l_state l' = l_state l \<and> \<not> stop"
  using assms by (auto simp: onAck_def Let_def frame_simps split: if_splits)

subsection \<open>A NAK\<close>

text \<open>A NAK for the base that arrives again within twice the flight time of its resend does
  not resend, does not restart the slot's timer, does not count as a retry and does not touch
  the cache: a storm of NAKs neither floods the wire nor postpones the timeout.\<close>

theorem repeated_nak_suppressed:
  assumes "cfg_mode (l_cfg l) = ASYNC" and "m = gbnBase_' (l_arq l)"
    and "g_gbnLastResendBase (l_g l) = m"
    and "l_now l - g_gbnLastResendMs (l_g l) < u32_of_int (nakDedupMs l)"
    and "onNak m l = (stop, l')"
  shows "wire l' = wire l \<and> l_cache l' = l_cache l \<and> sentAtMs_' (l_arq l') = sentAtMs_' (l_arq l) \<and>
    retxCount_' (l_arq l') = retxCount_' (l_arq l) \<and> ackedPending_' (l_arq l') = ackedPending_' (l_arq l) \<and>
    gbnBase_' (l_arq l') = gbnBase_' (l_arq l) \<and> l_state l' = l_state l \<and> \<not> stop"
proof -
  have supp: "sentAtMs_' (arq_noteSuppressedNak m a) = sentAtMs_' a"
    "retxCount_' (arq_noteSuppressedNak m a) = retxCount_' a"
    "ackedPending_' (arq_noteSuppressedNak m a) = ackedPending_' a"
    "gbnBase_' (arq_noteSuppressedNak m a) = gbnBase_' a" for a
    by (simp_all add: arq_noteSuppressedNak_def Let_def)
  have dedup: "nakDedupMs x = nakDedupMs l" if "l_cfg x = l_cfg l" "l_spdI x = l_spdI l" for x
    using that by (simp add: nakDedupMs_def gbnResendFlightMs_def l_baud_def Let_def)
  have spd: "l_spdI (notePeerResponse x) = l_spdI x" for x by (simp add: notePeerResponse_def Let_def)
  have base: "wire (onNak_base m x) = wire x \<and> l_cache (onNak_base m x) = l_cache x \<and>
      l_arq (onNak_base m x) = arq_noteSuppressedNak m (l_arq x) \<and> l_state (onNak_base m x) = l_state x"
    if "l_cfg x = l_cfg l" "l_spdI x = l_spdI l" "l_now x = l_now l" "l_g x = l_g l" for x
    using assms(3, 4) that dedup [OF that(1, 2)] by (simp add: onNak_base_def Let_def)
  show ?thesis
    using assms(1, 2, 5) supp base
    by (auto simp: onNak_def Let_def frame_simps spd split: if_splits)
qed

subsection \<open>Resending\<close>

lemma cobsDataWire_fits: "kWorstCaseCobsFrame \<le> a \<Longrightarrow> int (length (cobsDataWire s b)) \<le> a"
  using cobsDataWire_length [of s b] by (simp add: wire_defs)

lemma retxSeq_cached:
  assumes "cache_peek s (l_cache l) = Some b" and "kWorstCaseCobsFrame \<le> hal_txAvail (l_hw l)"
  shows "\<exists>l'. retxSeq s l = (True, l') \<and> wire l' = wire l @ cobsDataWire s b \<and> l_cache l' = l_cache l \<and>
    l_arq l' = l_arq l \<and> h_txCap (l_hw l') = h_txCap (l_hw l) \<and> l_g l' = l_g l \<and>
    t_txSeq (l_t l') = t_txSeq (l_t l) \<and> app l' = app l"
proof -
  have "cache_slotInUse s (l_cache l)"
    using assms(1) by (auto simp: cache_peek_def cache_slotInUse_def Let_def split: if_splits)
  moreover have "buildAndTxCobsFrame s b l =
      (True, l_hw_update (\<lambda>h. h\<lparr>h_txBuf := h_txBuf h @ cobsDataWire s b\<rparr>) l)"
    using assms(2) by (cases rule: buildAndTx_cases [of l s b]) simp_all
  ultimately show ?thesis
    using assms(1) by (simp add: retxSeq_def resendCobsFrame_def Let_def)
qed

definition cachedFrame :: "ArqCache \<Rightarrow> u8 \<Rightarrow> bytes" where
  "cachedFrame c s = cobsDataWire s (the (cache_peek s c))"

lemma resendBurst_wire:
  assumes "\<forall>s \<in> set (seqRun s n). cache_peek s (l_cache l) \<noteq> None"
    and "int n * kWorstCaseCobsFrame \<le> hal_txAvail (l_hw l)"
  shows "wire (resendBurst n s now l) = wire l @ concat (map (cachedFrame (l_cache l)) (seqRun s n)) \<and>
    l_cache (resendBurst n s now l) = l_cache l \<and> app (resendBurst n s now l) = app l \<and>
    t_txSeq (l_t (resendBurst n s now l)) = t_txSeq (l_t l) \<and>
    ackedPending_' (l_arq (resendBurst n s now l)) = ackedPending_' (l_arq l) \<and>
    gbnBase_' (l_arq (resendBurst n s now l)) = gbnBase_' (l_arq l)"
  using assms
proof (induction n arbitrary: s l)
  case 0
  then show ?case by (simp add: seqRun_def)
next
  case (Suc n)
  obtain b where b: "cache_peek s (l_cache l) = Some b" using Suc.prems(1) by (auto simp: seqRun_Suc)
  have room: "kWorstCaseCobsFrame \<le> hal_txAvail (l_hw l)"
    using Suc.prems(2) by (simp add: wire_defs)
  obtain m where m: "retxSeq s l = (True, m)" "wire m = wire l @ cobsDataWire s b" "l_cache m = l_cache l"
      "l_arq m = l_arq l" "h_txCap (l_hw m) = h_txCap (l_hw l)" "t_txSeq (l_t m) = t_txSeq (l_t l)"
      "app m = app l"
    using retxSeq_cached [OF b room] by blast
  let ?m = "l_arq_update (arq_applyRetx s now (g_resendSource (l_g m) = SrcRto)) m"
  have avail: "int n * kWorstCaseCobsFrame \<le> hal_txAvail (l_hw ?m)"
    using Suc.prems(2) m(2, 5) cobsDataWire_length [of s b]
    by (simp add: hal_txAvail_def wire_defs Let_def split: if_splits)
  have pend: "ackedPending_' (arq_applyRetx s now f a) = ackedPending_' a" for f a
    by (simp add: arq_applyRetx_def Let_def)
  have "\<forall>t \<in> set (seqRun (nextSeq s) n). cache_peek t (l_cache ?m) \<noteq> None"
    using Suc.prems(1) m(3) by (simp add: seqRun_Suc)
  from Suc.IH [OF this avail] show ?case
    using m b room by (simp add: seqRun_Suc cachedFrame_def pend arq_base_ops)
qed

text \<open>C8: A resend of the window repeats what was sent. With the chunks cached and room in the
  ring, the wire gets the frames of the first \<open>burst\<close> numbers from the base, in order, each with
  its own number and the bytes the cache keeps for it; no new number is taken and nothing
  is acknowledged.\<close>

theorem resend_repeats_window:
  assumes "gbnActive_' (l_arq l)"
    and "k = nat (decideGbnResendCap (arq_pendingCount (l_arq l)) (cfg_gbnResendBurstMax (l_cfg l)))"
    and "\<forall>s \<in> set (seqRun (gbnBase_' (l_arq l)) k). cache_peek s (l_cache l) \<noteq> None"
    and "int k * kWorstCaseCobsFrame \<le> hal_txAvail (l_hw l)"
  shows "wire (gbnResendWindow now l) =
      wire l @ concat (map (cachedFrame (l_cache l)) (seqRun (gbnBase_' (l_arq l)) k)) \<and>
    l_cache (gbnResendWindow now l) = l_cache l \<and>
    t_txSeq (l_t (gbnResendWindow now l)) = t_txSeq (l_t l) \<and>
    ackedPending_' (l_arq (gbnResendWindow now l)) = ackedPending_' (l_arq l) \<and>
    gbnBase_' (l_arq (gbnResendWindow now l)) = gbnBase_' (l_arq l)"
  using assms resendBurst_wire [of "gbnBase_' (l_arq l)" k
    "l_g_update (\<lambda>g. g\<lparr>g_gbnLastResendBase := gbnBase_' (l_arq l), g_gbnLastResendMs := now\<rparr>) l" now]
  by (simp add: gbnResendWindow_def Let_def)

subsection \<open>An acknowledged chunk\<close>

lemma acked_send_cases:
  assumes inv: "link_inv l" and b: "b \<noteq> []" "length b \<le> nat MAX_CHUNK" and mode: "cfg_mode (l_cfg l) = ASYNC"
    and s: "sendCobsFrameAcked b base l = (q, l')"
  shows "(q = 0xFF \<and> wire l' = wire l \<and> l_arq l' = l_arq l \<and> l_cache l' = l_cache l \<and>
      t_txSeq (l_t l') = t_txSeq (l_t l) \<and>
      (\<not> cache_hasRoom (l_cache l) \<or> hal_txAvail (l_hw l) < kWorstCaseCobsFrame)) \<or>
    (q = t_txSeq (l_t l) \<and> q \<noteq> 0xFF \<and> wire l' = wire l @ cobsDataWire q b \<and>
      (\<forall>t. cache_peek t (l_cache l') = (if t = q then Some b else cache_peek t (l_cache l))) \<and>
      (\<forall>t. arq_isPending t (l_arq l') \<longleftrightarrow> budgetIdx t = budgetIdx q \<or> arq_isPending t (l_arq l)) \<and>
      t_txSeq (l_t l') = nextSeq q \<and> gbnActive_' (l_arq l') \<and>
      gbnBase_' (l_arq l') = (if gbnActive_' (l_arq l) then gbnBase_' (l_arq l) else q))"
proof -
  let ?q = "t_txSeq (l_t l)"
  have q: "?q \<noteq> 0xFF"
    using kept_carry.link_inv_parts(4) [of l] inv by (auto simp: link_inv_def seq_ok_def wire_defs)
  have ci: "cache_inv (l_cache l)" using kept_carry.link_inv_parts(2) [of l] inv by (simp add: link_inv_def)
  show ?thesis
  proof (cases "cache_hasRoom (l_cache l)")
    case False
    then show ?thesis using s b by (auto simp: sendCobsFrameAcked_def Let_def)
  next
    case True
    have peek: "cache_peek t (cache_insert ?q b (l_cache l)) = (if t = ?q then Some b else cache_peek t (l_cache l))" for t
      using True b ci by (intro acache.peek_insert) (simp_all add: cache_hasRoom_iff wire_defs)
    have pend: "arq_isPending t (arq_onSent s base now lap a) \<longleftrightarrow> budgetIdx t = budgetIdx s \<or> arq_isPending t a" for s t now lap a
      by (simp add: arq_onSent_def arq_isPending_def Let_def)
    have act: "gbnActive_' (arq_onSent s base now lap a) = gbnActive_' a"
      "gbnActive_' (arq_setGbnActive True (arq_setGbnBase s a))"
      "arq_isPending t (arq_setGbnActive True (arq_setGbnBase s a)) = arq_isPending t a" for now lap a t s
      by (simp_all add: arq_onSent_def arq_setGbnActive_def arq_setGbnBase_def arq_isPending_def Let_def)
    show ?thesis
    proof (cases rule: buildAndTx_cases [of l ?q b])
      case stall
      then show ?thesis
        using s b True
        by (auto simp: sendCobsFrameAcked_def sendCobsFrame_def noteTxReject_def noteRingStall_def Let_def)
    next
      case sent
      then show ?thesis
        using s b True q mode peek
        by (auto simp: sendCobsFrameAcked_def sendCobsFrame_def openGbnWindow_def nextSeq_def Let_def
            pend act arq_base_ops split: if_splits)
    qed
  qed
qed

text \<open>Sending a chunk of the go-back-N window is atomic. Either it is refused (no cache
  buffer, no room in the ring) and the wire, the ARQ, the cache and the next number are as
  before, or its frame is on the wire under the next number, its bytes are cached under
  that number, its slot is pending, the window is open with the base at or before it, and the
  next number has moved on by one.\<close>

theorem acked_send_atomic:
  assumes inv: "link_inv l" and b: "b \<noteq> []" "length b \<le> nat MAX_CHUNK" and mode: "cfg_mode (l_cfg l) = ASYNC"
    and s: "sendCobsFrameAcked b base l = (q, l')"
  shows "(q = 0xFF \<and> wire l' = wire l \<and> l_arq l' = l_arq l \<and> l_cache l' = l_cache l \<and>
      t_txSeq (l_t l') = t_txSeq (l_t l) \<and>
      (\<not> cache_hasRoom (l_cache l) \<or> hal_txAvail (l_hw l) < kWorstCaseCobsFrame)) \<or>
    (q = t_txSeq (l_t l) \<and> q \<noteq> 0xFF \<and> wire l' = wire l @ cobsDataWire q b \<and>
      (\<forall>t. cache_peek t (l_cache l') = (if t = q then Some b else cache_peek t (l_cache l))) \<and>
      (\<forall>t. arq_isPending t (l_arq l') \<longleftrightarrow> budgetIdx t = budgetIdx q \<or> arq_isPending t (l_arq l)) \<and>
      t_txSeq (l_t l') = nextSeq q \<and> gbnActive_' (l_arq l') \<and>
      gbnBase_' (l_arq l') = (if gbnActive_' (l_arq l) then gbnBase_' (l_arq l) else q))"
  by (rule acked_send_cases [OF assms])

subsection \<open>Witnesses\<close>


theorem acked_send_atomic_witness:
  "wire demo_sent = [] \<and> cache_peek 0 (l_cache demo_sent) = cache_peek 0 (cache_new 8) \<or>
   wire demo_sent = cobsDataWire 0 [1, 2, 3] \<and> cache_peek 0 (l_cache demo_sent) = Some [1, 2, 3]"
  using acked_send_atomic [of "demo_link True" "[1, 2, 3]" NO_BASE
      "fst (sendCobsFrameAcked [1, 2, 3] NO_BASE (demo_link True))" demo_sent]
  by (auto simp: demo_inv demo_sent_def wire_defs)

lemma demo_sent_facts:
  shows "wire demo_sent = cobsDataWire 0 [1, 2, 3]" "cache_peek 0 (l_cache demo_sent) = Some [1, 2, 3]"
    "arq_isPending 0 (l_arq demo_sent)" "gbnActive_' (l_arq demo_sent)" "gbnBase_' (l_arq demo_sent) = 0"
    "t_txSeq (l_t demo_sent) = 1"
proof -
  have "(fst (sendCobsFrameAcked [1, 2, 3] NO_BASE (demo_link True)), demo_sent) =
      sendCobsFrameAcked [1, 2, 3] NO_BASE (demo_link True)" by (simp add: demo_sent_def)
  note sent = acked_send_cases [OF demo_inv _ _ _ this [symmetric]]
  show "wire demo_sent = cobsDataWire 0 [1, 2, 3]" "cache_peek 0 (l_cache demo_sent) = Some [1, 2, 3]"
    "arq_isPending 0 (l_arq demo_sent)" "gbnActive_' (l_arq demo_sent)" "gbnBase_' (l_arq demo_sent) = 0"
    "t_txSeq (l_t demo_sent) = 1"
    using sent by (auto simp: demo_room wire_defs nextSeq_def arq_new_def arq_clearAll_def)
qed

lemma demo_sent_idx: "idxOf 0 (l_arq demo_sent) = 0"
  by (simp add: idxOf_def demo_sent_facts wire_defs Let_def)

theorem ack_commits_window_witness:
  "gbnBase_' (l_arq (snd (onAck 0 3 demo_sent))) = 1 \<and>
   cache_peek 0 (l_cache (snd (onAck 0 3 demo_sent))) = None \<and>
   \<not> arq_isPending 0 (l_arq (snd (onAck 0 3 demo_sent)))"
  using ack_commits_window [of demo_sent 0 "seqRun 0 (Suc 0)" 3 "fst (onAck 0 3 demo_sent)" "snd (onAck 0 3 demo_sent)"]
  by (simp add: demo_sent_inv demo_sent_facts demo_sent_idx seqRun_def nextSeq_def wire_defs)

theorem late_ack_ignored_witness:
  "l_arq (snd (onAck 7 0 (demo_link True))) = arq_new \<and> \<not> fst (onAck 7 0 (demo_link True))"
  using late_ack_ignored [of 7 "demo_link True" 0 "fst (onAck 7 0 (demo_link True))" "snd (onAck 7 0 (demo_link True))"]
  by (simp add: arq_new_def arq_clearAll_def arq_isPending_def)

definition demo_resent :: Link where
  "demo_resent = l_g_update (\<lambda>g. g\<lparr>g_gbnLastResendBase := 0, g_gbnLastResendMs := 4995\<rparr>) demo_sent"

theorem repeated_nak_suppressed_witness:
  "wire (snd (onNak 0 demo_resent)) = wire demo_resent \<and> \<not> fst (onNak 0 demo_resent)"
  using repeated_nak_suppressed [of demo_resent 0 "fst (onNak 0 demo_resent)" "snd (onNak 0 demo_resent)"]
  by (simp add: demo_resent_def demo_sent_facts nakDedupMs_def gbnResendFlightMs_def l_baud_def
      allowedBaudSafe_def demo_cfg_def config_default_def chunkTxMs_def wire_defs Let_def)

theorem resend_repeats_window_witness:
  "wire (gbnResendWindow 5000 demo_sent) = cobsDataWire 0 [1, 2, 3] @ cobsDataWire 0 [1, 2, 3]"
proof -
  have "arq_pendingCount (l_arq demo_sent) =
      arq_pendingCount (arq_new\<lparr>ackedPending_' := (ackedPending_' arq_new)(budgetIdx 0 := True)\<rparr>)"
    by (rule pendingCount_cong)
      (simp add: demo_sent_def sendCobsFrameAcked_def sendCobsFrame_def buildAndTxCobsFrame_def
        openGbnWindow_def demo_room arq_onSent_def arq_setGbnActive_def arq_setGbnBase_def wire_defs Let_def)
  also have "\<dots> = 1"
    by (simp only: pendingCount_upd) (simp add: arq_pendingCount_def arq_isPending_def arq_new_def arq_clearAll_def)
  finally have one: "arq_pendingCount (l_arq demo_sent) = 1" .
  have room: "kWorstCaseCobsFrame \<le> hal_txAvail (l_hw demo_sent)"
    using cobsDataWire_length [of 0 "[1, 2, 3]"]
    by (simp add: hal_txAvail_def demo_sent_facts wire_defs Let_def)
  show ?thesis
    using room resend_repeats_window [of demo_sent 1 5000]
    by (simp add: demo_sent_facts one seqRun_def cachedFrame_def decideGbnResendCap_def demo_cfg_def
        config_default_def wire_defs Let_def)
qed

end
