(* ===== verification/GbnSpec.thy ===== *)
theory GbnSpec
  imports Main
begin

text \<open>
  The abstract protocol the ASYNC link implements: go-back-N with a window of \<open>w\<close> chunks, over
  two first-in-first-out wires that lose but do not reorder. Chunks have their absolute
  index here; the 254 numbers of the real wire are the refinement's business (\<open>LinkPair\<close>).

  A state counts the chunks the sender has seen acknowledged (\<open>gB\<close>), the receiver has
  delivered (\<open>gE\<close>) and the application has handed over (\<open>gN\<close>), and has the chunks and the
  answers that are on their way. \<open>gbn_ok\<close> is the invariant; its two order conditions are what
  makes a bounded number space enough.
\<close>

subsection \<open>The protocol\<close>

datatype answer = RAck nat | RNak nat

text \<open>The index an answer names, and how far the sender may move its base on it.\<close>

fun ans_idx :: "answer \<Rightarrow> nat" where
  "ans_idx (RAck i) = i"
| "ans_idx (RNak i) = i"

fun ans_level :: "answer \<Rightarrow> nat" where
  "ans_level (RAck i) = i + 1"
| "ans_level (RNak i) = i"

record gbn =
  gB :: nat
  gE :: nat
  gN :: nat
  gData :: "nat list"
  gResp :: "answer list"

definition gbn_init :: gbn where
  "gbn_init = \<lparr>gB = 0, gE = 0, gN = 0, gData = [], gResp = []\<rparr>"

text \<open>Several resends are several steps; an answer that finds no room is an answer lost.\<close>

inductive gbn_step :: "nat \<Rightarrow> gbn \<Rightarrow> gbn \<Rightarrow> bool" for w where
  send: "gN g < gB g + w \<Longrightarrow> gbn_step w g (g\<lparr>gN := gN g + 1, gData := gData g @ [gN g]\<rparr>)"
| resend: "gB g \<le> i \<Longrightarrow> i < gN g \<Longrightarrow> gbn_step w g (g\<lparr>gData := gData g @ [i]\<rparr>)"
| deliver: "gData g = gE g # ds \<Longrightarrow>
    gbn_step w g (g\<lparr>gE := gE g + 1, gData := ds, gResp := gResp g @ [RAck (gE g)]\<rparr>)"
| repeated: "gData g = i # ds \<Longrightarrow> i < gE g \<Longrightarrow>
    gbn_step w g (g\<lparr>gData := ds, gResp := gResp g @ [RAck i]\<rparr>)"
| refuse: "gData g = i # ds \<Longrightarrow> gE g \<le> i \<Longrightarrow>
    gbn_step w g (g\<lparr>gData := ds, gResp := gResp g @ [RNak (gE g)]\<rparr>)"
| answer: "gResp g = r # rs \<Longrightarrow> gbn_step w g (g\<lparr>gB := max (gB g) (ans_level r), gResp := rs\<rparr>)"
| lose_data: "gData g = ds @ i # ds' \<Longrightarrow> gbn_step w g (g\<lparr>gData := ds @ ds'\<rparr>)"
| lose_answer: "gResp g = rs @ r # rs' \<Longrightarrow> gbn_step w g (g\<lparr>gResp := rs @ rs'\<rparr>)"

subsection \<open>The invariant\<close>

definition gbn_ok :: "nat \<Rightarrow> gbn \<Rightarrow> bool" where
  "gbn_ok w g \<longleftrightarrow>
     gB g \<le> gE g \<and> gE g \<le> gN g \<and> gN g \<le> gB g + w \<and>
     (\<forall>i \<in> set (gData g). i < gN g \<and> gE g \<le> i + w) \<and>
     sorted_wrt (\<lambda>i j. i < j + w) (gData g) \<and>
     (\<forall>r \<in> set (gResp g). ans_level r \<le> gE g \<and> gB g \<le> ans_idx r + w) \<and>
     sorted_wrt (\<lambda>p q. ans_level p \<le> ans_idx q + w) (gResp g)"

lemma gbn_ok_init: "gbn_ok w gbn_init"
  by (simp add: gbn_ok_def gbn_init_def)

lemma gbn_ok_order: "gbn_ok w g \<Longrightarrow> gB g \<le> gE g \<and> gE g \<le> gN g \<and> gN g \<le> gB g + w"
  by (simp add: gbn_ok_def)

lemma gbn_ok_answer:
  assumes ok: "gbn_ok w g" and r: "ans_level r \<le> gE g" "gE g \<le> ans_idx r + w"
  shows "gbn_ok w (g\<lparr>gResp := gResp g @ [r]\<rparr>)"
  using assms by (fastforce simp: gbn_ok_def sorted_wrt_append)

lemma gbn_ok_step:
  assumes "gbn_step w g g'" and ok: "gbn_ok w g"
  shows "gbn_ok w g'"
  using assms(1)
proof cases
  case send
  then show ?thesis using ok by (fastforce simp: gbn_ok_def sorted_wrt_append)
next
  case (resend i)
  then show ?thesis using ok by (fastforce simp: gbn_ok_def sorted_wrt_append)
next
  case (deliver ds)
  then have "gbn_ok w (g\<lparr>gE := gE g + 1, gData := ds\<rparr>)"
    using ok by (auto simp: gbn_ok_def intro: le_SucI)
  from gbn_ok_answer [OF this, of "RAck (gE g)"] show ?thesis using deliver ok
    by (simp add: gbn_ok_def)
next
  case (repeated i ds)
  then have "gbn_ok w (g\<lparr>gData := ds\<rparr>)" "gE g \<le> i + w" using ok by (auto simp: gbn_ok_def)
  then show ?thesis using repeated gbn_ok_answer [of w "g\<lparr>gData := ds\<rparr>" "RAck i"] by simp
next
  case (refuse i ds)
  then have "gbn_ok w (g\<lparr>gData := ds\<rparr>)" using ok by (auto simp: gbn_ok_def)
  then show ?thesis using refuse gbn_ok_answer [of w "g\<lparr>gData := ds\<rparr>" "RNak (gE g)"] by simp
next
  case (answer r rs)
  then show ?thesis using ok by (auto simp: gbn_ok_def)
next
  case (lose_data ds i ds')
  then show ?thesis using ok by (auto simp: gbn_ok_def sorted_wrt_append)
next
  case (lose_answer rs r rs')
  then show ?thesis using ok by (auto simp: gbn_ok_def sorted_wrt_append)
qed

lemma gbn_ok_steps: "(gbn_step w)\<^sup>*\<^sup>* g g' \<Longrightarrow> gbn_ok w g \<Longrightarrow> gbn_ok w g'"
  by (induction rule: rtranclp_induct) (auto intro: gbn_ok_step)

subsection \<open>Several steps at once\<close>

lemma gbn_resends:
  assumes "gB g \<le> b" and "b + k \<le> gN g"
  shows "(gbn_step w)\<^sup>*\<^sup>* g (g\<lparr>gData := gData g @ [b..<b + k]\<rparr>)"
  using assms
proof (induction k)
  case (Suc k)
  let ?g = "g\<lparr>gData := gData g @ [b..<b + k]\<rparr>"
  have "gbn_step w ?g (?g\<lparr>gData := gData ?g @ [b + k]\<rparr>)" using Suc.prems by (intro gbn_step.resend) simp_all
  then show ?case using Suc by (auto intro: rtranclp.rtrancl_into_rtrancl)
qed simp

subsection \<open>Simulation\<close>

text \<open>What a model of a pair of real links has to show to inherit what holds of the protocol: every
  step of the model is some steps of the protocol, on matching states.\<close>

locale simulation =
  fixes astep :: "'a \<Rightarrow> 'a \<Rightarrow> bool"
    and cstep :: "'c \<Rightarrow> 'c \<Rightarrow> bool"
    and matches :: "'c \<Rightarrow> 'a \<Rightarrow> bool"
  assumes sim_step: "matches c a \<Longrightarrow> cstep c c' \<Longrightarrow> \<exists>a'. astep\<^sup>*\<^sup>* a a' \<and> matches c' a'"
begin

lemma sim_steps: "cstep\<^sup>*\<^sup>* c c' \<Longrightarrow> matches c a \<Longrightarrow> \<exists>a'. astep\<^sup>*\<^sup>* a a' \<and> matches c' a'"
proof (induction rule: rtranclp_induct)
  case (step c1 c2)
  then obtain a1 where "astep\<^sup>*\<^sup>* a a1" "matches c1 a1" by blast
  then show ?case using sim_step [OF _ step.hyps(2), of a1] by (meson rtranclp_trans)
qed blast

lemma sim_invariant:
  assumes "cstep\<^sup>*\<^sup>* c c'" and "matches c a" and "P a"
    and "\<And>x y. astep x y \<Longrightarrow> P x \<Longrightarrow> P y"
  shows "\<exists>a'. matches c' a' \<and> P a'"
proof -
  obtain a' where a': "astep\<^sup>*\<^sup>* a a'" "matches c' a'" using sim_steps [OF assms(1, 2)] by blast
  have "P a'" using a'(1) assms(3) by (induction rule: rtranclp_induct) (auto intro: assms(4))
  then show ?thesis using a'(2) by blast
qed

end

end
