(* ===== verification/LinkPair.thy ===== *)
theory LinkPair
  imports LinkDelivery GbnSpec
begin

text \<open>
  Two locked ASYNC links joined by a wire in each direction, and how their state stands for the
  protocol of \<open>GbnSpec\<close>, once per direction: the sending half of one link and the receiving
  half of the other.

  \<^item> a wire carries frames; a frame is on its way from the moment the sender's ring takes it, in
    the order of the ring. Which frames an operation adds is read off the bytes it appends to the
    ring, with the code's own framer. A frame may get lost, which stands for every corruption the
    CRC detects and for a ring the UART never drains;
  \<^item> the operations are the code's: \<open>sendCobsFrameAcked\<close> for a chunk, the framer's listener
    (\<open>onPayload\<close>, \<open>onAck\<close>, \<open>onNak\<close>) for a frame that arrives, the timer's \<open>sweepRetx\<close>. Whatever
    else the tasks of a side do without ending the session is an \<open>aside\<close>;
  \<^item> a session ends with a reset, which empties the window on purpose
    (\<open>LinkSession.reset_ends_session\<close>); the theory speaks of one session.
\<close>

subsection \<open>The numbers of the wire\<close>

definition seqOf :: "nat \<Rightarrow> u8" where
  "seqOf i = of_nat (i mod 254)"

lemma unat_seqOf [simp]: "unat (seqOf i) = i mod 254"
proof -
  have "i mod 254 < 254" by simp
  then show ?thesis unfolding seqOf_def by (intro unat_of_nat_u8) linarith
qed

lemma seqOf_lt [simp]: "unat (seqOf i) < 254"
  by simp

lemma seqOf_le_max [simp]: "seqOf i \<le> COBS_SEQ_MAX" "seqOf i \<noteq> 0xFF"
proof -
  have lt: "i mod 254 < 254" by simp
  then have "i mod 254 \<le> 253" by linarith
  then show "seqOf i \<le> COBS_SEQ_MAX" by (simp add: wire_defs word_le_nat_alt)
  show "seqOf i \<noteq> 0xFF"
  proof
    assume "seqOf i = 0xFF"
    then have "unat (seqOf i) = unat (0xFF :: u8)" by (rule arg_cong)
    then show False using lt by simp
  qed
qed

lemma nextSeq_seqOf [simp]: "nextSeq (seqOf i) = seqOf (Suc i)"
  by (rule word_unat_eq_iff [THEN iffD2]) (simp add: unat_nextSeq mod_Suc_eq)

lemma seqOf_pow: "(nextSeq ^^ k) (seqOf i) = seqOf (i + k)"
  by (induction k) simp_all

lemma seqRun_seqOf: "seqRun (seqOf b) k = map seqOf [b..<b + k]"
  by (rule nth_equalityI) (simp_all add: seqRun_def seqOf_pow)

lemma seqDist_seqOf:
  assumes "i \<le> j" and "j < i + 254"
  shows "seqDist (seqOf i) (seqOf j) = int (j - i)"
proof -
  have "seqDist (seqOf i) (seqOf j) = (int j - int i) mod 254"
    by (simp add: seqDist_def zmod_int mod_diff_eq)
  also have "\<dots> = int (j - i)"
    using assms by (simp add: of_nat_diff)
  finally show ?thesis .
qed

lemma seqDist_seqOf_back:
  assumes "i < j" and "j < i + 254"
  shows "seqDist (seqOf j) (seqOf i) = 254 - int (j - i)"
proof -
  have "seqDist (seqOf j) (seqOf i) = (int i - int j) mod 254"
    by (simp add: seqDist_def zmod_int mod_diff_eq)
  also have "\<dots> = (int i - int j + 254) mod 254" by (simp only: mod_add_self2)
  also have "int i - int j + 254 = 254 - int (j - i)" using assms by (simp add: of_nat_diff)
  also have "\<dots> mod 254 = \<dots>" using assms by (intro mod_pos_pos_trivial) auto
  finally show ?thesis .
qed

lemma seqOf_inj: "i \<le> j \<Longrightarrow> j < i + 254 \<Longrightarrow> seqOf i = seqOf j \<longleftrightarrow> i = j"
  using seqDist_seqOf [of i j] seqDist_seqOf [of i i] by auto

lemma seqOf_inj_on: "n \<le> b + 254 \<Longrightarrow> inj_on seqOf {b..<n}"
proof (rule inj_onI)
  fix i j
  assume "n \<le> b + 254" "i \<in> {b..<n}" "j \<in> {b..<n}" "seqOf i = seqOf j"
  then show "i = j" using seqOf_inj [of i j] seqOf_inj [of j i] by (cases "i \<le> j") auto
qed

lemma budgetIdx_seqOf:
  assumes "i < j" and "j < i + 62"
  shows "budgetIdx (seqOf i) \<noteq> budgetIdx (seqOf j)"
  using assms by (intro budgetIdx_eq_iff) (simp_all add: seqDist_seqOf)

lemma budgetIdx_inj_on: "n \<le> b + 62 \<Longrightarrow> inj_on (budgetIdx \<circ> seqOf) {b..<n}"
proof (rule inj_onI)
  fix i j
  assume "n \<le> b + 62" "i \<in> {b..<n}" "j \<in> {b..<n}" "(budgetIdx \<circ> seqOf) i = (budgetIdx \<circ> seqOf) j"
  then show "i = j" using budgetIdx_seqOf [of i j] budgetIdx_seqOf [of j i] by (cases i j rule: linorder_cases) auto
qed

subsection \<open>Frames on their way\<close>

text \<open>The events an idle framer makes of a run of bytes.\<close>

definition frames :: "bytes \<Rightarrow> frame_event list" where
  "frames bs = snd (snd (feed (\<lambda>e es. (es @ [e], False)) bs [] []))"

lemma frames_wire:
  assumes "list_all wf_frame fs"
  shows "frames (concat (map wireOf fs)) = map eventOf fs"
proof -
  have "snd (snd (feed_loop (\<lambda>e es. (es @ [e], False)) (concat (map wireOf fs)) i [] es)) =
      es @ map eventOf fs" for i es
    using assms by (induction fs arbitrary: i es) (simp_all add: feed_loop_frame Let_def)
  from this [of 0 "[]"] show ?thesis by (simp add: frames_def feed_def)
qed

text \<open>An operation appends these frames to the ring.\<close>

definition newFrames :: "Link \<Rightarrow> Link \<Rightarrow> frame_event list" where
  "newFrames l l' = frames (drop (length (wire l)) (wire l'))"

definition puts :: "wire_frame list \<Rightarrow> Link \<Rightarrow> Link \<Rightarrow> bool" where
  "puts fs l l' \<longleftrightarrow> list_all wf_frame fs \<and> wire l' = wire l @ concat (map wireOf fs)"

lemma puts_newFrames: "puts fs l l' \<Longrightarrow> newFrames l l' = map eventOf fs"
  by (simp add: puts_def newFrames_def frames_wire)

lemma puts_none [simp]: "wire l' = wire l \<Longrightarrow> puts [] l l'"
  by (simp add: puts_def)

fun dataOf :: "frame_event \<Rightarrow> (u8 \<times> bytes) list" where
  "dataOf (OnPayload s b) = [(s, b)]"
| "dataOf _ = []"

text \<open>An answer: whether it is an ACK, and its number.\<close>

fun answerOf :: "frame_event \<Rightarrow> (bool \<times> u8) list" where
  "answerOf (OnAck s n) = [(True, s)]"
| "answerOf (OnNak s) = [(False, s)]"
| "answerOf _ = []"

abbreviation datas :: "frame_event list \<Rightarrow> (u8 \<times> bytes) list" where
  "datas es \<equiv> concat (map dataOf es)"

abbreviation answers :: "frame_event list \<Rightarrow> (bool \<times> u8) list" where
  "answers es \<equiv> concat (map answerOf es)"

subsection \<open>Two links and two wires\<close>

text \<open>The sides are \<open>True\<close> and \<open>False\<close>. \<open>n_chan x\<close> is on its way to the side \<open>x\<close>; \<open>n_sent x\<close> are the
  chunks the link of the side \<open>x\<close> has taken from its application; \<open>n_out x\<close> is every byte that
  the other side has put into its application's queue.\<close>

record Net =
  n_link :: "bool \<Rightarrow> Link"
  n_chan :: "bool \<Rightarrow> frame_event list"
  n_sent :: "bool \<Rightarrow> bytes list"
  n_out :: "bool \<Rightarrow> bytes"

text \<open>The side \<open>x\<close> has run an operation and is now \<open>l'\<close>.\<close>

definition net_act :: "bool \<Rightarrow> Link \<Rightarrow> Net \<Rightarrow> Net" where
  "net_act x l' n =
     n\<lparr>n_link := (n_link n)(x := l'),
       n_chan := (n_chan n)(\<not> x := n_chan n (\<not> x) @ newFrames (n_link n x) l'),
       n_out := (n_out n)(\<not> x := n_out n (\<not> x) @ drop (length (app (n_link n x))) (app l'))\<rparr>"

definition net_take :: "bool \<Rightarrow> frame_event list \<Rightarrow> Net \<Rightarrow> Net" where
  "net_take x es n = n\<lparr>n_chan := (n_chan n)(x := es)\<rparr>"

definition net_sent :: "bool \<Rightarrow> u8 \<Rightarrow> bytes \<Rightarrow> Net \<Rightarrow> Net" where
  "net_sent x q b n = (if q = 0xFF then n else n\<lparr>n_sent := (n_sent n)(x := n_sent n x @ [b])\<rparr>)"

text \<open>A link of a running session.\<close>

definition in_session :: "Link \<Rightarrow> bool" where
  "in_session l \<longleftrightarrow> link_inv l \<and> l_state l = OK \<and> cfg_mode (l_cfg l) = ASYNC"

text \<open>What the protocol reads of a sender and of a receiver.\<close>

definition tx_view :: "Link \<Rightarrow> (u8 \<Rightarrow> bool) \<times> u8 \<times> bool \<times> (u8 \<Rightarrow> bytes option) \<times> u8" where
  "tx_view l = ((\<lambda>s. arq_isPending s (l_arq l)), gbnBase_' (l_arq l), gbnActive_' (l_arq l),
     (\<lambda>s. cache_peek s (l_cache l)), t_txSeq (l_t l))"

definition rx_view :: "Link \<Rightarrow> bool \<times> u8" where
  "rx_view l = (r_rxSeqSet (l_r l), r_rxSeq (l_r l))"

text \<open>Anything a side does that keeps its session and both views: time, the UART, the reading
  application, control frames, timers that do not resend, statistics.\<close>

definition aside :: "Link \<Rightarrow> Link \<Rightarrow> bool" where
  "aside l l' \<longleftrightarrow> in_session l' \<and> tx_view l' = tx_view l \<and> rx_view l' = rx_view l"

text \<open>A chunk goes out while fewer than a window of them are pending: \<open>sendMsg_guards\<close> refuses a
  message that would make it more.\<close>

inductive net_step :: "Net \<Rightarrow> Net \<Rightarrow> bool" where
  send: "b \<noteq> [] \<Longrightarrow> length b \<le> nat MAX_CHUNK \<Longrightarrow>
    arq_pendingCount (l_arq (n_link n x)) < AUTOLINK_ARQ_PIPELINE_WINDOW \<Longrightarrow>
    sendCobsFrameAcked b base (n_link n x) = (q, l') \<Longrightarrow> net_step n (net_sent x q b (net_act x l' n))"
| receive: "n_chan n x = e # es \<Longrightarrow> link_listener e (n_link n x) = (l', stop) \<Longrightarrow> e \<noteq> OnFrameError \<Longrightarrow>
    net_step n (net_act x l' (net_take x es n))"
| timeout: "sweepRetx now (n_link n x) = (brk, l') \<Longrightarrow> l_state l' = OK \<Longrightarrow> net_step n (net_act x l' n)"
| lose: "n_chan n x = es @ e # fs \<Longrightarrow> net_step n (net_take x (es @ fs) n)"
| other: "aside (n_link n x) l' \<Longrightarrow> net_step n (n\<lparr>n_link := (n_link n)(x := l')\<rparr>)"

inductive_cases net_stepE: "net_step n n'"

subsection \<open>What a pair of links stands for\<close>

definition tx_rel :: "Link \<Rightarrow> bytes list \<Rightarrow> gbn \<Rightarrow> bool" where
  "tx_rel l sent g \<longleftrightarrow>
     length sent = gN g \<and> t_txSeq (l_t l) = seqOf (gN g) \<and>
     (gbnActive_' (l_arq l) \<longleftrightarrow> gB g < gN g) \<and>
     (gB g < gN g \<longrightarrow> gbnBase_' (l_arq l) = seqOf (gB g)) \<and>
     (\<forall>s. arq_isPending s (l_arq l) \<longleftrightarrow> budgetIdx s \<in> (budgetIdx \<circ> seqOf) ` {gB g..<gN g}) \<and>
     (\<forall>i \<in> {gB g..<gN g}. cache_peek (seqOf i) (l_cache l) = Some (sent ! i)) \<and>
     (\<forall>s. cache_peek s (l_cache l) \<noteq> None \<longrightarrow> s \<in> seqOf ` {gB g..<gN g})"

definition rx_rel :: "Link \<Rightarrow> bytes \<Rightarrow> bytes list \<Rightarrow> gbn \<Rightarrow> bool" where
  "rx_rel l out sent g \<longleftrightarrow>
     r_rxSeqSet (l_r l) \<and> r_rxSeq (l_r l) = seqOf (gE g + 253) \<and> out = concat (take (gE g) sent)"

fun numberOf :: "answer \<Rightarrow> bool \<times> u8" where
  "numberOf (RAck i) = (True, seqOf i)"
| "numberOf (RNak i) = (False, seqOf i)"

text \<open>A sender, a receiver, the bytes that arrived, the chunks sent, the frames on their way forth
  and back.\<close>

definition link_half :: "Link \<Rightarrow> Link \<Rightarrow> bytes \<Rightarrow> bytes list \<Rightarrow> frame_event list \<Rightarrow> frame_event list \<Rightarrow> gbn \<Rightarrow> bool" where
  "link_half l r out sent forth back g \<longleftrightarrow>
     gbn_ok 32 g \<and> tx_rel l sent g \<and> rx_rel r out sent g \<and>
     (\<forall>b \<in> set sent. b \<noteq> [] \<and> length b \<le> nat MAX_CHUNK) \<and>
     datas forth = map (\<lambda>i. (seqOf i, sent ! i)) (gData g) \<and>
     answers back = map numberOf (gResp g)"

text \<open>The direction from side \<open>d\<close> to the other.\<close>

definition half :: "bool \<Rightarrow> Net \<Rightarrow> gbn \<Rightarrow> bool" where
  "half d n g \<longleftrightarrow> link_half (n_link n d) (n_link n (\<not> d)) (n_out n d) (n_sent n d) (n_chan n (\<not> d)) (n_chan n d) g"

text \<open>Both links are in a session and the direction runs the protocol; what the other direction does is
  left open.\<close>

definition dir_rel :: "bool \<Rightarrow> Net \<Rightarrow> gbn \<Rightarrow> bool" where
  "dir_rel d n g \<longleftrightarrow> (\<forall>x. in_session (n_link n x)) \<and> half d n g"

end
