(* ===== verification/LinkMessage.thy ===== *)
theory LinkMessage
  imports LinkDelivery
begin

text \<open>
  A message from \<open>sendMsg\<close> to \<open>recvMsg\<close>: the frames the sender puts on the wire, what the
  receiver's \<open>onRx\<close> makes of them, and the message \<open>recvMsg\<close> then returns.
\<close>

subsection \<open>The frames of a message\<close>

function splitChunks :: "bytes \<Rightarrow> bytes list" where
  "splitChunks b =
     (if b = [] then [] else take (nat MAX_CHUNK) b # splitChunks (drop (nat MAX_CHUNK) b))"
  by pat_completeness auto
termination
  by (relation "measure length") (auto simp: wire_defs)

declare splitChunks.simps [simp del]

definition msgHdr :: "bytes \<Rightarrow> bytes" where
  "msgHdr b = msgHdrEncode (of_nat (length b)) (crc16 b)"

definition msgChunks :: "bytes \<Rightarrow> bytes list" where
  "msgChunks b =
     (if int (length b) + MSG_HDR \<le> MAX_CHUNK then [msgHdr b @ b] else msgHdr b # splitChunks b)"

fun framesFrom :: "u8 \<Rightarrow> bytes list \<Rightarrow> bytes" where
  "framesFrom s [] = []"
| "framesFrom s (c # cs) = cobsDataWire s c @ framesFrom (nextSeq s) cs"

definition messageWire :: "u8 \<Rightarrow> bytes \<Rightarrow> bytes" where
  "messageWire s b = framesFrom s (msgChunks b)"

definition chunks_ok :: "bytes list \<Rightarrow> bool" where
  "chunks_ok cs \<longleftrightarrow> (\<forall>c \<in> set cs. c \<noteq> [] \<and> length c \<le> nat MAX_CHUNK)"

lemma splitChunks_concat: "concat (splitChunks b) = b"
proof (induction b rule: splitChunks.induct)
  case (1 b)
  then show ?case by (subst splitChunks.simps) simp
qed

lemma splitChunks_ok: "chunks_ok (splitChunks b)"
proof (induction b rule: splitChunks.induct)
  case (1 b)
  then show ?case by (subst splitChunks.simps) (auto simp: chunks_ok_def wire_defs)
qed

lemma msgHdr_length [simp]: "length (msgHdr b) = 6"
  by (simp add: msgHdr_def)

lemma msgHdr_nonempty [simp]: "msgHdr b \<noteq> []"
  by (metis list.size(3) msgHdr_length zero_neq_numeral)

lemma msgChunks_concat: "concat (msgChunks b) = msgHdr b @ b"
  by (simp add: msgChunks_def splitChunks_concat)

lemma msgChunks_ok: "chunks_ok (msgChunks b)"
  using splitChunks_ok [of b] by (auto simp: msgChunks_def chunks_ok_def wire_defs)

subsection \<open>The receiver\<close>

text \<open>No control frame hides in the bytes: \<open>onRx\<close> looks for one before it hands them to the
  framer.\<close>

definition no_ctrl :: "bytes \<Rightarrow> bool" where
  "no_ctrl data \<longleftrightarrow> (\<forall>i < length data. \<not> ctrlTail data i \<and>
     (ctrlHead data i \<longrightarrow> crc8 (slice i (i + 4) data) \<noteq> data ! (i + 4)))"

lemma scan_no_ctrl:
  assumes "no_ctrl data" and "i \<le> length data"
  shows "onRx_scan data start i brk l = (start, length data, brk, l)"
  using assms(2)
proof (induction "length data - i" arbitrary: i)
  case 0
  then show ?case by (subst onRx_scan.simps) simp
next
  case (Suc n)
  then have "i < length data" by simp
  then have "\<not> ctrlTail data i" "ctrlHead data i \<longrightarrow> crc8 (slice i (i + 4) data) \<noteq> data ! (i + 4)"
    using assms(1) by (simp_all add: no_ctrl_def)
  then show ?case
    using Suc.hyps(1) [of "i + 1"] Suc.hyps(2) \<open>i < length data\<close> by (subst onRx_scan.simps) simp
qed

text \<open>A receiver ready for the chunk \<open>s\<close> with room for \<open>n\<close> bytes.\<close>

definition ready :: "u8 \<Rightarrow> nat \<Rightarrow> Link \<Rightarrow> bool" where
  "ready s n l \<longleftrightarrow> l_state l = OK \<and> in_order s l \<and> int n \<le> hal_appBufFree (l_hw l)"

text \<open>What receiving data leaves alone.\<close>

definition same_rx :: "Link \<Rightarrow> Link \<Rightarrow> bool" where
  "same_rx l l' \<longleftrightarrow> l_cfg l' = l_cfg l \<and> r_msgRx (l_r l') = r_msgRx (l_r l) \<and>
     r_okCarry (l_r l') = r_okCarry (l_r l) \<and> r_msgRxStartedMs (l_r l') = r_msgRxStartedMs (l_r l)"

lemma in_order_Forward:
  assumes "in_order s l"
  shows "fst (classifyGap s (r_rxSeq (l_r l)) (r_rxSeqSet (l_r l))) = Forward"
  using assms classify_Forward [of s "r_rxSeq (l_r l)"]
  by (cases "r_rxSeqSet (l_r l)") (simp_all add: in_order_def reorderExpectedSeq_def classifyGap_def)

lemma txSmall_appRoom [frame_simps]: "h_appBufCap (l_hw (txSmallCobs raw l)) = h_appBufCap (l_hw l)"
  by (simp add: txSmallCobs_def noteRingStall_def Let_def frame_simps)

lemma sendAck_appRoom [frame_simps]:
  "h_appBufCap (l_hw (sendAckFrame s n l)) = h_appBufCap (l_hw l)" "l_cfg (sendAckFrame s n l) = l_cfg l"
  by (simp_all add: sendAckFrame_def frame_simps)

lemma deliver_chunk:
  assumes rdy: "ready s (length b + n) l" and b: "b \<noteq> []"
  shows "\<exists>l'. onPayload s b l = (False, l') \<and> ready (nextSeq s) n l' \<and> app l' = app l @ b \<and> same_rx l l'"
proof -
  define x where "x = l_r_update (\<lambda>r. r\<lparr>r_lastValidRxMs := l_now l, r_lastRxSeq := s\<rparr>) (noteValidFrameOk l)"
  have x: "l_hw x = l_hw l" "l_state x = OK" "same_rx l x"
    using rdy by (simp_all add: x_def frame_simps ready_def same_rx_def)
  have free: "int (length b) \<le> hal_appBufFree (l_hw x)" using rdy x(1) by (simp add: ready_def)
  obtain d where "classifyGap s (r_rxSeq (l_r l)) (r_rxSeqSet (l_r l)) = (Forward, d)"
    using in_order_Forward [of s l] rdy by (metis ready_def prod.collapse)
  then have "onPayload s b l = onPayload_forward s b x"
    using rdy by (simp add: onPayload_def Let_def frame_simps x_def ready_def)
  also have "\<dots> = onPayload_deliver s b x" using b free by (simp add: onPayload_forward_def)
  finally have p: "onPayload s b l = onPayload_deliver s b x" .
  obtain stop l' where l': "onPayload_deliver s b x = (stop, l')" by (cases "onPayload_deliver s b x")
  have "\<not> stop" "l_state l' = OK" "same_rx x l'" "h_appBufCap (l_hw l') = h_appBufCap (l_hw x)"
    using l' x(2) unfolding onPayload_deliver_def push_room [OF free] Let_def prod.case
    by (auto simp: frame_simps clearErr_def same_rx_def)
  moreover have "app l' = app l @ b" "r_rxSeq (l_r l') = s" "r_rxSeqSet (l_r l')"
    using deliver_outcome [OF free l'] x(1) by simp_all
  ultimately show ?thesis
    using p l' rdy x
    by (auto simp: ready_def in_order_def reorderExpectedSeq_def nextSeq_def same_rx_def hal_appBufFree_def
        INT32_MAX_def split: option.splits)
qed

lemma same_rx_trans: "same_rx l m \<Longrightarrow> same_rx m n \<Longrightarrow> same_rx l n"
  by (simp add: same_rx_def)

lemma feed_chunks:
  assumes "chunks_ok cs" and "s \<le> COBS_SEQ_MAX" and "ready s (length (concat cs) + n) l"
  shows "\<exists>l'. feed_loop link_listener (framesFrom s cs) i [] l = (i + length (framesFrom s cs), [], l') \<and>
    l_state l' = OK \<and> app l' = app l @ concat cs \<and> same_rx l l'"
  using assms
proof (induction cs arbitrary: s i l)
  case Nil
  then show ?case by (simp add: ready_def same_rx_def)
next
  case (Cons c cs)
  then obtain m where m: "onPayload s c l = (False, m)" "ready (nextSeq s) (length (concat cs) + n) m"
      "app m = app l @ c" "same_rx l m"
    using deliver_chunk [of s c "length (concat cs) + n" l] by (auto simp: chunks_ok_def add_ac)
  have "nextSeq s \<le> COBS_SEQ_MAX"
    using Cons.prems(2) seq_ok_next [of s] by (simp add: seq_ok_def)
  then obtain l' where l': "feed_loop link_listener (framesFrom (nextSeq s) cs) (i + length (cobsDataWire s c)) [] m =
        (i + length (cobsDataWire s c) + length (framesFrom (nextSeq s) cs), [], l')"
      "l_state l' = OK" "app l' = app m @ concat cs" "same_rx m l'"
    using Cons.IH [of "nextSeq s" m] m(2) Cons.prems(1) by (auto simp: chunks_ok_def)
  have wf: "wf_frame (WData s c)" using Cons.prems by (simp add: chunks_ok_def wire_defs)
  have "link_listener (OnPayload s c) l = (m, False)" by (simp add: link_listener_def m(1))
  then have "feed_loop link_listener (framesFrom s (c # cs)) i [] l =
      feed_loop link_listener (framesFrom (nextSeq s) cs) (i + length (cobsDataWire s c)) [] m"
    using feed_loop_frame [OF wf, of link_listener "framesFrom (nextSeq s) cs" i l] by (simp add: Let_def)
  then show ?case using l' m same_rx_trans by auto
qed

lemma framesFrom_nonempty: "cs \<noteq> [] \<Longrightarrow> framesFrom s cs \<noteq> []"
  by (cases cs) (simp_all add: cobsDataWire_def cobsWire_def)

text \<open>A receiver between messages: locked, nothing half-read, the queue empty.\<close>

definition idle_rx :: "Link \<Rightarrow> bool" where
  "idle_rx l \<longleftrightarrow> l_state l = OK \<and> r_okCarry (l_r l) = [] \<and> r_frameRx (l_r l) = [] \<and> app l = [] \<and>
     \<not> codec_inMsg (r_msgRx (l_r l))"

lemma onRx_chunks:
  assumes idle: "idle_rx l" and cs: "chunks_ok cs" "cs \<noteq> []" "s \<le> COBS_SEQ_MAX"
    and ord: "in_order s l" and free: "int (length (concat cs)) \<le> hal_appBufFree (l_hw l)"
    and clean: "no_ctrl (framesFrom s cs)"
  shows "\<exists>l'. onRx (framesFrom s cs) l = Some l' \<and> l_state l' = OK \<and> app l' = concat cs \<and>
    l_cfg l' = l_cfg l \<and> \<not> codec_inMsg (r_msgRx (l_r l'))"
proof -
  define x where "x = l_r_update (\<lambda>r. r\<lparr>r_lastRxMs := l_now l\<rparr>) l"
  let ?d = "framesFrom s cs"
  have x: "l_state x = OK" "r_okCarry (l_r x) = []" "r_frameRx (l_r x) = []" "app x = []"
    "l_cfg x = l_cfg l" "r_msgRx (l_r x) = r_msgRx (l_r l)"
    using idle by (simp_all add: idle_rx_def x_def)
  have "ready s (length (concat cs) + 0) x"
    using ord free x(1) by (simp add: ready_def x_def in_order_def reorderExpectedSeq_def)
  then obtain m where m: "feed_loop link_listener ?d 0 [] x = (length ?d, [], m)" "l_state m = OK"
      "app m = concat cs" "same_rx x m"
    using feed_chunks [OF cs(1,3), of 0 x 0] x(4) by auto
  let ?m = "l_r_update (\<lambda>r. r\<lparr>r_frameRx := []\<rparr>) m"
  have "feedLink ?d x = (length ?d, ?m)" using m(1) x(3) by (simp add: feedLink_def feed_def)
  then have "onRx_step ?d 0 x = (False, length ?d, False, ?m)"
    using x(1,2) m(2) framesFrom_nonempty [OF cs(2), of s] scan_no_ctrl [OF clean, of 0 0 False x]
    by (simp add: onRx_step_def onRx_ok_def slice_def)
  moreover obtain k where "length ?d = Suc k"
    using framesFrom_nonempty [OF cs(2), of s] by (cases "length ?d") auto
  ultimately have "onRx ?d l = Some ?m"
    unfolding onRx_def x_def [symmetric] by simp
  then show ?thesis using m idle x by (simp add: same_rx_def idle_rx_def)
qed

subsection \<open>Reading it\<close>

lemma readStream_take:
  "0 \<le> n \<Longrightarrow> readStream n h = (take (nat n) (h_appBuf h), h\<lparr>h_appBuf := drop (nat n) (h_appBuf h)\<rparr>)"
proof (induction n h rule: readStream.induct)
  case (1 n h)
  show ?case
  proof (cases "n > 0 \<and> h_appBuf h \<noteq> []")
    case True
    let ?b = "take (nat n) (h_appBuf h)" and ?h = "h\<lparr>h_appBuf := drop (nat n) (h_appBuf h)\<rparr>"
    have b: "?b \<noteq> []" "0 \<le> n - int (length ?b)" using True by (auto simp: min_def)
    have "readStream (n - int (length ?b)) ?h = ([], ?h)"
    proof (cases "int (length (h_appBuf h)) \<le> n")
      case le: True
      then show ?thesis using "1.IH" [of ?b ?h] True b by (simp add: hal_popAppBuf_def)
    next
      case False
      then have "n - int (length ?b) = 0" using True by simp
      then show ?thesis by (subst readStream.simps) simp
    qed
    then show ?thesis using True b by (subst readStream.simps) (simp add: hal_popAppBuf_def)
  next
    case False
    then show ?thesis using "1.prems" by (subst readStream.simps) (auto simp: hal_popAppBuf_def)
  qed
qed

lemma link_readStream_take:
  "0 \<le> n \<Longrightarrow> link_readStream n l = (take (nat n) (app l), hw (\<lambda>h. h\<lparr>h_appBuf := drop (nat n) (app l)\<rparr>) l)"
  by (cases l) (simp add: link_readStream_def readStream_take)

lemma recvMsg_whole:
  assumes "app l = msgHdr b @ b" and "\<not> codec_inMsg (r_msgRx (l_r l))" and "b \<noteq> []"
    and "length b \<le> cfg_maxMsg (l_cfg l)" and "cfg_maxMsg (l_cfg l) < 2 ^ 31" and "int (length b) \<le> max_len"
  shows "\<exists>l'. recvMsg max_len l = Some (int (length b), b, l') \<and> app l' = [] \<and> l_state l' = l_state l \<and>
    \<not> codec_inMsg (r_msgRx (l_r l'))"
proof -
  let ?n = "length b"
  have lim: "?n < 2 ^ 31" "1 \<le> ?n" "unat (of_nat (cfg_maxMsg (l_cfg l)) :: u64) = cfg_maxMsg (l_cfg l)"
    using assms(3-5) by (simp_all add: Suc_le_eq unat_of_nat)
  define l1 where "l1 = hw (\<lambda>h. h\<lparr>h_appBuf := b\<rparr>) l"
  define l2 where "l2 = l_r_update (\<lambda>r. r\<lparr>r_msgRx := \<lparr>len_' = int ?n, crc_' = crc16 b\<rparr>,
    r_msgRxStartedMs := l_now l\<rparr>) l1"
  have "hal_appBufAvailable (l_hw l) = 6 + int ?n" using assms(1) by (simp add: hal_appBufAvailable_def)
  moreover have "link_readStream MSG_HDR l = (msgHdr b, l1)"
    using link_readStream_take [of 6 l] assms(1) by (simp add: l1_def wire_defs)
  moreover have "codec_beginMsg (msgHdr b) (of_nat (cfg_maxMsg (l_cfg l))) c =
      (True, \<lparr>len_' = int ?n, crc_' = crc16 b\<rparr>)" for c
    using beginMsg_encode [of b "of_nat (cfg_maxMsg (l_cfg l))" c] lim assms(4, 5)
    by (simp add: msgHdr_def word_less_nat_alt)
  ultimately have h: "recvMsg_header l = Inr l2"
    using assms(2) by (simp add: recvMsg_header_def Let_def l2_def wire_defs l1_def)
  have "link_readStream (int ?n) (msgRx_reset l2) = (b, hw (\<lambda>h. h\<lparr>h_appBuf := []\<rparr>) (msgRx_reset l2))"
    using link_readStream_take [of "int ?n" "msgRx_reset l2"] by (simp add: l2_def l1_def msgRx_reset_def)
  then have "recvMsg_body max_len l2 = Some (int ?n, b,
      l_s_update (\<lambda>s. s\<lparr>s_locksWithoutRecv := 0, s_recentDiscs := 0\<rparr>) (hw (\<lambda>h. h\<lparr>h_appBuf := []\<rparr>) (msgRx_reset l2)))"
    using assms(6) by (simp add: recvMsg_body_def Let_def l2_def l1_def hal_appBufAvailable_def)
  then show ?thesis
    using h assms(2) by (simp add: recvMsg_def l2_def l1_def msgRx_reset_def codec_reset_def codec_inMsg_def)
qed

subsection \<open>The sender\<close>

text \<open>\<open>sends dr cs l l'\<close>: between the two states the frames of \<open>cs\<close>, numbered from the next number
  on, were put behind what the ring held, and nothing else; with \<open>dr\<close> the UART may have taken
  bytes from the front, without it the ring holds them all.\<close>

definition sends :: "bool \<Rightarrow> bytes list \<Rightarrow> Link \<Rightarrow> Link \<Rightarrow> bool" where
  "sends dr cs l l' \<longleftrightarrow>
     (\<exists>n \<le> length (wire l @ framesFrom (t_txSeq (l_t l)) cs). (\<not> dr \<longrightarrow> n = 0) \<and>
        wire l' = drop n (wire l @ framesFrom (t_txSeq (l_t l)) cs)) \<and>
     t_txSeq (l_t l') = (nextSeq ^^ length cs) (t_txSeq (l_t l)) \<and> l_cfg l' = l_cfg l"

text \<open>Windows in which the other tasks may do anything that sends nothing and resets nothing; \<open>dr\<close>
  allows the UART to take bytes from the ring.\<close>

definition quiet :: "bool \<Rightarrow> windows \<Rightarrow> bool" where
  "quiet dr ws \<longleftrightarrow> (\<forall>w \<in> set ws. \<forall>l. link_inv l \<longrightarrow> link_inv (w l) \<and> sends dr [] l (w l))"

lemma quiet_Cons: "quiet dr (w # ws) \<longleftrightarrow> (\<forall>l. link_inv l \<longrightarrow> link_inv (w l) \<and> sends dr [] l (w l)) \<and> quiet dr ws"
  by (simp add: quiet_def)

lemma quiet_ok: "quiet dr ws \<Longrightarrow> windows_ok ws"
  by (simp add: quiet_def windows_ok_def)

lemma framesFrom_append:
  "framesFrom s (cs @ ds) = framesFrom s cs @ framesFrom ((nextSeq ^^ length cs) s) ds"
  by (induction cs arbitrary: s) (simp_all add: funpow_swap1)

lemma sends_refl:
  assumes "wire l' = wire l" "t_txSeq (l_t l') = t_txSeq (l_t l)" "l_cfg l' = l_cfg l"
  shows "sends dr [] l l'"
  using assms by (auto simp: sends_def intro: exI [of _ 0])

lemma sends_trans:
  assumes "sends dr cs l m" and "sends dr ds m k"
  shows "sends dr (cs @ ds) l k"
proof -
  let ?X = "wire l @ framesFrom (t_txSeq (l_t l)) cs" and ?D = "framesFrom (t_txSeq (l_t m)) ds"
  obtain i where i: "i \<le> length ?X" "wire m = drop i ?X" "\<not> dr \<longrightarrow> i = 0" using assms(1) by (auto simp: sends_def)
  obtain j where j: "j \<le> length (wire m @ ?D)" "wire k = drop j (wire m @ ?D)" "\<not> dr \<longrightarrow> j = 0"
    using assms(2) by (auto simp: sends_def)
  have "drop i X @ D = drop i (X @ D)" if "i \<le> length X" for X D :: bytes using that by simp
  from this [OF i(1), of ?D] have "wire k = drop (j + i) (?X @ ?D)"
    using i j(2) by (simp only: drop_drop)
  moreover have "j + i \<le> length (?X @ ?D)" "(\<not> dr \<longrightarrow> j + i = 0)" using i j(1, 3) by simp_all
  moreover have "?X @ ?D = wire l @ framesFrom (t_txSeq (l_t l)) (cs @ ds)"
    using assms(1) by (simp add: framesFrom_append sends_def)
  ultimately have "j + i \<le> length (wire l @ framesFrom (t_txSeq (l_t l)) (cs @ ds)) \<and> (\<not> dr \<longrightarrow> j + i = 0) \<and>
      wire k = drop (j + i) (wire l @ framesFrom (t_txSeq (l_t l)) (cs @ ds))" by (simp only: simp_thms)
  moreover have "(nextSeq ^^ length (cs @ ds)) (t_txSeq (l_t l)) = t_txSeq (l_t k)" "l_cfg k = l_cfg l"
    using assms by (simp_all add: sends_def add.commute [of "length cs"] funpow_add)
  ultimately show ?thesis unfolding sends_def by metis
qed

lemma sends_hw:
  "h_txBuf (f (l_hw l)) = h_txBuf (l_hw l) \<Longrightarrow> sends dr [] l (hw f l)"
  by (rule sends_refl) simp_all

lemma sends_noteTx: "sends dr [] l (noteTx n l)"
  by (rule sends_refl) (simp_all add: noteTx_def)

lemma hal_delay_tx: "h_txBuf (hal_delayMs ms h) = h_txBuf h" "h_txBuf (hal_delayUs us h) = h_txBuf h"
  by (simp_all add: hal_delayMs_def hal_delayUs_def Let_def)

lemma sends_cfg: "sends dr cs l l' \<Longrightarrow> l_cfg l' = l_cfg l"
  by (simp add: sends_def)

text \<open>One chunk.\<close>

lemma acked_send_cfg: "l_cfg (snd (sendCobsFrameAcked b base l)) = l_cfg l"
  by (simp add: sendCobsFrameAcked_def sendCobsFrame_def buildAndTxCobsFrame_def openGbnWindow_def
      noteTxReject_def noteRingStall_def Let_def)

lemma acked_sends:
  assumes "link_inv l" and "c \<noteq> []" "length c \<le> nat MAX_CHUNK" and "cfg_mode (l_cfg l) = ASYNC"
    and "sendCobsFrameAcked c base l = (q, l')" and "q \<noteq> 0xFF"
  shows "sends dr [c] l l' \<and> q = t_txSeq (l_t l) \<and> link_inv l'"
proof -
  have "wire l' = wire l @ cobsDataWire q c" "t_txSeq (l_t l') = nextSeq q" "q = t_txSeq (l_t l)"
    using acked_send_cases [OF assms(1-5)] assms(6) by auto
  moreover have "l_cfg l' = l_cfg l" using acked_send_cfg [of c base l] assms(5) by simp
  moreover have "link_inv l'"
    using kept_carry.inv_acked [of l c base] assms by (simp add: link_inv_def wire_defs)
  ultimately show ?thesis by (auto simp: sends_def intro: exI [of _ 0])
qed

lemma drain_loop_sends:
  "quiet dr ws \<Longrightarrow> link_inv l \<Longrightarrow> drain_loop need dl ws l = Some (True, r, l', ws') \<Longrightarrow>
     sends dr [] l l' \<and> quiet dr ws'"
proof (induction ws arbitrary: l)
  case Nil
  then show ?case by (subst (asm) drain_loop.simps) (auto intro: sends_refl split: if_splits)
next
  case (Cons w ws)
  let ?l = "w (hw (hal_delayMs 1) l)"
  have i: "link_inv (hw (hal_delayMs 1) l)" using Cons.prems(2) by (simp add: inv4 hal_inv_ops)
  then have w: "link_inv ?l" "sends dr [] l ?l"
    using Cons.prems(1) sends_trans [OF sends_hw [of "hal_delayMs 1" l], of dr "[]" ?l]
    by (simp_all add: quiet_Cons hal_delay_tx)
  consider "l' = l" "ws' = w # ws" | "drain_loop need dl ws ?l = Some (True, r, l', ws')"
    using Cons.prems(3) unfolding drain_loop.simps [of need dl "w # ws"] Let_def list.case
    by (simp only: option.inject prod.inject simp_thms split: if_split_asm)
  then show ?case
  proof cases
    case 1
    then show ?thesis using Cons.prems(1) by (simp add: sends_refl)
  next
    case 2
    then show ?thesis
      using Cons.IH [OF _ w(1) 2] Cons.prems(1) sends_trans [OF w(2), of "[]" l'] by (simp add: quiet_Cons)
  qed
qed

lemma drain_sends:
  assumes "quiet dr ws" "link_inv l" "drainTxRing need ws l = Some (True, r, l', ws')"
  shows "sends dr [] l l' \<and> quiet dr ws' \<and> link_inv l'"
  using assms inv_drain [OF quiet_ok [OF assms(1)] assms(2, 3)]
  by (auto simp: drainTxRing_def Let_def sends_refl split: if_splits dest: drain_loop_sends)

lemma asyncBody_sends:
  "quiet dr ws \<Longrightarrow> link_inv l \<Longrightarrow> cfg_mode (l_cfg l) = ASYNC \<Longrightarrow>
     asyncBody base rest ws l = Some (True, l', ws') \<Longrightarrow> sends dr (splitChunks rest) l l'"
proof (induction base rest ws l rule: asyncBody.induct)
  case (1 base rest ws l)
  let ?c = "take (nat MAX_CHUNK) rest" and ?rest = "drop (nat MAX_CHUNK) rest"
  consider (nothing) "rest = []" "l' = l"
    | (wait) "rest \<noteq> []" "l_state l = OK" "cache_hasRoom (l_cache l)" "hal_txAvail (l_hw l) < kWorstCaseCobsFrame"
    | (go) "rest \<noteq> []" "l_state l = OK" "cache_hasRoom (l_cache l)" "\<not> hal_txAvail (l_hw l) < kWorstCaseCobsFrame"
    using "1.prems"(4) by (subst (asm) asyncBody.simps) (auto split: if_splits)
  then show ?case
  proof cases
    case nothing
    then show ?thesis by (subst splitChunks.simps) (simp add: sends_refl)
  next
    case wait
    obtain r l1 ws1 where d: "drainTxRing 0 ws l = Some (True, r, l1, ws1)"
        "asyncBody base rest ws1 l1 = Some (True, l', ws')"
      using "1.prems"(4) wait
      by (subst (asm) asyncBody.simps) (auto split: option.splits prod.splits bool.splits)
    have i: "sends dr [] l l1" "quiet dr ws1" "link_inv l1" using drain_sends [OF "1.prems"(1, 2) d(1)] by blast+
    have "sends dr (splitChunks rest) l1 l'"
      using "1.IH"(1) wait d i(2, 3) "1.prems"(3) sends_cfg [OF i(1)] by simp
    then show ?thesis using sends_trans [OF i(1)] by simp
  next
    case go
    obtain q l1 where s: "sendCobsFrameAcked ?c base l = (q, l1)" by (cases "sendCobsFrameAcked ?c base l")
    have q: "q \<noteq> 0xFF" using "1.prems"(4) go s by (subst (asm) asyncBody.simps) (auto split: if_splits)
    have split: "splitChunks rest = [?c] @ splitChunks ?rest" using go by (subst splitChunks.simps) simp
    let ?l2 = "noteTx (length ?c) l1"
    have i1: "sends dr [?c] l l1" "link_inv l1"
      using acked_sends [OF "1.prems"(2) _ _ "1.prems"(3) s q] go(1) by (simp_all add: wire_defs)
    have i2: "sends dr [?c] l ?l2" "link_inv ?l2"
      using sends_trans [OF i1(1) sends_noteTx] i1(2) by (simp_all add: inv4)
    show ?thesis
    proof (cases "?rest \<noteq> [] \<and> interChunkGapMs ?l2 > 0")
      case True
      then obtain w ws1 where w: "ws = w # ws1"
        using "1.prems"(4) go s q by (subst (asm) asyncBody.simps) (auto simp: Let_def split: list.splits)
      let ?d = "hw (hal_delayUs (u32_of_int (interChunkGapMs ?l2) * 1000)) ?l2"
      have d: "link_inv ?d" "sends dr [] ?l2 ?d" using i2(2) by (simp_all add: inv4 hal_inv_ops sends_hw hal_delay_tx)
      have i3: "link_inv (w ?d)" "quiet dr ws1" "sends dr [?c] l (w ?d)"
        using "1.prems"(1) w d sends_trans [OF i2(1) d(2)] sends_trans [of dr "[?c]" l ?d "[]" "w ?d"]
        by (simp_all add: quiet_Cons)
      have "l_state (w ?d) = OK" "asyncBody base ?rest ws1 (w ?d) = Some (True, l', ws')"
        using "1.prems"(4) go s True w q
        by (subst (asm) asyncBody.simps, simp add: Let_def split: if_split_asm)+
      then have "sends dr (splitChunks ?rest) (w ?d) l'"
        using "1.IH"(2) [OF go(1) _ _ _ refl refl s [symmetric] _ refl refl True w refl _ i3(2, 1)]
          go q sends_cfg [OF i3(3)] "1.prems"(3) by simp
      then show ?thesis using sends_trans [OF i3(3)] by (simp only: split)
    next
      case False
      have "asyncBody base ?rest ws ?l2 = Some (True, l', ws')"
        using "1.prems"(4) go s q False
        by (subst (asm) asyncBody.simps) (auto simp: Let_def split: if_split_asm)
      then have "sends dr (splitChunks ?rest) ?l2 l'"
        using "1.IH"(3) [OF go(1) _ _ _ refl refl s [symmetric] q refl refl False "1.prems"(1) i2(2)]
          go sends_cfg [OF i2(1)] "1.prems"(3) by simp
      then show ?thesis using sends_trans [OF i2(1)] by (simp only: split)
    qed
  qed
qed

lemma sendMsg_async_sends:
  assumes "quiet dr ws" and "link_inv l" and "cfg_mode (l_cfg l) = ASYNC"
    and "sendMsg_async b ws l = Some (Inr (True, q, l', ws'))"
  shows "sends dr (msgChunks b) l l' \<and> q = t_txSeq (l_t l)"
proof (cases "int (length b) + MSG_HDR \<le> MAX_CHUNK")
  case True
  obtain l1 where s: "sendCobsFrameAcked (msgHdr b @ b) NO_BASE l = (q, l1)" "q \<noteq> 0xFF" "l' = noteTx (length b) l1"
    using assms(4) True by (auto simp: sendMsg_async_def msgHdr_def Let_def split: prod.splits if_splits)
  have "sends dr [msgHdr b @ b] l l1 \<and> q = t_txSeq (l_t l)"
    using acked_sends [OF assms(2) _ _ assms(3) s(1, 2)] True by (simp add: wire_defs)
  then show ?thesis
    using sends_trans [OF _ sends_noteTx, of dr "[msgHdr b @ b]" l l1] s(3) True by (simp add: msgChunks_def)
next
  case False
  obtain l1 where s: "sendCobsFrameAcked (msgHdr b) NO_BASE l = (q, l1)" "q \<noteq> 0xFF"
      "asyncBody q b ws l1 = Some (True, l', ws')"
    using assms(4) False
    by (auto simp: sendMsg_async_def msgHdr_def Let_def split: prod.splits if_splits option.splits)
  have a: "sends dr [msgHdr b] l l1" "q = t_txSeq (l_t l)" "link_inv l1"
    using acked_sends [OF assms(2) _ _ assms(3) s(1, 2)] by (simp_all add: wire_defs)
  have "sends dr (splitChunks b) l1 l'"
    using asyncBody_sends [OF assms(1) a(3) _ s(3)] sends_cfg [OF a(1)] assms(3) by simp
  then show ?thesis using sends_trans [OF a(1)] a(2) False by (simp add: msgChunks_def)
qed

text \<open>The call: the refusals and the limiter send nothing.\<close>

lemma admitted_sends:
  assumes "sendMsg_guards len l = Inr l1" and "sendMsg_rate len l1 = Inr l2" and "link_inv l"
  shows "sends dr [] l (noteFirstTx l2) \<and> link_inv (noteFirstTx l2) \<and> t_txSeq (l_t (noteFirstTx l2)) = t_txSeq (l_t l)"
proof -
  have tx: "t_txSeq (rateRoll now (rateDrain now bps t)) = t_txSeq t" for now bps t
    by (simp add: rateRoll_def rateDrain_def Let_def)
  have l1: "l1 = l" using assms(1) by (auto simp: sendMsg_guards_def refused_def Let_def split: if_splits)
  then have "wire l2 = wire l" "t_txSeq (l_t l2) = t_txSeq (l_t l)" "l_cfg l2 = l_cfg l"
    using assms(2) tx by (auto simp: sendMsg_rate_def rateRefused_def refused_def Let_def split: if_splits)
  moreover have "link_inv l2" using inv_guards(2) [OF assms(3), of len] assms(2) l1 by simp
  ultimately show ?thesis
    by (intro conjI sends_refl) (simp_all add: noteFirstTx_def inv4)
qed

lemma sendMsg_sends:
  assumes "quiet dr ws" and "link_inv l" and "cfg_mode (l_cfg l) = ASYNC" and "b \<noteq> []"
    and "sendMsg b (int (length b)) ws l = Some (r, l')" and "sr_ok r"
  shows "sends dr (msgChunks b) l l' \<and> sr_base r = t_txSeq (l_t l)"
proof -
  obtain l1 where g: "sendMsg_guards (int (length b)) l = Inr l1"
    using assms(4-6) by (cases "sendMsg_guards (int (length b)) l")
      (auto simp: sendMsg_def sendMsg_guards_def refused_def Let_def split: if_splits)
  obtain l2 where rate: "sendMsg_rate (int (length b)) l1 = Inr l2"
    using assms(5, 6) g by (cases "sendMsg_rate (int (length b)) l1")
      (auto simp: sendMsg_def sendMsg_rate_def rateRefused_def refused_def Let_def split: if_splits)
  let ?l = "noteFirstTx l2"
  have a: "sends dr [] l ?l" "link_inv ?l" "t_txSeq (l_t ?l) = t_txSeq (l_t l)"
    using admitted_sends [OF g rate assms(2)] by simp_all
  have mode: "cfg_mode (l_cfg ?l) = ASYNC" using sends_cfg [OF a(1)] assms(3) by simp
  obtain q l4 ws1 where s: "sendMsg_async b ws ?l = Some (Inr (True, q, l4, ws1))"
      "sendMsg_finish True False q l4 = (r, l')"
    using assms(5, 6) g rate mode
    by (auto simp: sendMsg_def Let_def sendMsg_async_def sendMsg_finish_def split: option.splits sum.splits
        prod.splits if_splits)
  have m: "sends dr (msgChunks b) ?l l4" "q = t_txSeq (l_t ?l)"
    using sendMsg_async_sends [OF assms(1) a(2) mode s(1)] by simp_all
  have "sends dr [] l4 l'"
    using s(2) by (auto simp: sendMsg_finish_def setReason_def Let_def intro!: sends_refl)
  then show ?thesis
    using sends_trans [OF a(1) m(1)] sends_trans [of dr "msgChunks b" l l4 "[]" l'] s(2) m(2) a(3)
    by (auto simp: sendMsg_finish_def Let_def)
qed

subsection \<open>The round trip\<close>

text \<open>C1: an ASYNC message sent over a quiet link is the message received, when its frames hold no control
  frame. On the sending side: \<open>sendMsg\<close> answers true on an ASYNC link whose windows are quiet (no other task
  writes to the ring, sends or resets; with \<open>dr\<close> the UART may take bytes from the front). Then the ring got exactly the
  message's frames (header and chunks, numbered from the base number it reports) behind what it held, less what the
  UART has taken. On the receiving side: a locked link between messages, its framer and its queue empty, that expects
  that number, has room for the message in its queue and allows its length. Given the bytes of the frames, and
  provided they contain nowhere the five bytes of a control frame (\<open>no_ctrl\<close>; the receiver would act on
  them, theory \<open>LinkSession\<close>), it hands the application exactly this message: \<open>recvMsg\<close> returns its
  length and its bytes, the queue is empty again and the link still locked.\<close>

theorem message_roundtrip:
  assumes "link_inv l" and "cfg_mode (l_cfg l) = ASYNC" and "b \<noteq> []" and "quiet dr ws"
    and sent: "sendMsg b (int (length b)) ws l = Some (r, l')" "sr_ok r"
    and rx: "idle_rx m" "in_order (t_txSeq (l_t l)) m" "int (length b) + MSG_HDR \<le> hal_appBufFree (l_hw m)"
    and size: "length b \<le> cfg_maxMsg (l_cfg m)" "cfg_maxMsg (l_cfg m) < 2 ^ 31" "int (length b) \<le> max_len"
    and clean: "no_ctrl (messageWire (t_txSeq (l_t l)) b)"
  shows "(\<exists>n \<le> length (wire l @ messageWire (sr_base r) b). (\<not> dr \<longrightarrow> n = 0) \<and>
       wire l' = drop n (wire l @ messageWire (sr_base r) b)) \<and>
    (\<exists>m' m''. onRx (messageWire (sr_base r) b) m = Some m' \<and>
       recvMsg max_len m' = Some (int (length b), b, m'') \<and> app m'' = [] \<and> l_state m'' = OK)"
proof -
  have s: "sends dr (msgChunks b) l l'" "sr_base r = t_txSeq (l_t l)"
    using sendMsg_sends [OF assms(4, 1-3) sent] by simp_all
  have seq: "t_txSeq (l_t l) \<le> COBS_SEQ_MAX" using assms(1) by (simp add: link_inv_def linv_def seq_ok_def)
  have room: "int (length (concat (msgChunks b))) \<le> hal_appBufFree (l_hw m)"
    using rx(3) by (simp add: msgChunks_concat wire_defs)
  have ne: "msgChunks b \<noteq> []" by (simp add: msgChunks_def)
  obtain m' where m': "onRx (messageWire (t_txSeq (l_t l)) b) m = Some m'" "l_state m' = OK"
      "app m' = msgHdr b @ b" "l_cfg m' = l_cfg m" "\<not> codec_inMsg (r_msgRx (l_r m'))"
    using onRx_chunks [OF rx(1) msgChunks_ok ne seq rx(2) room clean [unfolded messageWire_def]]
    by (auto simp: messageWire_def msgChunks_concat)
  obtain m'' where "recvMsg max_len m' = Some (int (length b), b, m'')" "app m'' = []" "l_state m'' = OK"
    using recvMsg_whole [OF m'(3, 5) assms(3)] size m'(2, 4) by auto
  then show ?thesis using s m'(1) by (auto simp: sends_def messageWire_def)
qed

lemma noteFirstTx_frame [frame_simps]:
  "l_hw (noteFirstTx l) = l_hw l" "l_cache (noteFirstTx l) = l_cache l" "l_t (noteFirstTx l) = l_t l"
  "l_cfg (noteFirstTx l) = l_cfg l" "l_arq (noteFirstTx l) = l_arq l"
  by (simp_all add: noteFirstTx_def)

lemma demo_send:
  "\<exists>r l'. sendMsg [1, 2, 3] 3 [] (demo_link True) = Some (r, l') \<and> sr_ok r"
proof -
  let ?l = "demo_link True"
  have "arq_pendingCount arq_new = 0" by (simp add: arq_pendingCount_def arq_new_def arq_clearAll_def)
  then have g: "sendMsg_guards 3 ?l = Inr ?l"
    by (simp add: sendMsg_guards_def txQuiet_def chunksForMsgLen_def demo_link_def link_new_def cache_new_def
        demo_cfg_def config_default_def wire_defs)
  have "l_baud 0 ?l = 512000" "cfg_allowedBaudsCount demo_cfg = 6" "t_rateNextAllowedMs (l_t ?l) = 0"
    "t_rateWindowStartMs (l_t ?l) = 0"
    by (simp_all add: l_baud_def allowedBaudSafe_def demo_link_def link_new_def demo_cfg_def config_default_def wire_defs)
  then obtain l2 where r: "sendMsg_rate 3 ?l = Inr l2" "l_hw l2 = demo_hal" "l_cache l2 = cache_new 8"
      "l_t l2 = (l_t ?l)\<lparr>t_rateWindowStartMs := 5000, t_rateWindowBytes := 3\<rparr>" "l_cfg l2 = demo_cfg"
    by (simp add: sendMsg_rate_def rateDrain_def rateRoll_def link_consts Let_def)
  then show ?thesis
    using g by (simp add: sendMsg_def sendMsg_async_def sendMsg_finish_def sendCobsFrameAcked_def
        sendCobsFrame_def buildAndTxCobsFrame_def demo_room frame_simps wire_defs Let_def)
qed

lemma demo_clean: "no_ctrl (messageWire 0 [1, 2, 3])"
  by code_simp

theorem message_roundtrip_witness:
  "\<exists>r l' m' m''. sendMsg [1, 2, 3] 3 [] (demo_link True) = Some (r, l') \<and> sr_ok r \<and>
     onRx (messageWire (sr_base r) [1, 2, 3]) (demo_link False) = Some m' \<and>
     recvMsg 100 m' = Some (3, [1, 2, 3], m'') \<and> wire l' = messageWire (sr_base r) [1, 2, 3]"
proof -
  obtain r l' where s: "sendMsg [1, 2, 3] 3 [] (demo_link True) = Some (r, l')" "sr_ok r"
    using demo_send by blast
  have "idle_rx (demo_link False)" "in_order 0 (demo_link False)" "9 \<le> hal_appBufFree (l_hw (demo_link False))"
    "cfg_maxMsg demo_cfg = 5120"
    by (simp_all add: idle_rx_def in_order_def demo_link_def link_new_def codec_inMsg_def codec_init_def
        demo_hal_def hal_appBufFree_def demo_cfg_def config_default_def wire_defs)
  then show ?thesis
    using message_roundtrip [of "demo_link True" "[1, 2, 3]" False "[]" r l' "demo_link False" 100] s demo_clean
    by (auto simp: demo_inv quiet_def wire_defs)
qed

end
