(* ===== verification/LinkSession.thy ===== *)
theory LinkSession
  imports LinkMessage
begin

text \<open>
  Sessions: what a reset leaves behind, what a lock needs and establishes, which events may
  end a session and which may not.
\<close>

subsection \<open>The sweep's entry\<close>

text \<open>What the sweep's frames and phase changes leave alone.\<close>

lemma sendSweep_frame [frame_simps]:
  "l_s (sendSweepFrame p l) = l_s l" "l_arq (sendSweepFrame p l) = l_arq l" "l_r (sendSweepFrame p l) = l_r l"
  "l_cache (sendSweepFrame p l) = l_cache l" "l_n (sendSweepFrame p l) = l_n l" "l_p (sendSweepFrame p l) = l_p l"
  "l_sweep (sendSweepFrame p l) = l_sweep l" "l_cfg (sendSweepFrame p l) = l_cfg l" "l_g (sendSweepFrame p l) = l_g l"
  "l_k (sendSweepFrame p l) = l_k l" "l_b (sendSweepFrame p l) = l_b l" "l_isMaster (sendSweepFrame p l) = l_isMaster l"
  "l_baudSweep (sendSweepFrame p l) = l_baudSweep l" "l_e (sendSweepFrame p l) = l_e l"
  "t_txSeq (l_t (sendSweepFrame p l)) = t_txSeq (l_t l)" "t_txSeqLap (l_t (sendSweepFrame p l)) = t_txSeqLap (l_t l)"
  "app (sendSweepFrame p l) = app l" "l_now (sendSweepFrame p l) = l_now l"
  "h_sendBreakCalls (l_hw (sendSweepFrame p l)) = h_sendBreakCalls (l_hw l)"
  "h_spd (l_hw (sendSweepFrame p l)) = h_spd (l_hw l)" "h_txCap (l_hw (sendSweepFrame p l)) = h_txCap (l_hw l)"
  by (simp_all add: sendSweepFrame_def Let_def frame_simps)

lemma sendSweep_wire:
  "wire (sendSweepFrame p l) = wire l @ take (nat (hal_txAvail (l_hw l))) (sweepFrame (s_sweepEpoch (l_s l)) p)"
  by (auto simp: sendSweepFrame_def hal_tx_def hal_txAvail_def Let_def)

lemma hal_frame [frame_simps]:
  "h_txBuf (hal_setSpd s h) = h_txBuf h" "h_txBuf (hal_startTimer ms h) = h_txBuf h"
  "h_appBuf (hal_setSpd s h) = h_appBuf h" "h_appBuf (hal_startTimer ms h) = h_appBuf h"
  "h_now (hal_setSpd s h) = h_now h" "h_now (hal_startTimer ms h) = h_now h"
  "h_spd (hal_setSpd s h) = s" "h_spd (hal_startTimer ms h) = h_spd h"
  "h_txCap (hal_setSpd s h) = h_txCap h" "h_txCap (hal_startTimer ms h) = h_txCap h"
  "h_txBuf (hal_sendBreak h) = h_txBuf h" "h_appBuf (hal_sendBreak h) = h_appBuf h"
  "h_txBuf (hal_discardTx h) = h_txBuf h" "h_appBuf (hal_discardTx h) = h_appBuf h"
  "h_now (hal_discardTx h) = h_now h" "h_txBuf (hal_clearAppBuf h) = h_txBuf h" "h_appBuf (hal_clearAppBuf h) = []"
  "h_now (hal_clearAppBuf h) = h_now h" "h_txCap (hal_clearAppBuf h) = h_txCap h" "h_spd (hal_clearAppBuf h) = h_spd h"
  "h_sendBreakCalls (hal_setSpd s h) = h_sendBreakCalls h" "h_sendBreakCalls (hal_startTimer ms h) = h_sendBreakCalls h"
  "h_sendBreakCalls (hal_clearAppBuf h) = h_sendBreakCalls h" "h_sendBreakCalls (hal_discardTx h) = h_sendBreakCalls h"
  "h_sendBreakCalls (hal_sendBreak h) = h_sendBreakCalls h + 1"
  "hal_flushRxHw h = h" "hal_setOkState ok h = h"
  by (simp_all add: hal_setSpd_def hal_startTimer_def hal_sendBreak_def hal_discardTx_def
      hal_clearAppBuf_def hal_flushRxHw_def hal_setOkState_def)

lemma phase_frame [frame_simps]:
  "l_state (enterPhase1 l) = l_state l" "l_arq (enterPhase1 l) = l_arq l" "l_r (enterPhase1 l) = l_r l"
  "l_n (enterPhase1 l) = l_n l" "app (enterPhase1 l) = app l" "l_cache (enterPhase1 l) = l_cache l"
  "t_txSeq (l_t (enterPhase1 l)) = t_txSeq (l_t l)" "t_txSeqLap (l_t (enterPhase1 l)) = t_txSeqLap (l_t l)"
  "h_sendBreakCalls (l_hw (enterPhase1 l)) = h_sendBreakCalls (l_hw l)"
  "h_sendBreakCalls (l_hw (enterPhase3 i l)) = h_sendBreakCalls (l_hw l)"
  "l_state (enterPhase3 i l) = l_state l" "l_arq (enterPhase3 i l) = l_arq l" "l_r (enterPhase3 i l) = l_r l"
  "l_n (enterPhase3 i l) = l_n l" "app (enterPhase3 i l) = app l" "l_cache (enterPhase3 i l) = l_cache l"
  "t_txSeq (l_t (enterPhase3 i l)) = t_txSeq (l_t l)" "t_txSeqLap (l_t (enterPhase3 i l)) = t_txSeqLap (l_t l)"
  by (simp_all add: enterPhase1_def enterPhase3_def setSpdI_def Let_def frame_simps)

lemma resetSweep_frame [frame_simps]:
  "h_sendBreakCalls (l_hw (resetSweep pres l)) = h_sendBreakCalls (l_hw l)"
  "l_state (resetSweep pres l) = l_state l" "l_arq (resetSweep pres l) = l_arq l" "l_r (resetSweep pres l) = l_r l"
  "l_n (resetSweep pres l) = l_n l" "app (resetSweep pres l) = app l" "l_cache (resetSweep pres l) = l_cache l"
  "t_txSeq (l_t (resetSweep pres l)) = t_txSeq (l_t l)" "t_txSeqLap (l_t (resetSweep pres l)) = t_txSeqLap (l_t l)"
  by (simp_all add: resetSweep_def setSpdI_def l_clampBauds_def Let_def frame_simps)

subsection \<open>A reset\<close>

lemma resetCommon_frame [frame_simps]:
  "l_state (resetCommon l) = l_state l" "l_arq (resetCommon l) = l_arq l" "l_n (resetCommon l) = l_n l"
  "l_cache (resetCommon l) = l_cache l" "t_txSeq (l_t (resetCommon l)) = t_txSeq (l_t l)"
  "t_txSeqLap (l_t (resetCommon l)) = t_txSeqLap (l_t l)" "l_hw (resetCommon l) = l_hw l"
  "r_okCarry (l_r (resetCommon l)) = []" "r_rxIdx (l_r (resetCommon l)) = 0" "r_frameRx (l_r (resetCommon l)) = []"
  "codec_inMsg (r_msgRx (l_r (resetCommon l))) = False"
  "r_rxSeqSet (l_r (resetCommon l)) = r_rxSeqSet (l_r l)" "r_rxSeq (l_r (resetCommon l)) = r_rxSeq (l_r l)"
  by (simp_all add: resetCommon_def msgRx_reset_def framer_reset_def codec_reset_def codec_inMsg_def Let_def)

lemma noteDisconnect_frame [frame_simps]:
  "l_arq (noteDisconnect r ok l) = l_arq l" "l_t (noteDisconnect r ok l) = l_t l"
  "l_hw (noteDisconnect r ok l) = l_hw l" "l_cache (noteDisconnect r ok l) = l_cache l" "l_cfg (noteDisconnect r ok l) = l_cfg l"
  "n_droppedChunksOnReset (l_n (noteDisconnect r ok l)) = n_droppedChunksOnReset (l_n l)"
  "l_r (noteDisconnect r ok l) = l_r l" "l_isMaster (noteDisconnect r ok l) = l_isMaster l"
  by (simp_all add: noteDisconnect_def Let_def)

lemma resetSession_facts:
  "l_arq (resetSession l) = arq_clearAll (l_arq l)" "t_txSeq (l_t (resetSession l)) = 0"
  "t_txSeqLap (l_t (resetSession l)) = t_txSeqLap (l_t l) + 1"
  "l_state (resetSession l) = l_state l" "l_hw (resetSession l) = l_hw l"
  "n_droppedChunksOnReset (l_n (resetSession l)) = n_droppedChunksOnReset (l_n l) +
     (if gbnActive_' (l_arq l) \<and> arq_pendingCount (l_arq l) > 0 then word_of_int (arq_pendingCount (l_arq l)) else 0)"
  "r_okCarry (l_r (resetSession l)) = r_okCarry (l_r l)" "r_rxIdx (l_r (resetSession l)) = r_rxIdx (l_r l)"
  "r_frameRx (l_r (resetSession l)) = r_frameRx (l_r l)" "r_msgRx (l_r (resetSession l)) = r_msgRx (l_r l)"
  "r_holdNakActive (l_r (resetSession l)) = False" "l_cache (resetSession l) = l_cache l"
  "n_resetCount (l_n (resetSession l)) = n_resetCount (l_n l)"
  "n_resetReasonCounts (l_n (resetSession l)) = n_resetReasonCounts (l_n l)"
  by (auto simp: resetSession_def resetSeq_def Let_def)

lemma changeState_frame [frame_simps]:
  "l_state (changeState st l) = st" "l_hw (changeState st l) = l_hw l" "l_arq (changeState st l) = l_arq l"
  "l_t (changeState st l) = l_t l" "l_n (changeState st l) = l_n l" "l_cache (changeState st l) = l_cache l"
  "l_r (changeState st l) = l_r l" "l_cfg (changeState st l) = l_cfg l" "l_sweep (changeState st l) = l_sweep l"
  "l_isMaster (changeState st l) = l_isMaster l" "l_g (changeState st l) = l_g l" "l_k (changeState st l) = l_k l"
  "l_p (changeState st l) = l_p l" "l_spdI (changeState st l) = l_spdI l"
  by (simp_all add: changeState_def frame_simps)

text \<open>The reset in stages: the accounting and the change of state, then the clearing.\<close>

definition resetTail :: "bool \<Rightarrow> bool \<Rightarrow> Link \<Rightarrow> Link" where
  "resetTail ended pres m =
     hw hal_discardTx (l_cache_update cache_clearAll (resetSweep pres (hw hal_clearAppBuf
       (l_b_update (\<lambda>b. b\<lparr>b_breakSuspectMs := 0, b_breakSuspectSeen := 0\<rparr>)
         (if ended then resetSession (resetCommon m) else resetCommon m)))))"

lemma noteDisconnect_counts [frame_simps]:
  "n_resetCount (l_n (noteDisconnect r ok l)) = n_resetCount (l_n l)"
  "n_resetReasonCounts (l_n (noteDisconnect r ok l)) = n_resetReasonCounts (l_n l)"
  "n_lastResetReason (l_n (noteDisconnect r ok l)) = n_lastResetReason (l_n l)"
  by (simp_all add: noteDisconnect_def Let_def)

lemma reset_stages:
  "\<exists>m. reset_unlocked c p r l = resetTail (l_state l = OK) p m \<and> l_state m = SWP \<and> l_hw m = l_hw l \<and>
     l_arq m = l_arq l \<and> l_cache m = l_cache l \<and> l_t m = l_t l \<and>
     n_resetCount (l_n m) = n_resetCount (l_n l) + 1 \<and> n_lastResetReason (l_n m) = r \<and>
     n_resetReasonCounts (l_n m) r = n_resetReasonCounts (l_n l) r + 1 \<and>
     n_droppedChunksOnReset (l_n m) = n_droppedChunksOnReset (l_n l)"
proof -
  define l1 where "l1 = l_n_update (\<lambda>n. n\<lparr>n_resetReasonCounts := (n_resetReasonCounts n)(r := n_resetReasonCounts n r + 1),
    n_resetCount := n_resetCount n + 1, n_lastResetReason := r\<rparr>) l"
  define l2 where "l2 = (if c \<and> l_state l1 = OK then noteDisconnect r (l_state l = OK) l1 else l1)"
  define l3 where "l3 = setSpdI 0 (changeState SWP l2)"
  define l4 where "l4 = (if \<not> p \<or> (\<not> l_isMaster l3 \<and> \<not> (\<not> l_isMaster l3 \<and> r = HealthWatchdog))
    then l_p_update (\<lambda>p. p\<lparr>p_preferredBaud := NO_PREFERRED_BAUD, p_bestProvenBaud := NO_PREFERRED_BAUD,
      p_baudUpgradeAtMs := 0, p_baudUpgradeAttempts := 0, p_resweepPrefPending := False\<rparr>) l3 else l3)"
  have "reset_unlocked c p r l = resetTail (l_state l = OK) p l4"
    unfolding reset_unlocked_def resetTail_def Let_def
    unfolding l1_def [symmetric] unfolding l2_def [symmetric] unfolding l3_def [symmetric]
    unfolding l4_def [symmetric] by (rule refl)
  moreover have "l_hw l2 = l_hw l" "l_arq l2 = l_arq l" "l_cache l2 = l_cache l" "l_t l2 = l_t l"
    "n_resetCount (l_n l2) = n_resetCount (l_n l) + 1" "n_lastResetReason (l_n l2) = r"
    "n_resetReasonCounts (l_n l2) r = n_resetReasonCounts (l_n l) r + 1"
    "n_droppedChunksOnReset (l_n l2) = n_droppedChunksOnReset (l_n l)"
    unfolding l2_def l1_def by (simp_all add: frame_simps)
  moreover have "l_state l4 = SWP" "l_hw l4 = l_hw l2" "l_arq l4 = l_arq l2" "l_cache l4 = l_cache l2" "l_t l4 = l_t l2"
    "l_n l4 = l_n l2"
    unfolding l4_def l3_def setSpdI_def by (simp_all add: frame_simps)
  ultimately show ?thesis by (intro exI [of _ l4]) simp
qed

lemma resetTail_facts [frame_simps]:
  "h_sendBreakCalls (l_hw (resetTail e p m)) = h_sendBreakCalls (l_hw m)"
  "l_state (resetTail e p m) = l_state m" "app (resetTail e p m) = []" "r_okCarry (l_r (resetTail e p m)) = []"
  "r_rxIdx (l_r (resetTail e p m)) = 0" "r_frameRx (l_r (resetTail e p m)) = []"
  "codec_inMsg (r_msgRx (l_r (resetTail e p m))) = False" "l_cache (resetTail e p m) = cache_clearAll (l_cache m)"
  "l_arq (resetTail e p m) = (if e then arq_clearAll (l_arq m) else l_arq m)"
  "t_txSeq (l_t (resetTail e p m)) = (if e then 0 else t_txSeq (l_t m))"
  "t_txSeqLap (l_t (resetTail e p m)) = (if e then t_txSeqLap (l_t m) + 1 else t_txSeqLap (l_t m))"
  "n_droppedChunksOnReset (l_n (resetTail e p m)) = n_droppedChunksOnReset (l_n m) +
     (if e \<and> gbnActive_' (l_arq m) \<and> arq_pendingCount (l_arq m) > 0 then word_of_int (arq_pendingCount (l_arq m)) else 0)"
  "n_resetCount (l_n (resetTail e p m)) = n_resetCount (l_n m)"
  "n_resetReasonCounts (l_n (resetTail e p m)) = n_resetReasonCounts (l_n m)"
  by (simp_all add: resetTail_def frame_simps resetSession_facts)

lemma reset_facts [frame_simps]:
  "h_sendBreakCalls (l_hw (reset_unlocked c p r l)) = h_sendBreakCalls (l_hw l)"
  "l_state (reset_unlocked c p r l) = SWP" "app (reset_unlocked c p r l) = []"
  "r_okCarry (l_r (reset_unlocked c p r l)) = []" "r_rxIdx (l_r (reset_unlocked c p r l)) = 0"
  "r_frameRx (l_r (reset_unlocked c p r l)) = []" "codec_inMsg (r_msgRx (l_r (reset_unlocked c p r l))) = False"
  using reset_stages [of c p r l] by (auto simp: frame_simps)

text \<open>C9: a reset of a locked link ends the session completely. The link sweeps again; the
  application's queue, the framer, the carry and the half-read message are empty; nothing is
  pending and nothing is cached; the numbering restarts at 0 in the next lap; every waiter sees
  a new epoch. The chunks that were accepted and are lost are counted, exactly, and the reset
  is counted under its reason.\<close>

theorem reset_ends_session:
  assumes "l_state l = OK" and "l' = reset_unlocked count preserve reason l"
  shows "l_state l' = SWP \<and> app l' = [] \<and> r_frameRx (l_r l') = [] \<and> r_okCarry (l_r l') = [] \<and>
    \<not> codec_inMsg (r_msgRx (l_r l')) \<and>
    (\<forall>t. \<not> arq_isPending t (l_arq l')) \<and> \<not> gbnActive_' (l_arq l') \<and> (\<forall>t. cache_peek t (l_cache l') = None) \<and>
    t_txSeq (l_t l') = 0 \<and> t_txSeqLap (l_t l') = t_txSeqLap (l_t l) + 1 \<and>
    clearAllEpoch_' (l_arq l') = clearAllEpoch_' (l_arq l) + 1 \<and>
    n_droppedChunksOnReset (l_n l') = n_droppedChunksOnReset (l_n l) +
      (if gbnActive_' (l_arq l) then word_of_int (arq_pendingCount (l_arq l)) else 0) \<and>
    n_resetCount (l_n l') = n_resetCount (l_n l) + 1 \<and>
    n_resetReasonCounts (l_n l') reason = n_resetReasonCounts (l_n l) reason + 1"
proof -
  have pc: "0 \<le> arq_pendingCount (l_arq l)" by (simp add: arq_pendingCount_def)
  show ?thesis
    using reset_stages [of count preserve reason l] assms pc
    by (auto simp: frame_simps cache_peek_clearAll arq_isPending_def arq_clearAll_def order_le_less)
qed

theorem reset_ends_session_witness:
  "n_droppedChunksOnReset (l_n (reset_unlocked True True GbnMaxRetx demo_sent)) =
     n_droppedChunksOnReset (l_n demo_sent) + word_of_int (arq_pendingCount (l_arq demo_sent)) \<and>
   cache_peek 0 (l_cache (reset_unlocked True True GbnMaxRetx demo_sent)) = None"
  using reset_ends_session [OF _ refl, of demo_sent True True GbnMaxRetx] by (simp add: demo_sent_facts)

subsection \<open>A control frame inside a message\<close>

text \<open>\<open>onRx\<close> looks for control frames in the raw bytes, before the framer decodes them.\<close>

lemma scan_skip:
  assumes "\<forall>j. i \<le> j \<and> j < k \<longrightarrow> data ! j \<noteq> 0xAA" and "i \<le> k" and "k \<le> length data"
  shows "onRx_scan data start i brk l = onRx_scan data start k brk l"
  using assms
proof (induction "k - i" arbitrary: i)
  case (Suc n)
  have ne: "data ! i \<noteq> 0xAA" "i < length data" using Suc.prems Suc.hyps(2) by simp_all
  have "onRx_scan data start (i + 1) brk l = onRx_scan data start k brk l"
  proof (rule Suc.hyps(1))
    show "\<forall>j. i + 1 \<le> j \<and> j < k \<longrightarrow> data ! j \<noteq> 0xAA" using Suc.prems(1) Suc_leD by auto
  qed (use Suc in simp_all)
  then show ?case using ne by (subst onRx_scan.simps) (simp add: ctrlHead_def ctrlTail_def)
qed simp

lemma scan_clean_from:
  assumes "\<forall>j. i \<le> j \<and> j < length data \<longrightarrow> data ! j \<noteq> 0xAA" and "i \<le> length data"
  shows "onRx_scan data start i brk l = (start, length data, brk, l)"
  using scan_skip [OF assms order_refl] by (simp add: onRx_scan.simps [of data start "length data"])

definition ctrlFrame :: "u8 \<Rightarrow> u8 \<Rightarrow> bytes" where
  "ctrlFrame e p = [0xAA, 0x55, e, p, crc8 [0xAA, 0x55, e, p]]"

lemma scan_at_ctrl:
  assumes "data = pre @ ctrlFrame e p @ post" and "pre \<noteq> []" and "feedLink pre l = (c, l1)" and "l_state l1 = OK"
    and "processCtrlFrame OK (loadCtrl (ctrlFrame e p) l1) = (b, l2)"
  shows "onRx_scan data 0 (length pre) brk l =
    onRx_scan data (length pre + 5) (length pre + 5) (brk \<or> b) l2"
proof -
  have s: "slice (length pre) (length pre + 4) data = [0xAA, 0x55, e, p]" "slice 0 (length pre) data = pre"
    "slice (length pre) (length pre + 5) data = ctrlFrame e p" "data ! (length pre + 4) = crc8 [0xAA, 0x55, e, p]"
    "ctrlHead data (length pre)"
    by (simp_all add: assms(1) slice_def ctrlFrame_def ctrlHead_def nth_append CTRL_FRAME_SIZE_def)
  have "length pre < length data" by (simp add: assms(1) ctrlFrame_def)
  then show ?thesis
    using s assms(2-5) by (subst onRx_scan.simps) (simp add: feedSlice_def)
qed

text \<open>C28: application data can reset the receiver. A locked receiver that knows its peer's epoch
  is handed the bytes of a data frame that contains, as payload, the five bytes of a PING frame
  of another epoch. They are taken for a control frame: the link drops the session, sends a
  break, and the data frame is lost. COBS does not protect against it, because it only removes
  the zero bytes.\<close>

theorem payload_resets_receiver:
  assumes l: "l_state l = OK" "r_okCarry (l_r l) = []" "r_frameRx (l_r l) = []"
    and ep: "s_peerSweepEpochKnown (l_s l)" "e \<noteq> s_peerSweepEpoch (l_s l)"
    and data: "data = (0 # pre) @ ctrlFrame e PING_CMD @ post" "0 \<notin> set pre" "length pre \<le> 250"
      "0xAA \<notin> set pre" "0xAA \<notin> set post"
  shows "\<exists>l'. onRx data l = Some l' \<and> l_state l' = SWP \<and> app l' = [] \<and>
    h_sendBreakCalls (l_hw l') = h_sendBreakCalls (l_hw l) + 1"
proof -
  let ?q = "0 # pre"
  define x where "x = l_r_update (\<lambda>r. r\<lparr>r_lastRxMs := l_now l\<rparr>) l"
  define x1 where "x1 = l_r_update (\<lambda>r. r\<lparr>r_frameRx := pre\<rparr>) x"
  have "feed_loop link_listener ?q 0 [] x = feed_loop link_listener pre 1 [] x"
    using feed_loop_zero_idle [of link_listener pre 0 x] by simp
  also have "\<dots> = (length ?q, pre, x)"
    using feed_loop_nonzero [OF data(2), of "[]" link_listener "[]" 1 x] data(3) by simp
  finally have feed: "feedLink ?q x = (length ?q, x1)"
    using l(3) by (simp add: feedLink_def feed_def x_def x1_def)
  obtain l2 where p: "processCtrlFrame OK (loadCtrl (ctrlFrame e PING_CMD) x1) = (True, l2)" "l_state l2 = SWP"
      "app l2 = []" "h_sendBreakCalls (l_hw l2) = h_sendBreakCalls (l_hw l)"
    using ep by (simp add: processCtrlFrame_def loadCtrl_def ctrlFrame_def link_consts Let_def frame_simps x1_def x_def)
  have "onRx_scan data 0 0 False x = onRx_scan data 0 (length ?q) False x"
  proof (rule scan_skip)
    show "\<forall>j. 0 \<le> j \<and> j < length ?q \<longrightarrow> data ! j \<noteq> 0xAA"
    proof (intro allI impI)
      fix j assume j: "0 \<le> j \<and> j < length ?q"
      then have "data ! j = ?q ! j" using nth_append_left [of j ?q] by (simp add: data(1) del: append_Cons)
      then show "data ! j \<noteq> 0xAA" using j data(4) nth_mem [of j ?q] by auto
    qed
  qed (simp_all add: data(1))
  also have "\<dots> = onRx_scan data (length ?q + 5) (length ?q + 5) True l2"
    using scan_at_ctrl [OF data(1) _ feed _ p(1), of False] l(1) by (simp add: x1_def x_def)
  also have "\<dots> = (length ?q + 5, length data, True, l2)"
  proof (rule scan_clean_from)
    show "\<forall>j. length ?q + 5 \<le> j \<and> j < length data \<longrightarrow> data ! j \<noteq> 0xAA"
    proof (intro allI impI)
      fix j assume j: "length ?q + 5 \<le> j \<and> j < length data"
      have d: "data = (?q @ ctrlFrame e PING_CMD) @ post" "length (?q @ ctrlFrame e PING_CMD) = length ?q + 5"
        by (simp_all add: data(1) ctrlFrame_def)
      have "data ! j = post ! (j - (length ?q + 5))"
        unfolding d(1) using nth_append_right [of "?q @ ctrlFrame e PING_CMD" j post] j by (simp only: d(2))
      moreover have "j - (length ?q + 5) < length post" using j d by (simp add: data(1) ctrlFrame_def) arith
      ultimately show "data ! j \<noteq> 0xAA" using data(5) by (metis nth_mem)
    qed
  qed (simp add: data(1) ctrlFrame_def)
  finally have "onRx_step data 0 x = (False, length data, True, l2)"
    using l p(2) by (simp add: onRx_step_def onRx_ok_def x_def)
  moreover obtain k where "length data = Suc k" by (simp add: data(1))
  ultimately have "onRx data l = Some (hw hal_sendBreak l2)"
    unfolding onRx_def x_def [symmetric] by simp
  then show ?thesis using p by (simp add: frame_simps)
qed

definition demo_known :: Link where
  "demo_known = l_s_update (\<lambda>s. s\<lparr>s_peerSweepEpoch := 1, s_peerSweepEpochKnown := True\<rparr>) (demo_link False)"

theorem payload_resets_receiver_witness:
  "\<exists>l'. onRx (messageWire 0 (ctrlFrame 9 PING_CMD)) demo_known = Some l' \<and> l_state l' = SWP"
proof -
  have "messageWire 0 (ctrlFrame 9 PING_CMD) = (0 # [1, 2, 5, 1, 1, 9, 84, 193]) @ ctrlFrame 9 PING_CMD @ [51, 0]"
    by code_simp
  then show ?thesis
    using payload_resets_receiver [of demo_known 9 "messageWire 0 (ctrlFrame 9 PING_CMD)" "[1, 2, 5, 1, 1, 9, 84, 193]" "[51, 0]"]
    by (auto simp: demo_known_def demo_link_def link_new_def)
qed

subsection \<open>A lock\<close>

lemma phase2_frame [frame_simps]: "l_state (enterPhase2 l) = l_state l"
  by (simp add: enterPhase2_def setSpdI_def Let_def frame_simps)

lemma lockOk_facts:
  assumes "l_state l = SWP"
  shows "l_state (lockOk i l) = OK" "l_spdI (lockOk i l) = i" "h_spd (l_hw (lockOk i l)) = l_baud i l"
    "app (lockOk i l) = []" "l_arq (lockOk i l) = l_arq l" "t_txSeq (l_t (lockOk i l)) = t_txSeq (l_t l)"
    "wire (lockOk i l) = wire l" "h_txCap (l_hw (lockOk i l)) = h_txCap (l_hw l)"
    "k_lockedAtMs (l_k (lockOk i l)) = l_now l" "r_lastValidRxMs (l_r (lockOk i l)) = l_now l"
  using assms by (simp_all add: lockOk_def setSpdI_def Let_def frame_simps)

lemma pongAck_frame [frame_simps]: "l_state (sendPongAck l) = l_state l"
  by (simp add: sendPongAck_def frame_simps)

lemma swp_helpers [frame_simps]:
  "l_state (selectBaud i l) = l_state l" "l_state (sweepReset l) = l_state l" "l_state (incPhase3Acks l) = l_state l"
  "l_state (setSpdI i l) = l_state l" "l_state (l_clampBauds l) = l_state l" "l_state (notePeerEpoch e l) = l_state l"
  "l_isMaster (l_clampBauds l) = l_isMaster l" "l_isMaster (notePeerEpoch e l) = l_isMaster l"
  "l_sweep (notePeerEpoch e l) = l_sweep l" "l_sweep (l_clampBauds l) = l_sweep l"
  "l_cfg (notePeerEpoch e l) = l_cfg l" "s_sweepPongCount (l_s (l_clampBauds l)) = s_sweepPongCount (l_s l)"
  "l_state (restartAtSlowest l) = l_state l" "l_cfg (l_clampBauds l) = clampToMaxBauds (l_cfg l)"
  by (simp_all add: selectBaud_def sweepReset_def incPhase3Acks_def setSpdI_def l_clampBauds_def notePeerEpoch_def
      restartAtSlowest_def Let_def frame_simps)

text \<open>Why a sweeping link may lock: the frame that was received.\<close>

definition lock_cause :: "u8 \<Rightarrow> Link \<Rightarrow> int \<Rightarrow> bool" where
  "lock_cause p l i \<longleftrightarrow>
     isLockPayload p (cfg_allowedBaudsCount (clampToMaxBauds (l_cfg l))) = Some i \<or>
     \<not> l_isMaster l \<and> p = REQ_CMD \<or>
     p = (if l_isMaster l then PONG_CMD else PING_CMD) \<and> sw_phase (l_sweep l) = PHASE3 \<and>
       PHASE3_ACKS_NEEDED \<le> sw_phase3Acks (l_sweep l) + 1 \<and> i = sw_phase3Baud (l_sweep l)"

lemma masterTick_locks:
  assumes "l_state l = SWP"
  shows "l_state (masterPhase2Tick l) = OK \<longrightarrow> 1 \<le> s_sweepPongCount (l_s l) \<and>
      l_spdI (masterPhase2Tick l) = cfg_allowedBaudsCount (clampToMaxBauds (l_cfg l)) - 1"
    and "l_state (masterPhase3Tick l) = OK \<longrightarrow> 1 \<le> s_sweepPongCount (l_s l) \<and>
      l_spdI (masterPhase3Tick l) = cfg_allowedBaudsCount (clampToMaxBauds (l_cfg l)) - 1"
  using assms
  by (auto simp: masterPhase2Tick_def masterPhase3Tick_def masterCampTick_def setSpdI_def Let_def frame_simps lockOk_facts)

lemma slaveTick_sweeps:
  "l_state (slavePhase2Tick l) = l_state l" "l_state (slaveCampTick l) = l_state l"
  by (simp_all add: slavePhase2Tick_def slaveCampTick_def setSpdI_def Let_def frame_simps)

text \<open>C10: no link locks on its own. A sweeping link becomes locked by a control frame only if the
  frame is a lock command for a configured baud, or the master's request to a slave, or the
  peer's answer in phase 3 that completes the needed number, and then at the baud being
  confirmed. Its timer locks it only on the master, at the slowest baud, after at least one
  answer in this round.\<close>

theorem lock_needs_answer:
  assumes "l_state l = SWP"
  shows "(l_state (snd (handleSwp e p l)) = OK \<longrightarrow> lock_cause p l (l_spdI (snd (handleSwp e p l)))) \<and>
    (l_state (onTimerSwp l) = OK \<longrightarrow> l_isMaster l \<and> 1 \<le> s_sweepPongCount (l_s l) \<and>
       l_spdI (onTimerSwp l) = cfg_allowedBaudsCount (clampToMaxBauds (l_cfg l)) - 1)"
proof -
  have m: "l_state (snd (applyMasterSwpAction (decideMasterPhase3Ack n k) (incPhase3Acks x))) = OK \<longrightarrow>
      k \<le> n \<and> l_spdI (snd (applyMasterSwpAction (decideMasterPhase3Ack n k) (incPhase3Acks x))) = sw_phase3Baud (l_sweep x)"
    "l_state (snd (applyPongSwpAction (decidePongPhase3Ping n k) (incPhase3Acks x))) = OK \<longrightarrow>
      k \<le> n \<and> l_spdI (snd (applyPongSwpAction (decidePongPhase3Ping n k) (incPhase3Acks x))) = sw_phase3Baud (l_sweep x)"
    if "l_state x = SWP" for n k x
    using that by (auto simp: applyMasterSwpAction_def applyPongSwpAction_def decideMasterPhase3Ack_def
        decidePongPhase3Ping_def Let_def frame_simps lockOk_facts incPhase3Acks_def)
  let ?l = "l_clampBauds (notePeerEpoch e l)"
  have n: "l_state (snd (applyMasterSwpAction decideMasterPhase1Ack x)) = SWP"
    "l_state (snd (applyMasterSwpAction decideMasterPhase2Ack x)) = SWP"
    "l_state (snd (applyPongSwpAction decidePongPhase1Ping x)) = SWP"
    "l_state (snd (applyPongSwpAction decidePongPhase2Ping x)) = SWP" if "l_state x = SWP" for x
    using that by (simp_all add: applyMasterSwpAction_def applyPongSwpAction_def decideMasterPhase1Ack_def
        decideMasterPhase2Ack_def decidePongPhase1Ping_def decidePongPhase2Ping_def Let_def frame_simps)
  have pong: "l_state (snd (handlePong x)) = OK \<longrightarrow> sw_phase (l_sweep x) = PHASE3 \<and>
      PHASE3_ACKS_NEEDED \<le> sw_phase3Acks (l_sweep x) + 1 \<and> l_spdI (snd (handlePong x)) = sw_phase3Baud (l_sweep x)"
    if "l_state x = SWP" for x
    using that n(1, 2) m(1) [of "l_s_update (\<lambda>s. s\<lparr>s_sweepPongCount := s_sweepPongCount s + 1\<rparr>) x"
        "sw_phase3Acks (l_sweep x) + 1" PHASE3_ACKS_NEEDED] by (cases "sw_phase (l_sweep x)") (simp_all add: handlePong_def Let_def)
  have ping: "l_state (snd (handlePing x)) = OK \<longrightarrow> sw_phase (l_sweep x) = PHASE3 \<and>
      PHASE3_ACKS_NEEDED \<le> sw_phase3Acks (l_sweep x) + 1 \<and> l_spdI (snd (handlePing x)) = sw_phase3Baud (l_sweep x)"
    if "l_state x = SWP" for x
    using that n(3, 4) m(2) [of "l_baudSweep_update (baudSweep_score (l_spdI x)) x"
        "sw_phase3Acks (l_sweep x) + 1" PHASE3_ACKS_NEEDED] by (cases "sw_phase (l_sweep x)") (simp_all add: handlePing_def Let_def)
  have rx: "l_state (snd (handleSwp e p l)) = OK \<longrightarrow> lock_cause p l (l_spdI (snd (handleSwp e p l)))"
    using assms pong [of ?l] ping [of ?l]
    by (cases "isLockPayload p (cfg_allowedBaudsCount (l_cfg ?l))")
      (auto simp: handleSwp_def Let_def frame_simps lockOk_facts lock_cause_def)
  have "l_state (onTimerSwp l) = OK \<longrightarrow> l_isMaster l \<and> 1 \<le> s_sweepPongCount (l_s l) \<and>
      l_spdI (onTimerSwp l) = cfg_allowedBaudsCount (clampToMaxBauds (l_cfg l)) - 1"
    using assms masterTick_locks [of l]
    by (cases "sw_phase (l_sweep l)") (auto simp: onTimerSwp_def Let_def frame_simps slaveTick_sweeps)
  then show ?thesis using rx by simp
qed

definition demo_confirming :: Link where
  "demo_confirming = l_sweep_update (\<lambda>s. s\<lparr>sw_phase := PHASE3, sw_phase3Baud := 0, sw_phase3Acks := 1\<rparr>)
     (l_s_update (\<lambda>s. s\<lparr>s_state := SWP\<rparr>) (demo_link False))"

theorem lock_needs_answer_witness:
  "l_state (snd (handleSwp 0 PING_CMD demo_confirming)) = OK \<and>
   lock_cause PING_CMD demo_confirming (l_spdI (snd (handleSwp 0 PING_CMD demo_confirming)))"
proof -
  have swp: "l_state demo_confirming = SWP" by (simp add: demo_confirming_def)
  have "l_state (snd (handleSwp 0 PING_CMD demo_confirming)) = OK"
    by (simp add: handleSwp_def handlePing_def applyPongSwpAction_def decidePongPhase3Ping_def isLockPayload_def
        demo_confirming_def incPhase3Acks_def lockOk_facts frame_simps wire_defs Let_def)
  then show ?thesis using lock_needs_answer [OF swp, of 0 PING_CMD] by blast
qed

end
