(* ===== verification/LinkPairOps.thy ===== *)
theory LinkPairOps
  imports LinkPair LinkSession
begin

text \<open>
  What each operation of a link does to the three things a pair of links shares: the frames it
  puts on the wire, what the protocol reads of its sender (\<open>tx_view\<close>) and of its receiver
  (\<open>rx_view\<close>). Every operation keeps the session it runs in.
\<close>

lemma session_inv:
  assumes "link_inv l"
  shows "length b \<le> 256 \<Longrightarrow> link_inv (snd (sendCobsFrameAcked b base l))"
    "link_inv (fst (link_listener e l))" "link_inv (snd (sweepRetx now l))"
  using assms kept_carry.inv_acked [of l b base] kept_carry.inv_listener [of l e]
    kept_carry.inv_gbn [of l] by (simp_all add: link_inv_def)

subsection \<open>A chunk of the application\<close>

lemma sendCobs_frame:
  "l_state (snd (sendCobsFrame b l)) = l_state l" "l_cfg (snd (sendCobsFrame b l)) = l_cfg l"
  "l_r (snd (sendCobsFrame b l)) = l_r l" "app (snd (sendCobsFrame b l)) = app l"
  by (simp_all add: sendCobsFrame_def buildAndTxCobsFrame_def noteTxReject_def noteRingStall_def hal_tx_def Let_def)

lemma acked_send_keeps:
  assumes "sendCobsFrameAcked b base l = (q, l')"
  shows "l_state l' = l_state l \<and> l_cfg l' = l_cfg l \<and> l_r l' = l_r l \<and> app l' = app l"
proof -
  obtain ok l1 where s: "sendCobsFrame b l = (ok, l1)" by fastforce
  have "l_state l1 = l_state l \<and> l_cfg l1 = l_cfg l \<and> l_r l1 = l_r l \<and> app l1 = app l"
    using sendCobs_frame [of b l] s by simp
  then show ?thesis
    using assms by (simp add: sendCobsFrameAcked_def s openGbnWindow_def Let_def split: if_splits) (auto)?
qed

lemmas acked_send_frame = acked_send_keeps [THEN conjunct1] acked_send_keeps [THEN conjunct2, THEN conjunct1]
  acked_send_keeps [THEN conjunct2, THEN conjunct2, THEN conjunct1]
  acked_send_keeps [THEN conjunct2, THEN conjunct2, THEN conjunct2]

lemma send_op:
  assumes ses: "in_session l" and b: "b \<noteq> []" "length b \<le> nat MAX_CHUNK"
    and s: "sendCobsFrameAcked b base l = (q, l')"
  shows "in_session l'" "rx_view l' = rx_view l" "app l' = app l"
    "q = 0xFF \<and> wire l' = wire l \<and> tx_view l' = tx_view l \<or>
     q = t_txSeq (l_t l) \<and> q \<noteq> 0xFF \<and> puts [WData q b] l l' \<and>
     tx_view l' = ((\<lambda>t. budgetIdx t = budgetIdx q \<or> arq_isPending t (l_arq l)),
       if gbnActive_' (l_arq l) then gbnBase_' (l_arq l) else q, True,
       (\<lambda>t. if t = q then Some b else cache_peek t (l_cache l)), nextSeq q)"
proof -
  have inv: "link_inv l" and mode: "cfg_mode (l_cfg l) = ASYNC" using ses by (simp_all add: in_session_def)
  have "link_inv l'" using session_inv(1) [OF inv, of b base] b s by (simp add: wire_defs)
  then show "in_session l'" using ses acked_send_frame [OF s] by (simp add: in_session_def)
  show "rx_view l' = rx_view l" "app l' = app l" using acked_send_frame [OF s] by (simp_all add: rx_view_def)
  have "seq_ok (t_txSeq (l_t l))" using kept_carry.link_inv_parts(4) [of l] inv by (simp add: link_inv_def)
  then have "wf_frame (WData (t_txSeq (l_t l)) b)" using b by (simp add: seq_ok_def wire_defs)
  then show "q = 0xFF \<and> wire l' = wire l \<and> tx_view l' = tx_view l \<or>
     q = t_txSeq (l_t l) \<and> q \<noteq> 0xFF \<and> puts [WData q b] l l' \<and>
     tx_view l' = ((\<lambda>t. budgetIdx t = budgetIdx q \<or> arq_isPending t (l_arq l)),
       if gbnActive_' (l_arq l) then gbnBase_' (l_arq l) else q, True,
       (\<lambda>t. if t = q then Some b else cache_peek t (l_cache l)), nextSeq q)"
    using acked_send_cases [OF inv b mode s] by (auto simp: tx_view_def puts_def fun_eq_iff)
qed

subsection \<open>A resend\<close>

text \<open>The operation keeps the receiver's half, the queue, the state and the configuration.\<close>

definition keeps_rx :: "Link \<Rightarrow> Link \<Rightarrow> bool" where
  "keeps_rx l l' \<longleftrightarrow> rx_view l' = rx_view l \<and> app l' = app l \<and> l_state l' = l_state l \<and> l_cfg l' = l_cfg l"

lemma keeps_rx_refl [simp]: "keeps_rx l l"
  by (simp add: keeps_rx_def)

lemma keeps_rx_trans: "keeps_rx l m \<Longrightarrow> keeps_rx m n \<Longrightarrow> keeps_rx l n"
  by (simp add: keeps_rx_def)

lemma keeps_rx_upd [simp]:
  "keeps_rx l (l_g_update f m) = keeps_rx l m" "keeps_rx l (l_arq_update fa m) = keeps_rx l m"
  "keeps_rx l (l_cache_update fc m) = keeps_rx l m" "keeps_rx l (l_c_update fn m) = keeps_rx l m"
  "keeps_rx l (l_t_update ft m) = keeps_rx l m"
  "tx_view (l_g_update f m) = tx_view m" "tx_view (l_c_update fn m) = tx_view m"
  "keeps_rx (l_g_update f l) m = keeps_rx l m" "puts fs (l_g_update f l) m = puts fs l m"
  by (simp_all add: keeps_rx_def rx_view_def tx_view_def puts_def)

lemma retxSeq_frame:
  "keeps_rx l (snd (retxSeq s l))"
  by (simp add: retxSeq_def resendCobsFrame_def buildAndTxCobsFrame_def noteTxReject_def noteRingStall_def
      keeps_rx_def rx_view_def hal_tx_def Let_def split: option.split)

lemma applyRetx_view [simp]: "tx_view (l_arq_update (arq_applyRetx s now f) m) = tx_view m"
  by (simp add: tx_view_def arq_applyRetx_def arq_isPending_def Let_def)

text \<open>The chunks of a run of numbers, as the cache has them.\<close>

definition run_frames :: "(u8 \<Rightarrow> bytes option) \<Rightarrow> u8 list \<Rightarrow> wire_frame list" where
  "run_frames c ss = map (\<lambda>s. WData s (the (c s))) ss"

definition run_cached :: "(u8 \<Rightarrow> bytes option) \<Rightarrow> u8 list \<Rightarrow> bool" where
  "run_cached c ss \<longleftrightarrow> (\<forall>s \<in> set ss. s \<le> COBS_SEQ_MAX \<and> c s \<noteq> None \<and> int (length (the (c s))) \<le> MAX_CHUNK)"

lemma run_frames_wf: "run_cached c ss \<Longrightarrow> list_all wf_frame (run_frames c ss)"
  by (simp add: run_cached_def run_frames_def list_all_iff)

lemma resendBurst_op:
  assumes "run_cached (\<lambda>t. cache_peek t (l_cache l)) (seqRun s n)"
  shows "\<exists>j \<le> n. puts (run_frames (\<lambda>t. cache_peek t (l_cache l)) (seqRun s j)) l (resendBurst n s now l) \<and>
    tx_view (resendBurst n s now l) = tx_view l \<and> keeps_rx l (resendBurst n s now l)"
  using assms
proof (induction n arbitrary: s l)
  case 0
  show ?case by (intro exI [of _ 0]) (simp add: seqRun_def run_frames_def)
next
  case (Suc n)
  show ?case
  proof (cases "hal_txAvail (l_hw l) < kWorstCaseCobsFrame")
    case True
    then show ?thesis by (intro exI [of _ 0]) (simp add: seqRun_def run_frames_def)
  next
    case False
    let ?c = "\<lambda>t. cache_peek t (l_cache l)"
    obtain b where b: "cache_peek s (l_cache l) = Some b"
      using Suc.prems by (auto simp: run_cached_def seqRun_Suc)
    obtain m where m: "retxSeq s l = (True, m)" "wire m = wire l @ cobsDataWire s b" "l_cache m = l_cache l"
        "l_arq m = l_arq l" "t_txSeq (l_t m) = t_txSeq (l_t l)"
      using retxSeq_cached [OF b] False by auto
    let ?m = "l_arq_update (arq_applyRetx s now (g_resendSource (l_g m) = SrcRto)) m"
    have v: "tx_view ?m = tx_view l" "keeps_rx l ?m"
      using m retxSeq_frame [of l s] by (simp_all, simp add: tx_view_def)
    have "run_cached (\<lambda>t. cache_peek t (l_cache ?m)) (seqRun (nextSeq s) n)"
      using Suc.prems m(3) by (simp add: run_cached_def seqRun_Suc)
    from Suc.IH [OF this] obtain j where j: "j \<le> n"
        "puts (run_frames ?c (seqRun (nextSeq s) j)) ?m (resendBurst n (nextSeq s) now ?m)"
        "tx_view (resendBurst n (nextSeq s) now ?m) = tx_view ?m" "keeps_rx ?m (resendBurst n (nextSeq s) now ?m)"
      using m(3) by auto
    have "wf_frame (WData s b)" using Suc.prems b by (auto simp: run_cached_def seqRun_Suc)
    then have "puts (run_frames ?c (seqRun s (Suc j))) l (resendBurst n (nextSeq s) now ?m)"
      using j(2) m(2) b by (simp add: puts_def run_frames_def seqRun_Suc)
    then show ?thesis
      using j v m(1) False keeps_rx_trans [OF v(2) j(4)] by (intro exI [of _ "Suc j"]) simp
  qed
qed

text \<open>How many chunks a resend asks for is at most what is pending.\<close>

lemma gbnResendWindow_op:
  assumes "run_cached (\<lambda>t. cache_peek t (l_cache l)) (seqRun (gbnBase_' (l_arq l)) (nat (arq_pendingCount (l_arq l))))"
  shows "\<exists>j \<le> nat (arq_pendingCount (l_arq l)).
    puts (run_frames (\<lambda>t. cache_peek t (l_cache l)) (seqRun (gbnBase_' (l_arq l)) j)) l (gbnResendWindow now l) \<and>
    tx_view (gbnResendWindow now l) = tx_view l \<and> keeps_rx l (gbnResendWindow now l)"
proof (cases "gbnActive_' (l_arq l)")
  case False
  then show ?thesis
    by (intro exI [of _ 0]) (simp add: gbnResendWindow_def seqRun_def run_frames_def)
next
  case True
  let ?l = "l_g_update (\<lambda>g. g\<lparr>g_gbnLastResendBase := gbnBase_' (l_arq l), g_gbnLastResendMs := now\<rparr>) l"
  let ?k = "nat (decideGbnResendCap (arq_pendingCount (l_arq l)) (cfg_gbnResendBurstMax (l_cfg l)))"
  have k: "?k \<le> nat (arq_pendingCount (l_arq l))" by (auto simp: decideGbnResendCap_def)
  then have "set (seqRun s ?k) \<subseteq> set (seqRun s (nat (arq_pendingCount (l_arq l))))" for s
    by (auto simp: seqRun_def)
  then have "run_cached (\<lambda>t. cache_peek t (l_cache ?l)) (seqRun (gbnBase_' (l_arq l)) ?k)"
    using assms by (auto simp: run_cached_def)
  from resendBurst_op [OF this, of now] obtain j where j: "j \<le> ?k"
      "puts (run_frames (\<lambda>t. cache_peek t (l_cache l)) (seqRun (gbnBase_' (l_arq l)) j)) l
        (resendBurst ?k (gbnBase_' (l_arq l)) now ?l)"
      "tx_view (resendBurst ?k (gbnBase_' (l_arq l)) now ?l) = tx_view l"
      "keeps_rx l (resendBurst ?k (gbnBase_' (l_arq l)) now ?l)"
    by auto
  then show ?thesis
    using True k by (intro exI [of _ j]) (simp add: gbnResendWindow_def Let_def)
qed

subsection \<open>The count of pending chunks\<close>

lemma budgetIdx_of_nat: "k < 64 \<Longrightarrow> budgetIdx (of_nat k) = k"
  by (simp add: budgetIdx_def unat_of_nat_u8)

lemma pendingCount_pending:
  "arq_pendingCount a = int (length (filter (\<lambda>k. arq_isPending (of_nat k) a) [0..<64]))"
proof -
  have "filter (ackedPending_' a) [0..<64] = filter (\<lambda>k. arq_isPending (of_nat k) a) [0..<64]"
    by (rule filter_cong) (simp_all add: arq_isPending_def budgetIdx_of_nat)
  then show ?thesis by (simp add: arq_pendingCount_def)
qed

lemma pendingCount_set:
  assumes "\<And>s. arq_isPending s a \<longleftrightarrow> budgetIdx s \<in> K" and "K \<subseteq> {..<64}"
  shows "arq_pendingCount a = int (card K)"
proof -
  have "filter (\<lambda>k. arq_isPending (of_nat k) a) [0..<64] = filter (\<lambda>k. k \<in> K) [0..<64]"
    using assms(1) by (intro filter_cong) (simp_all add: budgetIdx_of_nat)
  moreover have "length (filter (\<lambda>k. k \<in> K) [0..<64]) = card K"
    using assms(2) by (simp add: distinct_card [symmetric] Int_absorb2 Collect_conj_eq lessThan_def [symmetric] Int_commute)
  ultimately show ?thesis by (simp add: pendingCount_pending)
qed

text \<open>What the sender's resends depend on.\<close>

definition window_cached :: "Link \<Rightarrow> bool" where
  "window_cached l \<longleftrightarrow> run_cached (\<lambda>t. cache_peek t (l_cache l))
     (seqRun (gbnBase_' (l_arq l)) (nat (arq_pendingCount (l_arq l))))"

definition resent :: "Link \<Rightarrow> Link \<Rightarrow> bool" where
  "resent l l' \<longleftrightarrow> (\<exists>j \<le> nat (arq_pendingCount (l_arq l)).
     puts (run_frames (\<lambda>t. cache_peek t (l_cache l)) (seqRun (gbnBase_' (l_arq l)) j)) l l') \<and>
     tx_view l' = tx_view l \<and> keeps_rx l l'"

lemma tx_view_parts:
  assumes "tx_view m = tx_view l"
  shows "arq_pendingCount (l_arq m) = arq_pendingCount (l_arq l)" "gbnBase_' (l_arq m) = gbnBase_' (l_arq l)"
    "cache_peek t (l_cache m) = cache_peek t (l_cache l)" "gbnActive_' (l_arq m) = gbnActive_' (l_arq l)"
  using assms by (simp_all add: tx_view_def pendingCount_pending fun_eq_iff)

lemma resent_window: "window_cached l \<Longrightarrow> resent l (gbnResendWindow now l)"
  using gbnResendWindow_op [of l now] by (auto simp: window_cached_def resent_def)

lemma resent_view:
  assumes "tx_view m = tx_view l" and "keeps_rx l m" and "wire m = wire l"
  shows "window_cached m = window_cached l" "resent m l' \<Longrightarrow> resent l l'" "resent l m"
proof -
  show "window_cached m = window_cached l" by (simp add: window_cached_def tx_view_parts [OF assms(1)])
  show "resent m l' \<Longrightarrow> resent l l'"
    using assms keeps_rx_trans [OF assms(2)] by (auto simp: resent_def puts_def tx_view_parts [OF assms(1)])
  show "resent l m"
    using assms by (auto simp: resent_def seqRun_def run_frames_def intro!: exI [of _ 0])
qed

lemma resent_g: "resent l (l_g_update f m) = resent l m"
  by (simp add: resent_def puts_def)

subsection \<open>An ACK\<close>

lemma ackOne_keeps: "keeps_rx l (ackOne s n c l)" "wire (ackOne s n c l) = wire l"
  by (simp_all add: ackOne_def Let_def keeps_rx_def rx_view_def)

lemma ackWalk_keeps:
  "ackWalk freed s acked n l = (freed', ok, l') \<Longrightarrow> keeps_rx l l' \<and> wire l' = wire l"
proof (induction freed s acked n l rule: ackWalk.induct)
  case (1 freed s acked n l)
  let ?m = "if s \<noteq> acked then (case cache_peek s (l_cache l) of Some b \<Rightarrow> of_nat (length b) | None \<Rightarrow> 0) else n"
  define x where "x = ackOne s ?m CumulativeBackfill l"
  have x: "keeps_rx l x" "wire x = wire l" by (simp_all only: x_def ackOne_keeps)
  have w: "ackWalk freed s acked n l =
      (if freed + 1 > AUTOLINK_ARQ_PIPELINE_WINDOW then (freed + 1, False, l)
       else if s = acked then (freed + 1, True, x) else ackWalk (freed + 1) (nextSeq s) acked n x)"
    by (subst ackWalk.simps) (simp add: Let_def x_def)
  show ?case
  proof (cases "freed + 1 > AUTOLINK_ARQ_PIPELINE_WINDOW \<or> s = acked")
    case True
    then show ?thesis using "1.prems" x by (auto simp: w split: if_splits)
  next
    case False
    have "keeps_rx x l' \<and> wire l' = wire x"
      using "1.prems" "1.IH" [OF refl _ refl x_def] False by (simp add: w)
    then show ?thesis using x keeps_rx_trans [OF x(1)] by simp
  qed
qed

lemma notePeerResponse_keeps [simp]:
  "keeps_rx l (notePeerResponse m) = keeps_rx l m" "tx_view (notePeerResponse m) = tx_view m"
  "keeps_rx l (noteValidFrameOk m) = keeps_rx l m" "tx_view (noteValidFrameOk m) = tx_view m"
  "wire (noteValidFrameOk m) = wire m" "wire (notePeerResponse m) = wire m"
  "arq_isPending s (l_arq (noteValidFrameOk m)) = arq_isPending s (l_arq m)"
  by (simp_all add: keeps_rx_def rx_view_def tx_view_def notePeerResponse_def noteValidFrameOk_def Let_def)

lemma keeps_rx_s [simp]: "s_state (f (l_s m)) = s_state (l_s m) \<Longrightarrow> keeps_rx l (l_s_update f m) = keeps_rx l m"
  by (simp add: keeps_rx_def rx_view_def)

lemma onAck_keeps: "keeps_rx l (snd (onAck a n l)) \<and> wire (snd (onAck a n l)) = wire l"
proof -
  have "keeps_rx l (onAck_commit a n x) \<and> wire (onAck_commit a n x) = wire x" if "keeps_rx l x" for x
  proof -
    obtain freed ok l1 where w: "ackWalk 0 (gbnBase_' (l_arq x)) a n x = (freed, ok, l1)"
      by (cases "ackWalk 0 (gbnBase_' (l_arq x)) a n x")
    show ?thesis
      using ackWalk_keeps [OF w] keeps_rx_trans [OF that] by (simp add: onAck_commit_def w Let_def)
  qed
  then show ?thesis by (simp add: onAck_def Let_def)
qed

lemma onAck_old:
  assumes "\<not> arq_isPending a (l_arq l) \<or> gbnActive_' (l_arq l) \<and> idxOf a (l_arq l) < 0"
    and "cfg_mode (l_cfg l) = ASYNC"
  shows "tx_view (snd (onAck a n l)) = tx_view l"
  using assms by (auto simp: onAck_def Let_def frame_simps tx_view_def)

lemma onAck_new:
  assumes ses: "in_session l" and act: "gbnActive_' (l_arq l)"
    and a: "arq_isPending a (l_arq l)" "0 \<le> idxOf a (l_arq l)" "a \<le> COBS_SEQ_MAX"
    and run: "run = seqRun (gbnBase_' (l_arq l)) (Suc (nat (idxOf a (l_arq l))))"
    and l': "l' = snd (onAck a n l)"
  shows "tx_view l' = ((\<lambda>t. arq_isPending t (l_arq l) \<and> budgetIdx t \<notin> budgetIdx ` set run), nextSeq a,
      0 < arq_pendingCount (l_arq l'), (\<lambda>t. if t \<in> set run then None else cache_peek t (l_cache l)),
      t_txSeq (l_t l))"
  using onAck_commits [OF _ _ _ act a run, of n "fst (onAck a n l)" l'] ses l'
  by (auto simp: in_session_def tx_view_def)

subsection \<open>A NAK\<close>

lemma nakWalk_run:
  assumes "seq_ok (gbnBase_' (l_arq l))" and "missing = (nextSeq ^^ k) (gbnBase_' (l_arq l))"
    and "freed + int k \<le> AUTOLINK_ARQ_PIPELINE_WINDOW" and "0 \<le> freed" and "cache_inv (l_cache l)"
  shows "keeps_rx l (nakWalk freed missing l) \<and> wire (nakWalk freed missing l) = wire l \<and>
    l_g (nakWalk freed missing l) = l_g l \<and>
    tx_view (nakWalk freed missing l) =
     ((\<lambda>t. arq_isPending t (l_arq l) \<and> budgetIdx t \<notin> budgetIdx ` set (seqRun (gbnBase_' (l_arq l)) k)), missing,
      gbnActive_' (l_arq l),
      (\<lambda>t. if t \<in> set (seqRun (gbnBase_' (l_arq l)) k) then None else cache_peek t (l_cache l)), t_txSeq (l_t l))"
  using assms
proof (induction k arbitrary: freed l)
  case 0
  have w: "nakWalk freed missing l = l" using 0 by (subst nakWalk.simps) simp
  show ?case unfolding w using 0 by (simp add: seqRun_def tx_view_def)
next
  case (Suc k)
  let ?b = "gbnBase_' (l_arq l)"
  let ?l = "l_arq_update (arq_setGbnBase (nextSeq ?b)) (ackOne ?b 0 NakCumulative l)"
  have ne: "?b \<noteq> missing" using nextSeq_pow_inj [of ?b 0 "Suc k"] Suc.prems by (simp add: wire_defs seq_ok_lt)
  have idx: "\<not> idxOf ?b (l_arq l) < 0" by (simp add: idxOf_def wire_defs)
  have w: "nakWalk freed missing l = nakWalk (freed + 1) missing ?l"
    using ne idx Suc.prems by (subst nakWalk.simps) (simp add: Let_def)
  have l: "gbnBase_' (l_arq ?l) = nextSeq ?b" "gbnActive_' (l_arq ?l) = gbnActive_' (l_arq l)"
    "\<And>t. arq_isPending t (l_arq ?l) \<longleftrightarrow> arq_isPending t (l_arq l) \<and> budgetIdx t \<noteq> budgetIdx ?b"
    "\<And>t. cache_peek t (l_cache ?l) = (if t = ?b then None else cache_peek t (l_cache l))"
    "t_txSeq (l_t ?l) = t_txSeq (l_t l)" "keeps_rx l ?l" "wire ?l = wire l" "cache_inv (l_cache ?l)" "l_g ?l = l_g l"
    using Suc.prems(5) ackOne_keeps
    by (simp_all add: frame_simps arq_setGbnBase_def arq_isPending_def onAcked_pending arq_onAcked_def
        acache.peek_free acache.inv_free Let_def, simp_all add: ackOne_def Let_def)
  have "missing = (nextSeq ^^ k) (gbnBase_' (l_arq ?l))" using Suc.prems(2) l(1) by (simp add: funpow_swap1)
  from Suc.IH [of ?l "freed + 1", OF _ this _ _ l(8)] Suc.prems show ?case
    unfolding w seqRun_Suc using l keeps_rx_trans [OF l(6)] seq_ok_next [of ?b] by (auto simp: fun_eq_iff)
qed

lemma onNak_base_op:
  assumes "window_cached l"
  shows "resent l (onNak_base m l)"
proof -
  have naked: "tx_view (l_arq_update (arq_onNaked m now) x) = tx_view x"
    "tx_view (l_arq_update (arq_noteSuppressedNak m) x) = tx_view x" for now x
    by (simp_all add: tx_view_def arq_onNaked_def arq_noteSuppressedNak_def arq_isPending_def Let_def)
  let ?x = "l_arq_update (arq_onNaked m (l_now l)) (l_g_update (\<lambda>g. g\<lparr>g_resendSource := SrcNak\<rparr>) l)"
  have x: "tx_view ?x = tx_view l" "keeps_rx l ?x" "wire ?x = wire l" by (simp_all add: naked)
  have "resent l (gbnResendWindow (l_now l) ?x)"
    using resent_view [OF x] resent_window [of ?x] assms by simp
  moreover have "resent l (l_arq_update (arq_noteSuppressedNak m) l)"
    by (intro resent_view(3)) (simp_all add: naked)
  ultimately show ?thesis by (simp add: onNak_base_def Let_def)
qed

lemma onNak_old:
  assumes "\<not> arq_isPending m (l_arq l) \<or> gbnActive_' (l_arq l) \<and> idxOf m (l_arq l) < 0"
    and "cfg_mode (l_cfg l) = ASYNC"
  shows "tx_view (snd (onNak m l)) = tx_view l \<and> keeps_rx l (snd (onNak m l)) \<and> wire (snd (onNak m l)) = wire l"
proof -
  have "idxOf (gbnBase_' (l_arq l)) (l_arq l) = 0" by (simp add: idxOf_def wire_defs)
  then show ?thesis using assms by (auto simp: onNak_def Let_def frame_simps tx_view_def)
qed

text \<open>A NAK inside the window moves the base up to it and then, perhaps, resends.\<close>

lemma onNak_new:
  assumes ses: "in_session l" and act: "gbnActive_' (l_arq l)"
    and m: "arq_isPending m (l_arq l)" "0 \<le> idxOf m (l_arq l)" "m \<le> COBS_SEQ_MAX"
    and run: "run = seqRun (gbnBase_' (l_arq l)) (nat (idxOf m (l_arq l)))"
  shows "\<exists>x. keeps_rx l x \<and> wire x = wire l \<and>
    tx_view x = ((\<lambda>t. arq_isPending t (l_arq l) \<and> budgetIdx t \<notin> budgetIdx ` set run), m, True,
      (\<lambda>t. if t \<in> set run then None else cache_peek t (l_cache l)), t_txSeq (l_t l)) \<and>
    snd (onNak m l) = onNak_base m x"
proof -
  define y where "y = l_c_update (\<lambda>c. c\<lparr>c_rxBytes := c_rxBytes c + of_nat RX_NAK_WIRE_BYTES\<rparr>)
    (l_t_update (\<lambda>t. t\<lparr>t_lastNakSeq := m\<rparr>) (notePeerResponse (l_s_update (\<lambda>s. s\<lparr>s_recentDiscs := 0\<rparr>) l)))"
  have y: "l_arq y = l_arq l" "l_cache y = l_cache l" "t_txSeq (l_t y) = t_txSeq (l_t l)" "keeps_rx l y"
    "wire y = wire l" "cfg_mode (l_cfg y) = ASYNC"
    using ses by (simp_all add: y_def frame_simps in_session_def)
  have ok: "seq_ok (gbnBase_' (l_arq l))" "seq_ok m" "cache_inv (l_cache l)"
    using kept_carry.link_inv_parts [of l] ses m(3) by (simp_all add: in_session_def link_inv_def seq_ok_def)
  have pow: "m = (nextSeq ^^ nat (idxOf m (l_arq l))) (gbnBase_' (l_arq l))" "idxOf m (l_arq l) < 32"
    using idxOf_pow [of "l_arq l" m] ok m(2) by (simp_all add: seq_ok_lt)
  define x where "x = nakWalk 0 m y"
  have x: "keeps_rx y x" "wire x = wire l"
    "tx_view x = ((\<lambda>t. arq_isPending t (l_arq l) \<and> budgetIdx t \<notin> budgetIdx ` set run), m, True,
      (\<lambda>t. if t \<in> set run then None else cache_peek t (l_cache l)), t_txSeq (l_t l))"
    using nakWalk_run [of y m "nat (idxOf m (l_arq l))" 0] y ok pow m(2) act
    by (simp_all add: x_def run AUTOLINK_ARQ_PIPELINE_WINDOW_def cong: if_cong)
  have walk: "x = y" if "m = gbnBase_' (l_arq l)"
    unfolding x_def using that y(1) by (subst nakWalk.simps) simp
  have b: "gbnActive_' (l_arq x)" "gbnBase_' (l_arq x) = m" using x(3) by (simp_all add: tx_view_def)
  have nak: "snd (onNak m l) = (let z = (if gbnActive_' (l_arq y) \<and> m \<noteq> gbnBase_' (l_arq y) \<and> idxOf m (l_arq y) \<ge> 0
      then x else y) in if gbnActive_' (l_arq z) \<and> m = gbnBase_' (l_arq z) then onNak_base m z else z)"
    using ses m(1) unfolding y_def x_def by (auto simp: in_session_def onNak_def Let_def frame_simps)
  have "snd (onNak m l) = onNak_base m x"
    unfolding nak Let_def using walk y(1) b m(2) act by (cases "m = gbnBase_' (l_arq l)") simp_all
  then show ?thesis using x keeps_rx_trans [OF y(4) x(1)] by blast
qed

subsection \<open>The timer\<close>

lemma sweepRetx_track_view:
  "tx_view (sweepRetx_track now l) = tx_view l" "keeps_rx l (sweepRetx_track now l)"
  "wire (sweepRetx_track now l) = wire l"
  by (simp_all add: sweepRetx_track_def Let_def)

text \<open>A link that differs in the go-back-N timers only.\<close>

definition g_only :: "Link \<Rightarrow> Link \<Rightarrow> bool" where
  "g_only l x \<longleftrightarrow> tx_view x = tx_view l \<and> keeps_rx l x \<and> wire x = wire l"

lemma g_only_intros:
  "g_only l l" "g_only l x \<Longrightarrow> g_only l (l_g_update f x)"
  "g_only l x \<Longrightarrow> g_only l y \<Longrightarrow> g_only l (if c then x else y)"
  by (simp_all add: g_only_def)

lemma resent_window_g: "window_cached l \<Longrightarrow> g_only l x \<Longrightarrow> resent l (gbnResendWindow now x)"
  using resent_window [of x now] resent_view(1, 2) [of x l] by (simp add: g_only_def)

lemma gbnRetxBaseAndRearm_op:
  assumes "window_cached l"
  shows "resent l (gbnRetxBaseAndRearm now l)"
  unfolding gbnRetxBaseAndRearm_def Let_def resent_g
  by (rule resent_window_g [OF assms]) (intro g_only_intros)

lemma sweepRetx_op:
  assumes "window_cached l" and "sweepRetx now l = (brk, l')" and "l_state l' = OK"
  shows "resent l l'"
proof -
  define x where "x = sweepRetx_track now l"
  have x: "tx_view x = tx_view l" "keeps_rx l x" "wire x = wire l"
    by (simp_all add: x_def sweepRetx_track_view)
  have give: "resent x (snd (gbnGiveUp now x))" if "l_state (snd (gbnGiveUp now x)) = OK"
    using that
    by (auto simp: gbnGiveUp_def Let_def frame_simps tx_view_def arq_rearmSlot_def arq_isPending_def
        intro!: resent_view(3) split: if_splits)
  have "resent x (gbnRetxBaseAndRearm now x)"
    using gbnRetxBaseAndRearm_op assms(1) resent_view(1) [OF x] by simp
  moreover have "resent l l" "resent x x" by (simp_all add: resent_view(3))
  ultimately have "resent x l' \<or> l' = l"
    using assms(2, 3) give
    by (auto simp: sweepRetx_def Let_def x_def [symmetric] split: if_splits)
  then show ?thesis using resent_view(2) [OF x] \<open>resent l l\<close> by blast
qed

subsection \<open>A chunk that arrives\<close>

lemma txSmall_cfg: "l_cfg (txSmallCobs raw l) = l_cfg l"
  by (simp add: frame_simps)

lemma send_answer_keeps:
  "tx_view (sendAckFrame s n l) = tx_view l" "keeps_rx k (sendAckFrame s n l) = keeps_rx k l"
  "tx_view (sendNakFrame s l) = tx_view l" "keeps_rx k (sendNakFrame s l) = keeps_rx k l"
  by (simp_all add: tx_view_def keeps_rx_def rx_view_def sendAckFrame_def sendNakFrame_def
      sendCtrlCobsFrame_def frame_simps)

lemma clearErr_ses: "l_state (clearErr l) = l_state l" "l_cfg (clearErr l) = l_cfg l"
  by (simp_all add: clearErr_def)

lemma tx_view_r [simp]:
  "tx_view (l_r_update f l) = tx_view l" "tx_view (l_hw_update h l) = tx_view l" "tx_view (clearErr l) = tx_view l"
  by (simp_all add: tx_view_def clearErr_def)

lemma answered_puts:
  "answered (ackWire s n) l l' \<Longrightarrow> puts [] l l' \<or> puts [WAck s n] l l'"
  "answered (nakWire s) l l' \<Longrightarrow> puts [] l l' \<or> puts [WNak s] l l'"
  by (auto simp: answered_def puts_def)

lemma onPayload_stale_op:
  "tx_view (snd (onPayload_stale s b d l)) = tx_view l \<and> keeps_rx l (snd (onPayload_stale s b d l)) \<and>
   answered (ackWire s (of_nat (length b))) l (snd (onPayload_stale s b d l))"
  by (auto simp: onPayload_stale_def Let_def send_answer_keeps answered_from)

lemma onPayload_gap_op:
  "tx_view (snd (onPayload_gap l)) = tx_view l \<and> keeps_rx l (snd (onPayload_gap l)) \<and>
   answered (nakWire (reorderExpectedSeq l)) l (snd (onPayload_gap l))"
  by (auto simp: onPayload_gap_def Let_def send_answer_keeps answered_from)

lemma keeps_rx_hold:
  "keeps_rx k (l_r_update (\<lambda>r. r\<lparr>r_holdNakActive := a, r_holdNakSeq := s, r_holdNakWrap := r_rxSeqWrap r,
     r_holdNakFreeAtSet := f, r_holdNakLastMs := m\<rparr>) l) = keeps_rx k l"
  "keeps_rx k (l_r_update (\<lambda>r. r\<lparr>r_holdNakFreeAtSet := f, r_holdNakLastMs := m\<rparr>) l) = keeps_rx k l"
  "keeps_rx k (l_r_update (\<lambda>r. r\<lparr>r_holdNakLastMs := m\<rparr>) l) = keeps_rx k l"
  by (simp_all add: keeps_rx_def rx_view_def)

lemma onPayload_hold_op:
  "tx_view (snd (onPayload_hold s l)) = tx_view l \<and> keeps_rx l (snd (onPayload_hold s l)) \<and>
   answered (nakWire s) l (snd (onPayload_hold s l))"
  by (auto simp: onPayload_hold_def Let_def send_answer_keeps answered_from keeps_rx_hold)

lemma onPayload_deliver_op:
  assumes "int (length b) \<le> hal_appBufFree (l_hw l)"
  shows "tx_view (snd (onPayload_deliver s b l)) = tx_view l \<and> l_state (snd (onPayload_deliver s b l)) = l_state l \<and>
    l_cfg (snd (onPayload_deliver s b l)) = l_cfg l \<and> rx_view (snd (onPayload_deliver s b l)) = (True, s) \<and>
    app (snd (onPayload_deliver s b l)) = app l @ b \<and>
    answered (ackWire s (of_nat (length b))) l (snd (onPayload_deliver s b l))"
proof -
  obtain stop l' where l': "onPayload_deliver s b l = (stop, l')" by (cases "onPayload_deliver s b l")
  have "l_state l' = l_state l" "l_cfg l' = l_cfg l" "tx_view l' = tx_view l"
    using l' unfolding onPayload_deliver_def push_room [OF assms] Let_def prod.case
    by (auto simp: frame_simps clearErr_ses send_answer_keeps)
  then show ?thesis using deliver_outcome [OF assms l'] l' by (simp add: rx_view_def)
qed

text \<open>A chunk of the session: delivered, refused for lack of room, repeated, or ahead of its turn.\<close>

definition payload_outcome :: "u8 \<Rightarrow> bytes \<Rightarrow> Link \<Rightarrow> Link \<Rightarrow> bool" where
  "payload_outcome s b l l' \<longleftrightarrow>
     (case fst (classifyGap s (r_rxSeq (l_r l)) True) of
        Forward \<Rightarrow>
          (rx_view l' = (True, s) \<and> app l' = app l @ b \<and> l_state l' = l_state l \<and> l_cfg l' = l_cfg l \<and>
           (puts [] l l' \<or> puts [WAck s (of_nat (length b))] l l')) \<or>
          (keeps_rx l l' \<and> (puts [] l l' \<or> puts [WNak s] l l'))
      | Stale \<Rightarrow> keeps_rx l l' \<and> (puts [] l l' \<or> puts [WAck s (of_nat (length b))] l l')
      | Gap \<Rightarrow> keeps_rx l l' \<and> (puts [] l l' \<or> puts [WNak (reorderExpectedSeq l)] l l'))"

lemma onPayload_op:
  assumes ses: "in_session l" and set: "r_rxSeqSet (l_r l)" and b: "b \<noteq> []"
  shows "tx_view (snd (onPayload s b l)) = tx_view l \<and> payload_outcome s b l (snd (onPayload s b l))"
proof -
  define x where "x = l_r_update (\<lambda>r. r\<lparr>r_lastValidRxMs := l_now l, r_lastRxSeq := s\<rparr>) (noteValidFrameOk l)"
  have x: "keeps_rx l x" "wire x = wire l" "reorderExpectedSeq x = reorderExpectedSeq l" "tx_view x = tx_view l"
    by (simp_all add: x_def frame_simps reorderExpectedSeq_def keeps_rx_def rx_view_def)
  have ans: "answered f x l' = answered f l l'" for f l' by (rule answered_cong) (rule x(2))
  have keep: "keeps_rx x l' \<Longrightarrow> keeps_rx l l'" for l' by (rule keeps_rx_trans [OF x(1)])
  obtain c d where c: "classifyGap s (r_rxSeq (l_r l)) (r_rxSeqSet (l_r l)) = (c, d)"
    by (cases "classifyGap s (r_rxSeq (l_r l)) (r_rxSeqSet (l_r l))")
  have p: "onPayload s b l = (case c of Stale \<Rightarrow> onPayload_stale s b d x | Gap \<Rightarrow> onPayload_gap x
      | Forward \<Rightarrow> onPayload_forward s b x)"
    using ses c by (cases c) (simp_all add: in_session_def x_def onPayload_def Let_def frame_simps)
  have cls: "fst (classifyGap s (r_rxSeq (l_r l)) True) = c" using c set by simp
  show ?thesis
  proof (cases c)
    case Stale
    then show ?thesis
      using p cls onPayload_stale_op [of s b d x] keep answered_puts(1) x(4)
      by (auto simp: payload_outcome_def ans)
  next
    case Gap
    then show ?thesis
      using p cls onPayload_gap_op [of x] keep answered_puts(2) x(3, 4) by (auto simp: payload_outcome_def ans)
  next
    case Forward
    have f: "onPayload_forward s b x =
        (if hal_appBufFree (l_hw x) < int (length b) then onPayload_hold s x else onPayload_deliver s b x)"
      using b by (simp add: onPayload_forward_def)
    show ?thesis
    proof (cases "hal_appBufFree (l_hw x) < int (length b)")
      case True
      then show ?thesis
        using p f cls Forward onPayload_hold_op [of s x] keep answered_puts(2) x(4)
        by (auto simp: payload_outcome_def ans)
    next
      case False
      then have "int (length b) \<le> hal_appBufFree (l_hw x)" by simp
      from onPayload_deliver_op [OF this, of s] show ?thesis
        using False p f cls Forward answered_puts(1) x by (auto simp: payload_outcome_def ans keeps_rx_def)
    qed
  qed
qed

subsection \<open>Whatever the window holds\<close>

text \<open>A sender adds data frames only, a receiver one answer at most, in any state of a session; this
  is what keeps the two directions of a pair apart.\<close>

definition data_only :: "Link \<Rightarrow> Link \<Rightarrow> bool" where
  "data_only l l' \<longleftrightarrow> (\<exists>ds. puts (map (\<lambda>(s, b). WData s b) ds) l l')"

lemma data_only_refl: "wire l' = wire l \<Longrightarrow> data_only l l'"
  unfolding data_only_def by (rule exI [of _ "[]"]) simp

lemma data_only_trans: "data_only l m \<Longrightarrow> data_only m n \<Longrightarrow> data_only l n"
proof -
  assume "data_only l m" "data_only m n"
  then obtain ds es where "puts (map (\<lambda>(s, b). WData s b) ds) l m" "puts (map (\<lambda>(s, b). WData s b) es) m n"
    by (auto simp: data_only_def)
  then have "puts (map (\<lambda>(s, b). WData s b) (ds @ es)) l n" by (simp add: puts_def)
  then show ?thesis unfolding data_only_def by blast
qed

lemma data_only_upd [simp]:
  "data_only l (l_g_update f m) = data_only l m" "data_only l (l_arq_update fa m) = data_only l m"
  "data_only (l_g_update f l) m = data_only l m" "data_only (l_arq_update fa l) m = data_only l m"
  by (simp_all add: data_only_def puts_def)

lemma resend_data_only:
  assumes "seq_ok s"
  shows "data_only l (snd (resendCobsFrame s b l))"
proof -
  have "wf_frame (WData s (take (nat MAX_CHUNK) b))" using assms by (simp add: seq_ok_def MAX_CHUNK_def)
  moreover have "wireOf (WData s (take (nat MAX_CHUNK) b)) = cobsDataWire s b" by (simp add: cobsDataWire_def)
  ultimately have put: "wire l' = wire l @ cobsDataWire s b \<Longrightarrow> data_only l l'" for l'
    unfolding data_only_def by (intro exI [of _ "[(s, take (nat MAX_CHUNK) b)]"]) (simp add: puts_def)
  show ?thesis
    by (cases rule: buildAndTx_cases [of l s b])
      (simp_all add: resendCobsFrame_def Let_def put data_only_refl noteTxReject_def noteRingStall_def)
qed

lemma retx_data_only: "seq_ok s \<Longrightarrow> data_only l (snd (retxSeq s l))"
  by (simp add: retxSeq_def resend_data_only data_only_refl split: option.split)

lemma burst_op:
  "seq_ok s \<Longrightarrow> data_only l (resendBurst n s now l) \<and> keeps_rx l (resendBurst n s now l)"
proof (induction n arbitrary: s l)
  case (Suc n)
  obtain ok m where m: "retxSeq s l = (ok, m)" by (cases "retxSeq s l")
  have d: "data_only l m" "keeps_rx l m" using retx_data_only [OF Suc.prems, of l] retxSeq_frame [of l s] m by simp_all
  let ?m = "l_arq_update (arq_applyRetx s now (g_resendSource (l_g m) = SrcRto)) m"
  have "data_only m (resendBurst n (nextSeq s) now ?m)" "keeps_rx ?m (resendBurst n (nextSeq s) now ?m)"
    using Suc.IH [OF seq_ok_next [OF Suc.prems], of ?m] by simp_all
  then show ?case
    using d data_only_trans [OF d(1)] keeps_rx_trans [of l ?m] by (simp add: m data_only_refl)
qed (simp add: data_only_refl)

lemma window_op:
  assumes "link_inv l"
  shows "data_only l (gbnResendWindow now l) \<and> keeps_rx l (gbnResendWindow now l)"
proof -
  have "seq_ok (gbnBase_' (l_arq l))" using kept_carry.link_inv_parts(5) [of l] assms by (simp add: link_inv_def)
  note b = burst_op [OF this]
  let ?l = "l_g_update (\<lambda>g. g\<lparr>g_gbnLastResendBase := gbnBase_' (l_arq l), g_gbnLastResendMs := now\<rparr>) l"
  show ?thesis
    using b [of ?l _ now] by (simp add: gbnResendWindow_def data_only_refl Let_def)
qed

lemma nakWalk_keeps: "keeps_rx l (nakWalk freed missing l) \<and> wire (nakWalk freed missing l) = wire l"
proof (induction freed missing l rule: nakWalk.induct)
  case (1 freed missing l)
  show ?case
  proof -
    let ?b = "gbnBase_' (l_arq l)"
    let ?l = "l_arq_update (arq_setGbnBase (nextSeq ?b)) (ackOne ?b 0 NakCumulative l)"
    have k: "keeps_rx l ?l" "wire ?l = wire l" by (simp_all add: ackOne_keeps)
    show ?thesis
    proof (cases "?b = missing \<or> idxOf ?b (l_arq l) < 0 \<or> freed + 1 > AUTOLINK_ARQ_PIPELINE_WINDOW")
      case True
      then have "nakWalk freed missing l = l" by (subst nakWalk.simps) (auto simp: Let_def)
      then show ?thesis by simp
    next
      case False
      then have "nakWalk freed missing l = nakWalk (freed + 1) missing ?l"
        by (subst nakWalk.simps) (simp add: Let_def)
      then show ?thesis using "1.IH" [OF refl] False k keeps_rx_trans [OF k(1)] by auto
    qed
  qed
qed

lemma onNak_base_keeps:
  assumes "link_inv l"
  shows "data_only l (onNak_base m l) \<and> keeps_rx l (onNak_base m l)"
proof -
  let ?x = "l_arq_update (arq_onNaked m (l_now l)) (l_g_update (\<lambda>g. g\<lparr>g_resendSource := SrcNak\<rparr>) l)"
  have "link_inv ?x" using assms by (simp add: inv4 arq_base_ops)
  from window_op [OF this, of "l_now l"] have w: "data_only l (gbnResendWindow (l_now l) ?x)"
      "keeps_rx ?x (gbnResendWindow (l_now l) ?x)" by simp_all
  have "keeps_rx l (gbnResendWindow (l_now l) ?x)" by (rule keeps_rx_trans [OF _ w(2)]) simp
  with w(1) show ?thesis by (simp add: onNak_base_def Let_def data_only_refl)
qed

lemma onNak_keeps:
  assumes inv: "link_inv l"
  shows "data_only l (snd (onNak m l)) \<and> keeps_rx l (snd (onNak m l))"
proof -
  define y where "y = l_c_update (\<lambda>c. c\<lparr>c_rxBytes := c_rxBytes c + of_nat RX_NAK_WIRE_BYTES\<rparr>)
    (l_t_update (\<lambda>t. t\<lparr>t_lastNakSeq := m\<rparr>) (notePeerResponse (l_s_update (\<lambda>s. s\<lparr>s_recentDiscs := 0\<rparr>) l)))"
  have "link_inv (notePeerResponse (l_s_update (\<lambda>s. s\<lparr>s_recentDiscs := 0\<rparr>) l))"
    using kept_carry.inv_acks(1) [of "l_s_update (\<lambda>s. s\<lparr>s_recentDiscs := 0\<rparr>) l"] inv
    by (simp add: link_inv_def [symmetric] inv4)
  then have y: "link_inv y" "keeps_rx l y" "wire y = wire l" by (simp_all add: y_def inv4)
  have z: "link_inv (nakWalk 0 m y)" using kept_carry.inv_nakWalk [of y 0 m] y(1) by (simp add: link_inv_def)
  have k: "data_only l z \<and> keeps_rx l z" if "data_only x z \<and> keeps_rx x z" "x = y \<or> x = nakWalk 0 m y" for x z
    using that y nakWalk_keeps [of y 0 m] keeps_rx_trans [of l x z] keeps_rx_trans [of l y x]
    by (auto simp: data_only_def puts_def)
  have same: "data_only x x \<and> keeps_rx x x" for x by (simp add: data_only_refl)
  have yes: "data_only l (onNak_base m y) \<and> keeps_rx l (onNak_base m y)"
    "data_only l (onNak_base m (nakWalk 0 m y)) \<and> keeps_rx l (onNak_base m (nakWalk 0 m y))"
    "data_only l y \<and> keeps_rx l y" "data_only l (nakWalk 0 m y) \<and> keeps_rx l (nakWalk 0 m y)"
    using k [OF onNak_base_keeps [OF y(1)]] k [OF onNak_base_keeps [OF z]] k [OF same] by auto
  have "snd (onNak m l) \<in> {l, notePeerResponse (l_s_update (\<lambda>s. s\<lparr>s_recentDiscs := 0\<rparr>) l),
      l_arq_update (arq_noteNakWake m) y, y, nakWalk 0 m y, onNak_base m y, onNak_base m (nakWalk 0 m y)}"
    unfolding y_def by (simp add: onNak_def Let_def)
  then show ?thesis using yes by (auto simp: data_only_refl)
qed

lemma sweepRetx_keeps:
  assumes inv: "link_inv l" and s: "sweepRetx now l = (brk, l')" and st: "l_state l' = OK"
  shows "data_only l l' \<and> keeps_rx l l'"
proof -
  define x where "x = sweepRetx_track now l"
  have x: "link_inv x" "keeps_rx l x" "wire x = wire l"
    using kept_carry.inv_gbn(3) [of l now] inv by (simp_all add: x_def sweepRetx_track_view link_inv_def)
  have g: "g_only x y \<Longrightarrow> link_inv y \<Longrightarrow> data_only x (gbnResendWindow now y) \<and> keeps_rx x (gbnResendWindow now y)" for y
    using window_op [of y now] keeps_rx_trans [of x y] by (auto simp: g_only_def data_only_def puts_def)
  have rearm: "data_only x (gbnRetxBaseAndRearm now x) \<and> keeps_rx x (gbnRetxBaseAndRearm now x)"
    unfolding gbnRetxBaseAndRearm_def Let_def data_only_upd keeps_rx_upd
    by (rule g) (intro g_only_intros, simp add: inv4 x(1))
  have give: "data_only x (snd (gbnGiveUp now x)) \<and> keeps_rx x (snd (gbnGiveUp now x))"
    if "l_state (snd (gbnGiveUp now x)) = OK"
    using that by (auto simp: gbnGiveUp_def Let_def frame_simps data_only_refl split: if_splits)
  have "l' = l \<or> data_only x l' \<and> keeps_rx x l'"
    using s st give rearm
    by (auto simp: sweepRetx_def Let_def x_def [symmetric] data_only_refl split: if_splits)
  moreover have "data_only l l'" if "data_only x l'" using that x(3) by (simp add: data_only_def puts_def)
  ultimately show ?thesis using keeps_rx_trans [OF x(2)] by (auto simp: data_only_refl)
qed

text \<open>A receiver, whether or not it knows the number it expects.\<close>

definition answer_only :: "Link \<Rightarrow> Link \<Rightarrow> bool" where
  "answer_only l l' \<longleftrightarrow> tx_view l' = tx_view l \<and> l_state l' = l_state l \<and> l_cfg l' = l_cfg l \<and>
     (\<exists>f. (puts [] l l' \<or> puts [f] l l') \<and> (\<forall>s b. f \<noteq> WData s b))"

lemma answer_onlyI:
  "tx_view l' = tx_view l \<Longrightarrow> l_state l' = l_state l \<Longrightarrow> l_cfg l' = l_cfg l \<Longrightarrow>
   answered (ackWire s n) l l' \<or> answered (nakWire s) l l' \<Longrightarrow> answer_only l l'"
  using answered_puts [of s] unfolding answer_only_def by blast

lemma onPayload_keeps:
  assumes "cfg_mode (l_cfg l) = ASYNC"
  shows "answer_only l (snd (onPayload s b l))"
proof -
  define x where "x = l_r_update (\<lambda>r. r\<lparr>r_lastValidRxMs := l_now l, r_lastRxSeq := s\<rparr>) (noteValidFrameOk l)"
  have x: "keeps_rx l x" "wire x = wire l" "tx_view x = tx_view l"
    by (simp_all add: x_def frame_simps keeps_rx_def rx_view_def)
  have at: "answer_only l l'" if "answer_only x l'" for l'
    using that x by (auto simp: answer_only_def keeps_rx_def puts_def)
  have kept: "answer_only x l'"
    if "tx_view l' = tx_view x \<and> keeps_rx x l' \<and> (answered (ackWire q n) x l' \<or> answered (nakWire q) x l')" for l' q n
    using that by (intro answer_onlyI [of l' x q n]) (simp_all add: keeps_rx_def)
  have fwd: "answer_only x (snd (onPayload_forward s b x))"
  proof -
    consider "b = []" | "b \<noteq> []" "hal_appBufFree (l_hw x) < int (length b)"
      | "b \<noteq> []" "int (length b) \<le> hal_appBufFree (l_hw x)" by linarith
    then show ?thesis
    proof cases
      case 1
      have "answered (ackWire s 0) x (clearErr (l_r_update (\<lambda>r. r\<lparr>r_rxSeq := s, r_rxSeqSet := True\<rparr>) x))"
        by (simp add: answered_def frame_simps)
      then show ?thesis
        using 1 by (intro answer_onlyI) (auto simp: onPayload_forward_def clearErr_ses)
    next
      case 2
      then show ?thesis using kept [of "snd (onPayload_hold s x)" s 0] onPayload_hold_op [of s x]
        by (simp add: onPayload_forward_def)
    next
      case 3
      then show ?thesis
        using onPayload_deliver_op [OF 3(2), of s] answer_onlyI [of "snd (onPayload_deliver s b x)" x s]
        by (auto simp: onPayload_forward_def)
    qed
  qed
  obtain c d where c: "classifyGap s (r_rxSeq (l_r l)) (r_rxSeqSet (l_r l)) = (c, d)"
    by (cases "classifyGap s (r_rxSeq (l_r l)) (r_rxSeqSet (l_r l))")
  have "snd (onPayload s b l) = (if l_state l \<noteq> OK then l else
      case c of Stale \<Rightarrow> snd (onPayload_stale s b d x) | Gap \<Rightarrow> snd (onPayload_gap x)
      | Forward \<Rightarrow> snd (onPayload_forward s b x))"
    using assms c by (cases c) (simp_all add: x_def onPayload_def Let_def frame_simps)
  moreover have "answer_only x (snd (onPayload_stale s b d x))"
    using kept [of "snd (onPayload_stale s b d x)" s "of_nat (length b)"] onPayload_stale_op [of s b d x] by simp
  moreover have "answer_only x (snd (onPayload_gap x))"
    using kept [of "snd (onPayload_gap x)" "reorderExpectedSeq x" 0] onPayload_gap_op [of x] by simp
  moreover have "answer_only l l"
    by (rule answer_onlyI [of _ _ 0 0]) (simp_all add: answered_def)
  ultimately show ?thesis using at fwd by (cases c) auto
qed

end
