(* ===== verification/LinkPairSim.thy ===== *)
theory LinkPairSim
  imports LinkPairOps
begin

text \<open>
  The simulation: every step of a pair of links is some steps of the go-back-N protocol, in either
  of the two directions. The protocol's invariant keeps every number on the wire within 32 of the
  window it is compared with, on either side, so the code's comparisons modulo 254 and its
  64 slots decide what the absolute indices decide.
\<close>

subsection \<open>The sender's window\<close>

lemma tx_rel_pendingCount:
  assumes "tx_rel l sent g" and "gN g \<le> gB g + 32"
  shows "arq_pendingCount (l_arq l) = int (gN g - gB g)"
proof -
  have "arq_pendingCount (l_arq l) = int (card ((budgetIdx \<circ> seqOf) ` {gB g..<gN g}))"
    using assms(1) by (intro pendingCount_set) (auto simp: tx_rel_def)
  also have "card ((budgetIdx \<circ> seqOf) ` {gB g..<gN g}) = gN g - gB g"
    using assms(2) by (subst card_image [OF budgetIdx_inj_on]) simp_all
  finally show ?thesis .
qed

lemma tx_rel_window:
  assumes rel: "tx_rel l sent g" and w: "gN g \<le> gB g + 32"
    and sent: "\<forall>b \<in> set sent. b \<noteq> [] \<and> length b \<le> nat MAX_CHUNK"
  shows "window_cached l"
    "j \<le> nat (arq_pendingCount (l_arq l)) \<Longrightarrow>
      map eventOf (run_frames (\<lambda>t. cache_peek t (l_cache l)) (seqRun (gbnBase_' (l_arq l)) j)) =
      map (\<lambda>i. OnPayload (seqOf i) (sent ! i)) [gB g..<gB g + j] \<and> gB g + j \<le> gN g \<or> j = 0"
proof -
  have len: "length (sent ! i) \<le> 250" if "i < gN g" for i
    using sent rel that by (auto simp: tx_rel_def wire_defs)
  have n: "nat (arq_pendingCount (l_arq l)) = gN g - gB g" using tx_rel_pendingCount [OF rel w] by simp
  have run: "seqRun (gbnBase_' (l_arq l)) j = map seqOf [gB g..<gB g + j]" if "j \<le> gN g - gB g" "0 < j" for j
    using rel that by (simp add: tx_rel_def seqRun_seqOf)
  show "window_cached l"
  proof (cases "gB g < gN g")
    case True
    then show ?thesis
      using rel run [of "gN g - gB g"] len by (auto simp: window_cached_def n run_cached_def tx_rel_def MAX_CHUNK_def)
  next
    case False
    then show ?thesis by (simp add: window_cached_def n run_cached_def seqRun_def)
  qed
  show "map eventOf (run_frames (\<lambda>t. cache_peek t (l_cache l)) (seqRun (gbnBase_' (l_arq l)) j)) =
      map (\<lambda>i. OnPayload (seqOf i) (sent ! i)) [gB g..<gB g + j] \<and> gB g + j \<le> gN g \<or> j = 0"
    if "j \<le> nat (arq_pendingCount (l_arq l))"
    using that run [of j] rel unfolding n by (cases "j = 0") (auto simp: run_frames_def tx_rel_def)
qed

text \<open>Which numbers the ARQ takes for pending ones of its window.\<close>

lemma tx_rel_in_window:
  assumes rel: "tx_rel l sent g" and w: "gN g \<le> gB g + 32" and i: "gB g \<le> i" "i < gN g"
  shows "gbnActive_' (l_arq l)" "gbnBase_' (l_arq l) = seqOf (gB g)" "arq_isPending (seqOf i) (l_arq l)"
    "idxOf (seqOf i) (l_arq l) = int (i - gB g)"
proof -
  show "gbnActive_' (l_arq l)" and base: "gbnBase_' (l_arq l) = seqOf (gB g)"
    and "arq_isPending (seqOf i) (l_arq l)"
    using rel i by (auto simp: tx_rel_def)
  show "idxOf (seqOf i) (l_arq l) = int (i - gB g)"
    using i w base seqDist_seqOf [of "gB g" i] by (simp add: idxOf_seqDist)
qed

lemma tx_rel_not_in_window:
  assumes rel: "tx_rel l sent g" and w: "gN g \<le> gB g + 32" and i: "i < gB g \<and> gB g \<le> i + 32 \<or> i = gN g"
  shows "\<not> arq_isPending (seqOf i) (l_arq l) \<or> gbnActive_' (l_arq l) \<and> idxOf (seqOf i) (l_arq l) < 0"
proof (cases "gB g < gN g")
  case False
  then show ?thesis using rel by (simp add: tx_rel_def)
next
  case True
  show ?thesis
  proof (cases "i = gN g")
    case True
    have "budgetIdx (seqOf (gN g)) \<noteq> budgetIdx (seqOf j)" if "gB g \<le> j" "j < gN g" for j
      using budgetIdx_seqOf [of j "gN g"] that w by simp
    then show ?thesis using rel True by (force simp: tx_rel_def)
  next
    case False
    then have "i < gB g" "gB g \<le> i + 32" using i by auto
    then have "idxOf (seqOf i) (l_arq l) < 0"
      using rel True seqDist_seqOf_back [of i "gB g"] by (simp add: tx_rel_def idxOf_seqDist)
    then show ?thesis using rel True by (simp add: tx_rel_def)
  qed
qed

subsection \<open>What does not concern a direction\<close>

lemma tx_rel_view: "tx_view l' = tx_view l \<Longrightarrow> tx_rel l sent g \<Longrightarrow> tx_rel l' sent g"
  by (simp add: tx_rel_def tx_view_def fun_eq_iff)

lemma rx_rel_view: "rx_view l' = rx_view l \<Longrightarrow> rx_rel l out sent g \<Longrightarrow> rx_rel l' out sent g"
  by (simp add: rx_rel_def rx_view_def)

lemma rel_wires [simp]:
  "tx_rel l sent (g\<lparr>gResp := rs\<rparr>) = tx_rel l sent g" "tx_rel l sent (g\<lparr>gData := ds\<rparr>) = tx_rel l sent g"
  "rx_rel r out sent (g\<lparr>gResp := rs\<rparr>) = rx_rel r out sent g" "rx_rel r out sent (g\<lparr>gData := ds\<rparr>) = rx_rel r out sent g"
  "rx_rel r out sent (g\<lparr>gB := b\<rparr>) = rx_rel r out sent g" "tx_rel l sent (g\<lparr>gE := e\<rparr>) = tx_rel l sent g"
  by (simp_all add: tx_rel_def rx_rel_def)

lemma half_tx_same:
  "link_half l r out sent forth back g \<Longrightarrow> tx_view l' = tx_view l \<Longrightarrow> datas fs = [] \<Longrightarrow>
   link_half l' r out sent (forth @ fs) back g"
  by (auto simp: link_half_def intro: tx_rel_view)

lemma half_rx_same:
  "link_half l r out sent forth back g \<Longrightarrow> rx_view r' = rx_view r \<Longrightarrow> answers fs = [] \<Longrightarrow>
   link_half l r' out sent forth (back @ fs) g"
  by (auto simp: link_half_def intro: rx_rel_view)

lemma half_skip:
  "link_half l r out sent (e # forth) back g \<Longrightarrow> dataOf e = [] \<Longrightarrow> link_half l r out sent forth back g"
  "link_half l r out sent forth (e # back) g \<Longrightarrow> answerOf e = [] \<Longrightarrow> link_half l r out sent forth back g"
  by (simp_all add: link_half_def)

lemma resent_answers: "resent l l' \<Longrightarrow> answers (newFrames l l') = []"
proof -
  assume "resent l l'"
  then obtain ss where p: "puts (run_frames (\<lambda>t. cache_peek t (l_cache l)) ss) l l'" by (auto simp: resent_def)
  show ?thesis unfolding puts_newFrames [OF p] by (induction ss) (simp_all add: run_frames_def)
qed

lemma newFrames_none: "wire l' = wire l \<Longrightarrow> newFrames l l' = []"
  using puts_newFrames [of "[]" l l'] by simp

subsection \<open>A chunk is sent\<close>

lemma tx_rel_send:
  assumes rel: "tx_rel l sent g" and w: "gN g < gB g + 32" "gB g \<le> gN g"
    and q: "q = t_txSeq (l_t l)"
    and view: "tx_view l' = ((\<lambda>t. budgetIdx t = budgetIdx q \<or> arq_isPending t (l_arq l)),
       if gbnActive_' (l_arq l) then gbnBase_' (l_arq l) else q, True,
       (\<lambda>t. if t = q then Some b else cache_peek t (l_cache l)), nextSeq q)"
  shows "tx_rel l' (sent @ [b]) (g\<lparr>gN := gN g + 1\<rparr>)"
proof -
  have qn: "q = seqOf (gN g)" using q rel by (simp add: tx_rel_def)
  have ne: "seqOf i \<noteq> seqOf (gN g)" if "gB g \<le> i" "i < gN g" for i
    using seqOf_inj [of i "gN g"] that w by simp
  show ?thesis
    unfolding tx_rel_def
  proof (intro conjI)
    show "\<forall>i \<in> {gB (g\<lparr>gN := gN g + 1\<rparr>)..<gN (g\<lparr>gN := gN g + 1\<rparr>)}.
        cache_peek (seqOf i) (l_cache l') = Some ((sent @ [b]) ! i)"
      using rel view qn ne by (auto simp: tx_rel_def tx_view_def fun_eq_iff nth_append less_Suc_eq)
    show "\<forall>t. cache_peek t (l_cache l') \<noteq> None \<longrightarrow>
        t \<in> seqOf ` {gB (g\<lparr>gN := gN g + 1\<rparr>)..<gN (g\<lparr>gN := gN g + 1\<rparr>)}"
      using rel view qn w
      by (auto simp: tx_rel_def tx_view_def fun_eq_iff atLeastLessThanSuc split: if_splits)
    show "\<forall>s. arq_isPending s (l_arq l') \<longleftrightarrow>
        budgetIdx s \<in> (budgetIdx \<circ> seqOf) ` {gB (g\<lparr>gN := gN g + 1\<rparr>)..<gN (g\<lparr>gN := gN g + 1\<rparr>)}"
      using rel view qn w by (simp add: tx_rel_def tx_view_def fun_eq_iff atLeastLessThanSuc)
  qed (use rel view qn w in \<open>auto simp: tx_rel_def tx_view_def\<close>)
qed

lemma half_send:
  assumes half: "link_half l r out sent forth back g" and ses: "in_session l"
    and b: "b \<noteq> []" "length b \<le> nat MAX_CHUNK" and room: "arq_pendingCount (l_arq l) < AUTOLINK_ARQ_PIPELINE_WINDOW"
    and s: "sendCobsFrameAcked b base l = (q, l')" and q: "q \<noteq> 0xFF"
  shows "\<exists>g'. (gbn_step 32)\<^sup>*\<^sup>* g g' \<and> link_half l' r out (sent @ [b]) (forth @ newFrames l l') back g'"
proof -
  let ?g = "g\<lparr>gN := gN g + 1, gData := gData g @ [gN g]\<rparr>"
  have ok: "gbn_ok 32 g" and rel: "tx_rel l sent g" and rx: "rx_rel r out sent g"
    using half by (simp_all add: link_half_def)
  have w: "gN g \<le> gB g + 32" "gB g \<le> gN g" "gE g \<le> gN g" using gbn_ok_order [OF ok] by auto
  have lt: "gN g < gB g + 32"
    using room tx_rel_pendingCount [OF rel w(1)] by (simp add: AUTOLINK_ARQ_PIPELINE_WINDOW_def)
  have st: "gbn_step 32 g ?g" by (rule gbn_step.send [OF lt])
  note op = send_op(4) [OF ses b s]
  have sent: "q = seqOf (gN g)" "puts [WData q b] l l'" using op q rel by (auto simp: tx_rel_def)
  have "tx_rel l' (sent @ [b]) ?g" using tx_rel_send [OF rel lt w(2), of q l' b] op q by simp
  moreover have "rx_rel r out (sent @ [b]) ?g" using rx rel w by (simp add: rx_rel_def tx_rel_def)
  moreover have "datas (forth @ newFrames l l') = map (\<lambda>i. (seqOf i, (sent @ [b]) ! i)) (gData ?g)"
  proof -
    have "i < length sent" if "i \<in> set (gData g)" for i
      using ok rel that by (auto simp: gbn_ok_def tx_rel_def)
    then show ?thesis
      using half rel sent(1) by (auto simp: link_half_def puts_newFrames [OF sent(2)] nth_append tx_rel_def)
  qed
  ultimately have "link_half l' r out (sent @ [b]) (forth @ newFrames l l') back ?g"
    using half b gbn_ok_step [OF st ok] by (auto simp: link_half_def)
  then show ?thesis using st by blast
qed

subsection \<open>A window is sent again\<close>

lemma half_resent:
  assumes half: "link_half l r out sent forth back g" and re: "resent l l'"
  shows "\<exists>g'. (gbn_step 32)\<^sup>*\<^sup>* g g' \<and> link_half l' r out sent (forth @ newFrames l l') back g'"
proof -
  have ok: "gbn_ok 32 g" and rel: "tx_rel l sent g"
    and sent: "\<forall>b \<in> set sent. b \<noteq> [] \<and> length b \<le> nat MAX_CHUNK"
    using half by (simp_all add: link_half_def)
  have w: "gN g \<le> gB g + 32" using gbn_ok_order [OF ok] by simp
  obtain j where j: "j \<le> nat (arq_pendingCount (l_arq l))" "tx_view l' = tx_view l"
      "puts (run_frames (\<lambda>t. cache_peek t (l_cache l)) (seqRun (gbnBase_' (l_arq l)) j)) l l'"
    using re by (auto simp: resent_def)
  show ?thesis
  proof (cases "j = 0")
    case True
    then have "newFrames l l' = []" using puts_newFrames [OF j(3)] by (simp add: seqRun_def run_frames_def)
    then show ?thesis using half_tx_same [OF half j(2), of "[]"] by auto
  next
    case False
    then have f: "newFrames l l' = map (\<lambda>i. OnPayload (seqOf i) (sent ! i)) [gB g..<gB g + j]" "gB g + j \<le> gN g"
      using tx_rel_window(2) [OF rel w sent j(1)] puts_newFrames [OF j(3)] by auto
    let ?g = "g\<lparr>gData := gData g @ [gB g..<gB g + j]\<rparr>"
    have st: "(gbn_step 32)\<^sup>*\<^sup>* g ?g" by (rule gbn_resends) (use f in simp_all)
    have d: "datas (map (\<lambda>i. OnPayload (seqOf i) (sent ! i)) is) = map (\<lambda>i. (seqOf i, sent ! i)) is" for "is"
      by (induction "is") simp_all
    have "tx_rel l' sent ?g" using tx_rel_view [OF j(2) rel] by (simp add: tx_rel_def)
    then have "link_half l' r out sent (forth @ newFrames l l') back ?g"
      using half gbn_ok_steps [OF st ok] d by (simp add: link_half_def f(1) rx_rel_def)
    then show ?thesis using st by blast
  qed
qed

subsection \<open>The base moves\<close>

lemma tx_rel_shrink:
  assumes rel: "tx_rel l sent g" and w: "gN g \<le> gB g + 32" and k: "gB g \<le> k" "k \<le> gN g"
    and view: "tx_view l' = ((\<lambda>t. arq_isPending t (l_arq l) \<and> budgetIdx t \<notin> budgetIdx ` set (map seqOf [gB g..<k])),
      seqOf k, act, (\<lambda>t. if t \<in> set (map seqOf [gB g..<k]) then None else cache_peek t (l_cache l)), t_txSeq (l_t l))"
    and act: "act \<longleftrightarrow> k < gN g"
  shows "tx_rel l' sent (g\<lparr>gB := k\<rparr>)"
proof -
  have parts: "gbnBase_' (l_arq l') = seqOf k" "gbnActive_' (l_arq l') = act" "t_txSeq (l_t l') = t_txSeq (l_t l)"
    using view by (simp_all add: tx_view_def)
  have pend': "arq_isPending t (l_arq l') \<longleftrightarrow> arq_isPending t (l_arq l) \<and> budgetIdx t \<notin> budgetIdx ` seqOf ` {gB g..<k}"
    and peek': "cache_peek t (l_cache l') = (if t \<in> seqOf ` {gB g..<k} then None else cache_peek t (l_cache l))" for t
    using view by (simp_all add: tx_view_def fun_eq_iff)
  have old: "arq_isPending t (l_arq l) \<longleftrightarrow> budgetIdx t \<in> (budgetIdx \<circ> seqOf) ` {gB g..<gN g}"
    "i \<in> {gB g..<gN g} \<Longrightarrow> cache_peek (seqOf i) (l_cache l) = Some (sent ! i)"
    "cache_peek t (l_cache l) \<noteq> None \<Longrightarrow> t \<in> seqOf ` {gB g..<gN g}" for t i
    using rel by (simp_all add: tx_rel_def)
  have inj: "budgetIdx (seqOf i) = budgetIdx (seqOf j) \<longleftrightarrow> i = j"
    if "i \<in> {gB g..<gN g}" "j \<in> {gB g..<gN g}" for i j
    using inj_on_eq_iff [OF budgetIdx_inj_on [of "gN g" "gB g"]] that w by simp
  have split: "{gB g..<gN g} = {gB g..<k} \<union> {k..<gN g}" using k by auto
  have pend: "x \<in> (budgetIdx \<circ> seqOf) ` {gB g..<gN g} \<and> x \<notin> budgetIdx ` seqOf ` {gB g..<k} \<longleftrightarrow>
      x \<in> (budgetIdx \<circ> seqOf) ` {k..<gN g}" for x
  proof -
    have "budgetIdx (seqOf i) \<noteq> budgetIdx (seqOf j)" if "i \<in> {gB g..<k}" "j \<in> {k..<gN g}" for i j
      using inj [of i j] that k by auto
    then show ?thesis unfolding split by (fastforce simp: image_Un image_image)
  qed
  have kept: "seqOf i \<notin> seqOf ` {gB g..<k}" if "i \<in> {k..<gN g}" for i
  proof
    assume "seqOf i \<in> seqOf ` {gB g..<k}"
    then obtain j where "j \<in> {gB g..<k}" "seqOf i = seqOf j" by auto
    then show False using inj [of i j] that k by auto
  qed
  have c2: "\<forall>s. cache_peek s (l_cache l') \<noteq> None \<longrightarrow> s \<in> seqOf ` {k..<gN g}"
  proof (intro allI impI)
    fix s
    assume "cache_peek s (l_cache l') \<noteq> None"
    then have "s \<notin> seqOf ` {gB g..<k}" "s \<in> seqOf ` {gB g..<gN g}" using old(3) by (auto simp: peek' split: if_splits)
    then show "s \<in> seqOf ` {k..<gN g}" unfolding split by auto
  qed
  have "\<forall>i\<in>{k..<gN g}. cache_peek (seqOf i) (l_cache l') = Some (sent ! i)"
    using kept old(2) k by (simp add: peek')
  moreover have "\<forall>s. arq_isPending s (l_arq l') \<longleftrightarrow> budgetIdx s \<in> (budgetIdx \<circ> seqOf) ` {k..<gN g}"
    using pend by (simp add: pend' old(1))
  ultimately show ?thesis using c2 rel parts act by (simp add: tx_rel_def)
qed

subsection \<open>An answer arrives\<close>

lemma half_answer_head:
  assumes half: "link_half l r out sent forth (e # back) g" and e: "answerOf e = [(ack, s)]"
  obtains a rs where "gResp g = a # rs" "s = seqOf (ans_idx a)"
    "ans_level a = ans_idx a + (if ack then 1 else 0)" "ans_level a \<le> gE g" "gB g \<le> ans_idx a + 32" "answers back = map numberOf rs"
proof -
  obtain a rs where g: "gResp g = a # rs" "numberOf a = (ack, s)" "answers back = map numberOf rs"
    using half e by (cases "gResp g") (auto simp: link_half_def)
  have "ans_level a \<le> gE g" "gB g \<le> ans_idx a + 32" using half g(1) by (auto simp: link_half_def gbn_ok_def)
  then show ?thesis using that [OF g(1)] g by (cases a) auto
qed

lemma half_answer_ignored:
  assumes half: "link_half l r out sent forth (e # back) g" and g: "gResp g = a # rs" "answers back = map numberOf rs"
    and view: "tx_view l' = tx_view l"
  shows "\<exists>g'. (gbn_step 32)\<^sup>*\<^sup>* g g' \<and> link_half l' r out sent forth back g'"
proof -
  let ?g = "g\<lparr>gResp := rs\<rparr>"
  have st: "gbn_step 32 g ?g" using gbn_step.lose_answer [of g "[]" a rs] g(1) by simp
  have "tx_rel l' sent g" using half by (intro tx_rel_view [OF view]) (simp add: link_half_def)
  then have "link_half l' r out sent forth back ?g"
    using half g gbn_ok_step [OF st] by (simp add: link_half_def)
  then show ?thesis using st by blast
qed

lemma half_answer_taken:
  assumes half: "link_half l r out sent forth (e # back) g" and g: "gResp g = a # rs" "answers back = map numberOf rs"
    and up: "gB g \<le> ans_level a" and rel: "tx_rel l' sent (g\<lparr>gB := ans_level a\<rparr>)"
  shows "gbn_step 32 g (g\<lparr>gB := ans_level a, gResp := rs\<rparr>)"
    "link_half l' r out sent forth back (g\<lparr>gB := ans_level a, gResp := rs\<rparr>)"
proof -
  show st: "gbn_step 32 g (g\<lparr>gB := ans_level a, gResp := rs\<rparr>)"
    using gbn_step.answer [OF g(1), of 32] up by (simp add: max_absorb2)
  show "link_half l' r out sent forth back (g\<lparr>gB := ans_level a, gResp := rs\<rparr>)"
    using half g rel gbn_ok_step [OF st] by (simp add: link_half_def)
qed

lemma tx_rel_ack:
  assumes rel: "tx_rel l sent g" and ses: "in_session l" and w: "gN g \<le> gB g + 32" and i: "gB g \<le> i" "i < gN g"
  shows "tx_rel (snd (onAck (seqOf i) n l)) sent (g\<lparr>gB := i + 1\<rparr>)"
proof -
  note win = tx_rel_in_window [OF rel w i]
  let ?l = "snd (onAck (seqOf i) n l)" and ?run = "map seqOf [gB g..<i + 1]"
  have k: "nat (idxOf (seqOf i) (l_arq l)) = i - gB g" unfolding win(4) by (rule nat_int)
  have run: "?run = seqRun (gbnBase_' (l_arq l)) (Suc (nat (idxOf (seqOf i) (l_arq l))))"
    using win(2) i by (simp add: k seqRun_seqOf)
  have view: "tx_view ?l = ((\<lambda>t. arq_isPending t (l_arq l) \<and> budgetIdx t \<notin> budgetIdx ` set ?run), seqOf (i + 1),
      0 < arq_pendingCount (l_arq ?l), (\<lambda>t. if t \<in> set ?run then None else cache_peek t (l_cache l)), t_txSeq (l_t l))"
    using onAck_new [OF ses win(1) _ _ _ run refl] win(3, 4) by simp
  have act: "0 < arq_pendingCount (l_arq ?l) \<longleftrightarrow> i + 1 < gN g"
  proof -
    define m where "m = l_arq_update (arq_setGbnActive (i + 1 < gN g)) ?l"
    have "tx_rel m sent (g\<lparr>gB := i + 1\<rparr>)"
      using view i w by (intro tx_rel_shrink [OF rel w, where act = "i + 1 < gN g"])
        (simp_all add: m_def tx_view_def arq_setGbnActive_def arq_isPending_def)
    from tx_rel_pendingCount [OF this] have "arq_pendingCount (l_arq m) = int (gN g - (i + 1))"
      using w i by simp
    moreover have "arq_pendingCount (l_arq m) = arq_pendingCount (l_arq ?l)"
      by (rule pendingCount_cong) (simp add: m_def arq_setGbnActive_def)
    ultimately show ?thesis by simp
  qed
  show ?thesis using view act i w by (intro tx_rel_shrink [OF rel w]) simp_all
qed

lemma half_ack:
  assumes half: "link_half l r out sent forth (OnAck q n # back) g" and ses: "in_session l"
  shows "\<exists>g'. (gbn_step 32)\<^sup>*\<^sup>* g g' \<and> link_half (snd (onAck q n l)) r out sent forth back g'"
proof -
  have ok: "gbn_ok 32 g" and rel: "tx_rel l sent g" using half by (simp_all add: link_half_def)
  obtain a rs where a: "gResp g = a # rs" "q = seqOf (ans_idx a)" "ans_level a = ans_idx a + (if True then 1 else 0)"
      "ans_level a \<le> gE g" "gB g \<le> ans_idx a + 32" "answers back = map numberOf rs"
    by (rule half_answer_head [OF half, of True q]) simp_all
  let ?i = "ans_idx a"
  have w: "gN g \<le> gB g + 32" "?i < gN g" using gbn_ok_order [OF ok] a(3, 4) by auto
  show ?thesis
  proof (cases "gB g \<le> ?i")
    case False
    then have "tx_view (snd (onAck q n l)) = tx_view l"
      using tx_rel_not_in_window [OF rel w(1), of ?i] a(2, 5) ses by (intro onAck_old) (simp_all add: in_session_def)
    then show ?thesis by (rule half_answer_ignored [OF half a(1, 6)])
  next
    case True
    have "tx_rel (snd (onAck q n l)) sent (g\<lparr>gB := ans_level a\<rparr>)"
      using tx_rel_ack [OF rel ses w(1) True w(2), of n] a(2, 3) by simp
    from half_answer_taken [OF half a(1, 6) _ this] show ?thesis using True a(3) by auto
  qed
qed

lemma half_nak:
  assumes half: "link_half l r out sent forth (OnNak q # back) g" and ses: "in_session l"
  shows "\<exists>g'. (gbn_step 32)\<^sup>*\<^sup>* g g' \<and>
    link_half (snd (onNak q l)) r out sent (forth @ newFrames l (snd (onNak q l))) back g' \<and>
    keeps_rx l (snd (onNak q l)) \<and> answers (newFrames l (snd (onNak q l))) = []"
proof -
  have ok: "gbn_ok 32 g" and rel: "tx_rel l sent g"
    and sent: "\<forall>b \<in> set sent. b \<noteq> [] \<and> length b \<le> nat MAX_CHUNK"
    using half by (simp_all add: link_half_def)
  obtain a rs where a: "gResp g = a # rs" "q = seqOf (ans_idx a)" "ans_level a = ans_idx a + (if False then 1 else 0)"
      "ans_level a \<le> gE g" "gB g \<le> ans_idx a + 32" "answers back = map numberOf rs"
    by (rule half_answer_head [OF half, of False q]) simp_all
  let ?i = "ans_idx a"
  have w: "gN g \<le> gB g + 32" "?i \<le> gN g" using gbn_ok_order [OF ok] a(3, 4) by auto
  show ?thesis
  proof (cases "gB g \<le> ?i \<and> ?i < gN g")
    case False
    then have "?i < gB g \<and> gB g \<le> ?i + 32 \<or> ?i = gN g" using a(5) w by auto
    then have old: "tx_view (snd (onNak q l)) = tx_view l" "wire (snd (onNak q l)) = wire l"
      "keeps_rx l (snd (onNak q l))"
      using onNak_old [of q l] tx_rel_not_in_window [OF rel w(1), of ?i] ses by (simp_all add: a(2) in_session_def)
    show ?thesis using half_answer_ignored [OF half a(1, 6) old(1)] old(3) newFrames_none [OF old(2)] by simp
  next
    case True
    note win = tx_rel_in_window [OF rel w(1) conjunct1 [OF True] conjunct2 [OF True]]
    let ?run = "map seqOf [gB g..<?i]"
    have k: "nat (idxOf q (l_arq l)) = ?i - gB g" unfolding a(2) win(4) by (rule nat_int)
    have run: "?run = seqRun (gbnBase_' (l_arq l)) (nat (idxOf q (l_arq l)))"
      using win(2) True by (simp add: k seqRun_seqOf)
    obtain x where x: "wire x = wire l" "snd (onNak q l) = onNak_base q x"
        "tx_view x = ((\<lambda>t. arq_isPending t (l_arq l) \<and> budgetIdx t \<notin> budgetIdx ` set ?run), q, True,
          (\<lambda>t. if t \<in> set ?run then None else cache_peek t (l_cache l)), t_txSeq (l_t l))" "keeps_rx l x"
      using onNak_new [OF ses win(1) _ _ _ run] win(3, 4) by (auto simp: a(2))
    let ?g = "g\<lparr>gB := ans_level a, gResp := rs\<rparr>"
    have rx: "tx_rel x sent (g\<lparr>gB := ans_level a\<rparr>)"
      using x(3) True w a(2, 3) by (intro tx_rel_shrink [OF rel w(1)]) simp_all
    have st: "gbn_step 32 g ?g" "link_half x r out sent forth back ?g"
      using half_answer_taken [OF half a(1, 6) _ rx] True a(3) by simp_all
    have "window_cached x" using tx_rel_window(1) [OF rx _ sent] w True a(3) by simp
    from onNak_base_op [OF this] have re: "resent x (onNak_base q x)" .
    from half_resent [OF st(2) re] obtain g' where
      g': "(gbn_step 32)\<^sup>*\<^sup>* ?g g'" "link_half (onNak_base q x) r out sent (forth @ newFrames x (onNak_base q x)) back g'"
      by blast
    have "newFrames x (onNak_base q x) = newFrames l (onNak_base q x)" using x(1) by (simp add: newFrames_def)
    moreover have "keeps_rx l (onNak_base q x)" using re keeps_rx_trans [OF x(4)] by (auto simp: resent_def)
    ultimately show ?thesis
      using st(1) x(2) g' resent_answers [OF re] by (auto intro: converse_rtranclp_into_rtranclp)
  qed
qed

subsection \<open>A chunk arrives\<close>

text \<open>Within 32 of the expected index, the comparison modulo 254 is the comparison of the indices.\<close>

lemma seqOf_lap [simp]: "seqOf (i + 254) = seqOf i" "seqOf (254 + i) = seqOf i"
  by (simp_all add: seqOf_def)

lemma seqDist_index:
  assumes "i < e + 32" and "e \<le> i + 32"
  shows "seqDist (seqOf (e + 253)) (seqOf i) =
    (if e \<le> i then int (i - e) + 1 else if i + 1 = e then 0 else 254 - int (e - 1 - i))"
proof -
  consider (new) "e \<le> i" | (last) "i + 1 = e" | (old) "i + 1 < e" by linarith
  then show ?thesis
  proof cases
    case new
    then show ?thesis using seqDist_seqOf [of "e + 253" "i + 254"] assms by simp
  next
    case last
    then show ?thesis using seqDist_seqOf [of "e + 253" "e + 253"] seqOf_lap(1) [of i] by (auto simp: algebra_simps)
  next
    case old
    then show ?thesis using seqDist_seqOf_back [of "i + 254" "e + 253"] assms by simp
  qed
qed

lemma classify_index:
  assumes "i < e + 32" and "e \<le> i + 32"
  shows "fst (classifyGap (seqOf i) (seqOf (e + 253)) True) = (if i = e then Forward else if i < e then Stale else Gap)"
  using seqDist_index [OF assms] assms classifyGap_ring [of "seqOf i" "seqOf (e + 253)"] by (auto simp: of_nat_diff)

lemma half_answered:
  assumes half: "link_half s l out sent forth' back g" and ses: "datas forth = map (\<lambda>i. (seqOf i, sent ! i)) (gData g')"
    and st: "gbn_step 32 g (g'\<lparr>gResp := gResp g @ [a]\<rparr>)" and same: "gB g' = gB g" "gN g' = gN g"
    and rx: "rx_rel l' out' sent g'"
    and puts: "puts [] l l' \<or> puts [f] l l'" and f: "answerOf (eventOf f) = [numberOf a]"
  shows "\<exists>g'. (gbn_step 32)\<^sup>*\<^sup>* g g' \<and> link_half s l' out' sent forth (back @ newFrames l l') g'"
proof -
  let ?full = "g'\<lparr>gResp := gResp g @ [a]\<rparr>" and ?lost = "g'\<lparr>gResp := gResp g\<rparr>"
  have tx: "tx_rel s sent g'" using half same by (simp add: link_half_def tx_rel_def)
  have full: "gbn_ok 32 ?full" using gbn_ok_step [OF st] half by (simp add: link_half_def)
  have st2: "gbn_step 32 ?full ?lost" using gbn_step.lose_answer [of ?full "gResp g" a "[]" 32] by simp
  have lost: "gbn_ok 32 ?lost" by (rule gbn_ok_step [OF st2 full])
  show ?thesis
    using puts
  proof
    assume "puts [] l l'"
    then have "link_half s l' out' sent forth (back @ newFrames l l') ?lost"
      using half tx rx lost ses by (simp add: link_half_def puts_newFrames)
    then show ?thesis using st st2 by (meson converse_rtranclp_into_rtranclp r_into_rtranclp)
  next
    assume "puts [f] l l'"
    then have "link_half s l' out' sent forth (back @ newFrames l l') ?full"
      using half tx rx full ses f by (simp add: link_half_def puts_newFrames)
    then show ?thesis using st by blast
  qed
qed

lemma half_payload:
  assumes half: "link_half s l out sent (OnPayload q b # forth) back g" and ses: "in_session l"
    and l': "l' = snd (onPayload q b l)"
  shows "\<exists>g'. (gbn_step 32)\<^sup>*\<^sup>* g g' \<and>
    link_half s l' (out @ drop (length (app l)) (app l')) sent forth (back @ newFrames l l') g'"
proof -
  have ok: "gbn_ok 32 g" and rx: "rx_rel l out sent g" and tx: "tx_rel s sent g"
    using half by (simp_all add: link_half_def)
  obtain i ds where g: "gData g = i # ds" "q = seqOf i" "b = sent ! i"
      "datas forth = map (\<lambda>i. (seqOf i, sent ! i)) ds"
    using half by (auto simp: link_half_def)
  have i: "i < gN g" "i < gE g + 32" "gE g \<le> i + 32" using ok g(1) by (auto simp: gbn_ok_def)
  have len: "i < length sent" using i(1) tx by (simp add: tx_rel_def)
  then have b: "b \<noteq> []" using half g(3) by (auto simp: link_half_def)
  have set: "r_rxSeqSet (l_r l)" and rxs: "r_rxSeq (l_r l) = seqOf (gE g + 253)" using rx by (simp_all add: rx_rel_def)
  have exp: "reorderExpectedSeq l = seqOf (gE g)"
    using nextSeq_seqOf [of "gE g + 253"] by (simp add: reorderExpectedSeq_def rxs nextSeq_def split: if_splits)
  have keep: "rx_rel l' (out @ drop (length (app l)) (app l')) sent (g\<lparr>gData := ds\<rparr>)" if "keeps_rx l l'"
    using that rx rx_rel_view [of l' l out sent g] by (simp add: keeps_rx_def)
  have ds: "datas forth = map (\<lambda>i. (seqOf i, sent ! i)) (gData (g\<lparr>gData := ds\<rparr>))" using g(4) by simp
  note answered = half_answered [OF half ds]
  have out: "payload_outcome q b l l'" using onPayload_op [OF ses set b, of q] l' by simp
  have cls: "fst (classifyGap q (r_rxSeq (l_r l)) True) = (if i = gE g then Forward else if i < gE g then Stale else Gap)"
    using classify_index [OF i(2, 3)] by (simp add: g(2) rxs)
  consider (deliver) "i = gE g" "rx_view l' = (True, q)" "app l' = app l @ b"
      "puts [] l l' \<or> puts [WAck q (of_nat (length b))] l l'"
    | (hold) "i = gE g" "keeps_rx l l'" "puts [] l l' \<or> puts [WNak q] l l'"
    | (stale) "i < gE g" "keeps_rx l l'" "puts [] l l' \<or> puts [WAck q (of_nat (length b))] l l'"
    | (gap) "gE g < i" "keeps_rx l l'" "puts [] l l' \<or> puts [WNak (seqOf (gE g))] l l'"
    using out by (auto simp: payload_outcome_def cls exp split: if_splits)
  then show ?thesis
  proof cases
    case deliver
    have rx': "rx_rel l' (out @ b) sent (g\<lparr>gE := gE g + 1, gData := ds\<rparr>)"
      using rx deliver(1, 2) g(2, 3) len
      by (simp add: rx_rel_def rx_view_def take_Suc_conv_app_nth add.commute [of "gE g"])
    have st: "gbn_step 32 g (g\<lparr>gE := gE g + 1, gData := ds, gResp := gResp g @ [RAck (gE g)]\<rparr>)"
      using gbn_step.deliver [of g ds] g(1) deliver(1) by simp
    show ?thesis
      using half_answered [OF half _ _ _ _ rx' deliver(4), of forth "RAck (gE g)"] st deliver(1, 3) g(2, 4) by simp
  next
    case hold
    show ?thesis
      using answered [OF _ _ _ keep [OF hold(2)] hold(3), of "RNak (gE g)"] gbn_step.refuse [OF g(1), of 32] hold(1) g(2)
      by simp
  next
    case stale
    show ?thesis
      using answered [OF _ _ _ keep [OF stale(2)] stale(3), of "RAck i"] gbn_step.repeated [OF g(1), of 32] stale(1) g(2)
      by simp
  next
    case gap
    show ?thesis
      using answered [OF _ _ _ keep [OF gap(2)] gap(3), of "RNak (gE g)"] gbn_step.refuse [OF g(1), of 32] gap(1)
      by simp
  qed
qed

subsection \<open>A frame is lost\<close>

lemma map_split:
  "xs @ d # ys = map f zs \<Longrightarrow> \<exists>us u vs. zs = us @ u # vs \<and> xs = map f us \<and> ys = map f vs"
  by (auto simp: append_eq_map_conv Cons_eq_map_conv)

lemma half_lose:
  assumes half: "link_half l r out sent (es @ e # fs) back g"
  shows "\<exists>g'. (gbn_step 32)\<^sup>*\<^sup>* g g' \<and> link_half l r out sent (es @ fs) back g'"
proof (cases "dataOf e")
  case Nil
  then show ?thesis using half by (auto simp: link_half_def)
next
  case (Cons d rest)
  then have rest: "rest = []" by (cases e) simp_all
  have "datas es @ d # datas fs = map (\<lambda>i. (seqOf i, sent ! i)) (gData g)"
    using half Cons rest by (simp add: link_half_def)
  from map_split [OF this] obtain js i js' where g: "gData g = js @ i # js'" "datas es = map (\<lambda>i. (seqOf i, sent ! i)) js"
      "datas fs = map (\<lambda>i. (seqOf i, sent ! i)) js'"
    by blast
  have st: "gbn_step 32 g (g\<lparr>gData := js @ js'\<rparr>)" by (rule gbn_step.lose_data [OF g(1)])
  have "link_half l r out sent (es @ fs) back (g\<lparr>gData := js @ js'\<rparr>)"
    using half g gbn_ok_step [OF st] by (simp add: link_half_def)
  then show ?thesis using st by blast
qed

lemma half_lose_back:
  assumes half: "link_half l r out sent forth (es @ e # fs) g"
  shows "\<exists>g'. (gbn_step 32)\<^sup>*\<^sup>* g g' \<and> link_half l r out sent forth (es @ fs) g'"
proof (cases "answerOf e")
  case Nil
  then show ?thesis using half by (auto simp: link_half_def)
next
  case (Cons d rest)
  then have rest: "rest = []" by (cases e) simp_all
  have "answers es @ d # answers fs = map numberOf (gResp g)"
    using half Cons rest by (simp add: link_half_def)
  from map_split [OF this] obtain us a vs where g: "gResp g = us @ a # vs" "answers es = map numberOf us" "answers fs = map numberOf vs"
    by blast
  have st: "gbn_step 32 g (g\<lparr>gResp := us @ vs\<rparr>)" by (rule gbn_step.lose_answer [OF g(1)])
  have "link_half l r out sent forth (es @ fs) (g\<lparr>gResp := us @ vs\<rparr>)"
    using half g gbn_ok_step [OF st] by (simp add: link_half_def)
  then show ?thesis using st by blast
qed

subsection \<open>A step of the pair\<close>

lemmas net_defs = net_act_def net_take_def net_sent_def half_def

lemma dir_relD:
  assumes "dir_rel d n g"
  shows "in_session (n_link n y)"
    "d = x \<Longrightarrow> link_half (n_link n x) (n_link n (\<not> x)) (n_out n x) (n_sent n x) (n_chan n (\<not> x)) (n_chan n x) g"
    "d = (\<not> x) \<Longrightarrow>
      link_half (n_link n (\<not> x)) (n_link n x) (n_out n (\<not> x)) (n_sent n (\<not> x)) (n_chan n x) (n_chan n (\<not> x)) g"
  using assms by (auto simp: dir_rel_def half_def)

lemma sessionI:
  "in_session l \<Longrightarrow> link_inv l' \<Longrightarrow> l_state l' = l_state l \<Longrightarrow> l_cfg l' = l_cfg l \<Longrightarrow> in_session l'"
  "in_session l \<Longrightarrow> link_inv l' \<Longrightarrow> keeps_rx l l' \<Longrightarrow> in_session l'"
  by (simp_all add: in_session_def keeps_rx_def)

lemma data_only_answers: "data_only l l' \<Longrightarrow> answers (newFrames l l') = []"
proof -
  assume "data_only l l'"
  then obtain ds where p: "puts (map (\<lambda>(s, b). WData s b) ds) l l'" by (auto simp: data_only_def)
  show ?thesis unfolding puts_newFrames [OF p] by (induction ds) auto
qed

lemma answer_only_datas: "answer_only l l' \<Longrightarrow> datas (newFrames l l') = []"
proof -
  assume "answer_only l l'"
  then obtain f where f: "puts [] l l' \<or> puts [f] l l'" "\<forall>s b. f \<noteq> WData s b" by (auto simp: answer_only_def)
  then show ?thesis using puts_newFrames [of "[]" l l'] puts_newFrames [of "[f]" l l'] by (cases f) auto
qed

text \<open>A side that only sends leaves the direction towards it alone.\<close>

lemma half_data_only:
  assumes "link_half l r out sent forth back g" and "data_only r r'" and "keeps_rx r r'"
  shows "link_half l r' (out @ drop (length (app r)) (app r')) sent forth (back @ newFrames r r') g"
  using half_rx_same [OF assms(1) _ data_only_answers [OF assms(2)]] assms(3) by (simp add: keeps_rx_def)

lemma sim_act:
  assumes rel: "dir_rel d n g" and l': "in_session l'"
    and tx: "d = x \<Longrightarrow> \<exists>g'. (gbn_step 32)\<^sup>*\<^sup>* g g' \<and> link_half l' (n_link n (\<not> x)) (n_out n x) (n_sent n x)
      (n_chan n (\<not> x) @ newFrames (n_link n x) l') es g'"
    and rx: "d = (\<not> x) \<Longrightarrow> \<exists>g'. (gbn_step 32)\<^sup>*\<^sup>* g g' \<and> link_half (n_link n (\<not> x)) l'
      (n_out n (\<not> x) @ drop (length (app (n_link n x))) (app l')) (n_sent n (\<not> x)) es
      (n_chan n (\<not> x) @ newFrames (n_link n x) l') g'"
  shows "\<exists>g'. (gbn_step 32)\<^sup>*\<^sup>* g g' \<and> dir_rel d (net_act x l' (net_take x es n)) g'"
proof -
  have "in_session (n_link (net_act x l' (net_take x es n)) y)" for y
    using l' dir_relD(1) [OF rel, of x] dir_relD(1) [OF rel, of "\<not> x"] by (cases "y = x") (simp_all add: net_defs)
  moreover have "\<exists>g'. (gbn_step 32)\<^sup>*\<^sup>* g g' \<and> half d (net_act x l' (net_take x es n)) g'"
    using tx rx by (cases "d = x") (auto simp: net_defs)
  ultimately show ?thesis by (auto simp: dir_rel_def)
qed

lemma sim_send:
  assumes rel: "dir_rel d n g" and b: "b \<noteq> []" "length b \<le> nat MAX_CHUNK"
    and room: "arq_pendingCount (l_arq (n_link n x)) < AUTOLINK_ARQ_PIPELINE_WINDOW"
    and s: "sendCobsFrameAcked b base (n_link n x) = (q, l')"
  shows "\<exists>g'. (gbn_step 32)\<^sup>*\<^sup>* g g' \<and> dir_rel d (net_sent x q b (net_act x l' n)) g'"
proof -
  let ?l = "n_link n x"
  have ses: "in_session ?l" by (rule dir_relD(1) [OF rel])
  note op = send_op [OF ses b s]
  have fr: "answers (newFrames ?l l') = []"
    using op(4) newFrames_none [of l' ?l] puts_newFrames [of "[WData q b]" ?l l'] by auto
  have tx: "\<exists>g'. (gbn_step 32)\<^sup>*\<^sup>* g g' \<and>
      link_half l' (n_link n (\<not> x)) (n_out n x) (if q = 0xFF then n_sent n x else n_sent n x @ [b])
        (n_chan n (\<not> x) @ newFrames ?l l') (n_chan n x) g'" if "d = x"
  proof (cases "q = 0xFF")
    case True
    then have "tx_view l' = tx_view ?l" "newFrames ?l l' = []" using op(4) newFrames_none by auto
    then show ?thesis using half_tx_same [OF dir_relD(2) [OF rel that], of l' "newFrames ?l l'"] True by auto
  next
    case False
    then show ?thesis using half_send [OF dir_relD(2) [OF rel that] ses b room s] by simp
  qed
  have rx: "link_half (n_link n (\<not> x)) l' (n_out n (\<not> x)) (n_sent n (\<not> x)) (n_chan n x)
      (n_chan n (\<not> x) @ newFrames ?l l') g" if "d = (\<not> x)"
    by (rule half_rx_same [OF dir_relD(3) [OF rel that] op(2) fr])
  have "in_session (n_link (net_sent x q b (net_act x l' n)) y)" for y
    using op(1) dir_relD(1) [OF rel, of x] dir_relD(1) [OF rel, of "\<not> x"] by (cases "y = x") (simp_all add: net_defs)
  moreover have "\<exists>g'. (gbn_step 32)\<^sup>*\<^sup>* g g' \<and> half d (net_sent x q b (net_act x l' n)) g'"
    using tx rx op(3) by (cases "d = x") (auto simp: net_defs)
  ultimately show ?thesis by (auto simp: dir_rel_def)
qed

lemma sim_receive:
  assumes rel: "dir_rel d n g" and ch: "n_chan n x = e # es" and l': "link_listener e (n_link n x) = (l', stop)"
    and e: "e \<noteq> OnFrameError"
  shows "\<exists>g'. (gbn_step 32)\<^sup>*\<^sup>* g g' \<and> dir_rel d (net_act x l' (net_take x es n)) g'"
proof -
  let ?l = "n_link n x"
  have ses: "in_session ?l" by (rule dir_relD(1) [OF rel])
  note tx = dir_relD(2) [OF rel, of x, unfolded ch] and rx = dir_relD(3) [OF rel, of x, unfolded ch]
  have inv: "link_inv ?l" "link_inv l'" using session_inv(2) [of ?l e] ses l' by (simp_all add: in_session_def)
  show ?thesis
  proof (cases e)
    case (OnAck q b)
    then have l: "l' = snd (onAck q b ?l)" using l' by (simp add: link_listener_def split_beta)
    have k: "keeps_rx ?l l'" "wire l' = wire ?l" using onAck_keeps [of ?l q b] by (simp_all add: l)
    note none = newFrames_none [OF k(2)]
    show ?thesis
    proof (rule sim_act [OF rel sessionI(2) [OF ses inv(2) k(1)]])
      assume d: "d = x"
      show "\<exists>g'. (gbn_step 32)\<^sup>*\<^sup>* g g' \<and> link_half l' (n_link n (\<not> x)) (n_out n x) (n_sent n x)
          (n_chan n (\<not> x) @ newFrames ?l l') es g'"
        using half_ack [OF tx [OF d, unfolded OnAck] ses] none by (simp add: l)
    next
      assume d: "d = (\<not> x)"
      have h: "link_half (n_link n (\<not> x)) ?l (n_out n (\<not> x)) (n_sent n (\<not> x)) es (n_chan n (\<not> x)) g"
        by (rule half_skip(1) [OF rx [OF d]]) (simp add: OnAck)
      show "\<exists>g'. (gbn_step 32)\<^sup>*\<^sup>* g g' \<and> link_half (n_link n (\<not> x)) l'
          (n_out n (\<not> x) @ drop (length (app ?l)) (app l')) (n_sent n (\<not> x)) es (n_chan n (\<not> x) @ newFrames ?l l') g'"
        using half_data_only [OF h data_only_refl [OF k(2)] k(1)] by blast
    qed
  next
    case (OnNak q)
    then have l: "l' = snd (onNak q ?l)" using l' by (simp add: link_listener_def split_beta)
    have k: "data_only ?l l'" "keeps_rx ?l l'" using onNak_keeps [OF inv(1), of q] by (simp_all add: l)
    show ?thesis
    proof (rule sim_act [OF rel sessionI(2) [OF ses inv(2) k(2)]])
      assume d: "d = x"
      show "\<exists>g'. (gbn_step 32)\<^sup>*\<^sup>* g g' \<and> link_half l' (n_link n (\<not> x)) (n_out n x) (n_sent n x)
          (n_chan n (\<not> x) @ newFrames ?l l') es g'"
        using half_nak [OF tx [OF d, unfolded OnNak] ses] by (auto simp: l)
    next
      assume d: "d = (\<not> x)"
      have h: "link_half (n_link n (\<not> x)) ?l (n_out n (\<not> x)) (n_sent n (\<not> x)) es (n_chan n (\<not> x)) g"
        by (rule half_skip(1) [OF rx [OF d]]) (simp add: OnNak)
      show "\<exists>g'. (gbn_step 32)\<^sup>*\<^sup>* g g' \<and> link_half (n_link n (\<not> x)) l'
          (n_out n (\<not> x) @ drop (length (app ?l)) (app l')) (n_sent n (\<not> x)) es (n_chan n (\<not> x) @ newFrames ?l l') g'"
        using half_data_only [OF h k] by blast
    qed
  next
    case (OnPayload q b)
    then have l: "l' = snd (onPayload q b ?l)" using l' by (simp add: link_listener_def split_beta)
    have k: "answer_only ?l l'" using onPayload_keeps [of ?l q b] ses by (simp add: l in_session_def)
    have ses': "in_session l'" using sessionI(1) [OF ses inv(2)] k by (simp add: answer_only_def)
    show ?thesis
    proof (rule sim_act [OF rel ses'])
      assume d: "d = x"
      have "link_half l' (n_link n (\<not> x)) (n_out n x) (n_sent n x) (n_chan n (\<not> x) @ newFrames ?l l') es g"
        by (rule half_tx_same [OF half_skip(2) [OF tx [OF d]] _ answer_only_datas [OF k]])
          (use k in \<open>simp_all add: OnPayload answer_only_def\<close>)
      then show "\<exists>g'. (gbn_step 32)\<^sup>*\<^sup>* g g' \<and> link_half l' (n_link n (\<not> x)) (n_out n x) (n_sent n x)
          (n_chan n (\<not> x) @ newFrames ?l l') es g'" by blast
    next
      assume d: "d = (\<not> x)"
      show "\<exists>g'. (gbn_step 32)\<^sup>*\<^sup>* g g' \<and> link_half (n_link n (\<not> x)) l'
          (n_out n (\<not> x) @ drop (length (app ?l)) (app l')) (n_sent n (\<not> x)) es (n_chan n (\<not> x) @ newFrames ?l l') g'"
        by (rule half_payload [OF rx [OF d, unfolded OnPayload] ses l])
    qed
  qed (use e in simp)
qed

lemma sim_timeout:
  assumes rel: "dir_rel d n g" and s: "sweepRetx now (n_link n x) = (brk, l')" and st: "l_state l' = OK"
  shows "\<exists>g'. (gbn_step 32)\<^sup>*\<^sup>* g g' \<and> dir_rel d (net_act x l' n) g'"
proof -
  let ?l = "n_link n x"
  have ses: "in_session ?l" by (rule dir_relD(1) [OF rel])
  have inv: "link_inv ?l" "link_inv l'" using session_inv(3) [of ?l now] ses s by (simp_all add: in_session_def)
  note k = sweepRetx_keeps [OF inv(1) s st]
  have "\<exists>g'. (gbn_step 32)\<^sup>*\<^sup>* g g' \<and> dir_rel d (net_act x l' (net_take x (n_chan n x) n)) g'"
  proof (rule sim_act [OF rel sessionI(2) [OF ses inv(2) conjunct2 [OF k]]])
    assume d: "d = x"
    note tx = dir_relD(2) [OF rel d]
    have "window_cached ?l"
      using tx gbn_ok_order [of 32 g] by (intro tx_rel_window(1)) (auto simp: link_half_def)
    then show "\<exists>g'. (gbn_step 32)\<^sup>*\<^sup>* g g' \<and> link_half l' (n_link n (\<not> x)) (n_out n x) (n_sent n x)
        (n_chan n (\<not> x) @ newFrames ?l l') (n_chan n x) g'"
      by (intro half_resent [OF tx] sweepRetx_op [OF _ s st])
  next
    assume d: "d = (\<not> x)"
    show "\<exists>g'. (gbn_step 32)\<^sup>*\<^sup>* g g' \<and> link_half (n_link n (\<not> x)) l'
        (n_out n (\<not> x) @ drop (length (app ?l)) (app l')) (n_sent n (\<not> x)) (n_chan n x) (n_chan n (\<not> x) @ newFrames ?l l') g'"
      using half_data_only [OF dir_relD(3) [OF rel d]] k by blast
  qed
  then show ?thesis by (simp add: net_take_def)
qed

lemma sim_lose:
  assumes rel: "dir_rel d n g" and ch: "n_chan n x = es @ e # fs"
  shows "\<exists>g'. (gbn_step 32)\<^sup>*\<^sup>* g g' \<and> dir_rel d (net_take x (es @ fs) n) g'"
proof -
  have "in_session (n_link (net_take x (es @ fs) n) y)" for y
    using dir_relD(1) [OF rel, of y] by (simp add: net_defs)
  moreover have "\<exists>g'. (gbn_step 32)\<^sup>*\<^sup>* g g' \<and> half d (net_take x (es @ fs) n) g'"
  proof (cases "d = x")
    case True
    show ?thesis
      using half_lose_back [OF dir_relD(2) [OF rel True, unfolded ch]] True by (auto simp: net_defs)
  next
    case False
    then have d: "d = (\<not> x)" by simp
    show ?thesis using half_lose [OF dir_relD(3) [OF rel d, unfolded ch]] d by (auto simp: net_defs)
  qed
  ultimately show ?thesis by (auto simp: dir_rel_def)
qed

lemma sim_other:
  assumes rel: "dir_rel d n g" and a: "aside (n_link n x) l'"
  shows "dir_rel d (n\<lparr>n_link := (n_link n)(x := l')\<rparr>) g"
proof -
  have "half d (n\<lparr>n_link := (n_link n)(x := l')\<rparr>) g"
  proof (cases "d = x")
    case True
    show ?thesis
      using half_tx_same [OF dir_relD(2) [OF rel True], of l' "[]"] a True by (simp add: half_def aside_def)
  next
    case False
    then have d: "d = (\<not> x)" by simp
    show ?thesis
      using half_rx_same [OF dir_relD(3) [OF rel d], of l' "[]"] a d by (simp add: half_def aside_def)
  qed
  moreover have "in_session (n_link (n\<lparr>n_link := (n_link n)(x := l')\<rparr>) y)" for y
    using a dir_relD(1) [OF rel, of x] dir_relD(1) [OF rel, of "\<not> x"] by (cases "y = x") (simp_all add: aside_def)
  ultimately show ?thesis by (simp add: dir_rel_def)
qed

interpretation pair: simulation "gbn_step 32" net_step "dir_rel d"
proof
  fix n n' g
  assume rel: "dir_rel d n g" and step: "net_step n n'"
  show "\<exists>g'. (gbn_step 32)\<^sup>*\<^sup>* g g' \<and> dir_rel d n' g'"
    using step
  proof cases
    case (send b x base q l')
    show ?thesis unfolding send(1) by (rule sim_send [OF rel send(2-5)])
  next
    case (receive x e es l' stop)
    show ?thesis unfolding receive(1) by (rule sim_receive [OF rel receive(2-4)])
  next
    case (timeout now x brk l')
    show ?thesis unfolding timeout(1) by (rule sim_timeout [OF rel timeout(2, 3)])
  next
    case (lose x es e fs)
    show ?thesis unfolding lose(1) by (rule sim_lose [OF rel lose(2)])
  next
    case (other x l')
    show ?thesis unfolding other(1) using sim_other [OF rel other(2)] by blast
  qed
qed

end
