(* ===== verification/LinkPairRun.thy ===== *)
theory LinkPairRun
  imports LinkPairSim LinkMessage
begin

text \<open>
  A session of two locked ASYNC links from its start, and a calm run of it: the wires lose nothing, and the
  UART and the applications keep up. A chunk then takes three steps: it is sent, it is delivered and
  acknowledged, its ACK commits it. Any number of chunks is delivered that way.
\<close>

subsection \<open>The start of a session\<close>

text \<open>A sender that has nothing pending and starts its numbers at 0, a receiver that expects 0.\<close>

definition fresh_tx :: "Link \<Rightarrow> bool" where
  "fresh_tx l \<longleftrightarrow> (\<forall>s. \<not> arq_isPending s (l_arq l)) \<and> \<not> gbnActive_' (l_arq l) \<and>
     (\<forall>s. cache_peek s (l_cache l) = None) \<and> t_txSeq (l_t l) = 0"

definition seeded_rx :: "Link \<Rightarrow> bool" where
  "seeded_rx l \<longleftrightarrow> rx_view l = (True, COBS_SEQ_MAX)"

text \<open>Nothing of the direction from \<open>d\<close> is on its way or has been sent.\<close>

definition net_idle :: "bool \<Rightarrow> Net \<Rightarrow> bool" where
  "net_idle d n \<longleftrightarrow> (\<forall>x. in_session (n_link n x)) \<and> fresh_tx (n_link n d) \<and>
     datas (n_chan n (\<not> d)) = [] \<and> answers (n_chan n d) = [] \<and> n_sent n d = [] \<and> n_out n d = []"

definition net_ready :: "bool \<Rightarrow> Net \<Rightarrow> bool" where
  "net_ready d n \<longleftrightarrow> net_idle d n \<and> seeded_rx (n_link n (\<not> d))"

lemma seqOf_start: "seqOf 0 = 0" "seqOf 253 = COBS_SEQ_MAX"
  by (simp_all add: seqOf_def wire_defs)

lemma fresh_tx_rel: "fresh_tx l \<Longrightarrow> tx_rel l [] gbn_init"
  by (simp add: fresh_tx_def tx_rel_def gbn_init_def seqOf_start)

lemma ready_rel:
  assumes "net_ready d n"
  shows "dir_rel d n gbn_init"
proof -
  have "rx_rel (n_link n (\<not> d)) [] [] gbn_init"
    using assms by (simp add: net_ready_def seeded_rx_def rx_view_def rx_rel_def gbn_init_def seqOf_start)
  moreover have "gData gbn_init = []" "gResp gbn_init = []" by (simp_all add: gbn_init_def)
  ultimately show ?thesis
    using assms fresh_tx_rel [of "n_link n d"] gbn_ok_init [of 32]
    by (simp add: net_ready_def net_idle_def dir_rel_def half_def link_half_def)
qed

lemma fresh_tx_view: "tx_view l' = tx_view l \<Longrightarrow> fresh_tx l' = fresh_tx l"
  by (simp add: fresh_tx_def tx_view_def fun_eq_iff)

subsection \<open>The cache after a window\<close>

text \<open>Every slot in use holds a chunk; so a cache without a chunk has all its room.\<close>

definition cache_clean :: "ArqCache \<Rightarrow> bool" where
  "cache_clean c \<longleftrightarrow> cache_inv c \<and> (\<forall>s. in_use (pending_' c s) \<longrightarrow> cache_peek s c \<noteq> None)"

lemma clean_new: "cache_clean (cache_new w)"
  using cache_inv_new [of w] by (simp add: cache_clean_def) (simp add: cache_new_def pending_init_def)

lemma clean_free: "cache_clean c \<Longrightarrow> cache_clean (cache_freeBySeq s cause c)"
proof (cases "in_use (pending_' c s)")
  case True
  assume c: "cache_clean c"
  then have inv: "cache_inv c" by (simp add: cache_clean_def)
  show ?thesis
    using c cache_freeBySeq_in_use(1) [OF inv True, of cause]
    by (auto simp: cache_clean_def acache.inv_free [OF inv] acache.peek_free [OF inv] pending_init_def)
qed (simp add: cache_freeBySeq_def)

lemma clean_insert:
  assumes "cache_clean c" and "cache_hasRoom c" and "b \<noteq> []" and "length b \<le> 256"
  shows "cache_clean (cache_insert s b c)"
proof -
  have inv: "cache_inv c" and room: "0 < cache_freeRoom c" using assms by (simp_all add: cache_clean_def cache_hasRoom_iff)
  note ins = cache_insert_ok [OF inv room assms(3, 4)]
  have "cache_peek t (cache_insert s b c) \<noteq> None" if "in_use (pending_' (cache_insert s b c) t)" for t
    using that assms(1) ins(2, 4) [of t s] by (auto simp: cache_clean_def cache_slotInUse_def)
  then show ?thesis using ins(1) by (simp add: cache_clean_def)
qed

lemma clean_room:
  assumes "cache_clean c" and "\<And>s. cache_peek s c = None"
  shows "2 \<le> cache_freeRoom c" "cache_hasRoom c"
proof -
  have "slots_used c = {}" using assms by (auto simp: cache_clean_def slots_used_def)
  moreover have "pool_used c = {}"
    using assms by (auto simp: cache_clean_def cache_inv_def slots_pooled_def bij_betw_def)
  ultimately show "2 \<le> cache_freeRoom c"
    using assms(1) by (simp add: cache_clean_def cache_inv_def cache_freeRoom_def cache_consts Let_def)
  then show "cache_hasRoom c" by (simp add: cache_hasRoom_iff)
qed

text \<open>An operation keeps the sizes of the rings and the room of the cache.\<close>

definition keeps_room :: "Link \<Rightarrow> Link \<Rightarrow> bool" where
  "keeps_room l l' \<longleftrightarrow> h_txCap (l_hw l') = h_txCap (l_hw l) \<and> h_appBufCap (l_hw l') = h_appBufCap (l_hw l) \<and>
     (cache_clean (l_cache l) \<longrightarrow> cache_clean (l_cache l'))"

lemma keeps_room_trans: "keeps_room l m \<Longrightarrow> keeps_room m n \<Longrightarrow> keeps_room l n"
  by (simp add: keeps_room_def)

lemma room_ackOne: "keeps_room l (ackOne s k c l)"
  by (simp add: keeps_room_def ackOne_def Let_def clean_free)

lemma room_ackWalk: "ackWalk freed s acked n l = (freed', ok, l') \<Longrightarrow> keeps_room l l'"
proof (induction freed s acked n l rule: ackWalk.induct)
  case (1 freed s acked n l)
  show ?case
  proof (cases "freed + 1 > AUTOLINK_ARQ_PIPELINE_WINDOW \<or> s = acked")
    case True
    then show ?thesis
      using "1.prems" room_ackOne [of l s n CumulativeBackfill]
      by (subst (asm) ackWalk.simps) (auto simp: Let_def keeps_room_def split: if_splits)
  next
    case False
    let ?m = "if s \<noteq> acked then (case cache_peek s (l_cache l) of Some b \<Rightarrow> of_nat (length b) | None \<Rightarrow> 0) else n"
    have "keeps_room (ackOne s ?m CumulativeBackfill l) l'"
      using "1.prems" "1.IH" [OF refl _ refl refl] False by (subst (asm) ackWalk.simps) (simp add: Let_def)
    then show ?thesis by (rule keeps_room_trans [OF room_ackOne])
  qed
qed

lemma room_onAck: "keeps_room l (snd (onAck a n l))"
proof -
  have "keeps_room l (onAck_commit a n m)" if "keeps_room l m" for m
  proof -
    obtain freed ok m' where w: "ackWalk 0 (gbnBase_' (l_arq m)) a n m = (freed, ok, m')"
      by (cases "ackWalk 0 (gbnBase_' (l_arq m)) a n m")
    show ?thesis
      using keeps_room_trans [OF that room_ackWalk [OF w]] by (simp add: onAck_commit_def w Let_def keeps_room_def)
  qed
  then show ?thesis
    by (simp add: onAck_def Let_def) (simp add: keeps_room_def notePeerResponse_def noteValidFrameOk_def Let_def clean_free)
qed

lemma room_send:
  assumes "b \<noteq> []" and "length b \<le> 256" and "sendCobsFrameAcked b base l = (q, l')"
  shows "keeps_room l l'"
  using assms clean_insert [of "l_cache l" b]
  by (auto simp: keeps_room_def sendCobsFrameAcked_def sendCobsFrame_def buildAndTxCobsFrame_def openGbnWindow_def
      noteTxReject_def noteRingStall_def hal_tx_def Let_def split: if_splits)

subsection \<open>A chunk, its delivery, its ACK\<close>

text \<open>Room for a frame in the sender's ring and in its cache.\<close>

lemma send_goes:
  assumes ses: "in_session l" and b: "b \<noteq> []" "length b \<le> nat MAX_CHUNK"
    and room: "cache_hasRoom (l_cache l)" "kWorstCaseCobsFrame \<le> hal_txAvail (l_hw l)"
    and s: "sendCobsFrameAcked b base l = (q, l')"
  shows "q = t_txSeq (l_t l)" "q \<noteq> 0xFF" "newFrames l l' = [OnPayload q b]"
    "tx_view l' = ((\<lambda>t. budgetIdx t = budgetIdx q \<or> arq_isPending t (l_arq l)),
       if gbnActive_' (l_arq l) then gbnBase_' (l_arq l) else q, True,
       (\<lambda>t. if t = q then Some b else cache_peek t (l_cache l)), nextSeq q)"
proof -
  have q: "q \<noteq> 0xFF"
    using acked_send_cases [OF _ b _ s] ses room by (auto simp: in_session_def)
  note op = send_op(4) [OF ses b s]
  show "q = t_txSeq (l_t l)" "q \<noteq> 0xFF" "newFrames l l' = [OnPayload q b]"
    "tx_view l' = ((\<lambda>t. budgetIdx t = budgetIdx q \<or> arq_isPending t (l_arq l)),
       if gbnActive_' (l_arq l) then gbnBase_' (l_arq l) else q, True,
       (\<lambda>t. if t = q then Some b else cache_peek t (l_cache l)), nextSeq q)"
    using op q puts_newFrames [of "[WData q b]" l l'] by auto
qed

lemma ack_fits:
  assumes "kWorstCaseCobsFrame \<le> hal_txAvail h"
  shows "int (length (ackWire s n)) \<le> hal_txAvail h"
proof -
  have "length (ackWire s n) \<le> 8" unfolding ackWire_def by (rule order_trans [OF cobsWire_length]) simp
  then show ?thesis using assms by (simp add: wire_defs)
qed

lemma sendAck_goes:
  assumes "kWorstCaseCobsFrame \<le> hal_txAvail (l_hw l)"
  shows "wire (sendAckFrame s n l) = wire l @ ackWire s n"
proof -
  have "int (length (ackWire s n)) \<le> hal_txAvail (l_hw l)" by (rule ack_fits [OF assms])
  then show ?thesis by (simp add: sendAckFrame_def txSmall_wire ackWire_def)
qed

lemma deliver_goes:
  assumes room: "int (length b) \<le> hal_appBufFree (l_hw l)" "kWorstCaseCobsFrame \<le> hal_txAvail (l_hw l)"
  shows "wire (snd (onPayload_deliver s b l)) = wire l @ ackWire s (of_nat (length b))"
    "keeps_room l (snd (onPayload_deliver s b l))"
proof -
  have avail: "hal_txAvail (l_hw l\<lparr>h_appBuf := c\<rparr>) = hal_txAvail (l_hw l)" for c by (simp add: hal_txAvail_def)
  show "wire (snd (onPayload_deliver s b l)) = wire l @ ackWire s (of_nat (length b))"
    using room(2) unfolding onPayload_deliver_def push_room [OF room(1)] Let_def prod.case
    by (simp add: sendAck_goes avail frame_simps)
  show "keeps_room l (snd (onPayload_deliver s b l))"
    unfolding onPayload_deliver_def push_room [OF room(1)] Let_def prod.case
    by (simp add: keeps_room_def frame_simps sendAckFrame_def txSmallCobs_def noteRingStall_def hal_tx_def clearErr_def Let_def)
qed

lemma payload_goes:
  assumes ses: "in_session l" and b: "b \<noteq> []" and ord: "in_order s l" and s: "s \<noteq> 0xFF" "s \<le> COBS_SEQ_MAX"
    and room: "int (length b) \<le> hal_appBufFree (l_hw l)" "kWorstCaseCobsFrame \<le> hal_txAvail (l_hw l)"
  shows "rx_view (snd (onPayload s b l)) = (True, s)" "app (snd (onPayload s b l)) = app l @ b"
    "newFrames l (snd (onPayload s b l)) = [OnAck s (of_nat (length b))]" "keeps_room l (snd (onPayload s b l))"
proof -
  define x where "x = l_r_update (\<lambda>r. r\<lparr>r_lastValidRxMs := l_now l, r_lastRxSeq := s\<rparr>) (noteValidFrameOk l)"
  have x: "l_hw x = l_hw l" "l_cache x = l_cache l" by (simp_all add: x_def frame_simps)
  have room': "int (length b) \<le> hal_appBufFree (l_hw x)" "kWorstCaseCobsFrame \<le> hal_txAvail (l_hw x)"
    using room by (simp_all add: x)
  obtain d where "classifyGap s (r_rxSeq (l_r l)) (r_rxSeqSet (l_r l)) = (Forward, d)"
    using in_order_Forward [OF ord] by (metis prod.collapse)
  then have "onPayload s b l = onPayload_forward s b x"
    using ses by (simp add: onPayload_def Let_def frame_simps x_def in_session_def)
  also have "\<dots> = onPayload_deliver s b x" using b room'(1) by (simp add: onPayload_forward_def)
  finally have p: "onPayload s b l = onPayload_deliver s b x" .
  show "rx_view (snd (onPayload s b l)) = (True, s)" "app (snd (onPayload s b l)) = app l @ b"
    using onPayload_deliver_op [OF room'(1), of s] by (simp_all add: p x)
  have "puts [WAck s (of_nat (length b))] l (snd (onPayload s b l))"
    using deliver_goes(1) [OF room', of s] s by (simp add: p x puts_def)
  from puts_newFrames [OF this] show "newFrames l (snd (onPayload s b l)) = [OnAck s (of_nat (length b))]" by simp
  show "keeps_room l (snd (onPayload s b l))"
    using deliver_goes(2) [OF room', of s] by (simp add: p keeps_room_def x)
qed

subsection \<open>Calm steps\<close>

text \<open>The steps of a calm run: a side sends a chunk, a frame arrives, or the UART of a side has sent its
  ring and its application has read its queue.\<close>

definition drained :: "Link \<Rightarrow> Link" where
  "drained = hw (\<lambda>h. h\<lparr>h_txBuf := [], h_appBuf := []\<rparr>)"

inductive calm_step :: "Net \<Rightarrow> Net \<Rightarrow> bool" where
  send: "b \<noteq> [] \<Longrightarrow> length b \<le> nat MAX_CHUNK \<Longrightarrow>
    arq_pendingCount (l_arq (n_link n x)) < AUTOLINK_ARQ_PIPELINE_WINDOW \<Longrightarrow>
    sendCobsFrameAcked b base (n_link n x) = (q, l') \<Longrightarrow> calm_step n (net_sent x q b (net_act x l' n))"
| receive: "n_chan n x = e # es \<Longrightarrow> link_listener e (n_link n x) = (l', stop) \<Longrightarrow> e \<noteq> OnFrameError \<Longrightarrow>
    calm_step n (net_act x l' (net_take x es n))"
| drain: "calm_step n (n\<lparr>n_link := (n_link n)(x := drained (n_link n x))\<rparr>)"

lemma drained_simps [simp]:
  "tx_view (drained l) = tx_view l" "rx_view (drained l) = rx_view l" "app (drained l) = []"
  "wire (drained l) = []" "keeps_room l (drained l)" "l_cache (drained l) = l_cache l"
  by (simp_all add: drained_def tx_view_def rx_view_def keeps_room_def)

lemma drained_session [simp]: "in_session l \<Longrightarrow> in_session (drained l)"
  by (auto simp: drained_def in_session_def link_inv_def linv_def hal_inv_def split: option.splits)

lemma calm_net: "calm_step n n' \<Longrightarrow> \<forall>x. in_session (n_link n x) \<Longrightarrow> net_step n n'"
  by (induction rule: calm_step.induct) (auto intro: net_step.intros simp: aside_def)

text \<open>With the timer and losses, but still nothing beside the code's own operations and drained buffers.\<close>

inductive firm_step :: "Net \<Rightarrow> Net \<Rightarrow> bool" where
  calm: "calm_step n n' \<Longrightarrow> firm_step n n'"
| timeout: "sweepRetx now (n_link n x) = (brk, l') \<Longrightarrow> l_state l' = OK \<Longrightarrow> firm_step n (net_act x l' n)"
| lose: "n_chan n x = es @ e # fs \<Longrightarrow> firm_step n (net_take x (es @ fs) n)"

lemma firm_net: "firm_step n n' \<Longrightarrow> \<forall>x. in_session (n_link n x) \<Longrightarrow> net_step n n'"
  by (induction rule: firm_step.induct) (auto intro: calm_net net_step.intros)

lemma calm_firm: "calm_step\<^sup>*\<^sup>* n n' \<Longrightarrow> firm_step\<^sup>*\<^sup>* n n'"
  by (induction rule: rtranclp_induct) (auto intro: rtranclp.rtrancl_into_rtrancl firm_step.calm)

lemma lose_all: "firm_step\<^sup>*\<^sup>* n (net_take x [] n)"
proof (induction "n_chan n x" arbitrary: n)
  case Nil
  then have "(n_chan n)(x := []) = n_chan n" by auto
  then show ?case by (simp add: net_take_def)
next
  case (Cons e es)
  let ?n = "net_take x ([] @ es) n"
  have "firm_step n ?n" using firm_step.lose [of n x "[]" e es] Cons.hyps(2) by simp
  moreover have "firm_step\<^sup>*\<^sup>* ?n (net_take x [] ?n)" using Cons.hyps(1) [of ?n] by (simp add: net_take_def)
  moreover have "net_take x [] ?n = net_take x [] n" by (simp add: net_take_def)
  ultimately show ?case by (metis converse_rtranclp_into_rtranclp)
qed

subsection \<open>The phases of an exchange\<close>

lemma send_phase:
  assumes ses: "in_session (n_link n d)" and tx: "tx_rel (n_link n d) (n_sent n d) g"
    and w: "gB g \<le> gN g" "gN g < gB g + 32" and b: "b \<noteq> []" "length b \<le> nat MAX_CHUNK"
    and room: "cache_hasRoom (l_cache (n_link n d))" "kWorstCaseCobsFrame \<le> hal_txAvail (l_hw (n_link n d))"
  obtains n' where "calm_step n n'" "in_session (n_link n' d)" "n_link n' (\<not> d) = n_link n (\<not> d)"
    "tx_rel (n_link n' d) (n_sent n d @ [b]) (g\<lparr>gN := gN g + 1\<rparr>)" "keeps_room (n_link n d) (n_link n' d)"
    "n_chan n' (\<not> d) = n_chan n (\<not> d) @ [OnPayload (seqOf (gN g)) b]" "n_chan n' d = n_chan n d"
    "n_sent n' d = n_sent n d @ [b]" "n_out n' d = n_out n d"
    "cache_freeRoom (l_cache (n_link n d)) - 1 \<le> cache_freeRoom (l_cache (n_link n' d))"
proof -
  let ?l = "n_link n d"
  obtain q l' where s: "sendCobsFrameAcked b NO_BASE ?l = (q, l')" by (cases "sendCobsFrameAcked b NO_BASE ?l")
  note go = send_goes [OF ses b room s]
  have q: "q = seqOf (gN g)" using go(1) tx by (simp add: tx_rel_def)
  have p: "arq_pendingCount (l_arq ?l) < AUTOLINK_ARQ_PIPELINE_WINDOW"
    using tx_rel_pendingCount [OF tx] w by (simp add: wire_defs)
  have tx': "tx_rel l' (n_sent n d @ [b]) (g\<lparr>gN := gN g + 1\<rparr>)"
    by (rule tx_rel_send [OF tx w(2, 1) go(1, 4)])
  have ci: "cache_inv (l_cache ?l)" using ses kept_carry.link_inv_parts(2) [of ?l] by (simp add: in_session_def link_inv_def)
  have "l_cache l' = cache_insert q b (l_cache ?l)"
    using s b room go(1, 2)
    by (auto simp: sendCobsFrameAcked_def sendCobsFrame_def buildAndTxCobsFrame_def openGbnWindow_def Let_def split: if_splits)
  then have fr: "cache_freeRoom (l_cache ?l) - 1 \<le> cache_freeRoom (l_cache l')"
    using acache.room_insert [OF ci _ b(1), of q] room(1) b(2) by (simp add: cache_hasRoom_iff wire_defs)
  have kr: "keeps_room ?l l'" by (rule room_send [OF b(1) _ s]) (use b(2) in \<open>simp add: wire_defs\<close>)
  show thesis
    by (rule that [OF calm_step.send [where x = d, OF b p s]])
      (use send_op(1-3) [OF ses b s] tx' kr fr go(2, 3) q in \<open>simp_all add: net_defs\<close>)
qed

lemma deliver_phase:
  assumes ses: "in_session (n_link n (\<not> d))" and ch: "n_chan n (\<not> d) = OnPayload s b # es"
    and b: "b \<noteq> []" and ord: "in_order s (n_link n (\<not> d))" and s: "s \<noteq> 0xFF" "s \<le> COBS_SEQ_MAX"
    and room: "int (length b) \<le> hal_appBufFree (l_hw (n_link n (\<not> d)))"
      "kWorstCaseCobsFrame \<le> hal_txAvail (l_hw (n_link n (\<not> d)))"
  obtains n' where "calm_step n n'" "in_session (n_link n' (\<not> d))" "n_link n' d = n_link n d"
    "rx_view (n_link n' (\<not> d)) = (True, s)" "keeps_room (n_link n (\<not> d)) (n_link n' (\<not> d))"
    "n_chan n' (\<not> d) = es" "n_chan n' d = n_chan n d @ [OnAck s (of_nat (length b))]"
    "n_sent n' d = n_sent n d" "n_out n' d = n_out n d @ b"
proof -
  let ?l = "n_link n (\<not> d)" and ?l' = "snd (onPayload s b (n_link n (\<not> d)))"
  note go = payload_goes [OF ses b ord s room]
  have lis: "link_listener (OnPayload s b) ?l = (?l', fst (onPayload s b ?l))" by (simp add: link_listener_def split_beta)
  have "link_inv ?l'" using session_inv(2) [of ?l "OnPayload s b"] ses lis by (simp add: in_session_def)
  moreover have "l_state ?l' = l_state ?l" "l_cfg ?l' = l_cfg ?l"
    using onPayload_keeps [of ?l s b] ses by (simp_all add: answer_only_def in_session_def)
  ultimately have ses': "in_session ?l'" using ses by (simp add: in_session_def)
  show thesis
    by (rule that [OF calm_step.receive [where x = "\<not> d", OF ch lis]])
      (use go ses' in \<open>simp_all add: net_defs\<close>)
qed

lemma ack_phase:
  assumes ses: "in_session (n_link n d)" and ch: "n_chan n d = OnAck (seqOf i) k # es"
    and tx: "tx_rel (n_link n d) (n_sent n d) g" and w: "gN g \<le> gB g + 32" "gB g \<le> i" "i < gN g"
  obtains n' where "calm_step n n'" "in_session (n_link n' d)" "n_link n' (\<not> d) = n_link n (\<not> d)"
    "tx_rel (n_link n' d) (n_sent n d) (g\<lparr>gB := i + 1\<rparr>)" "keeps_room (n_link n d) (n_link n' d)"
    "n_chan n' d = es" "n_chan n' (\<not> d) = n_chan n (\<not> d)" "n_sent n' d = n_sent n d" "n_out n' d = n_out n d"
proof -
  let ?l = "n_link n d" and ?l' = "snd (onAck (seqOf i) k (n_link n d))"
  have lis: "link_listener (OnAck (seqOf i) k) ?l = (?l', fst (onAck (seqOf i) k ?l))"
    by (simp add: link_listener_def split_beta)
  have kr: "keeps_rx ?l ?l'" "wire ?l' = wire ?l" using onAck_keeps [of ?l "seqOf i" k] by simp_all
  have "link_inv ?l'" using session_inv(2) [of ?l "OnAck (seqOf i) k"] ses lis by (simp add: in_session_def)
  then have ses': "in_session ?l'" using sessionI(2) [OF ses _ kr(1)] by simp
  show thesis
    by (rule that [OF calm_step.receive [where x = d, OF ch lis]])
      (use kr ses' tx_rel_ack [OF tx ses w, of k] room_onAck [of ?l "seqOf i" k] newFrames_none [OF kr(2)]
        in \<open>simp_all add: net_defs keeps_rx_def\<close>)
qed

subsection \<open>Any number of chunks\<close>

text \<open>Rings that hold a frame, a queue that holds a chunk, a clean cache at the sender.\<close>

definition pair_room :: "bool \<Rightarrow> Net \<Rightarrow> bool" where
  "pair_room d n \<longleftrightarrow> (\<forall>x. in_session (n_link n x) \<and> kWorstCaseCobsFrame \<le> int (h_txCap (l_hw (n_link n x)))) \<and>
     cache_clean (l_cache (n_link n d)) \<and>
     (\<forall>cap. h_appBufCap (l_hw (n_link n (\<not> d))) = Some cap \<longrightarrow> nat MAX_CHUNK \<le> cap)"

definition net_drain :: "Net \<Rightarrow> Net" where
  "net_drain n = n\<lparr>n_link := (\<lambda>x. drained (n_link n x))\<rparr>"

lemma drain_twice:
  fixes n :: Net
  defines "m \<equiv> n\<lparr>n_link := (n_link n)(True := drained (n_link n True))\<rparr>"
  shows "net_drain n = m\<lparr>n_link := (n_link m)(False := drained (n_link m False))\<rparr>"
  by (auto simp: net_drain_def m_def fun_eq_iff intro!: arg_cong [of _ _ "\<lambda>f. n\<lparr>n_link := f\<rparr>"])

lemma drain_both: "calm_step\<^sup>*\<^sup>* n (net_drain n)"
proof -
  let ?m = "n\<lparr>n_link := (n_link n)(True := drained (n_link n True))\<rparr>"
  have "net_drain n = ?m\<lparr>n_link := (n_link ?m)(False := drained (n_link ?m False))\<rparr>" by (rule drain_twice)
  then have "calm_step ?m (net_drain n)" by (metis calm_step.drain)
  then show ?thesis using calm_step.drain [of n True] by (meson converse_rtranclp_into_rtranclp r_into_rtranclp)
qed

lemma drained_caps [simp]:
  "h_txCap (l_hw (drained l)) = h_txCap (l_hw l)" "h_appBufCap (l_hw (drained l)) = h_appBufCap (l_hw l)"
  "hal_txAvail (l_hw (drained l)) = int (h_txCap (l_hw l))"
  by (simp_all add: drained_def hal_txAvail_def Let_def)

lemma net_drain_simps [simp]:
  "n_link (net_drain n) x = drained (n_link n x)" "n_chan (net_drain n) = n_chan n"
  "n_sent (net_drain n) = n_sent n" "n_out (net_drain n) = n_out n"
  by (simp_all add: net_drain_def)

lemma drain_room: "pair_room d n \<Longrightarrow> pair_room d (net_drain n)"
  by (simp add: pair_room_def)

lemma keeps_pair_room:
  assumes "pair_room d n" and "\<And>x. in_session (n_link n' x)" and "\<And>x. keeps_room (n_link n x) (n_link n' x)"
  shows "pair_room d n'"
  using assms(1) assms(2) assms(3) by (simp add: pair_room_def keeps_room_def)

lemma app_room:
  assumes "pair_room d n" and "int (length b) \<le> MAX_CHUNK"
  shows "int (length b) \<le> hal_appBufFree (l_hw (drained (n_link n (\<not> d))))"
  using assms by (auto simp: pair_room_def hal_appBufFree_def drained_def INT32_MAX_def wire_defs split: option.splits)

lemma both_sides: "P d \<Longrightarrow> P (\<not> d) \<Longrightarrow> P x" for P :: "bool \<Rightarrow> bool"
  by (cases "x = d") auto

lemma exchange_chunk:
  assumes room: "pair_room d n" and ch: "\<And>x. n_chan n x = []"
    and tx: "tx_rel (n_link n d) (n_sent n d) g" and g: "gB g = gN g"
    and ord: "in_order (seqOf (gN g)) (n_link n (\<not> d))" and b: "b \<noteq> []" "length b \<le> nat MAX_CHUNK"
  shows "\<exists>n'. calm_step\<^sup>*\<^sup>* n n' \<and> pair_room d n' \<and> (\<forall>x. n_chan n' x = []) \<and>
    tx_rel (n_link n' d) (n_sent n' d) (g\<lparr>gN := gN g + 1, gB := gN g + 1\<rparr>) \<and>
    rx_view (n_link n' (\<not> d)) = (True, seqOf (gN g)) \<and> n_sent n' d = n_sent n d @ [b] \<and> n_out n' d = n_out n d @ b"
proof -
  let ?n = "net_drain n"
  have rm: "pair_room d ?n" by (rule drain_room [OF room])
  have ses: "in_session (n_link ?n x)" for x using rm by (simp add: pair_room_def)
  have avail: "kWorstCaseCobsFrame \<le> hal_txAvail (l_hw (n_link ?n x))" for x using room by (simp add: pair_room_def)
  have tx0: "tx_rel (n_link ?n d) (n_sent ?n d) g" using tx_rel_view [OF _ tx, of "drained (n_link n d)"] by simp
  have none: "cache_peek s (l_cache (n_link ?n d)) = None" for s using tx g by (auto simp: tx_rel_def)
  have "cache_hasRoom (l_cache (n_link ?n d))" by (rule clean_room(2) [OF _ none]) (use rm in \<open>simp add: pair_room_def\<close>)
  then obtain n1 where 1: "calm_step ?n n1" "in_session (n_link n1 d)" "n_link n1 (\<not> d) = n_link ?n (\<not> d)"
      "tx_rel (n_link n1 d) (n_sent ?n d @ [b]) (g\<lparr>gN := gN g + 1\<rparr>)" "keeps_room (n_link ?n d) (n_link n1 d)"
      "n_chan n1 (\<not> d) = n_chan ?n (\<not> d) @ [OnPayload (seqOf (gN g)) b]" "n_chan n1 d = n_chan ?n d"
      "n_sent n1 d = n_sent ?n d @ [b]" "n_out n1 d = n_out ?n d"
    using send_phase [OF ses tx0 _ _ b _ avail] g by (metis add_less_cancel_left less_add_same_cancel1 order_refl zero_less_numeral)
  have "int (length b) \<le> hal_appBufFree (l_hw (n_link n1 (\<not> d)))"
    using app_room [OF room, of b] b(2) by (simp add: 1(3) wire_defs)
  moreover have "in_order (seqOf (gN g)) (n_link n1 (\<not> d))"
    using ord by (simp add: 1(3) in_order_def reorderExpectedSeq_def drained_def)
  ultimately obtain n2 where 2: "calm_step n1 n2" "in_session (n_link n2 (\<not> d))" "n_link n2 d = n_link n1 d"
      "rx_view (n_link n2 (\<not> d)) = (True, seqOf (gN g))" "keeps_room (n_link n1 (\<not> d)) (n_link n2 (\<not> d))"
      "n_chan n2 (\<not> d) = []" "n_chan n2 d = n_chan n1 d @ [OnAck (seqOf (gN g)) (of_nat (length b))]"
      "n_sent n2 d = n_sent n1 d" "n_out n2 d = n_out n1 d @ b"
    using deliver_phase [of n1 d "seqOf (gN g)" b "[]"] ses avail 1(3, 6) ch b(1) by (metis append_Nil net_drain_simps(2) seqOf_le_max)
  have tx2: "tx_rel (n_link n2 d) (n_sent n2 d) (g\<lparr>gN := gN g + 1\<rparr>)" using 1(4, 8) 2(3, 8) by simp
  obtain n3 where 3: "calm_step n2 n3" "in_session (n_link n3 d)" "n_link n3 (\<not> d) = n_link n2 (\<not> d)"
      "tx_rel (n_link n3 d) (n_sent n2 d) (g\<lparr>gN := gN g + 1\<rparr>\<lparr>gB := gN g + 1\<rparr>)" "keeps_room (n_link n2 d) (n_link n3 d)"
      "n_chan n3 d = []" "n_chan n3 (\<not> d) = n_chan n2 (\<not> d)" "n_sent n3 d = n_sent n2 d" "n_out n3 d = n_out n2 d"
    by (rule ack_phase [of n2 d "gN g" "of_nat (length b)" "[]" "g\<lparr>gN := gN g + 1\<rparr>"])
      (use 1 2 tx2 g ch in \<open>simp_all\<close>)
  have "pair_room d n3"
    by (rule keeps_pair_room [OF rm]; rule both_sides [of _ d])
      (use 1 2 3 keeps_room_trans [of "n_link ?n d"] in \<open>simp_all\<close>)
  moreover have "n_chan n3 x = []" for x by (rule both_sides [of _ d]) (use 2 3 in simp_all)
  moreover have "calm_step\<^sup>*\<^sup>* n n3"
    using drain_both [of n] 1(1) 2(1) 3(1) by (meson rtranclp.rtrancl_into_rtrancl)
  ultimately show ?thesis using 1 2 3 by (intro exI [of _ n3]) simp
qed

lemma exchange_chunks:
  assumes "pair_room d n" and "\<And>x. n_chan n x = []" and "tx_rel (n_link n d) (n_sent n d) g" and "gB g = gN g"
    and "rx_view (n_link n (\<not> d)) = (True, seqOf (gN g + 253))" and "chunks_ok cs"
  shows "\<exists>n' g'. calm_step\<^sup>*\<^sup>* n n' \<and> n_sent n' d = n_sent n d @ cs \<and> n_out n' d = n_out n d @ concat cs \<and>
    tx_rel (n_link n' d) (n_sent n' d) g' \<and> gB g' = gN g'"
  using assms
proof (induction cs arbitrary: n g)
  case Nil
  then show ?case by auto
next
  case (Cons b cs)
  have b: "b \<noteq> []" "length b \<le> nat MAX_CHUNK" "chunks_ok cs" using Cons.prems(6) by (simp_all add: chunks_ok_def)
  have "reorderExpectedSeq (n_link n (\<not> d)) = seqOf (gN g)"
    using Cons.prems(5) nextSeq_seqOf [of "gN g + 253"]
    by (simp add: rx_view_def reorderExpectedSeq_def nextSeq_def split: if_splits)
  then have ord: "in_order (seqOf (gN g)) (n_link n (\<not> d))" by (simp add: in_order_def)
  let ?g = "g\<lparr>gN := gN g + 1, gB := gN g + 1\<rparr>"
  obtain n1 where 1: "calm_step\<^sup>*\<^sup>* n n1" "pair_room d n1" "\<And>x. n_chan n1 x = []" "tx_rel (n_link n1 d) (n_sent n1 d) ?g"
      "rx_view (n_link n1 (\<not> d)) = (True, seqOf (gN g))" "n_sent n1 d = n_sent n d @ [b]" "n_out n1 d = n_out n d @ b"
    using exchange_chunk [OF Cons.prems(1-4) ord b(1, 2)] by blast
  have "rx_view (n_link n1 (\<not> d)) = (True, seqOf (gN ?g + 253))" using 1(5) seqOf_lap(1) [of "gN g"] by simp
  from Cons.IH [OF 1(2-4) _ this b(3)] obtain n2 g2 where 2: "calm_step\<^sup>*\<^sup>* n1 n2" "n_sent n2 d = n_sent n1 d @ cs"
      "n_out n2 d = n_out n1 d @ concat cs" "tx_rel (n_link n2 d) (n_sent n2 d) g2" "gB g2 = gN g2" by auto
  have "calm_step\<^sup>*\<^sup>* n n2" using 1(1) 2(1) by (rule rtranclp_trans)
  then show ?case using 1(6, 7) 2(2-5) by (intro exI [of _ n2] exI [of _ g2]) simp
qed

text \<open>A calm run is a run.\<close>

lemma calm_nets:
  assumes "calm_step\<^sup>*\<^sup>* n n'" and "dir_rel d n g"
  shows "net_step\<^sup>*\<^sup>* n n'"
  using assms(1)
proof (induction rule: rtranclp_induct)
  case (step n1 n2)
  obtain g' where "dir_rel d n1 g'" using pair.sim_steps [OF step.IH assms(2)] by blast
  then have "net_step n1 n2" using calm_net [OF step.hyps(2)] by (simp add: dir_rel_def)
  with step.IH show ?case by (rule rtranclp.rtrancl_into_rtrancl)
qed simp

text \<open>A session works: from its start, with rings that hold a frame and a queue that holds a chunk, any
  number of chunks can be sent, past the wrap of the numbers and any number of windows.\<close>

lemma calm_run:
  assumes "net_ready d n" and "pair_room d n" and "\<And>x. n_chan n x = []" and "chunks_ok cs"
  shows "\<exists>n'. calm_step\<^sup>*\<^sup>* n n' \<and> net_step\<^sup>*\<^sup>* n n' \<and> n_sent n' d = cs \<and> n_out n' d = concat cs \<and>
    arq_pendingCount (l_arq (n_link n' d)) = 0"
proof -
  have start: "n_sent n d = []" "n_out n d = []" "tx_rel (n_link n d) (n_sent n d) gbn_init"
    "rx_view (n_link n (\<not> d)) = (True, seqOf (gN gbn_init + 253))"
    using assms(1) fresh_tx_rel [of "n_link n d"]
    by (simp_all add: net_ready_def net_idle_def seeded_rx_def gbn_init_def seqOf_start)
  have "gB gbn_init = gN gbn_init" by (simp add: gbn_init_def)
  from exchange_chunks [OF assms(2, 3) start(3) this start(4) assms(4)] obtain n' g where n':
    "calm_step\<^sup>*\<^sup>* n n'" "n_sent n' d = cs" "n_out n' d = concat cs" "tx_rel (n_link n' d) (n_sent n' d) g" "gB g = gN g"
    by (auto simp: start(1, 2))
  have "arq_pendingCount (l_arq (n_link n' d)) = 0" using tx_rel_pendingCount [OF n'(4)] n'(5) by simp
  then show ?thesis using n' calm_nets [OF n'(1) ready_rel [OF assms(1)]] by blast
qed

end
