(* ===== verification/LinkConverge.thy ===== *)
theory LinkConverge
  imports LinkSession
begin

text \<open>
  Two links that sweep: a master and a slave joined by a wire that delivers every control
  frame. Both lock, at the fastest baud, after four frames each way.
\<close>

subsection \<open>One control frame at a sweeping link\<close>

definition ctrl_in :: "u8 \<Rightarrow> u8 \<Rightarrow> Link \<Rightarrow> Link" where
  "ctrl_in e p l = l_r_update (\<lambda>r. r\<lparr>r_lastRxMs := l_now l, r_rxBuf := ctrlFrame e p, r_rxIdx := 0,
     r_lastValidRxMs := l_now l\<rparr>) l"

lemma onRx_ctrl:
  assumes "l_state l = SWP" and "r_rxIdx (l_r l) = 0" and "length (r_rxBuf (l_r l)) = 5"
    and h: "handleSwp e p (ctrl_in e p l) = (False, l')"
  shows "onRx (ctrlFrame e p) l = Some l'"
proof -
  obtain b0 b1 b2 b3 b4 where buf: "r_rxBuf (l_r l) = [b0, b1, b2, b3, b4]"
    using assms(3) by (auto simp: length_Suc_conv numeral_eq_Suc)
  have eval: "ctrlFrame e p = [0xAA, 0x55, e, p, c]" "crc8 [0xAA, 0x55, e, p] = c" if "c = crc8 [0xAA, 0x55, e, p]" for c
    using that by (simp_all add: ctrlFrame_def)
  obtain c where c: "ctrlFrame e p = [0xAA, 0x55, e, p, c]" "crc8 [0xAA, 0x55, e, p] = c" using eval by blast
  show ?thesis
    using assms(1, 2) buf h
    by (cases l) (simp add: onRx_def c onRx_step_def onRx_swp_def processCtrlFrame_def ctrlFrameReady_def ctrl_in_def link_consts Let_def)
qed

subsection \<open>The phases\<close>

text \<open>A sweeping link of one role, in a phase, with the given number of confirmations, ready to
  receive a control frame and with room to send one.\<close>

definition sweeping :: "bool \<Rightarrow> SweepPhase \<Rightarrow> int \<Rightarrow> Link \<Rightarrow> bool" where
  "sweeping master ph acks l \<longleftrightarrow> l_state l = SWP \<and> l_isMaster l = master \<and> sw_phase (l_sweep l) = ph \<and>
     (ph = PHASE3 \<longrightarrow> sw_phase3Baud (l_sweep l) = 0 \<and> sw_phase3Acks (l_sweep l) = acks) \<and>
     (ph \<noteq> PHASE1 \<longrightarrow> l_spdI l = 0) \<and> r_rxIdx (l_r l) = 0 \<and> length (r_rxBuf (l_r l)) = 5 \<and>
     5 \<le> h_txCap (l_hw l) \<and> 0 < clampedCount (l_cfg l)"

text \<open>Everything the link has to say is one control frame.\<close>

definition says :: "u8 \<Rightarrow> Link \<Rightarrow> bool" where
  "says p l \<longleftrightarrow> (\<exists>e. wire l = ctrlFrame e p)"

definition silent :: "Link \<Rightarrow> bool" where
  "silent l \<longleftrightarrow> wire l = []"

definition locked_fast :: "Link \<Rightarrow> bool" where
  "locked_fast l \<longleftrightarrow> l_state l = OK \<and> l_spdI l = 0 \<and> h_spd (l_hw l) = l_baud 0 l"

lemma clamp_count: "cfg_allowedBaudsCount (clampToMaxBauds c) = clampedCount c"
  "clampedCount (clampToMaxBauds c) = clampedCount c" "cfg_allowedBauds (clampToMaxBauds c) = cfg_allowedBauds c"
  by (auto simp: clampToMaxBauds_def clampedCount_def Let_def wire_defs)

lemma says_sent:
  "wire l = [] \<Longrightarrow> 5 \<le> h_txCap (l_hw l) \<Longrightarrow> wire (sendSweepFrame p l) = ctrlFrame (s_sweepEpoch (l_s l)) p"
  by (simp add: sendSweep_wire hal_txAvail_def sweepFrame_def ctrlFrame_def Let_def)

lemmas swp_defs = sweeping_def says_def silent_def ctrl_in_def handleSwp_def notePeerEpoch_def l_clampBauds_def
  isLockPayload_def selectBaud_def setSpdI_def sweepReset_def sweep_reset_def incPhase3Acks_def clamp_count wire_defs Let_def

lemma lockOk_cfg [frame_simps]: "l_cfg (lockOk i l) = l_cfg l"
  by (simp add: lockOk_def setSpdI_def changeState_def Let_def)

lemma slave_ping:
  assumes "silent l"
  shows "sweeping False PHASE1 n l \<Longrightarrow> \<exists>l'. handleSwp e PING_CMD (ctrl_in e PING_CMD l) = (False, l') \<and>
      sweeping False PHASE2 0 l' \<and> says PONG_CMD l'"
    and "sweeping False PHASE2 n l \<Longrightarrow> \<exists>l'. handleSwp e PING_CMD (ctrl_in e PING_CMD l) = (False, l') \<and>
      sweeping False PHASE3 0 l' \<and> says PONG_CMD l'"
    and "sweeping False PHASE3 0 l \<Longrightarrow> \<exists>l'. handleSwp e PING_CMD (ctrl_in e PING_CMD l) = (False, l') \<and>
      sweeping False PHASE3 1 l' \<and> says PONG_CMD l'"
  using assms
  by (auto simp: swp_defs handlePing_def applyPongSwpAction_def decidePongPhase1Ping_def decidePongPhase2Ping_def
      decidePongPhase3Ping_def sendPongAck_def enterPhase2_def enterPhase3_def frame_simps says_sent ctrlFrame_def)

lemma slave_locks:
  assumes "silent l" and "sweeping False PHASE3 1 l"
  shows "\<exists>l'. handleSwp e PING_CMD (ctrl_in e PING_CMD l) = (False, l') \<and> locked_fast l' \<and> says LOCK_CMD l'"
  using assms
  by (auto simp: swp_defs locked_fast_def handlePing_def applyPongSwpAction_def decidePongPhase3Ping_def
      lockOk_facts frame_simps says_sent ctrlFrame_def l_baud_def)

lemma master_pong:
  assumes "silent l"
  shows "sweeping True PHASE1 n l \<Longrightarrow> \<exists>l'. handleSwp e PONG_CMD (ctrl_in e PONG_CMD l) = (False, l') \<and>
      sweeping True PHASE2 0 l' \<and> says PING_CMD l'"
    and "sweeping True PHASE2 n l \<Longrightarrow> \<exists>l'. handleSwp e PONG_CMD (ctrl_in e PONG_CMD l) = (False, l') \<and>
      sweeping True PHASE3 0 l' \<and> says PING_CMD l'"
    and "sweeping True PHASE3 0 l \<Longrightarrow> \<exists>l'. handleSwp e PONG_CMD (ctrl_in e PONG_CMD l) = (False, l') \<and>
      sweeping True PHASE3 1 l' \<and> says PING_CMD l'"
  using assms
  by (auto simp: swp_defs handlePong_def applyMasterSwpAction_def decideMasterPhase1Ack_def decideMasterPhase2Ack_def
      decideMasterPhase3Ack_def enterPhase2_def enterPhase3_def frame_simps says_sent ctrlFrame_def)

lemma master_locks:
  assumes "sweeping True ph n l"
  shows "\<exists>l'. handleSwp e LOCK_CMD (ctrl_in e LOCK_CMD l) = (False, l') \<and> locked_fast l'"
  using assms
  by (auto simp: swp_defs locked_fast_def lockOk_facts frame_simps l_baud_def)

subsection \<open>What a sweep leaves alone\<close>

text \<open>What a session reads of a link, and the sizes of its rings.\<close>

definition core :: "Link \<Rightarrow> LinkArq \<times> ArqCache \<times> u8 \<times> bool \<times> u8 \<times> Mode \<times> nat \<times> nat option" where
  "core l = (l_arq l, l_cache l, t_txSeq (l_t l), r_rxSeqSet (l_r l), r_rxSeq (l_r l), cfg_mode (l_cfg l),
     h_txCap (l_hw l), h_appBufCap (l_hw l))"

lemma hal_appCap [frame_simps]:
  "h_appBufCap (hal_setSpd sp h) = h_appBufCap h" "h_appBufCap (hal_startTimer ms h) = h_appBufCap h"
  "h_appBufCap (hal_clearAppBuf h) = h_appBufCap h" "h_appBufCap (hal_tx b h) = h_appBufCap h"
  "h_txCap (hal_tx b h) = h_txCap h"
  by (simp_all add: hal_setSpd_def hal_startTimer_def hal_clearAppBuf_def hal_tx_def Let_def)

lemma clamp_mode: "cfg_mode (clampToMaxBauds c) = cfg_mode c"
  by (simp add: clampToMaxBauds_def Let_def)

lemma core_upd [simp]:
  "core (l_s_update fs l) = core l" "core (l_sweep_update fw l) = core l" "core (l_b_update fb l) = core l"
  "core (l_p_update fp l) = core l" "core (l_e_update fe l) = core l" "core (l_k_update fk l) = core l"
  "core (l_c_update fc l) = core l" "core (l_n_update fn l) = core l" "core (l_g_update fg l) = core l"
  "core (l_baudSweep_update fz l) = core l" "core (setSpdI i l) = core l" "core (changeState st l) = core l"
  "core (l_clampBauds l) = core l"
  by (simp_all add: core_def setSpdI_def changeState_def l_clampBauds_def clamp_mode frame_simps)

lemma core_hw [simp]:
  "core (hw (hal_setSpd sp) l) = core l" "core (hw (hal_startTimer ms) l) = core l" "core (hw hal_clearAppBuf l) = core l"
  "core (hw (hal_startTimer ms \<circ> hal_setSpd sp) l) = core l" "core (hw hal_flushRxHw l) = core l"
  "core (hw (hal_flushRxHw \<circ> hal_clearAppBuf) l) = core l"
  "core (hw (\<lambda>h. hal_flushRxHw (hal_clearAppBuf h)) l) = core l"
  by (simp_all add: core_def frame_simps)

lemma core_rt [simp]:
  "core (l_r_update (\<lambda>r. r\<lparr>r_lastRxMs := a, r_lastValidRxMs := b\<rparr>) l) = core l"
  "core (l_t_update (\<lambda>t. t\<lparr>t_lastTxMs := c\<rparr>) l) = core l"
  by (simp_all add: core_def)

lemma core_send [simp]: "core (sendSweepFrame p l) = core l" "core (sendPongAck l) = core l"
  by (simp_all add: core_def sendPongAck_def sendSweepFrame_def frame_simps Let_def)

lemma core_swp [simp]:
  "core (sweepReset l) = core l" "core (selectBaud i l) = core l" "core (incPhase3Acks l) = core l"
  "core (notePeerEpoch e l) = core l" "core (enterPhase2 l) = core l" "core (enterPhase3 i l) = core l"
  by (simp_all add: sweepReset_def selectBaud_def incPhase3Acks_def notePeerEpoch_def enterPhase2_def
      enterPhase3_def Let_def)

lemma core_lockOk [simp]: "core (lockOk i l) = core l"
proof (cases "l_state l = OK")
  case False
  have "l_arq (lockOk i l) = l_arq l" "l_cache (lockOk i l) = l_cache l" "t_txSeq (l_t (lockOk i l)) = t_txSeq (l_t l)"
    "r_rxSeqSet (l_r (lockOk i l)) = r_rxSeqSet (l_r l)" "r_rxSeq (l_r (lockOk i l)) = r_rxSeq (l_r l)"
    "cfg_mode (l_cfg (lockOk i l)) = cfg_mode (l_cfg l)" "h_txCap (l_hw (lockOk i l)) = h_txCap (l_hw l)"
    "h_appBufCap (l_hw (lockOk i l)) = h_appBufCap (l_hw l)"
    using False by (simp_all add: lockOk_def Let_def setSpdI_def changeState_def frame_simps)
  then show ?thesis by (simp add: core_def)
qed (simp add: lockOk_def)

lemma core_apply [simp]:
  "core (snd (applyMasterSwpAction a l)) = core l" "core (snd (applyPongSwpAction a l)) = core l"
  by (cases a; simp add: applyMasterSwpAction_def applyPongSwpAction_def Let_def)+

lemma core_handle [simp]: "core (snd (handlePong l)) = core l" "core (snd (handlePing l)) = core l"
  by (cases "sw_phase (l_sweep l)"; simp add: handlePong_def handlePing_def Let_def)+

lemma core_handleSwp: "core (snd (handleSwp e p l)) = core l"
  by (cases "isLockPayload p (cfg_allowedBaudsCount (l_cfg (l_clampBauds (notePeerEpoch e l))))")
    (simp_all add: handleSwp_def Let_def)

subsection \<open>The exchange\<close>

text \<open>The wire takes what one link has sent to the other; a round is one frame each way.\<close>

definition hand :: "Link \<Rightarrow> Link \<Rightarrow> (Link \<times> Link) option" where
  "hand a b =
     (case onRx (wire a) b of None \<Rightarrow> None | Some b' \<Rightarrow> Some (hw (\<lambda>h. h\<lparr>h_txBuf := []\<rparr>) a, b'))"

definition exchange :: "Link \<times> Link \<Rightarrow> (Link \<times> Link) option" where
  "exchange x =
     (case hand (fst x) (snd x) of
        None \<Rightarrow> None
      | Some (m, s) \<Rightarrow> (case hand s m of None \<Rightarrow> None | Some (s', m') \<Rightarrow> Some (m', s')))"

fun rounds :: "nat \<Rightarrow> Link \<times> Link \<Rightarrow> (Link \<times> Link) option" where
  "rounds 0 x = Some x"
| "rounds (Suc n) x = (case exchange x of None \<Rightarrow> None | Some y \<Rightarrow> rounds n y)"

definition emptied :: "Link \<Rightarrow> Link" where
  "emptied l = hw (\<lambda>h. h\<lparr>h_txBuf := []\<rparr>) l"

lemma emptied_simps: "silent (emptied l)" "sweeping b ph n (emptied l) = sweeping b ph n l"
  "locked_fast (emptied l) = locked_fast l" "wire (emptied l) = []"
  by (simp_all add: emptied_def silent_def sweeping_def locked_fast_def l_baud_def)

lemma hand_ctrl:
  assumes "says p a" and "sweeping mst ph n b"
    and "\<And>e. \<exists>b'. handleSwp e p (ctrl_in e p b) = (False, b') \<and> Q b'"
  shows "\<exists>b'. hand a b = Some (emptied a, b') \<and> Q b'"
proof -
  obtain e where e: "wire a = ctrlFrame e p" using assms(1) by (auto simp: says_def)
  obtain b' where "handleSwp e p (ctrl_in e p b) = (False, b')" "Q b'" using assms(3) by blast
  then show ?thesis
    using onRx_ctrl [of b e p b'] assms(2) e by (auto simp: hand_def sweeping_def emptied_def)
qed

lemma exchange_ctrl:
  assumes "says p m" and "sweeping False ph n s" and "silent s" and "sweeping True ph' n' m"
    and "\<And>e. \<exists>s'. handleSwp e p (ctrl_in e p s) = (False, s') \<and> S s' \<and> says q s'"
    and "\<And>e. \<exists>m'. handleSwp e q (ctrl_in e q (emptied m)) = (False, m') \<and> M m'"
  shows "\<exists>m' s'. exchange (m, s) = Some (m', emptied s') \<and> M m' \<and> S s'"
proof -
  obtain s' where s: "hand m s = Some (emptied m, s')" "S s'" "says q s'"
    using hand_ctrl [OF assms(1, 2), of "\<lambda>x. S x \<and> says q x"] assms(5) by blast
  obtain m' where "hand s' (emptied m) = Some (emptied s', m')" "M m'"
    using hand_ctrl [OF s(3), of True ph' n' "emptied m" M] assms(4, 6) by (auto simp: emptied_simps)
  then show ?thesis using s by (auto simp: exchange_def)
qed

lemma handle_core:
  assumes "\<exists>l'. handleSwp e p (ctrl_in e p l) = (False, l') \<and> P l'"
  shows "\<exists>l'. handleSwp e p (ctrl_in e p l) = (False, l') \<and> P l' \<and> core l' = core l"
proof -
  obtain l' where l': "handleSwp e p (ctrl_in e p l) = (False, l')" "P l'" using assms by blast
  have "core (ctrl_in e p l) = core l" by (simp add: ctrl_in_def core_def)
  then show ?thesis using l' core_handleSwp [of e p "ctrl_in e p l"] by auto
qed

lemma core_emptied [simp]: "core (emptied l) = core l"
  by (simp add: emptied_def core_def)

lemma exchange_core:
  assumes "says p m" and "sweeping False ph n s" and "silent s" and "sweeping True ph' n' m"
    and "\<And>e. \<exists>s'. handleSwp e p (ctrl_in e p s) = (False, s') \<and> S s' \<and> says q s'"
    and "\<And>e. \<exists>m'. handleSwp e q (ctrl_in e q (emptied m)) = (False, m') \<and> M m'"
  shows "\<exists>m' s'. exchange (m, s) = Some (m', emptied s') \<and> (M m' \<and> core m' = core m) \<and> (S s' \<and> core s' = core s)"
proof (rule exchange_ctrl [OF assms(1-4), where q = q])
  fix e
  show "\<exists>s'. handleSwp e p (ctrl_in e p s) = (False, s') \<and> (S s' \<and> core s' = core s) \<and> says q s'"
    using handle_core [OF assms(5)] by blast
  show "\<exists>m'. handleSwp e q (ctrl_in e q (emptied m)) = (False, m') \<and> M m' \<and> core m' = core m"
    using handle_core [OF assms(6)] by simp
qed

lemma rounds_converge:
  assumes "sweeping True PHASE1 0 m" and "says PING_CMD m" and "sweeping False PHASE1 0 s" and "silent s"
  shows "\<exists>m' s'. rounds 4 (m, s) = Some (m', s') \<and> (locked_fast m' \<and> core m' = core m) \<and>
    (locked_fast s' \<and> core s' = core s)"
proof -
  note em = emptied_simps
  obtain m1 s1 where 1: "exchange (m, s) = Some (m1, emptied s1)"
      "(sweeping True PHASE2 0 m1 \<and> says PING_CMD m1) \<and> core m1 = core m" "sweeping False PHASE2 0 s1 \<and> core s1 = core s"
    using exchange_core [OF assms(2, 3, 4, 1), of "sweeping False PHASE2 0" PONG_CMD
        "\<lambda>x. sweeping True PHASE2 0 x \<and> says PING_CMD x"]
      slave_ping(1) [OF assms(4, 3)] master_pong(1) [of "emptied m" 0] assms(1) by (auto simp: em)
  obtain m2 s2 where 2: "exchange (m1, emptied s1) = Some (m2, emptied s2)"
      "(sweeping True PHASE3 0 m2 \<and> says PING_CMD m2) \<and> core m2 = core m1" "sweeping False PHASE3 0 s2 \<and> core s2 = core s1"
    using exchange_core [of PING_CMD m1 PHASE2 0 "emptied s1" PHASE2 0 "sweeping False PHASE3 0" PONG_CMD
        "\<lambda>x. sweeping True PHASE3 0 x \<and> says PING_CMD x"]
      slave_ping(2) [of "emptied s1" 0] master_pong(2) [of "emptied m1" 0] 1 by (auto simp: em)
  obtain m3 s3 where 3: "exchange (m2, emptied s2) = Some (m3, emptied s3)"
      "(sweeping True PHASE3 1 m3 \<and> says PING_CMD m3) \<and> core m3 = core m2" "sweeping False PHASE3 1 s3 \<and> core s3 = core s2"
    using exchange_core [of PING_CMD m2 PHASE3 0 "emptied s2" PHASE3 0 "sweeping False PHASE3 1" PONG_CMD
        "\<lambda>x. sweeping True PHASE3 1 x \<and> says PING_CMD x"]
      slave_ping(3) [of "emptied s2"] master_pong(3) [of "emptied m2"] 2 by (auto simp: em)
  obtain m4 s4 where 4: "exchange (m3, emptied s3) = Some (m4, emptied s4)" "locked_fast m4 \<and> core m4 = core m3"
      "locked_fast s4 \<and> core s4 = core s3"
    using exchange_core [of PING_CMD m3 PHASE3 1 "emptied s3" PHASE3 1 locked_fast LOCK_CMD locked_fast]
      slave_locks [of "emptied s3"] master_locks [of PHASE3 1 "emptied m3"] 3 by (auto simp: em)
  show ?thesis using 1 2 3 4 by (simp add: numeral_eq_Suc em)
qed

subsection \<open>From the start\<close>

lemma hal_caps [frame_simps]: "h_txCap (hal_sendBreak h) = h_txCap h" "h_txCap (hal_discardTx h) = h_txCap h"
  by (simp_all add: hal_sendBreak_def hal_discardTx_def)

lemma enterPhase1_master:
  assumes "l_isMaster l" and "wire l = []" and "5 \<le> h_txCap (l_hw l)"
  shows "says PING_CMD (enterPhase1 l)" "sw_phase (l_sweep (enterPhase1 l)) = PHASE1"
    "h_txCap (l_hw (enterPhase1 l)) = h_txCap (l_hw l)" "l_isMaster (enterPhase1 l)" "l_cfg (enterPhase1 l) = l_cfg l"
  using assms by (auto simp: enterPhase1_def says_def setSpdI_def says_sent frame_simps Let_def)

lemma start_master:
  assumes "h_txBuf h = []" and "kWorstCaseCobsFrame \<le> int (h_txCap h)" and "0 < clampedCount cfg"
  shows "sweeping True PHASE1 0 (link_start h w True cfg)" "says PING_CMD (link_start h w True cfg)"
  using assms
  by (auto simp: link_start_def link_begin_def link_new_def kickoff_def computeDwells_def swp_defs resetSeq_def
      changeState_def hal_txRingSize_def msgRx_reset_def reset_unlocked_def resetCommon_def resetSweep_def enterPhase1_def
      says_sent frame_simps)

lemma start_slave:
  assumes "h_txBuf h = []" and "kWorstCaseCobsFrame \<le> int (h_txCap h)" and "0 < clampedCount cfg"
  shows "sweeping False PHASE1 0 (link_start h w False cfg)" "silent (link_start h w False cfg)"
  using assms
  by (auto simp: link_start_def link_begin_def link_new_def kickoff_def computeDwells_def swp_defs resetSeq_def
      changeState_def hal_txRingSize_def msgRx_reset_def frame_simps)

text \<open>C6: two links that are started find each other. A master and a slave, each with a ring that
  holds one frame and at least one baud, joined by a wire that delivers every frame before the
  peer changes its baud, are both locked at the first (fastest) baud of the list after four
  exchanges: the slave's first answer moves both to phase 2, the second to phase 3, the third
  is the first confirmation, and the fourth the slave's lock command.\<close>

theorem start_converges:
  assumes "h_txBuf hm = []" "kWorstCaseCobsFrame \<le> int (h_txCap hm)" "0 < clampedCount cm"
    and "h_txBuf hs = []" "kWorstCaseCobsFrame \<le> int (h_txCap hs)" "0 < clampedCount cs"
  shows "\<exists>m s. rounds 4 (link_start hm wm True cm, link_start hs ws False cs) = Some (m, s) \<and>
    l_state m = OK \<and> l_spdI m = 0 \<and> h_spd (l_hw m) = l_baud 0 m \<and>
    l_state s = OK \<and> l_spdI s = 0 \<and> h_spd (l_hw s) = l_baud 0 s"
  using rounds_converge [OF start_master [OF assms(1-3), of wm] start_slave [OF assms(4-6), of ws]]
  by (auto simp: locked_fast_def)

theorem start_converges_witness:
  "\<exists>m s. rounds 4 (link_start demo_hal 8 True demo_cfg, link_start demo_hal 8 False demo_cfg) = Some (m, s) \<and>
    l_state m = OK \<and> l_spdI m = 0 \<and> h_spd (l_hw m) = l_baud 0 m \<and>
    l_state s = OK \<and> l_spdI s = 0 \<and> h_spd (l_hw s) = l_baud 0 s"
  by (rule start_converges) (simp_all add: demo_cfg_def config_default_def clampedCount_def wire_defs)

end
