(* ===== verification/LinkPairProps.thy ===== *)
theory LinkPairProps
  imports LinkPairRun LinkConverge
begin

text \<open>
  What holds of two locked ASYNC links and the wires between them: the pair refines go-back-N
  (\<open>GbnSpec\<close>), so the receiving application has at every moment a prefix of what the sending one
  handed over, and lacks at most the chunks that are still pending; and a session can deliver any number of
  chunks. The last part says which start of a session establishes the premise, the receiver's
  expected number, and what happens without it.
\<close>

subsection \<open>Refinement\<close>

text \<open>C7: one direction of a session of two locked ASYNC links refines go-back-N with a window of 32. The session starts
  with a sender that has sent nothing and a receiver that is seeded, so that it expects the sender's first number
  (\<open>net_ready d\<close> for the direction \<open>d\<close>, nothing on its way in it). Then, whatever the two sides do (send chunks,
  resend, acknowledge, refuse, repeat) and whatever frames the wires lose, their state in that direction stands for a
  state the abstract protocol can reach. A receiver that is not seeded, as after power-on on the master's side, does
  not: theory \<open>LinkPowerOn\<close>.\<close>

theorem pair_refines_gbn:
  assumes "net_ready d n" and "net_step\<^sup>*\<^sup>* n n'"
  shows "\<exists>g. (gbn_step 32)\<^sup>*\<^sup>* gbn_init g \<and> dir_rel d n' g"
  using pair.sim_steps [OF assms(2) ready_rel [OF assms(1)]] by blast

text \<open>C2: what the receiving application gets is what the sending application handed over, in order,
  nothing twice and nothing missing: at every moment of a session, however frames get lost and
  operations interleave, the bytes put into the receiver's queue are the first chunks sent, they
  include every chunk that is no longer pending at the sender, and at most 32 are pending. With
  nothing pending everything sent has arrived.\<close>

theorem pair_delivers:
  assumes "net_ready d n" and "net_step\<^sup>*\<^sup>* n n'"
  shows "0 \<le> arq_pendingCount (l_arq (n_link n' d)) \<and> arq_pendingCount (l_arq (n_link n' d)) \<le> 32 \<and>
    (\<exists>k \<le> length (n_sent n' d). int (length (n_sent n' d)) - arq_pendingCount (l_arq (n_link n' d)) \<le> int k \<and>
      n_out n' d = concat (take k (n_sent n' d))) \<and>
    (arq_pendingCount (l_arq (n_link n' d)) = 0 \<longrightarrow> n_out n' d = concat (n_sent n' d))"
proof -
  obtain g where rel: "dir_rel d n' g"
    using pair.sim_steps [OF assms(2) ready_rel [OF assms(1)]] by blast
  note half = dir_relD(2) [OF rel refl]
  have ok: "gB g \<le> gE g" "gE g \<le> gN g" "gN g \<le> gB g + 32" and tx: "tx_rel (n_link n' d) (n_sent n' d) g"
    and out: "n_out n' d = concat (take (gE g) (n_sent n' d))"
    using half gbn_ok_order [of 32 g] by (simp_all add: link_half_def rx_rel_def)
  have len: "length (n_sent n' d) = gN g" using tx by (simp add: tx_rel_def)
  have p: "arq_pendingCount (l_arq (n_link n' d)) = int (gN g) - int (gB g)"
    using tx_rel_pendingCount [OF tx ok(3)] ok by (simp add: of_nat_diff)
  have "\<exists>k \<le> gN g. int (gN g) - (int (gN g) - int (gB g)) \<le> int k \<and>
      n_out n' d = concat (take k (n_sent n' d))"
    using ok out by (intro exI [of _ "gE g"]) simp
  moreover have "n_out n' d = concat (n_sent n' d)" if "gN g = gB g"
    using out ok len that by simp
  ultimately show ?thesis using ok by (simp add: p len)
qed

subsection \<open>Where the premises come from\<close>

text \<open>A link that is started, a slave or a master, has a fresh sender, and the lock keeps what the protocol
  reads.\<close>

lemma cache_new_empty: "cache_peek s (cache_new w) = None"
  by (simp add: cache_peek_def cache_new_def pending_init_def)

lemma lockOk_views: "tx_view (lockOk idx l) = tx_view l" "rx_view (lockOk idx l) = rx_view l"
  by (simp_all add: lockOk_def Let_def tx_view_def rx_view_def setSpdI_def changeState_def)

lemma reset_sweeping:
  assumes "l_state l \<noteq> OK"
  shows "l_arq (reset_unlocked c p r l) = l_arq l" "t_txSeq (l_t (reset_unlocked c p r l)) = t_txSeq (l_t l)"
    "rx_view (reset_unlocked c p r l) = rx_view l" "l_cache (reset_unlocked c p r l) = cache_clearAll (l_cache l)"
  using assms by (simp_all add: reset_unlocked_def Let_def frame_simps rx_view_def setSpdI_def)

lemma fresh_resetting: "fresh_tx l \<Longrightarrow> l_state l \<noteq> OK \<Longrightarrow> fresh_tx (reset_unlocked c p r l)"
  by (simp add: fresh_tx_def reset_sweeping acache.peek_clear)

definition slave_seeds :: "Link \<Rightarrow> bool" where
  "slave_seeds l \<longleftrightarrow> \<not> l_isMaster l \<and> \<not> s_wasEverOk (l_s l) \<and> cfg_mode (l_cfg l) = ASYNC"

lemma kickoff_views:
  assumes "l_state l \<noteq> OK" and "fresh_tx l" and "\<not> s_linkPaused (l_s l)"
  shows "fresh_tx (kickoff l)" "slave_seeds l \<Longrightarrow> seeded_rx (kickoff l)"
    "l_isMaster l \<Longrightarrow> rx_view (kickoff l) = rx_view l"
proof -
  show "slave_seeds l \<Longrightarrow> seeded_rx (kickoff l)"
    using assms by (simp add: kickoff_def slave_seeds_def seeded_rx_def rx_view_def resetSeq_def msgRx_reset_def
        changeState_def setSpdI_def l_clampBauds_def clampToMaxBauds_def Let_def)
  show "l_isMaster l \<Longrightarrow> rx_view (kickoff l) = rx_view l"
    using assms by (simp add: kickoff_def Let_def rx_view_def reset_sweeping(3) [unfolded rx_view_def prod.inject])
  show "fresh_tx (kickoff l)"
  proof (cases "l_isMaster l")
    case True
    then show ?thesis using assms by (simp add: kickoff_def Let_def fresh_tx_def reset_sweeping acache.peek_clear)
  next
    case False
    then show ?thesis
      using assms by (simp add: kickoff_def Let_def fresh_tx_def resetSeq_def msgRx_reset_def changeState_def
          setSpdI_def l_clampBauds_def)
  qed
qed

text \<open>The link that \<open>begin\<close> kicks off.\<close>

definition begun :: "Hal \<Rightarrow> int \<Rightarrow> bool \<Rightarrow> AutoLinkConfig \<Rightarrow> Link" where
  "begun h w m cfg =
     l_b_update (\<lambda>b. b\<lparr>b_breakSuspectMs := 0, b_breakSuspectSeen := 0\<rparr>)
      (changeState SWP (l_s_update (\<lambda>s. s\<lparr>s_kickedOff := False\<rparr>) (computeDwells (l_cache_update
        (cache_setWindow (begin_window (link_new h (cache_new w) m cfg) (h_txCap h))) (link_new h (cache_new w) m cfg)))))"

lemma begun_frame:
  "l_arq (begun h w m cfg) = arq_new" "l_state (begun h w m cfg) = SWP" "t_txSeq (l_t (begun h w m cfg)) = 0"
  "l_cache (begun h w m cfg) = cache_setWindow (begin_window (link_new h (cache_new w) m cfg) (h_txCap h)) (cache_new w)"
  "\<not> s_linkPaused (l_s (begun h w m cfg))" "\<not> s_wasEverOk (l_s (begun h w m cfg))" "l_cfg (begun h w m cfg) = cfg"
  "l_isMaster (begun h w m cfg) = m" "rx_view (begun h w m cfg) = (False, 0)"
  by (simp_all add: begun_def link_new_def computeDwells_def changeState_def rx_view_def)

lemma begun_facts:
  "l_state (begun h w m cfg) \<noteq> OK" "fresh_tx (begun h w m cfg)" "\<not> s_linkPaused (l_s (begun h w m cfg))"
  "\<not> s_wasEverOk (l_s (begun h w m cfg))" "l_cfg (begun h w m cfg) = cfg" "l_isMaster (begun h w m cfg) = m"
  "rx_view (begun h w m cfg) = (False, 0)"
  by (simp_all add: begun_frame fresh_tx_def arq_new_def arq_clearAll_def arq_isPending_def cache_setWindow_def
      cache_new_def cache_peek_def pending_init_def Let_def)

lemma begun_hw:
  "l_hw (begun h w m cfg) = h" "cache_clean (l_cache (begun h w m cfg))"
  using clean_new [of w] cache_inv_setWindow [OF cache_inv_new [of w]]
  by (simp_all add: begun_def link_new_def computeDwells_def changeState_def frame_simps cache_clean_def Let_def)
    (simp add: cache_setWindow_def cache_new_def pending_init_def Let_def)

lemma start_kicks_off:
  assumes "kWorstCaseCobsFrame \<le> int (h_txCap h)"
  shows "link_start h w m cfg = kickoff (begun h w m cfg)"
  using assms
  by (simp add: begun_def link_start_def link_begin_def link_new_def computeDwells_def changeState_def hal_txRingSize_def
      kWorstCaseCobsFrame_def swp_defs Let_def)

lemma reset_session_unseeds:
  assumes "l_state l = OK" and "s_wasEverOk (l_s l)"
  shows "rx_view (reset_unlocked c p r l) = (False, 0)"
  using assms
  by (simp add: reset_unlocked_def resetSession_def resetSeq_def resetCommon_def noteDisconnect_def changeState_def
      setSpdI_def msgRx_reset_def rx_view_def frame_simps Let_def)

text \<open>Only a slave that has never been locked expects the number 0. Started in ASYNC mode, a slave's
  receiver expects the number 0 and a master's takes whatever comes first, as does either's after the
  reset of a session.\<close>

theorem only_first_slave_seeded:
  assumes "kWorstCaseCobsFrame \<le> int (h_txCap h)" and "cfg_mode cfg = ASYNC"
    and "l_state l = OK" and "s_wasEverOk (l_s l)"
  shows "seeded_rx (link_start h w False cfg) \<and> \<not> r_rxSeqSet (l_r (link_start h w True cfg)) \<and>
    \<not> r_rxSeqSet (l_r (reset_unlocked c p r l)) \<and> fresh_tx (link_start h w m cfg)"
proof -
  note start = start_kicks_off [OF assms(1), of w] and facts = begun_facts [where h = h and w = w and cfg = cfg]
  have "seeded_rx (link_start h w False cfg)"
    unfolding start using assms(2) facts by (intro kickoff_views(2)) (simp_all add: slave_seeds_def)
  moreover have "rx_view (link_start h w True cfg) = (False, 0)"
    unfolding start using facts by (subst kickoff_views(3)) simp_all
  moreover have "rx_view (reset_unlocked c p r l) = (False, 0)" by (rule reset_session_unseeds [OF assms(3, 4)])
  moreover have "fresh_tx (link_start h w m cfg)"
    unfolding start using facts by (intro kickoff_views(1)) simp_all
  ultimately show ?thesis by (simp add: rx_view_def)
qed

text \<open>A message passes the guards only if the window holds all its chunks beside those pending, so each
  of them goes out while fewer than a window are pending.\<close>

lemma guards_room:
  assumes "sendMsg_guards len l = Inr l'" and "in_session l" and "len \<noteq> 0"
  shows "l' = l \<and> arq_pendingCount (l_arq l) + chunksForMsgLen len \<le> window_' (l_cache l)"
  using assms by (auto simp: sendMsg_guards_def refused_def in_session_def Let_def split: if_splits)

subsection \<open>A receiver that expects no number\<close>

text \<open>A receiver whose expected number is not seeded loses a first chunk for good when the wire
  loses it: the second chunk is then the first to arrive, is taken for the next in order, delivered and
  acknowledged, and its cumulative ACK makes the sender commit the lost chunk as well, so nothing
  is pending, nothing will be resent and the application misses the first chunk.\<close>

lemma loses_first:
  assumes idle: "net_idle d n" and room: "pair_room d n" and ch: "\<And>x. n_chan n x = []"
    and un: "\<not> r_rxSeqSet (l_r (n_link n (\<not> d)))" and ab: "chunks_ok [a, b]"
  shows "\<exists>n'. firm_step\<^sup>*\<^sup>* n n' \<and> n_sent n' d = [a, b] \<and> n_out n' d = b \<and>
    arq_pendingCount (l_arq (n_link n' d)) = 0 \<and> (\<forall>s. cache_peek s (l_cache (n_link n' d)) = None)"
proof -
  have ses: "in_session (n_link n x)" for x using room by (simp add: pair_room_def)
  let ?n = "net_drain n" and ?g1 = "gbn_init\<lparr>gN := 1\<rparr>" and ?g2 = "gbn_init\<lparr>gN := 2\<rparr>"
  have b: "a \<noteq> []" "length a \<le> nat MAX_CHUNK" "b \<noteq> []" "length b \<le> nat MAX_CHUNK" using ab by (simp_all add: chunks_ok_def)
  have start: "n_sent n d = []" "n_out n d = []" "tx_rel (n_link ?n d) [] gbn_init"
    using idle fresh_tx_rel [of "n_link n d"] tx_rel_view [of "drained (n_link n d)" "n_link n d"]
    by (simp_all add: net_idle_def)
  have cap: "kWorstCaseCobsFrame \<le> int (h_txCap (l_hw (n_link n x)))" for x using room by (simp add: pair_room_def)
  have none: "cache_peek s (l_cache (n_link ?n d)) = None" for s using start(3) by (auto simp: tx_rel_def gbn_init_def)
  have fr: "2 \<le> cache_freeRoom (l_cache (n_link ?n d))" "cache_hasRoom (l_cache (n_link ?n d))"
    using clean_room [OF _ none] room by (simp_all add: pair_room_def)
  obtain n1 where 1: "calm_step ?n n1" "in_session (n_link n1 d)" "n_link n1 (\<not> d) = n_link ?n (\<not> d)"
      "tx_rel (n_link n1 d) (n_sent ?n d @ [a]) (gbn_init\<lparr>gN := gN gbn_init + 1\<rparr>)" "keeps_room (n_link ?n d) (n_link n1 d)"
      "n_chan n1 (\<not> d) = n_chan ?n (\<not> d) @ [OnPayload (seqOf (gN gbn_init)) a]" "n_chan n1 d = n_chan ?n d"
      "n_sent n1 d = n_sent ?n d @ [a]" "n_out n1 d = n_out ?n d"
      "cache_freeRoom (l_cache (n_link ?n d)) - 1 \<le> cache_freeRoom (l_cache (n_link n1 d))"
    by (rule send_phase [of ?n d gbn_init a]) (use start b fr cap ses in \<open>simp_all add: gbn_init_def\<close>)
  have ses1: "in_session (n_link n1 x)" for x by (rule both_sides [of _ d]) (use 1 ses in simp_all)
  define n2 where "n2 = net_drain (net_take (\<not> d) ([] @ []) n1)"
  have lost: "firm_step n1 (net_take (\<not> d) ([] @ []) n1)"
    by (rule firm_step.lose [where e = "OnPayload (seqOf (gN gbn_init)) a"]) (use 1(6) ch in simp)
  have 2: "n_chan n2 x = []" "n_link n2 x = drained (n_link n1 x)" "n_sent n2 d = [a]" "n_out n2 d = []" for x
    using 1 ch start by (auto simp: n2_def net_take_def)
  have tx2: "tx_rel (n_link n2 d) (n_sent n2 d) ?g1"
    using 1(4) tx_rel_view [of "drained (n_link n1 d)" "n_link n1 d"] start(1) by (simp add: 2 gbn_init_def)
  obtain n3 where 3: "calm_step n2 n3" "in_session (n_link n3 d)" "n_link n3 (\<not> d) = n_link n2 (\<not> d)"
      "tx_rel (n_link n3 d) (n_sent n2 d @ [b]) (?g1\<lparr>gN := gN ?g1 + 1\<rparr>)" "keeps_room (n_link n2 d) (n_link n3 d)"
      "n_chan n3 (\<not> d) = n_chan n2 (\<not> d) @ [OnPayload (seqOf (gN ?g1)) b]" "n_chan n3 d = n_chan n2 d"
      "n_sent n3 d = n_sent n2 d @ [b]" "n_out n3 d = n_out n2 d"
    by (rule send_phase [of n2 d ?g1 b])
      (use tx2 b fr cap ses1 1(5, 10) in \<open>simp_all add: 2 gbn_init_def cache_hasRoom_iff keeps_room_def\<close>)
  have ses3: "in_session (n_link n3 x)" for x by (rule both_sides [of _ d]) (use 3 2 ses1 in simp_all)
  have r3: "n_link n3 (\<not> d) = drained (drained (n_link n (\<not> d)))" by (simp add: 3(3) 2(2) 1(3))
  have ord3: "in_order (seqOf 1) (n_link n3 (\<not> d))" using un by (simp add: r3 in_order_def drained_def)
  have app3: "int (length b) \<le> hal_appBufFree (l_hw (n_link n3 (\<not> d)))"
    using app_room [OF room, of b] b(4) by (simp add: r3 drained_def wire_defs)
  have ch3: "n_chan n3 (\<not> d) = OnPayload (seqOf 1) b # []" using 3(6) 2(1) by (simp add: gbn_init_def)
  obtain n4 where 4: "calm_step n3 n4" "in_session (n_link n4 (\<not> d))" "n_link n4 d = n_link n3 d"
      "n_chan n4 (\<not> d) = []" "n_chan n4 d = n_chan n3 d @ [OnAck (seqOf 1) (of_nat (length b))]"
      "n_sent n4 d = n_sent n3 d" "n_out n4 d = n_out n3 d @ b"
    by (rule deliver_phase [OF ses3 ch3 b(3) ord3 _ _ app3]) (use cap in \<open>simp_all add: r3\<close>)
  have ses4: "in_session (n_link n4 x)" for x by (rule both_sides [of _ d]) (use 4 ses3 in simp_all)
  have tx4: "tx_rel (n_link n4 d) (n_sent n4 d) ?g2"
    using 3(4) by (simp add: 4(3, 6) 3(8) gbn_init_def numeral_2_eq_2)
  obtain n5 where 5: "calm_step n4 n5" "tx_rel (n_link n5 d) (n_sent n4 d) (?g2\<lparr>gB := 1 + 1\<rparr>)"
      "n_sent n5 d = n_sent n4 d" "n_out n5 d = n_out n4 d"
    by (rule ack_phase [of n4 d 1 "of_nat (length b)" "[]" ?g2])
      (use ses4 4(5) 3(7) 2(1) tx4 in \<open>simp_all add: gbn_init_def\<close>)
  have steps: "firm_step ?n n1" "firm_step n2 n3" "firm_step n3 n4" "firm_step n4 n5"
    using 1(1) 3(1) 4(1) 5(1) by (simp_all add: firm_step.calm)
  have "firm_step\<^sup>*\<^sup>* n ?n" "firm_step\<^sup>*\<^sup>* (net_take (\<not> d) ([] @ []) n1) n2"
    unfolding n2_def by (rule calm_firm [OF drain_both])+
  with steps lost have "firm_step\<^sup>*\<^sup>* n n5"
    by (meson converse_rtranclp_into_rtranclp rtranclp.rtrancl_into_rtrancl rtranclp_trans)
  moreover have "arq_pendingCount (l_arq (n_link n5 d)) = 0"
    using tx_rel_pendingCount [OF 5(2)] by simp
  moreover have "cache_peek s (l_cache (n_link n5 d)) = None" for s using 5(2) by (auto simp: tx_rel_def)
  ultimately show ?thesis using 5(3, 4) 4(6, 7) 3(8, 9) 2(3, 4) by (intro exI [of _ n5]) simp
qed

subsection \<open>Witnesses\<close>

text \<open>The two demo links, just locked, with both receivers seeded or not.\<close>

definition demo_side :: "bool \<Rightarrow> bool \<Rightarrow> Link" where
  "demo_side seed m = l_r_update (\<lambda>r. if seed then r\<lparr>r_rxSeqSet := True, r_rxSeq := COBS_SEQ_MAX\<rparr> else r) (demo_link m)"

definition demo_pair :: "bool \<Rightarrow> Net" where
  "demo_pair seed = \<lparr>n_link = demo_side seed, n_chan = (\<lambda>_. []), n_sent = (\<lambda>_. []), n_out = (\<lambda>_. [])\<rparr>"

lemma demo_side_session: "in_session (demo_side seed m)"
  using demo_inv [of m] by (simp add: in_session_def demo_side_def link_inv_def linv_def rx_inv_def)

lemma demo_side_fresh: "fresh_tx (demo_side seed m)"
  by (simp add: fresh_tx_def demo_side_def arq_new_def arq_clearAll_def arq_isPending_def cache_new_empty)

lemma demo_pair_simps [simp]:
  "n_link (demo_pair seed) = demo_side seed" "n_chan (demo_pair seed) x = []"
  "n_sent (demo_pair seed) x = []" "n_out (demo_pair seed) x = []"
  by (simp_all add: demo_pair_def)

lemma demo_pair_idle: "net_idle d (demo_pair seed)"
  by (simp add: net_idle_def demo_side_session demo_side_fresh)

lemma demo_pair_ready: "net_ready d (demo_pair True)"
  by (simp add: net_ready_def demo_pair_idle seeded_rx_def rx_view_def demo_side_def)

lemma demo_pair_room: "pair_room d (demo_pair seed)"
  using clean_new [of 8]
  by (simp add: pair_room_def demo_side_session) (simp add: demo_side_def demo_hal_def wire_defs)

lemma demo_side_unseeded: "\<not> r_rxSeqSet (l_r (demo_side False m))"
  by (simp add: demo_side_def demo_link_def link_new_def)

lemma demo_run: "chunks_ok [[1, 2, 3]]"
  by (simp add: chunks_ok_def wire_defs)

theorem pair_refines_gbn_witness:
  "\<exists>n' g. n_out n' True = [1, 2, 3] \<and> (gbn_step 32)\<^sup>*\<^sup>* gbn_init g \<and> dir_rel True n' g"
proof -
  obtain n' where "net_step\<^sup>*\<^sup>* (demo_pair True) n'" "n_out n' True = [1, 2, 3]"
    using calm_run [OF demo_pair_ready demo_pair_room _ demo_run, of True] by auto
  with pair_refines_gbn [OF demo_pair_ready [of True] this(1)] show ?thesis by blast
qed

theorem pair_delivers_witness:
  "\<exists>n' :: Net. n_sent n' True = [[1, 2, 3]] \<and> arq_pendingCount (l_arq (n_link n' True)) = 0 \<and> n_out n' True = [1, 2, 3]"
proof -
  obtain n' where n': "net_step\<^sup>*\<^sup>* (demo_pair True) n'" "n_sent n' True = [[1, 2, 3]]"
      "arq_pendingCount (l_arq (n_link n' True)) = 0"
    using calm_run [OF demo_pair_ready demo_pair_room _ demo_run, of True] by auto
  then have "n_out n' True = [1, 2, 3]" using pair_delivers [OF demo_pair_ready [of True] n'(1)] by simp
  with n' show ?thesis by blast
qed

theorem only_first_slave_seeded_witness:
  "seeded_rx (link_start demo_hal 8 False demo_cfg) \<and> \<not> r_rxSeqSet (l_r (link_start demo_hal 8 True demo_cfg))"
  using only_first_slave_seeded [of demo_hal demo_cfg "l_s_update (\<lambda>s. s\<lparr>s_wasEverOk := True\<rparr>) (demo_link True)" 8]
  by (simp add: wire_defs)

end
