(* ===== verification/LinkPowerOn.thy ===== *)
theory LinkPowerOn
  imports LinkPairProps
begin

text \<open>
  From power-on to delivered bytes: two links that are started find each other
  (\<open>LinkConverge\<close>), and what they are then is the start of a session (\<open>LinkPairRun\<close>) in the
  direction from the master to the slave; in the other direction the receiver is not seeded.
\<close>

subsection \<open>The start\<close>

lemma rounds_inv:
  assumes "rounds k (a, b) = Some (a', b')" and "link_inv a" and "link_inv b"
  shows "link_inv a' \<and> link_inv b'"
proof -
  have em: "link_inv (hw (\<lambda>h. h\<lparr>h_txBuf := []\<rparr>) l)" if "link_inv l" for l
    using that by (auto simp: link_inv_def linv_def hal_inv_def split: option.splits)
  have hd: "link_inv x' \<and> link_inv y'" if "hand x y = Some (x', y')" "link_inv x" "link_inv y" for x y x' y'
    using that em onRx_total [of y "wire x"] by (auto simp: hand_def split: option.splits)
  have ex: "link_inv x' \<and> link_inv y'" if "exchange (x, y) = Some (x', y')" "link_inv x" "link_inv y" for x y x' y'
    using that hd by (fastforce simp: exchange_def split: option.splits)
  show ?thesis
    using assms
  proof (induction k arbitrary: a b)
    case (Suc k)
    then obtain x y where xy: "exchange (a, b) = Some (x, y)" "rounds k (x, y) = Some (a', b')"
      by (auto split: option.splits)
    then show ?case using Suc.IH [OF xy(2)] ex [OF xy(1) Suc.prems(2, 3)] by blast
  qed simp
qed

lemma core_restart [simp]:
  "core (enterPhase1 l) = core l" "core (resetSweep p l) = core l" "core (resetCommon l) = core l"
  "core (hw hal_discardTx l) = core l"
  by (simp_all add: enterPhase1_def resetSweep_def resetCommon_def Let_def) (simp_all add: core_def msgRx_reset_def
      hal_discardTx_def)

lemma core_cache: "core l' = core l \<Longrightarrow> core (l_cache_update f l') = core (l_cache_update f l)"
  by (simp add: core_def)

lemma core_reset:
  assumes "l_state l \<noteq> OK"
  shows "core (reset_unlocked c p r l) = core (l_cache_update cache_clearAll l)"
proof -
  have "core (reset_unlocked c p r l) = core (hw hal_discardTx (l_cache_update cache_clearAll l))"
    using assms unfolding reset_unlocked_def Let_def core_restart(4)
    by (intro core_cache) simp
  then show ?thesis by simp
qed

definition caps :: "Link \<Rightarrow> Mode \<times> nat \<times> nat option" where
  "caps l = (cfg_mode (l_cfg l), h_txCap (l_hw l), h_appBufCap (l_hw l))"

lemma core_caps: "core l' = core l \<Longrightarrow> caps l' = caps l \<and> l_cache l' = l_cache l"
  by (simp add: core_def caps_def)

lemma clean_clear: "cache_inv c \<Longrightarrow> cache_clean (cache_clearAll c)"
  by (simp add: cache_clean_def acache.inv_clear) (simp add: cache_clearAll_def pending_init_def)

lemma kickoff_core:
  assumes "l_state l \<noteq> OK" and "\<not> s_linkPaused (l_s l)"
  shows "caps (kickoff l) = caps l" "cache_clean (l_cache l) \<Longrightarrow> cache_clean (l_cache (kickoff l))"
proof -
  let ?m = "l_b_update (\<lambda>b. b\<lparr>b_breakStormSeen := False\<rparr>) (l_s_update (\<lambda>s. s\<lparr>s_kickedOff := True\<rparr>) l)"
  have *: "caps (kickoff l) = caps l \<and> (cache_clean (l_cache l) \<longrightarrow> cache_clean (l_cache (kickoff l)))"
  proof (cases "l_isMaster l")
    case True
    have r: "core (reset_unlocked False False Kickoff ?m) = core (l_cache_update cache_clearAll ?m)"
      using assms by (intro core_reset) simp
    have "caps (reset_unlocked False False Kickoff ?m) = caps ?m \<and>
        l_cache (reset_unlocked False False Kickoff ?m) = cache_clearAll (l_cache ?m)"
      using core_caps [OF r] by (simp add: caps_def)
    then show ?thesis
      using assms True clean_clear [of "l_cache l"]
      by (simp add: kickoff_def Let_def caps_def cache_clean_def hal_sendBreak_def)
  next
    case False
    then show ?thesis
      using assms
      by (simp add: kickoff_def Let_def resetSeq_def msgRx_reset_def changeState_def setSpdI_def l_clampBauds_def caps_def
          clamp_mode frame_simps)
  qed
  then show "caps (kickoff l) = caps l" "cache_clean (l_cache l) \<Longrightarrow> cache_clean (l_cache (kickoff l))" by simp_all
qed

text \<open>A board with an empty ring that holds a frame, a queue that holds a chunk, and a configuration.\<close>

definition board :: "Hal \<Rightarrow> AutoLinkConfig \<Rightarrow> bool" where
  "board h cfg \<longleftrightarrow> hal_inv h \<and> h_txBuf h = [] \<and> kWorstCaseCobsFrame \<le> int (h_txCap h) \<and>
     (case h_appBufCap h of None \<Rightarrow> True | Some cap \<Rightarrow> nat MAX_CHUNK \<le> cap) \<and>
     0 < clampedCount cfg \<and> cfg_mode cfg = ASYNC"

lemma board_started:
  assumes "board h cfg"
  shows "link_inv (link_start h w m cfg)" "caps (link_start h w m cfg) = (ASYNC, h_txCap h, h_appBufCap h)"
    "cache_clean (l_cache (link_start h w m cfg))" "fresh_tx (link_start h w m cfg)"
    "rx_view (link_start h w False cfg) = (True, COBS_SEQ_MAX)" "rx_view (link_start h w True cfg) = (False, 0)"
proof -
  have cap: "kWorstCaseCobsFrame \<le> int (h_txCap h)" and async: "cfg_mode cfg = ASYNC" using assms by (simp_all add: board_def)
  note start = start_kicks_off [OF cap, of w] and facts = begun_facts [where h = h and w = w and cfg = cfg]
  show "link_inv (link_start h w m cfg)"
    by (rule inv_reachable [OF _ rtranclp.rtrancl_refl]) (use assms in \<open>simp add: board_def\<close>)
  show "caps (link_start h w m cfg) = (ASYNC, h_txCap h, h_appBufCap h)"
    using kickoff_core(1) [OF facts(1, 3), of m] begun_hw(1) [of h w m cfg] facts(5) [of m] async
    by (simp add: start caps_def)
  show "cache_clean (l_cache (link_start h w m cfg))"
    using kickoff_core(2) [OF facts(1, 3) begun_hw(2)] by (simp add: start)
  show "fresh_tx (link_start h w m cfg)" using kickoff_views(1) [OF facts(1, 2, 3)] by (simp add: start)
  show "rx_view (link_start h w False cfg) = (True, COBS_SEQ_MAX)"
    using kickoff_views(2) [OF facts(1, 2, 3), of False] facts async by (simp add: start slave_seeds_def seeded_rx_def)
  show "rx_view (link_start h w True cfg) = (False, 0)"
    using kickoff_views(3) [OF facts(1, 2, 3), of True] facts by (simp add: start)
qed

text \<open>The pair as the exchange leaves it, nothing on the wires.\<close>

definition locked_pair :: "Link \<Rightarrow> Link \<Rightarrow> Net" where
  "locked_pair m s = \<lparr>n_link = (\<lambda>x. if x then m else s), n_chan = (\<lambda>_. []), n_sent = (\<lambda>_. []), n_out = (\<lambda>_. [])\<rparr>"

lemma started_pair:
  assumes "board hm cm" and "board hs cs"
  obtains m s where "rounds 4 (link_start hm wm True cm, link_start hs ws False cs) = Some (m, s)"
    "net_ready True (locked_pair m s)" "net_idle False (locked_pair m s)" "\<And>d. pair_room d (locked_pair m s)"
    "\<not> r_rxSeqSet (l_r m)"
proof -
  note bm = board_started [OF assms(1), of wm] and bs = board_started [OF assms(2), of ws]
  let ?m = "link_start hm wm True cm" and ?s = "link_start hs ws False cs"
  obtain m s where ms: "rounds 4 (?m, ?s) = Some (m, s)" "locked_fast m" "core m = core ?m" "locked_fast s" "core s = core ?s"
    using rounds_converge [of ?m ?s] start_master [of hm cm wm] start_slave [of hs cs ws] assms by (auto simp: board_def)
  have inv: "link_inv m" "link_inv s" using rounds_inv [OF ms(1) bm(1) bs(1)] by simp_all
  have caps: "caps m = (ASYNC, h_txCap hm, h_appBufCap hm)" "caps s = (ASYNC, h_txCap hs, h_appBufCap hs)"
    and clean: "cache_clean (l_cache m)" "cache_clean (l_cache s)"
    using core_caps [OF ms(3)] core_caps [OF ms(5)] bm(2) [of True] bm(3) [of True] bs(2) [of False] bs(3) [of False]
    by simp_all
  have fresh: "fresh_tx m" "fresh_tx s"
    using ms(3, 5) bm(4) [of True] bs(4) [of False] by (simp_all add: fresh_tx_def core_def)
  have views: "rx_view m = (False, 0)" "rx_view s = (True, COBS_SEQ_MAX)"
    using ms(3, 5) bm(6) bs(5) by (simp_all add: rx_view_def core_def)
  have ses: "in_session (n_link (locked_pair m s) x)" for x
    using inv ms(2, 4) caps by (simp add: locked_pair_def in_session_def locked_fast_def caps_def)
  show thesis
  proof (rule that [OF ms(1)])
    show "net_ready True (locked_pair m s)" "net_idle False (locked_pair m s)"
      using ses fresh views by (simp_all add: net_ready_def net_idle_def locked_pair_def seeded_rx_def)
    show "pair_room d (locked_pair m s)" for d
      using ses clean caps assms
      by (simp add: pair_room_def locked_pair_def caps_def board_def split: option.splits)
    show "\<not> r_rxSeqSet (l_r m)" using views(1) by (simp add: rx_view_def)
  qed
qed

subsection \<open>From power-on to delivered bytes\<close>

lemma locked_pair_empty: "n_chan (locked_pair m s) x = []" "n_link (locked_pair m s) True = m"
  by (simp_all add: locked_pair_def)

text \<open>C26: from power-on to delivered bytes. Two boards in ASYNC mode, a master and a slave, are started; over a
  wire that delivers every control frame they are locked after four exchanges, and from there
  any number of chunks from the master's application reaches the slave's, every byte, with
  nothing left pending, by sends, arriving frames and drained buffers only.\<close>

theorem power_on_delivers:
  assumes "board hm cm" and "board hs cs" and "chunks_ok chunks"
  shows "\<exists>m s n'. rounds 4 (link_start hm wm True cm, link_start hs ws False cs) = Some (m, s) \<and>
    calm_step\<^sup>*\<^sup>* (locked_pair m s) n' \<and> n_sent n' True = chunks \<and> n_out n' True = concat chunks \<and>
    arq_pendingCount (l_arq (n_link n' True)) = 0"
proof -
  obtain m s where ms: "rounds 4 (link_start hm wm True cm, link_start hs ws False cs) = Some (m, s)"
      "net_ready True (locked_pair m s)" "pair_room True (locked_pair m s)"
    using started_pair [OF assms(1, 2), of wm ws] by metis
  show ?thesis using ms(1) calm_run [OF ms(2, 3) locked_pair_empty(1) assms(3)] by blast
qed

text \<open>C29: in the other direction the first chunk can be lost for good right after power-on: the master's
  receiver is not seeded, so when the wire loses the slave's first chunk and delivers the second, the
  second is handed over and acknowledged, the ACK commits both, nothing is pending and the master's
  application misses the first.\<close>

theorem power_on_loses_first:
  assumes "board hm cm" and "board hs cs" and "chunks_ok [a, b]"
  shows "\<exists>m s n'. rounds 4 (link_start hm wm True cm, link_start hs ws False cs) = Some (m, s) \<and>
    firm_step\<^sup>*\<^sup>* (locked_pair m s) n' \<and> n_sent n' False = [a, b] \<and> n_out n' False = b \<and>
    arq_pendingCount (l_arq (n_link n' False)) = 0"
proof -
  obtain m s where ms: "rounds 4 (link_start hm wm True cm, link_start hs ws False cs) = Some (m, s)"
      "net_idle False (locked_pair m s)" "pair_room False (locked_pair m s)" "\<not> r_rxSeqSet (l_r m)"
    using started_pair [OF assms(1, 2), of wm ws] by metis
  have "\<not> r_rxSeqSet (l_r (n_link (locked_pair m s) (\<not> False)))" using ms(4) by (simp add: locked_pair_empty)
  from loses_first [OF ms(2, 3) locked_pair_empty(1) this assms(3)] ms(1) show ?thesis by blast
qed

lemma demo_board: "board demo_hal demo_cfg"
  by (simp add: board_def demo_hal_inv) (simp add: demo_hal_def demo_cfg_def config_default_def clampedCount_def wire_defs Let_def)

theorem power_on_delivers_witness:
  "\<exists>m s n'. rounds 4 (link_start demo_hal 8 True demo_cfg, link_start demo_hal 8 False demo_cfg) = Some (m, s) \<and>
    calm_step\<^sup>*\<^sup>* (locked_pair m s) n' \<and> n_out n' True = [1, 2, 3]"
proof -
  have "chunks_ok [[1], [2, 3]]" by (simp add: chunks_ok_def wire_defs)
  from power_on_delivers [OF demo_board demo_board this, of 8 8] show ?thesis by auto
qed

theorem power_on_loses_first_witness:
  "\<exists>m s n'. rounds 4 (link_start demo_hal 8 True demo_cfg, link_start demo_hal 8 False demo_cfg) = Some (m, s) \<and>
    firm_step\<^sup>*\<^sup>* (locked_pair m s) n' \<and> n_sent n' False = [[1], [2]] \<and> n_out n' False = [2]"
proof -
  have "chunks_ok [[1], [2]]" by (simp add: chunks_ok_def wire_defs)
  from power_on_loses_first [OF demo_board demo_board this, of 8 8] show ?thesis by blast
qed

end
