(* ===== verification/LinkPairRecover.thy ===== *)
theory LinkPairRecover
  imports LinkPowerOn
begin

text \<open>
  Losses are repaired: whatever a pair of links has gone through, and even if everything on its way is
  lost, a pass of the retransmission timer that resends makes progress as soon as its first frame
  and the answer get through.
\<close>

subsection \<open>A repeated chunk is answered\<close>

lemma stale_goes:
  assumes "kWorstCaseCobsFrame \<le> hal_txAvail (l_hw l)" and "diff = 0 \<or> 254 - diff \<le> 64"
  shows "wire (snd (onPayload_stale s b diff l)) = wire l @ ackWire s (of_nat (length b))"
proof -
  have "\<not> (diff \<noteq> 0 \<and> 2 * AUTOLINK_ARQ_PIPELINE_WINDOW < LD_SEQ_WRAP - diff)"
    using assms(2) by (auto simp: LD_SEQ_WRAP_def wire_defs)
  then show ?thesis using assms(1) by (auto simp: onPayload_stale_def sendAck_goes Let_def)
qed

lemma stale_diff:
  assumes "classifyGap c r True = (Stale, diff)" and "unat c < 254" and "unat r < 254"
  shows "diff = seqDist r c"
proof -
  have "(let d = int (unat c) - int (unat r) in if d < 0 then d + LD_SEQ_WRAP else d) = seqDist r c"
    using assms(2, 3) by (simp add: seqDist_eq LD_SEQ_WRAP_def Let_def)
  then show ?thesis using assms(1) by (simp add: classifyGap_def Let_def split: if_splits)
qed

text \<open>The chunk at the sender's base has been delivered or is the one expected; either way its ACK goes
  out.\<close>

lemma base_answered:
  assumes ses: "in_session l" and rx: "rx_rel l out sent g" and e: "i \<le> gE g" "gE g \<le> i + 32" and b: "b \<noteq> []"
    and room: "int (length b) \<le> hal_appBufFree (l_hw l)" "kWorstCaseCobsFrame \<le> hal_txAvail (l_hw l)"
  shows "newFrames l (snd (onPayload (seqOf i) b l)) = [OnAck (seqOf i) (of_nat (length b))]"
proof -
  have r: "r_rxSeqSet (l_r l)" "r_rxSeq (l_r l) = seqOf (gE g + 253)" using rx by (simp_all add: rx_rel_def)
  show ?thesis
  proof (cases "i = gE g")
    case True
    have "reorderExpectedSeq l = seqOf (gE g)"
      using nextSeq_seqOf [of "gE g + 253"] r by (simp add: reorderExpectedSeq_def nextSeq_def split: if_splits)
    then have "in_order (seqOf i) l" using True by (simp add: in_order_def)
    then show ?thesis using payload_goes(3) [OF ses b _ _ _ room] by simp
  next
    case False
    define x where "x = l_r_update (\<lambda>r. r\<lparr>r_lastValidRxMs := l_now l, r_lastRxSeq := seqOf i\<rparr>) (noteValidFrameOk l)"
    obtain diff where cls: "classifyGap (seqOf i) (seqOf (gE g + 253)) True = (Stale, diff)"
      using classify_index [of i "gE g"] e False by (metis le_neq_implies_less prod.collapse trans_less_add1)
    have "diff = seqDist (seqOf (gE g + 253)) (seqOf i)"
      by (rule stale_diff [OF cls]) simp_all
    then have d: "diff = 0 \<or> 254 - diff \<le> 64"
      using seqDist_index [of i "gE g"] e False by (auto simp: of_nat_diff)
    have p: "onPayload (seqOf i) b l = onPayload_stale (seqOf i) b diff x"
      using ses cls r by (simp add: onPayload_def Let_def frame_simps x_def in_session_def)
    have "wire (snd (onPayload (seqOf i) b l)) = wire l @ ackWire (seqOf i) (of_nat (length b))"
      unfolding p using stale_goes [OF _ d, of x "seqOf i" b] room(2) by (simp add: x_def frame_simps)
    then have "puts [WAck (seqOf i) (of_nat (length b))] l (snd (onPayload (seqOf i) b l))" by (simp add: puts_def)
    from puts_newFrames [OF this] show ?thesis by simp
  qed
qed

subsection \<open>A resend that gets through\<close>

text \<open>A quiet moment: the rings have been sent and the queues read, and everything on its way is lost. Then one pass
  of the retransmission sweep at a side, and the arrival of the first frame on the way to a side.\<close>

definition net_quiet :: "Net \<Rightarrow> Net" where
  "net_quiet n = (net_drain n)\<lparr>n_chan := (\<lambda>_. [])\<rparr>"

definition net_timer :: "bool \<Rightarrow> u32 \<Rightarrow> Net \<Rightarrow> Net" where
  "net_timer x now n = net_act x (snd (sweepRetx now (n_link n x))) n"

definition net_recv :: "bool \<Rightarrow> Net \<Rightarrow> Net" where
  "net_recv x n = (case n_chan n x of
       [] \<Rightarrow> n
     | e # es \<Rightarrow> net_act x (fst (link_listener e (n_link n x))) (net_take x es n))"

text \<open>The pass of the sender \<open>d\<close>, the arrival of its first frame, the arrival of the answer.\<close>

definition resend_run :: "bool \<Rightarrow> u32 \<Rightarrow> Net \<Rightarrow> Net" where
  "resend_run d now n = net_recv d (net_recv (\<not> d) (net_timer d now (net_quiet n)))"

lemma net_quiet_firm: "firm_step\<^sup>*\<^sup>* n (net_quiet n)"
proof -
  have "net_quiet n = net_take True [] (net_take False [] (net_drain n))"
    by (auto simp: net_quiet_def net_take_def fun_eq_iff intro!: arg_cong [of _ _ "\<lambda>f. (net_drain n)\<lparr>n_chan := f\<rparr>"])
  then show ?thesis
    using calm_firm [OF drain_both [of n]] lose_all [of "net_drain n" False] lose_all [of "net_take False [] (net_drain n)" True]
    by (metis rtranclp_trans)
qed

text \<open>Rings that hold a frame and a queue that holds a chunk.\<close>

definition net_caps :: "bool \<Rightarrow> Net \<Rightarrow> bool" where
  "net_caps d n \<longleftrightarrow> (\<forall>x. kWorstCaseCobsFrame \<le> int (h_txCap (l_hw (n_link n x)))) \<and>
     (\<forall>cap. h_appBufCap (l_hw (n_link n (\<not> d))) = Some cap \<longrightarrow> nat MAX_CHUNK \<le> cap)"

lemma resend_round:
  assumes rel: "dir_rel d n g" and caps: "net_caps d n" and pend: "gB g < gN g"
    and sw: "sweepRetx now (drained (n_link n d)) = (brk, l')" and st: "l_state l' = OK" and out: "wire l' \<noteq> []"
  shows "firm_step\<^sup>*\<^sup>* n (resend_run d now n) \<and> tx_rel (n_link (resend_run d now n) d) (n_sent n d) (g\<lparr>gB := gB g + 1\<rparr>) \<and>
    n_sent (resend_run d now n) d = n_sent n d"
proof -
  let ?l = "drained (n_link n d)" and ?r = "drained (n_link n (\<not> d))" and ?B = "gB g"
  have half: "link_half (n_link n d) (n_link n (\<not> d)) (n_out n d) (n_sent n d) (n_chan n (\<not> d)) (n_chan n d) g"
    by (rule dir_relD(2) [OF rel refl])
  have ses: "in_session ?l" "in_session ?r" using dir_relD(1) [OF rel] by simp_all
  have ok: "?B \<le> gE g" "gE g \<le> gN g" "gN g \<le> ?B + 32" using half gbn_ok_order [of 32 g] by (simp_all add: link_half_def)
  have tx: "tx_rel ?l (n_sent n d) g"
    using half tx_rel_view [of ?l "n_link n d"] by (simp add: link_half_def)
  have rx: "rx_rel ?r (n_out n d) (n_sent n d) g"
    using half rx_rel_view [of ?r "n_link n (\<not> d)"] by (simp add: link_half_def)
  have sent: "\<forall>b \<in> set (n_sent n d). b \<noteq> [] \<and> length b \<le> nat MAX_CHUNK" using half by (simp add: link_half_def)
  note win = tx_rel_window [OF tx ok(3) sent]
  have inv: "link_inv ?l" "link_inv l'" using session_inv(3) [of ?l now] ses sw by (simp_all add: in_session_def)
  have re: "resent ?l l'" by (rule sweepRetx_op [OF win(1) sw st])
  have kr: "keeps_rx ?l l'" using re by (simp add: resent_def)
  have ses': "in_session l'" by (rule sessionI(2) [OF ses(1) inv(2) kr])
  have tx': "tx_rel l' (n_sent n d) g" using re tx tx_rel_view [of l' ?l] by (simp add: resent_def)
  obtain j where j: "j \<le> nat (arq_pendingCount (l_arq ?l))"
      "puts (run_frames (\<lambda>t. cache_peek t (l_cache ?l)) (seqRun (gbnBase_' (l_arq ?l)) j)) ?l l'"
    using re unfolding resent_def by blast
  have j0: "j \<noteq> 0"
  proof
    assume "j = 0"
    then have "wire l' = wire ?l" using j(2) by (simp add: puts_def run_frames_def seqRun_def)
    then show False using out by simp
  qed
  have "newFrames ?l l' = map (\<lambda>i. OnPayload (seqOf i) (n_sent n d ! i)) [?B..<?B + j]"
    using puts_newFrames [OF j(2)] win(2) [OF j(1)] j0 by simp
  moreover have "[?B..<?B + j] = ?B # [Suc ?B..<?B + j]" using j0 by (simp add: upt_conv_Cons)
  ultimately obtain es where es: "newFrames ?l l' = OnPayload (seqOf ?B) (n_sent n d ! ?B) # es" by simp
  define b where "b = n_sent n d ! ?B"
  have b: "b \<noteq> []" "length b \<le> nat MAX_CHUNK"
    using sent tx pend by (simp_all add: b_def tx_rel_def)
  define n2 where "n2 = net_quiet n"
  have 2: "n_link n2 x = drained (n_link n x)" "n_chan n2 x = []" "n_sent n2 = n_sent n" for x
    by (simp_all add: n2_def net_quiet_def)
  have run2: "firm_step\<^sup>*\<^sup>* n n2" unfolding n2_def by (rule net_quiet_firm)
  define n3 where "n3 = net_timer d now n2"
  have n3: "n3 = net_act d l' n2" using sw by (simp add: n3_def net_timer_def 2)
  have run3: "firm_step n2 n3" unfolding n3 by (rule firm_step.timeout [where brk = brk, OF _ st]) (use sw in \<open>simp add: 2\<close>)
  have 3: "n_link n3 d = l'" "n_link n3 (\<not> d) = ?r" "n_chan n3 d = []" "n_chan n3 (\<not> d) = OnPayload (seqOf ?B) b # es"
    "n_sent n3 = n_sent n"
    by (simp_all add: n3 net_act_def 2 es b_def)
  have "int (length b) \<le> hal_appBufFree (l_hw ?r)"
    using caps b(2) by (auto simp: net_caps_def hal_appBufFree_def drained_def INT32_MAX_def wire_defs split: option.splits)
  moreover have "kWorstCaseCobsFrame \<le> hal_txAvail (l_hw ?r)" using caps by (simp add: net_caps_def)
  ultimately have ans: "newFrames ?r (snd (onPayload (seqOf ?B) b ?r)) = [OnAck (seqOf ?B) (of_nat (length b))]"
    using ok by (intro base_answered [OF ses(2) rx _ _ b(1)]) simp_all
  define n4 where "n4 = net_recv (\<not> d) n3"
  have lis: "link_listener (OnPayload (seqOf ?B) b) (n_link n3 (\<not> d)) =
      (snd (onPayload (seqOf ?B) b ?r), fst (onPayload (seqOf ?B) b ?r))"
    by (simp add: link_listener_def split_beta 3)
  have n4: "n4 = net_act (\<not> d) (snd (onPayload (seqOf ?B) b ?r)) (net_take (\<not> d) es n3)"
    using lis by (simp add: n4_def net_recv_def 3(4))
  have run4: "calm_step n3 n4" unfolding n4 by (rule calm_step.receive [OF 3(4) lis]) simp
  have 4: "n_link n4 d = l'" "n_chan n4 d = [OnAck (seqOf ?B) (of_nat (length b))]" "n_sent n4 = n_sent n"
    using ans by (simp_all add: n4 net_act_def net_take_def 3)
  define n5 where "n5 = net_recv d n4"
  have lis5: "link_listener (OnAck (seqOf ?B) (of_nat (length b))) (n_link n4 d) =
      (snd (onAck (seqOf ?B) (of_nat (length b)) l'), fst (onAck (seqOf ?B) (of_nat (length b)) l'))"
    by (simp add: link_listener_def split_beta 4)
  have n5: "n5 = net_act d (snd (onAck (seqOf ?B) (of_nat (length b)) l')) (net_take d [] n4)"
    using lis5 by (simp add: n5_def net_recv_def 4(2))
  have run5: "calm_step n4 n5" unfolding n5 by (rule calm_step.receive [OF 4(2) lis5]) simp
  have "tx_rel (snd (onAck (seqOf ?B) (of_nat (length b)) l')) (n_sent n d) (g\<lparr>gB := ?B + 1\<rparr>)"
    by (rule tx_rel_ack [OF tx' ses' ok(3) order_refl pend])
  then have 5: "tx_rel (n_link n5 d) (n_sent n d) (g\<lparr>gB := ?B + 1\<rparr>)" "n_sent n5 d = n_sent n d"
    by (simp_all add: n5 net_act_def net_take_def 4(3))
  have "firm_step\<^sup>*\<^sup>* n n5"
    using run2 run3 firm_step.calm [OF run4] firm_step.calm [OF run5] by (meson rtranclp.rtrancl_into_rtrancl)
  moreover have "n5 = resend_run d now n" by (simp add: n5_def n4_def n3_def n2_def resend_run_def)
  ultimately show ?thesis using 5 by simp
qed

text \<open>The timer's verdict on the base: its chunk is older than the retransmission timeout and has retries left.\<close>

definition retx_due :: "u32 \<Rightarrow> Link \<Rightarrow> bool" where
  "retx_due now l \<longleftrightarrow>
     (let bi = budgetIdx (gbnBase_' (l_arq l)) in
      ackRtoMs l \<le> now - sentAtMs_' (l_arq l) bi \<and> retxCount_' (l_arq l) bi < cfg_maxRetx (l_cfg l) \<and>
      0 < cfg_gbnResendBurstMax (l_cfg l))"

definition g_same :: "Link \<Rightarrow> Link \<Rightarrow> bool" where
  "g_same l m \<longleftrightarrow> l_cfg m = l_cfg l \<and> l_arq m = l_arq l \<and> l_cache m = l_cache l \<and> l_hw m = l_hw l \<and>
     l_spdI m = l_spdI l \<and> l_state m = l_state l"

lemma g_same_intros:
  "g_same l l" "g_same l x \<Longrightarrow> g_same l (l_g_update f x)" "g_same l x \<Longrightarrow> g_same l y \<Longrightarrow> g_same l (if c then x else y)"
  by (simp_all add: g_same_def)

lemma track_same: "g_same l (sweepRetx_track now l)"
  unfolding sweepRetx_track_def Let_def by (intro g_same_intros)

lemma rto_cong: "l_cfg m = l_cfg l \<Longrightarrow> l_spdI m = l_spdI l \<Longrightarrow> ackRtoMs m = ackRtoMs l"
  by (simp add: ackRtoMs_def rto32_def baudAwareRtoMs_def l_baud_def Let_def)

lemma due_resends:
  assumes due: "retx_due now l" and ses: "in_session l" and act: "gbnActive_' (l_arq l)"
    and base: "0 \<le> idxOf (gbnBase_' (l_arq l)) (l_arq l)" and pend: "0 < arq_pendingCount (l_arq l)" and win: "window_cached l"
    and room: "kWorstCaseCobsFrame \<le> hal_txAvail (l_hw l)"
  obtains l' where "sweepRetx now l = (False, l')" "l_state l' = OK" "wire l' \<noteq> []"
proof -
  define x where "x = sweepRetx_track now l"
  have x: "l_cfg x = l_cfg l" "l_arq x = l_arq l" "l_cache x = l_cache l" "l_hw x = l_hw l" "l_state x = l_state l"
    "ackRtoMs x = ackRtoMs l"
    using track_same [of l now] rto_cong [of x l] by (simp_all add: x_def g_same_def)
  have verdict: "arq_decideSlot (gbnBase_' (l_arq x)) now (ackRtoMs x) (cfg_maxRetx (l_cfg x)) (l_arq x) = Retx"
    using due base by (simp add: x retx_due_def arq_decideSlot_def decideArqSlot_def Let_def not_less not_le)
  have sw: "sweepRetx now l = (False, gbnRetxBaseAndRearm now x)"
    using ses act verdict by (simp add: sweepRetx_def x_def [symmetric] x(1, 2) Let_def in_session_def)
  have "resent x (gbnRetxBaseAndRearm now x)"
    by (rule gbnRetxBaseAndRearm_op) (use win in \<open>simp add: window_cached_def x\<close>)
  then have st: "l_state (gbnRetxBaseAndRearm now x) = OK" using ses x(5) by (simp add: resent_def keeps_rx_def in_session_def)
  define y where "y = gbnRetxBaseAndRearm now x"
  have "wire y \<noteq> []"
  proof -
    have grow: "wire (resendBurst k s now m) \<noteq> []"
      if k0: "0 < k" and rc: "run_cached (\<lambda>t. cache_peek t (l_cache m)) (seqRun s k)" and rm: "kWorstCaseCobsFrame \<le> hal_txAvail (l_hw m)" for k s m
    proof -
      obtain n where k: "k = Suc n" using k0 by (cases k) auto
      obtain b where b: "cache_peek s (l_cache m) = Some b" using rc by (auto simp: k run_cached_def seqRun_Suc)
      obtain m' where m': "retxSeq s m = (True, m')" "wire m' = wire m @ cobsDataWire s b" "l_cache m' = l_cache m"
        using retxSeq_cached [OF b rm] by auto
      define m2 where "m2 = l_arq_update (arq_applyRetx s now (g_resendSource (l_g m') = SrcRto)) m'"
      have "run_cached (\<lambda>t. cache_peek t (l_cache m2)) (seqRun (nextSeq s) n)"
        using rc m'(3) by (simp add: k m2_def run_cached_def seqRun_Suc)
      from resendBurst_op [OF this, of now] obtain j where
        "puts (run_frames (\<lambda>t. cache_peek t (l_cache m2)) (seqRun (nextSeq s) j)) m2 (resendBurst n (nextSeq s) now m2)" by blast
      then have "wire (resendBurst n (nextSeq s) now m2) \<noteq> []"
        using m'(2) by (simp add: puts_def m2_def cobsDataWire_def cobsWire_def)
      then show ?thesis using rm m'(1) by (simp add: k m2_def)
    qed
    have "0 < nat (decideGbnResendCap (arq_pendingCount (l_arq l)) (cfg_gbnResendBurstMax (l_cfg l)))"
      using due pend by (simp add: decideGbnResendCap_def retx_due_def Let_def)
    moreover have "run_cached (\<lambda>t. cache_peek t (l_cache l)) (seqRun (gbnBase_' (l_arq l))
        (nat (decideGbnResendCap (arq_pendingCount (l_arq l)) (cfg_gbnResendBurstMax (l_cfg l)))))"
      using win by (auto simp: window_cached_def run_cached_def seqRun_def decideGbnResendCap_def)
    ultimately show ?thesis
      using act room by (simp add: y_def gbnRetxBaseAndRearm_def gbnResendWindow_def Let_def x grow)
  qed
  then show thesis using that sw st by (simp add: y_def)
qed

text \<open>C27: losses are repaired by one pass of the retransmission sweep. Take any moment of a session that started with a
  fresh sender and a seeded receiver, whatever was lost, at which chunks are pending and the sender's base is due:
  older than the timeout, with retries left, the burst not configured to zero; the rings hold a frame, the receiver's queue holds a
  chunk. Let the rings be sent, the queues be read and every frame on its way be lost; let the sender run one pass of the
  sweep; let the first frame it sends arrive, and the answer to it, and nothing else. Then the sender has
  exactly one chunk less pending, and this is a run of the session.\<close>

theorem due_retx_repairs:
  assumes "net_ready d n0" and "net_step\<^sup>*\<^sup>* n0 n" and "net_caps d n"
    and "0 < arq_pendingCount (l_arq (n_link n d))" and "retx_due now (n_link n d)"
  shows "arq_pendingCount (l_arq (n_link (net_recv d (net_recv (\<not> d) (net_timer d now (net_quiet n)))) d)) =
      arq_pendingCount (l_arq (n_link n d)) - 1 \<and>
    n_sent (net_recv d (net_recv (\<not> d) (net_timer d now (net_quiet n)))) d = n_sent n d \<and>
    firm_step\<^sup>*\<^sup>* n (net_recv d (net_recv (\<not> d) (net_timer d now (net_quiet n))))"
proof -
  let ?l = "drained (n_link n d)"
  obtain g where rel: "dir_rel d n g" using pair.sim_steps [OF assms(2) ready_rel [OF assms(1)]] by blast
  note half = dir_relD(2) [OF rel refl]
  have ok: "gB g \<le> gN g" "gN g \<le> gB g + 32" and tx: "tx_rel (n_link n d) (n_sent n d) g"
    and sent: "\<forall>b \<in> set (n_sent n d). b \<noteq> [] \<and> length b \<le> nat MAX_CHUNK"
    using half gbn_ok_order [of 32 g] by (simp_all add: link_half_def)
  have tx': "tx_rel ?l (n_sent n d) g" using tx tx_rel_view [of ?l "n_link n d"] by simp
  note p = tx_rel_pendingCount [OF tx ok(2)] and p' = tx_rel_pendingCount [OF tx' ok(2)]
  have pend: "gB g < gN g" using assms(4) p by simp
  note win = tx_rel_in_window [OF tx' ok(2) order_refl pend]
  have due: "retx_due now ?l"
    using assms(5) rto_cong [of ?l "n_link n d"] by (simp add: retx_due_def drained_def)
  have room: "kWorstCaseCobsFrame \<le> hal_txAvail (l_hw ?l)" using assms(3) by (simp add: net_caps_def)
  have "0 \<le> idxOf (gbnBase_' (l_arq ?l)) (l_arq ?l)" "0 < arq_pendingCount (l_arq ?l)" "in_session ?l"
    using win p' pend dir_relD(1) [OF rel, of d] by simp_all
  then obtain l' where l': "sweepRetx now ?l = (False, l')" "l_state l' = OK" "wire l' \<noteq> []"
    using due_resends [OF due _ win(1) _ _ tx_rel_window(1) [OF tx' ok(2) sent] room] by blast
  note run = resend_round [OF rel assms(3) pend l', folded resend_run_def]
  have "arq_pendingCount (l_arq (n_link (resend_run d now n) d)) = int (gN g - (gB g + 1))"
    using tx_rel_pendingCount [of "n_link (resend_run d now n) d"] run ok by fastforce
  then have "arq_pendingCount (l_arq (n_link (resend_run d now n) d)) = arq_pendingCount (l_arq (n_link n d)) - 1"
    using p pend by simp
  then show ?thesis using run unfolding resend_run_def by blast
qed

subsection \<open>Witness\<close>

text \<open>The demo pair after one chunk, on its way or lost.\<close>

definition demo_tx :: Link where
  "demo_tx = snd (sendCobsFrameAcked [1, 2, 3] NO_BASE (demo_side True True))"

definition demo_flight :: Net where
  "demo_flight = net_sent True 0 [1, 2, 3] (net_act True demo_tx (demo_pair True))"

lemma demo_side_tx:
  "l_hw (demo_side seed m) = demo_hal" "l_cache (demo_side seed m) = cache_new 8" "t_txSeq (l_t (demo_side seed m)) = 0"
  "l_cfg (demo_side seed m) = demo_cfg" "l_arq (demo_side seed m) = arq_new" "l_state (demo_side seed m) = OK"
  by (simp_all add: demo_side_def)

lemma demo_tx_send: "sendCobsFrameAcked [1, 2, 3] NO_BASE (demo_side True True) = (0, demo_tx)"
proof -
  obtain q l' where s: "sendCobsFrameAcked [1, 2, 3] NO_BASE (demo_side True True) = (q, l')" by fastforce
  have "q = 0"
    using send_goes(1) [OF demo_side_session _ _ _ _ s] by (simp add: demo_side_tx demo_room wire_defs)
  then show ?thesis using s by (simp add: demo_tx_def)
qed

lemma demo_tx_arq:
  "sentAtMs_' (l_arq demo_tx) 0 = 5000" "retxCount_' (l_arq demo_tx) 0 = 0" "gbnBase_' (l_arq demo_tx) = 0"
  "l_cfg demo_tx = demo_cfg" "h_txCap (l_hw demo_tx) = 4096"
  by (simp_all add: demo_tx_def sendCobsFrameAcked_def sendCobsFrame_def buildAndTxCobsFrame_def openGbnWindow_def
      demo_side_tx demo_room arq_onSent_def arq_setGbnBase_def arq_setGbnActive_def arq_new_def arq_clearAll_def
      budgetIdx_def frame_simps wire_defs Let_def)

lemma demo_tx_pending: "arq_pendingCount (l_arq demo_tx) = 1"
proof -
  note go = send_goes [OF demo_side_session _ _ _ _ demo_tx_send]
  have "tx_rel demo_tx ([] @ [[1, 2, 3]]) (gbn_init\<lparr>gN := gN gbn_init + 1\<rparr>)"
    by (rule tx_rel_send [OF fresh_tx_rel [OF demo_side_fresh] _ _ go(1, 4)])
      (simp_all add: gbn_init_def demo_side_tx demo_room wire_defs)
  from tx_rel_pendingCount [OF this] show ?thesis by (simp add: gbn_init_def)
qed

theorem due_retx_repairs_witness:
  "arq_pendingCount (l_arq (n_link (net_recv True (net_recv False
      (net_timer True (5000 + ackRtoMs demo_tx) (net_quiet demo_flight)))) True)) = 0"
proof -
  have "calm_step (demo_pair True) demo_flight"
    unfolding demo_flight_def
    by (rule calm_step.send [where base = NO_BASE])
      (simp_all add: demo_tx_send demo_side_tx arq_new_def arq_clearAll_def arq_pendingCount_def wire_defs)
  then have run: "net_step\<^sup>*\<^sup>* (demo_pair True) demo_flight"
    using calm_net [of "demo_pair True" demo_flight] by (simp add: demo_side_session r_into_rtranclp)
  have link: "n_link demo_flight True = demo_tx" "n_link demo_flight False = demo_side True False"
    "n_sent demo_flight True = [[1, 2, 3]]"
    by (simp_all add: demo_flight_def net_sent_def net_act_def)
  have caps: "net_caps True demo_flight"
    unfolding net_caps_def
    by (auto simp: all_bool_eq link demo_tx_arq demo_side_tx demo_hal_def wire_defs)
  have "retx_due (5000 + ackRtoMs demo_tx) demo_tx"
    by (simp add: retx_due_def demo_tx_arq budgetIdx_def demo_cfg_def config_default_def Let_def)
  with due_retx_repairs [OF demo_pair_ready run caps, of "5000 + ackRtoMs demo_tx"] show ?thesis
    by (simp add: link demo_tx_pending)
qed

end
