(* ===== verification/LinkRecv.thy ===== *)
theory LinkRecv
  imports LinkMessage
begin

text \<open>
  The receiving call: what \<open>recvMsg\<close> may return, that it returns, and what its recovery after a
  bad header does to the byte queue.
\<close>

subsection \<open>The queue\<close>

text \<open>The queue is \<open>readBytes\<close>'s argument: \<open>n\<close> bytes are taken off its front.\<close>

lemma sinkLoop_drops:
  "left \<le> int (length (app l)) \<Longrightarrow>
    \<exists>l'. sinkLoop left l = Some l' \<and> app l' = drop (nat left) (app l) \<and> l_s l' = l_s l \<and> l_r l' = l_r l"
proof (induction left l rule: sinkLoop.induct)
  case (1 left l)
  show ?case
  proof (cases "left > 0")
    case True
    let ?k = "nat (min left 256)" and ?m = "hw (\<lambda>h. h\<lparr>h_appBuf := drop (nat (min left 256)) (app l)\<rparr>) l"
    have k: "?k \<le> length (app l)" "0 < ?k" "int ?k = min left 256" using True "1.prems" by auto
    have read: "link_readStream (min left 256) l = (take ?k (app l), ?m)"
      using link_readStream_take [of "min left 256" l] True by simp
    have len: "length (take ?k (app l)) = ?k" using k by simp
    have ne: "take ?k (app l) \<noteq> []" using k by (cases "app l") auto
    have "left - int (length (take ?k (app l))) \<le> int (length (app ?m))" using "1.prems" k len by simp
    with "1.IH" [OF True read [symmetric] ne] len obtain l' where
      l': "sinkLoop (left - int ?k) ?m = Some l'" "app l' = drop (nat (left - int ?k)) (app ?m)"
        "l_s l' = l_s ?m" "l_r l' = l_r ?m"
      by auto
    have "nat (left - int ?k) + ?k = nat left" using k True by simp
    then have "app l' = drop (nat left) (app l)" using l'(2) by simp
    moreover have "sinkLoop left l = sinkLoop (left - int ?k) ?m"
      using True read ne len by (subst sinkLoop.simps) simp
    ultimately show ?thesis using l' by simp
  next
    case False
    then show ?thesis by (subst sinkLoop.simps) auto
  qed
qed

subsection \<open>What a call returns\<close>

lemma header_opened:
  assumes "recvMsg_header l = Inr m"
  shows "codec_inMsg (r_msgRx (l_r l)) \<and> m = l \<or>
    \<not> codec_inMsg (r_msgRx (l_r l)) \<and> 6 \<le> length (app l) \<and> app m = drop 6 (app l) \<and>
      len_' (r_msgRx (l_r m)) = i32_of_u32 (mh_len (msgHdrDecode (take 6 (app l)))) \<and>
      crc_' (r_msgRx (l_r m)) = mh_crc (msgHdrDecode (take 6 (app l)))"
proof (cases "codec_inMsg (r_msgRx (l_r l))")
  case True
  then show ?thesis using assms by (simp add: recvMsg_header_def)
next
  case False
  have "link_readStream MSG_HDR l = (take 6 (app l), hw (\<lambda>h. h\<lparr>h_appBuf := drop 6 (app l)\<rparr>) l)"
    using link_readStream_take [of MSG_HDR l] by (simp add: wire_defs)
  then show ?thesis
    using assms False
    by (auto simp: recvMsg_header_def codec_beginMsg_def Let_def hal_appBufAvailable_def wire_defs split: if_splits)
qed

lemma body_returned:
  assumes "recvMsg_body max_len l = Some (n, out, l')" and "n > 0"
  shows "n = len_' (r_msgRx (l_r l)) \<and> n \<le> max_len \<and> app l = out @ app l' \<and> int (length out) = n \<and>
    crc16 out = crc_' (r_msgRx (l_r l)) \<and> \<not> codec_inMsg (r_msgRx (l_r l'))"
proof -
  have "link_readStream n (msgRx_reset l) =
      (take (nat n) (app l), hw (\<lambda>h. h\<lparr>h_appBuf := drop (nat n) (app l)\<rparr>) (msgRx_reset l))"
    using link_readStream_take [of n "msgRx_reset l"] assms(2) by (simp add: msgRx_reset_def)
  then show ?thesis
    using assms
    by (auto simp: recvMsg_body_def Let_def hal_appBufAvailable_def msgRx_reset_def codec_reset_def codec_inMsg_def
        split: if_splits option.splits prod.splits)
qed

lemma body_total: "recvMsg_body max_len l \<noteq> None"
proof -
  let ?n = "len_' (r_msgRx (l_r l))"
  have a: "app (msgRx_reset l) = app l" by (simp add: msgRx_reset_def)
  have "\<exists>l'. sinkLoop ?n (msgRx_reset l) = Some l'" if "\<not> int (length (app l)) < ?n"
    using sinkLoop_drops [of ?n "msgRx_reset l"] that a by auto
  then show ?thesis
    by (cases "int (length (app l)) < ?n")
      (auto simp: recvMsg_body_def Let_def hal_appBufAvailable_def split: option.splits prod.splits)
qed

text \<open>C12: \<open>recvMsg\<close> hands out nothing but checked messages. A positive answer is the number of
  bytes written, it fits the caller's buffer, the bytes are the front of the queue behind the
  header that announced their length, their CRC-16 is the announced one, exactly the header
  and the message leave the queue, and the next call starts at a header again.\<close>

theorem recvMsg_sound:
  assumes "recvMsg max_len l = Some (n, out, l')" and "n > 0"
  shows "int (length out) = n \<and> n \<le> max_len \<and> \<not> codec_inMsg (r_msgRx (l_r l')) \<and>
    (if codec_inMsg (r_msgRx (l_r l))
     then app l = out @ app l' \<and> n = len_' (r_msgRx (l_r l)) \<and> crc16 out = crc_' (r_msgRx (l_r l))
     else \<exists>h. app l = h @ out @ app l' \<and> length h = 6 \<and> n = i32_of_u32 (mh_len (msgHdrDecode h)) \<and>
       crc16 out = mh_crc (msgHdrDecode h))"
proof -
  obtain m where m: "recvMsg_header l = Inr m" "recvMsg_body max_len m = Some (n, out, l')"
    using assms
    by (auto simp: recvMsg_def recvMsg_header_def Let_def split: if_splits sum.splits prod.splits)
  note b = body_returned [OF m(2) assms(2)]
  from header_opened [OF m(1)] show ?thesis
  proof
    assume "codec_inMsg (r_msgRx (l_r l)) \<and> m = l"
    then show ?thesis using b by simp
  next
    assume h: "\<not> codec_inMsg (r_msgRx (l_r l)) \<and> 6 \<le> length (app l) \<and> app m = drop 6 (app l) \<and>
      len_' (r_msgRx (l_r m)) = i32_of_u32 (mh_len (msgHdrDecode (take 6 (app l)))) \<and>
      crc_' (r_msgRx (l_r m)) = mh_crc (msgHdrDecode (take 6 (app l)))"
    then have "app l = take 6 (app l) @ out @ app l'" using b by (metis append_take_drop_id)
    then have "\<exists>h. app l = h @ out @ app l' \<and> length h = 6 \<and> n = i32_of_u32 (mh_len (msgHdrDecode h)) \<and>
        crc16 out = mh_crc (msgHdrDecode h)"
      using h b by (intro exI [of _ "take 6 (app l)"]) simp
    then show ?thesis using h b by simp
  qed
qed

text \<open>The witness reads a two-byte message whose header has been read.\<close>

definition demo_reading :: Link where
  "demo_reading = hw (\<lambda>h. h\<lparr>h_appBuf := [7, 8, 9]\<rparr>)
     (l_r_update (\<lambda>r. r\<lparr>r_msgRx := \<lparr>len_' = 2, crc_' = crc16 [7, 8]\<rparr>\<rparr>) (demo_link False))"

theorem recvMsg_sound_witness:
  "\<exists>l'. recvMsg 100 demo_reading = Some (2, [7, 8], l') \<and> [7, 8, 9] = [7, 8] @ app l'"
proof -
  have q: "app demo_reading = [7, 8, 9]" "codec_inMsg (r_msgRx (l_r demo_reading))"
    "r_msgRxStartedMs (l_r demo_reading) = 0" "r_msgRx (l_r demo_reading) = \<lparr>len_' = 2, crc_' = crc16 [7, 8]\<rparr>"
    by (simp_all add: demo_reading_def codec_inMsg_def demo_link_def link_new_def)
  have "link_readStream 2 (msgRx_reset demo_reading) =
      ([7, 8], hw (\<lambda>h. h\<lparr>h_appBuf := [9]\<rparr>) (msgRx_reset demo_reading))"
    using link_readStream_take [of 2 "msgRx_reset demo_reading"] q(1) by (simp add: msgRx_reset_def)
  then obtain l' where r: "recvMsg 100 demo_reading = Some (2, [7, 8], l')"
    using q by (auto simp: recvMsg_def recvMsg_header_def recvMsg_body_def hal_appBufAvailable_def)
  then show ?thesis using recvMsg_sound [OF r] q by simp
qed

text \<open>\<open>recvMsg\<close> always returns: the loop that throws an over-long message away is entered only
  when all its bytes are in the queue, so it never waits for more.\<close>

theorem recvMsg_returns: "\<exists>n out l'. recvMsg max_len l = Some (n, out, l')"
  using body_total [of max_len] by (fastforce simp: recvMsg_def split: sum.splits)

subsection \<open>The recovery after a bad header\<close>

text \<open>What the recovery does to the queue. It looks at a prefix of the queue; without a
  plausible header in it the whole queue is dropped and counted. With one, the bytes before the
  first such header are dropped, but the looked-at bytes from the header on are pushed behind
  the bytes that were not looked at: the order survives exactly when the look covered the whole
  queue.\<close>

theorem resync_order:
  fixes l :: Link and m :: int
  defines "k \<equiv> nat (min (m + MSG_HDR) (int (length (app l))))"
  defines "d \<equiv> msgResyncScan (take k (app l)) (of_nat (cfg_maxMsg (l_cfg l)))"
  assumes "0 < m" and "6 \<le> length (app l)" and "hal_inv (l_hw l)"
  shows "app (snd (findMsgHeaderResync m l)) =
      (if d < 0 then [] else drop k (app l) @ drop (nat d) (take k (app l))) \<and>
    (k = length (app l) \<longrightarrow> app (snd (findMsgHeaderResync m l)) = (if d < 0 then [] else drop (nat d) (app l))) \<and>
    (d < 0 \<longrightarrow> c_resyncDroppedBytes (l_c (snd (findMsgHeaderResync m l))) =
      c_resyncDroppedBytes (l_c l) + of_nat (length (app l)))"
proof -
  let ?n = "int (length (app l))"
  have k: "(if (if m < ?n then m else ?n) + MSG_HDR > ?n then ?n else (if m < ?n then m else ?n) + MSG_HDR) = int k"
    using assms(3, 4) by (auto simp: k_def wire_defs min_def)
  have "hal_appRoom (length (drop (nat d) (take k (app l)))) (snd (hal_popAppBuf (int k) (l_hw l))) =
      length (drop (nat d) (take k (app l)))"
    using assms(5) by (auto simp: hal_inv_def hal_appRoom_def hal_popAppBuf_def Let_def split: option.splits)
  then show ?thesis
    using assms(3, 4) k
    by (auto simp: findMsgHeaderResync_def Let_def hal_appBufAvailable_def hal_popAppBuf_def hal_pushAppBuf_def
        hal_clearAppBuf_def wire_defs d_def)
qed

text \<open>The witness: a complete one-byte message, then a byte that was not looked at.\<close>

definition demo_queue :: Link where
  "demo_queue = hw (\<lambda>h. h\<lparr>h_appBuf := msgHdr [7] @ [7, 9]\<rparr>) (demo_link False)"

theorem resync_order_witness:
  "app (snd (findMsgHeaderResync 1 demo_queue)) = [9] @ msgHdr [7] @ [7]"
proof -
  have d: "msgResyncScan (msgHdr [7] @ [7]) (of_nat (cfg_maxMsg demo_cfg)) = 0" by code_simp
  have l: "length (msgHdr [7]) = 6" by (simp add: msgHdr_def)
  have q: "app demo_queue = msgHdr [7] @ [7, 9]" "l_cfg demo_queue = demo_cfg" "hal_inv (l_hw demo_queue)"
    by (simp_all add: demo_queue_def hal_inv_def demo_hal_def l)
  show ?thesis
    using resync_order [of 1 demo_queue] q d l by (simp add: wire_defs)
qed

end
