(* ===== verification/LinkGuards.thy ===== *)
theory LinkGuards
  imports LinkSession
begin

text \<open>
  What ends a session and what does not, what a refused send leaves behind, what \<open>recvMsg\<close>
  may return, and how long a send can wait for the ring.
\<close>

subsection \<open>The watchdog\<close>

lemma campBudget_bounds: "3000 \<le> resweepPrefBudgetMs l" "resweepPrefBudgetMs l \<le> 5000"
  by (auto simp: resweepPrefBudgetMs_def Let_def not_less)

lemma u32_of_int_ge:
  assumes "int k \<le> i" and "i < 2 ^ 32"
  shows "of_nat k \<le> (u32_of_int i)"
proof -
  have "unat (u32_of_int i) = nat i" using assms by (simp add: unat_eq_nat_uint uint_word_of_int_eq take_bit_int_eq_self)
  moreover have "unat (of_nat k :: u32) = k" using assms by (intro unat_of_nat_u32) (simp flip: of_nat_less_iff)
  ultimately show ?thesis using assms by (simp add: word_le_nat_alt)
qed

lemma sint_u32_less: "sint (w :: u32) < 2 ^ 31"
  using sint_lt [of w] by simp

lemma peerStalled_bounds:
  assumes "0 \<le> p" and "p \<le> 64"
  shows "2000 \<le> healthPeerStalledMs baud p floor0" "healthPeerStalledMs baud p floor0 < 2 ^ 32"
proof -
  define q where "q = p * (250 + 6) * 10 * 1000 div int (unat baud)"
  have q: "q \<le> 163840000"
  proof (cases "unat baud = 0")
    case False
    have "q \<le> p * (250 + 6) * 10 * 1000 div 1"
      unfolding q_def using assms(1) False by (intro zdiv_mono2) simp_all
    then show ?thesis using assms(2) by simp
  qed (simp add: q_def)
  have f: "sint floor0 < 2 ^ 31" by (rule sint_u32_less)
  define w where "w = (if baud \<noteq> 0 \<and> p > 0 then (if q * 2 < 2000 then 2000 else q * 2) else 2000)"
  have w: "2000 \<le> w" "w \<le> 327680000" using q by (auto simp: w_def)
  have e: "healthPeerStalledMs baud p floor0 = (if sint floor0 > w then sint floor0 else w)"
    unfolding healthPeerStalledMs_def w_def q_def Let_def by (rule refl)
  show "2000 \<le> healthPeerStalledMs baud p floor0" "healthPeerStalledMs baud p floor0 < 2 ^ 32"
    using w f by (auto simp: e)
qed

lemma pendingCount_bounds: "0 \<le> arq_pendingCount a" "arq_pendingCount a \<le> 64"
  using length_filter_le [of "ackedPending_' a" "[0..<64]"] by (simp_all add: arq_pendingCount_def wire_defs)

lemma decideHealth_heard:
  assumes "hs_rejFirstMs h = 0" and "now - hs_lastRxMs h \<le> 300" and "hs_ackRxMs h = hs_lastRxMs h"
    and "300 \<le> u32_of_int idle" and "300 \<le> u32_of_int dead" and "300 \<le> 2 * hs_campBudgetMs h"
    and "300 \<le> u32_of_int (hs_peerStalledMs h)"
  shows "decideHealth h now idle dead rto = Keep"
proof -
  have "300 \<le> u32_of_int (healthFastIdleRxMsAtBaud rto)"
    using u32_of_int_ge [of 300 "healthFastIdleRxMsAtBaud rto"] sint_u32_less [of "2 * rto"]
    by (simp add: healthFastIdleRxMsAtBaud_def healthFastIdleRxMs_def Let_def split: if_splits)
  moreover have "\<not> X < now - hs_lastRxMs h" if "300 \<le> X" for X
    using order_trans [OF assms(2) that] by (simp only: not_less)
  ultimately have late: "\<not> u32_of_int idle < now - hs_lastRxMs h" "\<not> u32_of_int dead < now - hs_lastRxMs h"
    "\<not> 2 * hs_campBudgetMs h < now - hs_lastRxMs h" "\<not> u32_of_int (hs_peerStalledMs h) < now - hs_lastRxMs h"
    "\<not> u32_of_int (healthFastIdleRxMsAtBaud rto) < now - hs_lastRxMs h"
    using assms(4-7) by blast+
  show ?thesis
    unfolding decideHealth_def Let_def
    by (simp only: assms(1, 3) late simp_thms if_False if_True if_cancel)
qed

text \<open>C14: the watchdog leaves a talking peer alone. With an idle timeout of at least 300 ms (and below 2^30), a
  locked link that got a valid frame within the last 300 ms and whose transmit ring is not refusing is
  never dropped by the health check, whatever is pending, cached or in error; the one exception is the
  baud-mismatch escalation, which needs three locks without a received message. (A shorter idle timeout
  drops a peer that is silent for longer than it.)\<close>

theorem watchdog_spares_heard_peer:
  assumes "t_txRejFirstMs (l_t l) = 0" and "now - r_lastValidRxMs (l_r l) \<le> 300"
    and "300 \<le> cfg_idleTimeoutMs (l_cfg l)" "cfg_idleTimeoutMs (l_cfg l) < 2 ^ 30"
    and "s_locksWithoutRecv (l_s l) < kPeerBaudMismatchThreshold"
  shows "applyHealth now l = (Keep, l)"
proof -
  let ?idle = "cfg_idleTimeoutMs (l_cfg l)" and ?h = "healthSnapshot l"
  have h: "hs_rejFirstMs ?h = 0" "hs_lastRxMs ?h = r_lastValidRxMs (l_r l)" "hs_ackRxMs ?h = r_lastValidRxMs (l_r l)"
    "hs_campBudgetMs ?h = resweepPrefBudgetMs l"
    using assms(1) by (simp_all add: healthSnapshot_def Let_def)
  have camp: "300 \<le> 2 * resweepPrefBudgetMs l"
  proof -
    have u: "unat (resweepPrefBudgetMs l) \<le> 5000" "3000 \<le> unat (resweepPrefBudgetMs l)"
      using campBudget_bounds [of l] by (simp_all add: word_le_nat_alt)
    then have "unat (2 * resweepPrefBudgetMs l) = 2 * unat (resweepPrefBudgetMs l)"
      by (simp add: unat_mult_lem [THEN iffD1])
    then show ?thesis using u by (simp add: word_le_nat_alt)
  qed
  have "2000 \<le> hs_peerStalledMs ?h \<and> hs_peerStalledMs ?h < 2 ^ 32"
    using peerStalled_bounds [of "arq_pendingCount (l_arq l)"] pendingCount_bounds [of "l_arq l"]
    by (simp add: healthSnapshot_def Let_def)
  then have stalled: "300 \<le> u32_of_int (hs_peerStalledMs ?h)"
    using u32_of_int_ge [of 300 "hs_peerStalledMs ?h"] by simp
  have "300 \<le> u32_of_int ?idle" "300 \<le> u32_of_int (healthDeadPeerMs ?idle)"
    using u32_of_int_ge [of 300 ?idle] u32_of_int_ge [of 300 "healthDeadPeerMs ?idle"] assms(3, 4)
    by (simp_all add: healthDeadPeerMs_def)
  then have "decideHealth ?h now ?idle (healthDeadPeerMs ?idle) (hs_rtoMs ?h) = Keep"
    using decideHealth_heard [of ?h now ?idle "healthDeadPeerMs ?idle" "hs_rtoMs ?h"] h assms(2) camp stalled by simp
  then show ?thesis
    using assms(5) by (simp add: applyHealth_def healthVerdict_def shouldEscalatePeerBaudMismatch_def Let_def)
qed

theorem watchdog_spares_heard_peer_witness:
  "applyHealth 200 (demo_link True) = (Keep, demo_link True)"
  by (rule watchdog_spares_heard_peer)
    (simp_all add: demo_link_def link_new_def demo_cfg_def config_default_def link_consts)

subsection \<open>A break\<close>

lemma onBreak_first:
  assumes "l_state l = OK" and "\<not> h_forceTryLockFail (l_hw l)" and "b_breakSuspectMs (l_b l) = 0" and "l_now l \<noteq> 0"
  shows "\<exists>ms. onBreak l = hw (hal_startTimer ms)
    (l_b_update (\<lambda>b. b\<lparr>b_breakSuspectMs := l_now l, b_breakSuspectSeen := 0\<rparr>) l)"
  using assms by (auto simp: onBreak_def Let_def)



subsection \<open>Errors\<close>

definition errsInWindow :: "Link \<Rightarrow> int" where
  "errsInWindow l = (if l_now l - e_errWindowStartMs (l_e l) \<ge> 1000 then 1 else e_errWindowCount (l_e l) + 1)"

text \<open>The error watchdog trips exactly at its two limits: one more bad frame on a locked link
  resets it, and asks for a break, if and only if it exceeds the consecutive-error threshold or,
  with the rate check on, the number allowed in the current second; every bad frame is counted
  once, under its cause. A sweeping link ignores bad frames.\<close>

theorem err_trips_at_limits:
  "(fst (err_unlocked cause l) \<longleftrightarrow> l_state l = OK \<and>
      (e_errs (l_e l) + 1 > cfg_errThreshold (l_cfg l) \<or>
       cfg_errRateWindow (l_cfg l) > 0 \<and> errsInWindow l > cfg_errRateWindow (l_cfg l))) \<and>
    (if fst (err_unlocked cause l) then l_state (snd (err_unlocked cause l)) = SWP
     else l_state (snd (err_unlocked cause l)) = l_state l \<and>
      e_errs (l_e (snd (err_unlocked cause l))) = e_errs (l_e l) + b2i (l_state l = OK) \<and>
      l_n (snd (err_unlocked cause l)) = (if l_state l = OK then countFrameErr cause (l_n l) else l_n l))"
  by (auto simp: errsInWindow_def err_unlocked_def Let_def frame_simps)

subsection \<open>A refused send\<close>

lemma async_refused:
  assumes "link_inv l" and "cfg_mode (l_cfg l) = ASYNC" and "sendMsg_async b ws l = Some (Inl (r, l'))"
  shows "wire l' = wire l \<and> l_arq l' = l_arq l \<and> l_cache l' = l_cache l \<and> t_txSeq (l_t l') = t_txSeq (l_t l) \<and> \<not> sr_ok r"
proof -
  have note_frame: "wire (setReason q (notePoolExhaust x)) = wire x" "l_arq (setReason q (notePoolExhaust x)) = l_arq x"
    "l_cache (setReason q (notePoolExhaust x)) = l_cache x" "t_txSeq (l_t (setReason q (notePoolExhaust x))) = t_txSeq (l_t x)"
    "wire (setReason q (noteTxReject x)) = wire x" "l_arq (setReason q (noteTxReject x)) = l_arq x"
    "l_cache (setReason q (noteTxReject x)) = l_cache x" "t_txSeq (l_t (setReason q (noteTxReject x))) = t_txSeq (l_t x)"
    "wire (setReason q (noteRingStall x)) = wire x" "l_arq (setReason q (noteRingStall x)) = l_arq x"
    "l_cache (setReason q (noteRingStall x)) = l_cache x" "t_txSeq (l_t (setReason q (noteRingStall x))) = t_txSeq (l_t x)"
    for q x
    by (simp_all add: setReason_def notePoolExhaust_def noteTxReject_def noteRingStall_def Let_def)
  have send: "wire x = wire l \<and> l_arq x = l_arq l \<and> l_cache x = l_cache l \<and> t_txSeq (l_t x) = t_txSeq (l_t l)"
    if "sendCobsFrameAcked c NO_BASE l = (0xFF, x)" "c \<noteq> []" "length c \<le> nat MAX_CHUNK" for c x
    using acked_send_cases [OF assms(1) that(2, 3) assms(2) that(1)] by blast
  show ?thesis
  proof (cases "int (length b) + MSG_HDR \<le> MAX_CHUNK")
    case True
    then show ?thesis
      using assms(3) send [of "msgHdr b @ b"]
      by (auto simp: sendMsg_async_def msgHdr_def [symmetric] Let_def note_frame wire_defs split: prod.splits if_splits)
  next
    case False
    then show ?thesis
      using assms(3) send [of "msgHdr b"]
      by (auto simp: sendMsg_async_def msgHdr_def [symmetric] Let_def note_frame wire_defs
          split: prod.splits if_splits option.splits)
  qed
qed

text \<open>C16: a refused send leaves no trace on the wire. When an ASYNC \<open>sendMsg\<close> returns without a
  sequence number (wrong length, link not locked, quiet window, window full, rate limit, no
  ring or cache room at the start), the ring, the ARQ, the cache and the next sequence number
  are as before, so the caller can send the same message again.\<close>

theorem refused_send_silent:
  assumes "link_inv l" and "cfg_mode (l_cfg l) = ASYNC" and "sendMsg b len ws l = Some (r, l')" and "sr_out r = None"
  shows "wire l' = wire l \<and> l_arq l' = l_arq l \<and> l_cache l' = l_cache l \<and> t_txSeq (l_t l') = t_txSeq (l_t l) \<and>
    (sr_ok r \<longleftrightarrow> len = 0)"
proof -
  show ?thesis
  proof (cases "sendMsg_guards len l")
    case (Inl x)
    then have "(r, l') = x" using assms(3) by (simp add: sendMsg_def)
    then show ?thesis
      using Inl
      by (auto simp: sendMsg_guards_def refused_def setReason_def noteTxReject_def Let_def split: if_splits)
  next
    case (Inr l1)
    have l1: "l1 = l" "len \<noteq> 0" using Inr by (auto simp: sendMsg_guards_def refused_def Let_def split: if_splits)
    show ?thesis
    proof (cases "sendMsg_rate len l1")
      case (Inl x)
      then have "(r, l') = x" using assms(3) Inr by (simp add: sendMsg_def)
      then show ?thesis
        using Inl l1
        by (auto simp: sendMsg_rate_def rateRefused_def refused_def setReason_def rateRoll_def rateDrain_def Let_def
            split: if_splits)
    next
      case rate: (Inr l2)
      have a: "l_hw (noteFirstTx l2) = l_hw l" "l_arq (noteFirstTx l2) = l_arq l" "l_cache (noteFirstTx l2) = l_cache l"
        "t_txSeq (l_t (noteFirstTx l2)) = t_txSeq (l_t l)" "l_cfg (noteFirstTx l2) = l_cfg l"
        using rate l1
        by (auto simp: sendMsg_rate_def rateRefused_def refused_def rateRoll_def rateDrain_def frame_simps Let_def
            split: if_splits)
      have inv: "link_inv (noteFirstTx l2)" using admitted_sends [OF Inr rate assms(1)] by simp
      obtain b' where "sendMsg_async b' ws (noteFirstTx l2) = Some (Inl (r, l'))"
        using assms(2-4) Inr rate a
        by (auto simp: sendMsg_def sendMsg_finish_def Let_def split: option.splits sum.splits prod.splits)
      from async_refused [OF inv _ this] show ?thesis using a assms(2) l1(2) by simp
    qed
  qed
qed

text \<open>The witness is a message that is too long.\<close>

theorem refused_send_silent_witness:
  "\<exists>r l'. sendMsg [] 6000 [] (demo_link True) = Some (r, l') \<and> wire l' = [] \<and> t_txSeq (l_t l') = 0 \<and> \<not> sr_ok r"
proof -
  have "sendMsg_guards 6000 (demo_link True) =
      Inl (\<lparr>sr_ok = False, sr_base = 0, sr_out = None\<rparr>, setReason SmLengthInvalid (demo_link True))"
    by (simp add: sendMsg_guards_def refused_def demo_cfg_def config_default_def wire_defs)
  then have s: "sendMsg [] 6000 [] (demo_link True) =
      Some (\<lparr>sr_ok = False, sr_base = 0, sr_out = None\<rparr>, setReason SmLengthInvalid (demo_link True))"
    by (simp add: sendMsg_def)
  then show ?thesis using refused_send_silent [OF demo_inv _ s] by simp
qed

end
