(* ===== verification/LinkLimits.thy ===== *)
theory LinkLimits
  imports LinkGuards
begin

text \<open>
  How long a send can wait for the ring, and four places where the link does less than its
  caller or its comments expect: the raw \<open>write\<close>, the rate limiter after 2^31 ms, the walk
  to the next baud in phase 3.
\<close>

subsection \<open>Waiting for the ring\<close>

text \<open>A window during which at most \<open>2^30\<close> ms go by.\<close>

definition short_window :: "(Link \<Rightarrow> Link) \<Rightarrow> bool" where
  "short_window w \<longleftrightarrow> (\<forall>x. unat (l_now (w x) - l_now x) < 2 ^ 30)"

text \<open>A clock not yet past the deadline, moved by one to \<open>2^30\<close>, is nearer to it or past it.\<close>

lemma clock_step:
  fixes now now' dl :: u32
  assumes "unat (dl - now) \<le> 2 ^ 30" and "now' = now + 1 + e" and "unat e < 2 ^ 30" and "i32_of_u32 (now' - dl) < 0"
  shows "unat (dl - now') < unat (dl - now)"
proof -
  let ?r = "dl - now" and ?e = "1 + e"
  have e: "unat ?e = unat e + 1" "unat ?e \<le> 2 ^ 30" "unat e + 1 < 2 ^ 32"
    using assms(3) by (simp_all add: unat_plus_if_size word_size)
  have d: "dl - now' = ?r - ?e" "now' - dl = ?e - ?r" using assms(2) by simp_all
  have "\<not> ?r \<le> ?e"
  proof
    assume le: "?r \<le> ?e"
    then have "unat (?e - ?r) = unat ?e - unat ?r" by (rule unat_sub)
    then have "unat (?e - ?r) < 2 ^ 31" using e(2) by simp
    then have "0 \<le> i32_of_u32 (?e - ?r)" by (simp add: sint_u32_small)
    then show False using assms(4) d(2) by simp
  qed
  then have "?e \<le> ?r" by simp
  then have "unat (?r - ?e) = unat ?r - unat ?e" by (rule unat_sub)
  moreover have "unat ?e \<le> unat ?r" using \<open>?e \<le> ?r\<close> by (simp only: word_le_nat_alt)
  ultimately show ?thesis unfolding d(1) using e(1) by linarith
qed

lemma drain_loop_returns:
  assumes "\<forall>w\<in>set ws. short_window w" and "unat (dl - l_now l) \<le> 2 ^ 30" and "unat (dl - l_now l) < length ws"
  shows "drain_loop need dl ws l \<noteq> None"
  using assms
proof (induction ws arbitrary: l)
  case (Cons w ws)
  let ?l0 = "hw (hal_delayMs 1) l"
  let ?l1 = "w ?l0"
  have step: "unat (dl - l_now ?l1) < unat (dl - l_now l)" if "i32_of_u32 (l_now ?l1 - dl) < 0"
  proof (rule clock_step [OF Cons.prems(2) _ _ that])
    show "l_now ?l1 = l_now l + 1 + (l_now ?l1 - l_now ?l0)" by (simp add: hal_delayMs_def)
    have "short_window w" using Cons.prems(1) by simp
    then show "unat (l_now ?l1 - l_now ?l0) < 2 ^ 30" unfolding short_window_def by (rule spec)
  qed
  have "drain_loop need dl ws ?l1 \<noteq> None" if "i32_of_u32 (l_now ?l1 - dl) < 0"
    using Cons.prems step [OF that] by (intro Cons.IH) auto
  then show ?case by (subst drain_loop.simps) (auto simp: Let_def not_le)
qed simp

text \<open>A send that waits for the ring comes back. When the other tasks' turns each take less than
  2^30 ms, \<open>drainTxRing\<close> is done after at most one turn per millisecond of the ring timeout and
  one more, whatever the other tasks do to the link, its ring or its clock.\<close>

theorem drainTxRing_returns:
  assumes "\<forall>w\<in>set ws. \<forall>x. unat (l_now (w x) - l_now x) < 2 ^ 30"
    and "unat (rto32 l) < 2 ^ 30" and "unat (rto32 l) + 2 \<le> length ws"
  shows "\<exists>ok r l' ws'. drainTxRing need ws l = Some (ok, r, l', ws')"
proof -
  have d: "unat (l_now l + rto32 l + 1 - l_now l) = unat (rto32 l) + 1"
    using assms(2) by (simp add: unat_plus_if_size word_size)
  have "drain_loop n (l_now l + rto32 l + 1) ws l \<noteq> None" for n
    by (rule drain_loop_returns) (use assms d in \<open>auto simp only: short_window_def\<close>)
  then have "drainTxRing need ws l \<noteq> None" unfolding drainTxRing_def Let_def by (simp only: option.distinct simp_thms split: if_split)
  then show ?thesis by auto
qed

text \<open>The witness: a full ring, and other tasks that do nothing.\<close>

definition demo_full :: Link where
  "demo_full = hw (\<lambda>h. h\<lparr>h_txCap := 0\<rparr>) (demo_link True)"

lemma demo_full_simps [simp]:
  "l_state demo_full = OK" "l_now demo_full = 5000" "hal_txAvail (l_hw demo_full) = 0" "wire demo_full = []"
  "l_cfg demo_full = demo_cfg" "l_spdI demo_full = 0" "l_t demo_full = l_t (demo_link True)"
  "l_sweep demo_full = l_sweep (demo_link True)" "l_k demo_full = l_k (demo_link True)"
  by (simp_all add: demo_full_def hal_txAvail_def)

lemma demo_full_rto: "rto32 demo_full = 500"
proof -
  have "l_baud 0 demo_full = 512000"
    by (simp add: l_baud_def allowedBaudSafe_def demo_cfg_def config_default_def wire_defs)
  then show ?thesis
    by (simp add: rto32_def baudAwareRtoMs_def chunkTxMs_def demo_cfg_def config_default_def wire_defs)
qed

theorem drainTxRing_returns_witness:
  "\<exists>ok r l' ws'. drainTxRing 0 (replicate 502 id) demo_full = Some (ok, r, l', ws')"
  by (rule drainTxRing_returns) (simp_all add: demo_full_rto)

subsection \<open>The raw stream over a full ring\<close>

lemma sendCobsFrame_full:
  assumes "hal_txAvail (l_hw l) < kWorstCaseCobsFrame"
  shows "sendCobsFrame b l = (False, noteTxReject (noteRingStall l))"
  using assms by (simp add: sendCobsFrame_def buildAndTxCobsFrame_def)

lemma sendRaw_full:
  assumes "l_state l = OK" and "hal_txAvail (l_hw l) < kWorstCaseCobsFrame"
  shows "fst (sendRaw b l) = int (length b) \<and> wire (snd (sendRaw b l)) = wire l \<and>
    t_txSeq (l_t (snd (sendRaw b l))) = t_txSeq (l_t l) \<and>
    c_txBytes (l_c (snd (sendRaw b l))) = c_txBytes (l_c l) + of_nat (length b)"
  using assms
proof (induction b arbitrary: l rule: length_induct)
  case (1 b)
  show ?case
  proof (cases "b = []")
    case True
    then show ?thesis by (simp add: sendRaw.simps)
  next
    case False
    let ?c = "take (nat MAX_CHUNK) b" and ?r = "drop (nat MAX_CHUNK) b"
    define l1 where "l1 = noteTx (length ?c) (noteTxReject (noteRingStall l))"
    define l2 where "l2 = (if ?r \<noteq> [] \<and> interChunkGapMs l1 > 0
      then hw (hal_delayUs (u32_of_int (interChunkGapMs l1) * 1000)) l1 else l1)"
    have l1: "l_state l1 = OK" "l_hw l1 = l_hw l" "t_txSeq (l_t l1) = t_txSeq (l_t l)"
      "c_txBytes (l_c l1) = c_txBytes (l_c l) + of_nat (length ?c)"
      using "1.prems"(1) by (simp_all add: l1_def noteTx_def noteTxReject_def noteRingStall_def Let_def)
    have room: "hal_txAvail (h_now_update f h) = hal_txAvail h" for f h by (simp add: hal_txAvail_def)
    have l2: "l_state l2 = OK" "hal_txAvail (l_hw l2) < kWorstCaseCobsFrame" "wire l2 = wire l"
      "t_txSeq (l_t l2) = t_txSeq (l_t l)" "c_txBytes (l_c l2) = c_txBytes (l_c l) + of_nat (length ?c)"
      using l1 "1.prems"(2) by (simp_all add: l2_def hal_delayUs_def room Let_def)
    have e: "sendRaw b l = (int (length ?c) + fst (sendRaw ?r l2), snd (sendRaw ?r l2))"
    proof -
      have go: "(b = [] \<or> l_state l \<noteq> OK) = False" using False "1.prems"(1) by simp
      show ?thesis
        unfolding l2_def l1_def
        by (subst sendRaw.simps)
          (simp only: go if_False Let_def sendCobsFrame_full [OF "1.prems"(2)] snd_conv split_beta)
    qed
    have n: "length ?c + length ?r = length b" by simp
    have "length ?r < length b" using False by (simp add: wire_defs)
    with "1.IH" l2(1, 2) have "fst (sendRaw ?r l2) = int (length ?r) \<and> wire (snd (sendRaw ?r l2)) = wire l2 \<and>
        t_txSeq (l_t (snd (sendRaw ?r l2))) = t_txSeq (l_t l2) \<and>
        c_txBytes (l_c (snd (sendRaw ?r l2))) = c_txBytes (l_c l2) + of_nat (length ?r)"
      by blast
    note ih = this
    show ?thesis
    proof (intro conjI)
      show "fst (sendRaw b l) = int (length b)" unfolding e fst_conv using ih n by linarith
      show "wire (snd (sendRaw b l)) = wire l" unfolding e snd_conv using ih l2(3) by (elim conjE) (rule trans)
      show "t_txSeq (l_t (snd (sendRaw b l))) = t_txSeq (l_t l)"
        unfolding e snd_conv using ih l2(4) by (elim conjE) (rule trans)
      have "c_txBytes (l_c (snd (sendRaw ?r l2))) = c_txBytes (l_c l) + (of_nat (length ?c) + of_nat (length ?r))"
        using ih l2(5) by (elim conjE) (simp only: add.assoc)
      then show "c_txBytes (l_c (snd (sendRaw b l))) = c_txBytes (l_c l) + of_nat (length b)"
        unfolding e snd_conv by (simp only: n flip: of_nat_add)
    qed
  qed
qed

text \<open>The raw \<open>write\<close> counts what it did not send. With a transmit ring too full for one frame,
  a write of any length on a locked link reports every byte as written and adds them to the
  byte count, and puts nothing on the wire.\<close>

theorem write_counts_refused:
  assumes "l_state l = OK" and "\<not> txQuiet l" and "hal_txAvail (l_hw l) < kWorstCaseCobsFrame" and "b \<noteq> []"
  shows "fst (link_write b (int (length b)) l) = int (length b) \<and>
    wire (snd (link_write b (int (length b)) l)) = wire l \<and>
    c_txBytes (l_c (snd (link_write b (int (length b)) l))) = c_txBytes (l_c l) + of_nat (length b)"
  using assms sendRaw_full [OF assms(1, 3), of b] by (simp add: link_write_def sendMsg_unlocked_def)

theorem write_counts_refused_witness:
  "fst (link_write [1, 2] 2 demo_full) = 2 \<and> wire (snd (link_write [1, 2] 2 demo_full)) = []"
  using write_counts_refused [of demo_full "[1, 2]"]
  by (simp add: txQuiet_def wire_defs demo_link_def link_new_def)

subsection \<open>The rate limiter after 2^31 ms\<close>

lemma sint_u32_neg:
  fixes w :: u32
  assumes "2 ^ 31 \<le> unat w"
  shows "sint w < 0"
proof (rule ccontr)
  assume "\<not> sint w < 0"
  then have "take_bit 32 (sint w) = sint w"
    using sint_u32_less [of w] by (intro take_bit_int_eq_self) simp_all
  then have "uint w = sint w" using uint_sint [of w] by simp
  moreover have "2 ^ 31 \<le> int (unat w)" using assms by (simp only: numeral_power_le_of_nat_cancel_iff)
  ultimately show False using sint_u32_less [of w] by (simp only: of_nat_unat)
qed

text \<open>After 2^31 ms of uptime the rate limiter refuses everything. With no debt ever parked
  (or the last one cleared) the debt gate compares the clock with 0 as a signed difference, so
  on a locked link every message that passes the first checks is refused as rate-limited, and
  the gate stays as it is until the clock wraps.\<close>

theorem rate_gate_shuts:
  assumes "sendMsg_guards len l = Inr l" and "t_rateNextAllowedMs (l_t l) = 0" and "2 ^ 31 \<le> unat (l_now l)"
    and "0 \<le> l_spdI l" "l_spdI l < cfg_allowedBaudsCount (l_cfg l)" "0 < l_baud (l_spdI l) l"
  shows "\<exists>r l'. sendMsg b len ws l = Some (r, l') \<and> \<not> sr_ok r \<and> t_lastSendMsgReason (l_t l') = SmRateLimited \<and>
    wire l' = wire l \<and> t_rateNextAllowedMs (l_t l') = 0 \<and> n_rateLimitedCount (l_n l') = n_rateLimitedCount (l_n l) + 1"
proof -
  have "i32_of_u32 (l_now l) < 0"
    using assms(3) by (rule sint_u32_neg)
  then have "sendMsg_rate len l = rateRefused l"
    using assms(2, 4-6) by (simp add: sendMsg_rate_def Let_def)
  then show ?thesis
    using assms(1, 2) by (simp add: sendMsg_def rateRefused_def refused_def setReason_def)
qed

subsection \<open>The phase-3 walk\<close>

text \<open>The walk of phase 3 does not hear its answers. When no answer came at the confirmed baud,
  the master goes on to the next one and pings there, but it has left the sweep phases: the
  peer's PONG at that baud is counted and changes nothing else, so the ping cannot lead to a
  lock.\<close>

theorem phase3_walk_deaf:
  assumes "l_isMaster l" and "l_state l = SWP" and "sw_phase (l_sweep l) = PHASE3" and "\<not> p_resweepPrefPending (l_p l)"
    and "0 \<le> sw_phase3Baud (l_sweep l)" "sw_phase3Baud (l_sweep l) + 1 < clampedCount (l_cfg l)"
    and "\<not> b_breakStormPending (l_b l)" "\<not> b_breakConfirmPending (l_b l)"
  shows "sw_phase (l_sweep (onTimer l)) = NONE \<and> l_spdI (onTimer l) = sw_phase3Baud (l_sweep l) + 1 \<and>
    (\<exists>l'. handleSwp e PONG_CMD (onTimer l) = (False, l') \<and> l_sweep l' = l_sweep (onTimer l) \<and>
      l_state l' = SWP \<and> wire l' = wire (onTimer l) \<and> l_spdI l' = l_spdI (onTimer l) \<and>
      s_sweepPongCount (l_s l') = s_sweepPongCount (l_s (onTimer l)) + 1)"
proof -
  have "decideMasterPhase3Timeout (sw_phase3Baud (l_sweep l) + 1) (cfg_allowedBaudsCount (clampToMaxBauds (l_cfg l))) = Stay"
    using assms(5, 6) by (auto simp: decideMasterPhase3Timeout_def clampedCount_def clampToMaxBauds_def Let_def)
  then have t: "onTimer l = hw (hal_startTimer (d_phase2 (sw_dwells (l_sweep l)) (nat (sw_phase3Baud (l_sweep l) + 1))))
      (sendSweepFrame PING_CMD (selectBaud (sw_phase3Baud (l_sweep l) + 1) (sweepReset (l_clampBauds l))))"
    using assms
    by (simp add: onTimer_def onTimerSwp_def masterPhase3Tick_def Let_def frame_simps sweepReset_def sweep_reset_def
        selectBaud_def setSpdI_def l_clampBauds_def)
  define m where "m = onTimer l"
  have m: "sw_phase (l_sweep m) = NONE" "l_spdI m = sw_phase3Baud (l_sweep l) + 1" "l_state m = SWP" "l_isMaster m"
    using assms(1, 2)
    by (simp_all add: m_def t frame_simps selectBaud_def setSpdI_def sweepReset_def sweep_reset_def l_clampBauds_def)
  have "isLockPayload PONG_CMD c = None" for c by (simp add: isLockPayload_def PONG_CMD_def)
  then show ?thesis
    using m unfolding m_def [symmetric]
    by (simp add: handleSwp_def handlePong_def notePeerEpoch_def l_clampBauds_def PONG_CMD_def REQ_CMD_def Let_def)
qed

text \<open>The witnesses: a locked link whose clock is past 2^31 ms, and a master that confirms the fastest
  baud.\<close>

definition demo_old :: Link where
  "demo_old = hw (\<lambda>h. h\<lparr>h_now := 2 ^ 31\<rparr>) (demo_link True)"

theorem rate_gate_shuts_witness:
  "\<exists>r l'. sendMsg [1] 1 [] demo_old = Some (r, l') \<and> \<not> sr_ok r \<and> t_lastSendMsgReason (l_t l') = SmRateLimited"
proof -
  have o: "l_state demo_old = OK" "l_cfg demo_old = demo_cfg" "l_now demo_old = 2 ^ 31" "l_spdI demo_old = 0"
    "l_t demo_old = l_t (demo_link True)" "l_arq demo_old = arq_new" "l_cache demo_old = cache_new 8"
    "l_k demo_old = l_k (demo_link True)"
    by (simp_all add: demo_old_def)
  have "arq_pendingCount arq_new = 0" by (simp add: arq_pendingCount_def arq_new_def arq_clearAll_def)
  then have "sendMsg_guards 1 demo_old = Inr demo_old"
    using o by (simp add: sendMsg_guards_def txQuiet_def chunksForMsgLen_def demo_link_def link_new_def cache_new_def
        demo_cfg_def config_default_def wire_defs)
  moreover have "0 < l_baud 0 demo_old"
    using o by (simp add: l_baud_def allowedBaudSafe_def demo_cfg_def config_default_def wire_defs)
  ultimately show ?thesis
    using rate_gate_shuts [of 1 demo_old "[1]" "[]"] o
    by (auto simp: demo_link_def link_new_def demo_cfg_def config_default_def)
qed

theorem phase3_walk_deaf_witness:
  "\<exists>l'. handleSwp 0 PONG_CMD (onTimer (l_sweep_update (\<lambda>s. s\<lparr>sw_phase := PHASE3, sw_phase3Baud := 0\<rparr>)
      (l_s_update (\<lambda>s. s\<lparr>s_state := SWP\<rparr>) (demo_link True)))) = (False, l') \<and> l_state l' = SWP"
  using phase3_walk_deaf [of "l_sweep_update (\<lambda>s. s\<lparr>sw_phase := PHASE3, sw_phase3Baud := 0\<rparr>)
      (l_s_update (\<lambda>s. s\<lparr>s_state := SWP\<rparr>) (demo_link True))" 0]
  by (auto simp: demo_link_def link_new_def demo_cfg_def config_default_def clampedCount_def wire_defs)

end
