(* ===== verification/OtaZip.thy ===== *)
theory OtaZip
  imports AlPrelude
begin

text \<open>
  The update of the web dashboard (\<open>web/OtaCore.h\<close>, \<open>web/OtaCore.cpp\<close>, the sink of
  \<open>web/handlers/AutoLinkWebHandlersOta.cpp\<close>): a streaming reader of stored ZIP archives that is
  fed the upload piece by piece and calls back for each entry, and the check of an entry's
  name before a file of the flash file system is opened.

  The callbacks are arguments; what the C++ context pointer leads to is the value \<open>z_ctx\<close>. A C
  string is the list of its bytes before the terminating 0. The file system is an argument of
  the sink.
\<close>

subsection \<open>Sizes and slots\<close>

definition OTA_HEAP_RESERVE :: nat where "OTA_HEAP_RESERVE = 16384"

definition otaInactiveSlot :: "int \<Rightarrow> int \<Rightarrow> int" where
  "otaInactiveSlot running count =
     (if count < 2 \<or> running < 0 \<or> running \<ge> count then -1 else (running + 1) mod count)"

definition otaRecvChunkBytes :: "nat \<Rightarrow> nat \<Rightarrow> nat" where
  "otaRecvChunkBytes freeHeap reserve =
     (if freeHeap = 0 then 4096
      else
        let avail = (if freeHeap > reserve then freeHeap - reserve else 0);
            n0 = avail div 4;
            n1 = (if n0 < 1024 then 1024 else n0) in
        if n1 > 8192 then 8192 else n1)"

subsection \<open>Names\<close>

definition kNameMax :: nat where "kNameMax = 96"

text \<open>\<open>strstr(name, "..")\<close>\<close>

fun has_dotdot :: "bytes \<Rightarrow> bool" where
  "has_dotdot (a # b # s) \<longleftrightarrow> a = 0x2E \<and> b = 0x2E \<or> has_dotdot (b # s)"
| "has_dotdot _ \<longleftrightarrow> False"

text \<open>\<open>"/web/"\<close>\<close>

definition kPrefix :: bytes where "kPrefix = [0x2F, 0x77, 0x65, 0x62, 0x2F]"

text \<open>The path, or \<open>None\<close> for a refusal.\<close>

definition otaSafeEntryName :: "bytes \<Rightarrow> nat \<Rightarrow> bytes option" where
  "otaSafeEntryName name outLen =
     (let n = length name in
      if n = 0 \<or> n > kNameMax then None
      else if hd name = 0x2F \<or> last name = 0x2F then None
      else if has_dotdot name \<or> 0x5C \<in> set name then None
      else if outLen < length kPrefix + n + 1 then None
      else Some (kPrefix @ name))"

subsection \<open>The reader\<close>

datatype St = SIG | HDR | NAME | EXTRA | DATA | SKIP | DONE | ERR

record 'c OtaZipCbs =
  cb_entry :: "(bytes \<Rightarrow> u32 \<Rightarrow> 'c \<Rightarrow> bool \<times> 'c) option"
  cb_data :: "(bytes \<Rightarrow> 'c \<Rightarrow> bool \<times> 'c) option"
  cb_entryEnd :: "('c \<Rightarrow> bool \<times> 'c) option"

record 'c OtaZipStream =
  z_ctx :: 'c
  z_st :: St
  z_err :: "string option"
  z_hdr :: bytes
  z_name :: bytes
  z_need :: nat
  z_got :: nat
  z_dataLeft :: u32
  z_nameLen :: u16
  z_extraLen :: u16
  z_deliver :: bool

definition zip_new :: "'c \<Rightarrow> 'c OtaZipStream" where
  "zip_new c =
     \<lparr>z_ctx = c, z_st = SIG, z_err = None, z_hdr = replicate 26 0, z_name = replicate (kNameMax + 1) 0,
      z_need = 0, z_got = 0, z_dataLeft = 0, z_nameLen = 0, z_extraLen = 0, z_deliver = False\<rparr>"

definition rd16 :: "bytes \<Rightarrow> nat \<Rightarrow> u16" where
  "rd16 p i = ucast (p ! i) OR push_bit 8 (ucast (p ! (i + 1)))"

definition rd32 :: "bytes \<Rightarrow> nat \<Rightarrow> u32" where
  "rd32 p i =
     ucast (p ! i) OR push_bit 8 (ucast (p ! (i + 1))) OR push_bit 16 (ucast (p ! (i + 2))) OR
     push_bit 24 (ucast (p ! (i + 3)))"

text \<open>\<open>while (got_ < need && n > 0) { buf[got_++] = *b++; n--; }\<close>\<close>

fun copyIn :: "nat \<Rightarrow> bytes \<Rightarrow> nat \<Rightarrow> bytes \<Rightarrow> bytes \<times> nat \<times> bytes" where
  "copyIn need buf got [] = (buf, got, [])"
| "copyIn need buf got (x # xs) =
     (if got < need then copyIn need (buf[got := x]) (got + 1) xs else (buf, got, x # xs))"

definition zip_cstr :: "bytes \<Rightarrow> bytes" where
  "zip_cstr = takeWhile (\<lambda>x. x \<noteq> 0)"

text \<open>The outcome of one turn of the loop: go on with the bytes left, or return.\<close>

datatype 'z turn = More 'z bytes | Ret bool 'z

definition zip_fail :: "string \<Rightarrow> 'c OtaZipStream \<Rightarrow> 'c OtaZipStream turn" where
  "zip_fail e z = Ret False (z\<lparr>z_st := ERR, z_err := Some e\<rparr>)"

definition zip_sig :: "bytes \<Rightarrow> 'c OtaZipStream \<Rightarrow> 'c OtaZipStream turn" where
  "zip_sig b z =
     (case copyIn 4 (z_hdr z) (z_got z) b of
        (h, got, b1) \<Rightarrow>
          let z1 = z\<lparr>z_hdr := h, z_got := got\<rparr> in
          if got < 4 then Ret True z1
          else
            let sig = rd32 h 0 in
            if sig = 0x02014b50 \<or> sig = 0x06054b50 then Ret True (z1\<lparr>z_st := DONE\<rparr>)
            else if sig \<noteq> 0x04034b50 then zip_fail ''bad local header signature'' z1
            else More (z1\<lparr>z_st := HDR, z_got := 0, z_need := 26\<rparr>) b1)"

definition zip_hdr :: "bytes \<Rightarrow> 'c OtaZipStream \<Rightarrow> 'c OtaZipStream turn" where
  "zip_hdr b z =
     (case copyIn (z_need z) (z_hdr z) (z_got z) b of
        (h, got, b1) \<Rightarrow>
          let z1 = z\<lparr>z_hdr := h, z_got := got\<rparr> in
          if got < z_need z then Ret True z1
          else
            let flags = rd16 h 2; mthd = rd16 h 4;
                z2 = z1\<lparr>z_dataLeft := rd32 h 14, z_nameLen := rd16 h 22, z_extraLen := rd16 h 24\<rparr> in
            if mthd \<noteq> 0 then zip_fail ''compressed entry (zip with -0)'' z2
            else if flags AND 0x0008 \<noteq> 0 then zip_fail ''data-descriptor entry unsupported'' z2
            else if z_nameLen z2 = 0 \<or> unat (z_nameLen z2) > kNameMax then zip_fail ''entry name too long'' z2
            else More (z2\<lparr>z_st := NAME, z_got := 0\<rparr>) b1)"

definition zip_name :: "bytes \<Rightarrow> 'c OtaZipStream \<Rightarrow> 'c OtaZipStream turn" where
  "zip_name b z =
     (case copyIn (unat (z_nameLen z)) (z_name z) (z_got z) b of
        (nm, got, b1) \<Rightarrow>
          let z1 = z\<lparr>z_name := nm, z_got := got\<rparr> in
          if got < unat (z_nameLen z) then Ret True z1
          else More (z1\<lparr>z_name := nm[unat (z_nameLen z) := 0], z_st := EXTRA, z_got := 0\<rparr>) b1)"

text \<open>The callbacks; a null one is skipped, and so are those of an entry that is not wanted.\<close>

definition callEntry :: "'c OtaZipCbs \<Rightarrow> bytes \<Rightarrow> u32 \<Rightarrow> 'c \<Rightarrow> bool \<times> 'c" where
  "callEntry cb nm sz c = (case cb_entry cb of None \<Rightarrow> (False, c) | Some f \<Rightarrow> f nm sz c)"

definition callData :: "'c OtaZipCbs \<Rightarrow> bytes \<Rightarrow> St \<Rightarrow> 'c \<Rightarrow> bool \<times> 'c" where
  "callData cb b st c =
     (case cb_data cb of None \<Rightarrow> (True, c) | Some f \<Rightarrow> if st = DATA then f b c else (True, c))"

definition callEnd :: "'c OtaZipCbs \<Rightarrow> St \<Rightarrow> 'c \<Rightarrow> bool \<times> 'c" where
  "callEnd cb st c =
     (case cb_entryEnd cb of None \<Rightarrow> (True, c) | Some f \<Rightarrow> if st = DATA then f c else (True, c))"

definition zip_extra :: "'c OtaZipCbs \<Rightarrow> bytes \<Rightarrow> 'c OtaZipStream \<Rightarrow> 'c OtaZipStream turn" where
  "zip_extra cb b z =
     (let want = unat (z_extraLen z) - z_got z;
          skip = (if want > length b then length b else want);
          z1 = z\<lparr>z_got := z_got z + skip\<rparr>; b1 = drop skip b in
      if z_got z1 < unat (z_extraLen z) then Ret True z1
      else
        let sz = rd32 (z_hdr z) 18 in
        (case callEntry cb (zip_cstr (z_name z)) sz (z_ctx z) of
           (d, c) \<Rightarrow>
             More (z1\<lparr>z_ctx := c, z_deliver := d, z_st := (if d then DATA else SKIP), z_got := 0\<rparr>) b1))"

definition zip_data :: "'c OtaZipCbs \<Rightarrow> bytes \<Rightarrow> 'c OtaZipStream \<Rightarrow> 'c OtaZipStream turn" where
  "zip_data cb b z =
     (if z_dataLeft z = 0 then
        (case callEnd cb (z_st z) (z_ctx z) of
           (ok, c) \<Rightarrow>
             let z1 = z\<lparr>z_ctx := c\<rparr> in
             if \<not> ok then zip_fail ''entryEnd abort'' z1 else More (z1\<lparr>z_st := SIG, z_got := 0\<rparr>) b)
      else
        let tk = (if unat (z_dataLeft z) > length b then length b else unat (z_dataLeft z)) in
        if tk = 0 then Ret True z
        else
          (case callData cb (take tk b) (z_st z) (z_ctx z) of
             (ok, c) \<Rightarrow>
               let z1 = z\<lparr>z_ctx := c\<rparr> in
               if \<not> ok then zip_fail ''data sink abort'' z1
               else More (z1\<lparr>z_dataLeft := z_dataLeft z - of_nat tk\<rparr>) (drop tk b)))"

definition zip_turn :: "'c OtaZipCbs \<Rightarrow> bytes \<Rightarrow> 'c OtaZipStream \<Rightarrow> 'c OtaZipStream turn" where
  "zip_turn cb b z =
     (case z_st z of
        SIG \<Rightarrow> zip_sig b z | HDR \<Rightarrow> zip_hdr b z | NAME \<Rightarrow> zip_name b z | EXTRA \<Rightarrow> zip_extra cb b z
      | DATA \<Rightarrow> zip_data cb b z | SKIP \<Rightarrow> zip_data cb b z | DONE \<Rightarrow> Ret True z | ERR \<Rightarrow> Ret False z)"

text \<open>The loop ends: a state consumes a byte or leads to one that is nearer to the next
  consumption.\<close>

definition zip_rank :: "'c OtaZipStream \<Rightarrow> nat" where
  "zip_rank z =
     (case z_st z of
        NAME \<Rightarrow> if z_got z < unat (z_nameLen z) then 1 else 6
      | HDR \<Rightarrow> 2 | SIG \<Rightarrow> 3 | DATA \<Rightarrow> 4 | SKIP \<Rightarrow> 4 | EXTRA \<Rightarrow> 5 | DONE \<Rightarrow> 0 | ERR \<Rightarrow> 0)"

lemma copyIn_rest:
  "copyIn need buf got b = (buf', got', b') \<Longrightarrow>
     length b' \<le> length b \<and> got' = got + (length b - length b') \<and> (got \<le> need \<longrightarrow> got' \<le> need) \<and>
     (b' \<noteq> [] \<longrightarrow> need \<le> got') \<and> length buf' = length buf \<and> b' = drop (length b - length b') b"
  by (induction need buf got b rule: copyIn.induct) (auto split: if_splits simp: Suc_diff_le)

lemma zip_turn_progress:
  assumes "zip_turn cb b z = More z' b'" and "b \<noteq> [] \<or> z_st z = DATA \<and> z_dataLeft z = 0"
  shows "length b' < length b \<or> length b' = length b \<and> zip_rank z' < zip_rank z"
proof (cases "z_st z")
  case SIG
  then show ?thesis
    using assms by (auto simp: zip_turn_def zip_sig_def zip_fail_def zip_rank_def Let_def
        split: if_splits prod.splits dest!: copyIn_rest)
next
  case HDR
  then show ?thesis
    using assms by (auto simp: zip_turn_def zip_hdr_def zip_fail_def zip_rank_def Let_def unat_gt_0
        split: if_splits prod.splits dest!: copyIn_rest)
next
  case NAME
  then show ?thesis
    using assms by (auto simp: zip_turn_def zip_name_def zip_rank_def Let_def
        split: if_splits prod.splits dest!: copyIn_rest)
next
  case EXTRA
  then show ?thesis
    using assms by (auto simp: zip_turn_def zip_extra_def zip_rank_def Let_def split: if_splits prod.splits)
next
  case DATA
  then show ?thesis
    using assms by (auto simp: zip_turn_def zip_data_def zip_fail_def zip_rank_def Let_def
        split: if_splits prod.splits)
next
  case SKIP
  then show ?thesis
    using assms by (auto simp: zip_turn_def zip_data_def zip_fail_def zip_rank_def Let_def
        split: if_splits prod.splits)
qed (use assms in \<open>simp_all add: zip_turn_def\<close>)

function zip_loop :: "'c OtaZipCbs \<Rightarrow> bytes \<Rightarrow> 'c OtaZipStream \<Rightarrow> bool \<times> 'c OtaZipStream" where
  "zip_loop cb b z =
     (if b \<noteq> [] \<or> z_st z = DATA \<and> z_dataLeft z = 0 then
        (case zip_turn cb b z of More z' b' \<Rightarrow> zip_loop cb b' z' | Ret r z' \<Rightarrow> (r, z'))
      else (True, z))"
  by pat_completeness auto
termination
  by (relation "measures [\<lambda>(cb, b, z). length b, \<lambda>(cb, b, z). zip_rank z]")
    (auto dest!: zip_turn_progress)

declare zip_loop.simps [simp del]

definition zip_feed :: "'c OtaZipCbs \<Rightarrow> bytes \<Rightarrow> 'c OtaZipStream \<Rightarrow> bool \<times> 'c OtaZipStream" where
  "zip_feed cb b z = (if z_st z = ERR then (False, z) else zip_loop cb b z)"


subsection \<open>Cutting the upload\<close>

lemma copyIn_append:
  "copyIn need buf got (xs @ ys) =
     (case copyIn need buf got xs of (bf, g, r) \<Rightarrow> if r = [] then copyIn need bf g ys else (bf, g, r @ ys))"
  by (induction need buf got xs rule: copyIn.induct) (auto split: prod.splits)

text \<open>A data sink that does not care how the bytes of an entry are cut.\<close>

definition sink_streams :: "'c OtaZipCbs \<Rightarrow> bool" where
  "sink_streams cb \<longleftrightarrow>
     (\<forall>f x y c. cb_data cb = Some f \<and> x \<noteq> [] \<and> y \<noteq> [] \<longrightarrow>
        f (x @ y) c = (case f x c of (ok, c') \<Rightarrow> if ok then f y c' else (False, c')))"

lemma copyIn_full: "copyIn need buf got b = (buf', got', r) \<Longrightarrow> got' < need \<Longrightarrow> r = []"
  using copyIn_rest [of need buf got b buf' got' r] by auto

lemma copyIn_done: "\<not> got < need \<Longrightarrow> copyIn need buf got b = (buf, got, b)"
  by (cases b) simp_all

lemma turn_copy_append:
  assumes "z_st z = SIG \<or> z_st z = HDR \<or> z_st z = NAME"
  shows "zip_turn cb (b @ ys) z =
    (case zip_turn cb b z of
       More z' b' \<Rightarrow> More z' (b' @ ys)
     | Ret r z' \<Rightarrow> if z_st z' = z_st z then zip_turn cb ys z' else Ret r z')"
proof -
  consider "z_st z = SIG" | "z_st z = HDR" | "z_st z = NAME" using assms by blast
  then show ?thesis
  proof cases
    case 1
    obtain h g r where c: "copyIn 4 (z_hdr z) (z_got z) b = (h, g, r)" by (cases "copyIn 4 (z_hdr z) (z_got z) b")
    show ?thesis
      using 1 copyIn_full [OF c]
      by (cases "g < 4") (simp_all add: zip_turn_def zip_sig_def zip_fail_def copyIn_append copyIn_done c Let_def)
  next
    case 2
    obtain h g r where c: "copyIn (z_need z) (z_hdr z) (z_got z) b = (h, g, r)"
      by (cases "copyIn (z_need z) (z_hdr z) (z_got z) b")
    show ?thesis
      using 2 copyIn_full [OF c]
      by (cases "g < z_need z") (simp_all add: zip_turn_def zip_hdr_def zip_fail_def copyIn_append copyIn_done c Let_def)
  next
    case 3
    obtain h g r where c: "copyIn (unat (z_nameLen z)) (z_name z) (z_got z) b = (h, g, r)"
      by (cases "copyIn (unat (z_nameLen z)) (z_name z) (z_got z) b")
    show ?thesis
      using 3 copyIn_full [OF c]
      by (cases "g < unat (z_nameLen z)") (simp_all add: zip_turn_def zip_name_def copyIn_append copyIn_done c Let_def split: prod.split)
  qed
qed

lemma turn_extra_append:
  assumes "z_st z = EXTRA"
  shows "zip_turn cb (b @ ys) z =
    (case zip_turn cb b z of More z' b' \<Rightarrow> More z' (b' @ ys) | Ret r z' \<Rightarrow> zip_turn cb ys z')"
proof (cases "unat (z_extraLen z) - z_got z > length b")
  case True
  have e: "zip_turn cb x y = zip_extra cb x y" if "z_st y = EXTRA" for x y using that by (simp add: zip_turn_def)
  have lt: "z_got z + length b < unat (z_extraLen z)" using True by simp
  have "(if unat (z_extraLen z) - z_got z > length (b @ ys) then length (b @ ys) else unat (z_extraLen z) - z_got z) =
      length b + (if unat (z_extraLen z) - (z_got z + length b) > length ys then length ys
        else unat (z_extraLen z) - (z_got z + length b))"
    using True by auto
  moreover have "z_got z + (length b + k) = z_got z + length b + k" "drop (length b + k) (b @ ys) = drop k ys" for k
    by simp_all
  ultimately have "zip_extra cb (b @ ys) z = zip_extra cb ys (z\<lparr>z_got := z_got z + length b\<rparr>)"
    unfolding zip_extra_def Let_def by (auto split: prod.split)
  moreover have "zip_extra cb b z = Ret True (z\<lparr>z_got := z_got z + length b\<rparr>)"
    using True lt by (simp add: zip_extra_def Let_def)
  ultimately show ?thesis using assms e by simp
next
  case False
  then show ?thesis using assms by (simp add: zip_turn_def zip_extra_def Let_def split: prod.split)
qed

lemma turn_data_append:
  assumes st: "z_st z = DATA \<or> z_st z = SKIP" and small: "z_dataLeft z = 0 \<or> unat (z_dataLeft z) \<le> length b"
  shows "zip_turn cb (b @ ys) z =
    (case zip_turn cb b z of More z' b' \<Rightarrow> More z' (b' @ ys) | Ret r z' \<Rightarrow> Ret r z')"
proof -
  have z: "zip_turn cb x z = zip_data cb x z" for x using st by (auto simp: zip_turn_def)
  show ?thesis
  proof (cases "z_dataLeft z = 0")
    case True
    then show ?thesis by (simp add: z zip_data_def zip_fail_def Let_def split: prod.split)
  next
    case False
    then have n: "unat (z_dataLeft z) \<noteq> 0" "unat (z_dataLeft z) \<le> length b" using small by (auto simp: unat_eq_0)
    then have "take (unat (z_dataLeft z)) (b @ ys) = take (unat (z_dataLeft z)) b" by simp
    then show ?thesis
      using n False
      by (cases "callData cb (take (unat (z_dataLeft z)) b) (z_st z) (z_ctx z)")
        (simp add: z zip_data_def zip_fail_def Let_def)
  qed
qed

text \<open>What a caller can observe: the answer, and the whole state unless the reader has failed, which
  leaves the error and the context.\<close>

definition zip_obs :: "bool \<Rightarrow> 'c OtaZipStream \<Rightarrow> bool \<times> (string option \<times> 'c + 'c OtaZipStream)" where
  "zip_obs r z = (r, if z_st z = ERR then Inl (z_err z, z_ctx z) else Inr z)"

text \<open>The bytes end within an entry's data: the sink takes the rest with the next piece.\<close>

lemma turn_data_cut:
  assumes sink: "sink_streams cb" and st: "z_st z = DATA \<or> z_st z = SKIP"
    and cut: "length b < unat (z_dataLeft z)" "b \<noteq> []" "ys \<noteq> []"
  shows "(\<exists>z'. zip_turn cb b z = More z' [] \<and> z_st z' = z_st z \<and> z_dataLeft z' \<noteq> 0 \<and>
      (zip_turn cb (b @ ys) z = zip_turn cb ys z' \<or>
       (\<exists>x y. zip_turn cb (b @ ys) z = Ret False x \<and> zip_turn cb ys z' = Ret False y \<and>
         zip_obs False x = zip_obs False y))) \<or>
    (\<exists>z'. zip_turn cb b z = Ret False z' \<and> zip_turn cb (b @ ys) z = Ret False z')"
proof -
  let ?d = "z_dataLeft z"
  define d1 where "d1 = ?d - of_nat (length b)"
  have lb: "unat (of_nat (length b) :: u32) = length b"
    using cut(1) unsigned_less [of ?d, where 'a = nat] by (intro unat_of_nat_u32) simp
  have d1: "unat d1 = unat ?d - length b"
    using cut(1) lb unfolding d1_def by (subst unat_sub) (simp_all add: word_le_nat_alt)
  then have d1_ne: "d1 \<noteq> 0" using cut(1) by auto
  have d_ne: "?d \<noteq> 0" using cut(1) by auto
  define t1 where "t1 = (if unat d1 > length ys then length ys else unat d1)"
  have t1: "t1 \<noteq> 0" "t1 \<le> length ys" using d1 cut by (auto simp: t1_def)
  have tk: "(if unat ?d > length (b @ ys) then length (b @ ys) else unat ?d) = length b + t1"
    using d1 cut(1) by (auto simp: t1_def)
  have split: "callData cb (b @ take t1 ys) st c =
      (case callData cb b st c of (ok, c') \<Rightarrow> if ok then callData cb (take t1 ys) st c' else (False, c'))" for st c
  proof -
    have "take t1 ys \<noteq> []" using t1 cut(3) by simp
    then show ?thesis
      using sink cut(2)
      by (cases "cb_data cb"; cases "st = DATA") (simp_all add: callData_def sink_streams_def split: prod.split)
  qed
  have t: "zip_turn cb x y = zip_data cb x y" if "z_st y = z_st z" for x y using st that by (auto simp: zip_turn_def)
  obtain ok c where f: "callData cb b (z_st z) (z_ctx z) = (ok, c)" by (cases "callData cb b (z_st z) (z_ctx z)")
  have one: "zip_data cb b z =
      (if \<not> ok then zip_fail ''data sink abort'' (z\<lparr>z_ctx := c\<rparr>) else More (z\<lparr>z_ctx := c, z_dataLeft := d1\<rparr>) [])"
    using cut d_ne f by (simp add: zip_data_def d1_def Let_def)
  have d2: "?d - of_nat (length b + t1) = d1 - of_nat t1" by (simp add: d1_def)
  have two: "zip_data cb (b @ ys) z =
      (case callData cb (b @ take t1 ys) (z_st z) (z_ctx z) of (ok, c) \<Rightarrow>
       if \<not> ok then zip_fail ''data sink abort'' (z\<lparr>z_ctx := c\<rparr>)
       else More (z\<lparr>z_ctx := c, z_dataLeft := d1 - of_nat t1\<rparr>) (drop t1 ys))"
  proof -
    have "take (length b + t1) (b @ ys) = b @ take t1 ys" "drop (length b + t1) (b @ ys) = drop t1 ys"
      "length b + t1 \<noteq> 0" using t1 by simp_all
    then show ?thesis unfolding zip_data_def tk Let_def by (simp only: d_ne d2 if_False)
  qed
  show ?thesis
  proof (cases ok)
    case True
    let ?y = "z\<lparr>z_ctx := c, z_dataLeft := d1\<rparr>"
    obtain ok2 c2 where f2: "callData cb (take t1 ys) (z_st z) c = (ok2, c2)"
      by (cases "callData cb (take t1 ys) (z_st z) c")
    have "zip_data cb (b @ ys) z = (if \<not> ok2 then zip_fail ''data sink abort'' (z\<lparr>z_ctx := c2\<rparr>)
        else More (z\<lparr>z_ctx := c2, z_dataLeft := d1 - of_nat t1\<rparr>) (drop t1 ys))"
      using two split f True f2 by simp
    moreover have "zip_data cb ys ?y = (if \<not> ok2 then zip_fail ''data sink abort'' (?y\<lparr>z_ctx := c2\<rparr>)
        else More (?y\<lparr>z_ctx := c2, z_dataLeft := d1 - of_nat t1\<rparr>) (drop t1 ys))"
    proof -
      have y: "(if unat (z_dataLeft ?y) > length ys then length ys else unat (z_dataLeft ?y)) = t1"
        by (simp add: t1_def)
      show ?thesis unfolding zip_data_def Let_def y using d1_ne t1(1) f2 by simp
    qed
    ultimately have "zip_data cb (b @ ys) z = zip_data cb ys ?y \<or>
        (\<exists>x y. zip_data cb (b @ ys) z = Ret False x \<and> zip_data cb ys ?y = Ret False y \<and> zip_obs False x = zip_obs False y)"
      by (cases ok2) (auto simp: zip_fail_def zip_obs_def)
    then show ?thesis using one True d1_ne t by simp
  next
    case False
    then show ?thesis using one two split f t by (simp add: zip_fail_def)
  qed
qed

lemma turn_more_st: "zip_turn cb b z = More z' b' \<Longrightarrow> z_st z' \<noteq> ERR"
  by (cases "z_st z") (auto simp: zip_turn_def zip_sig_def zip_hdr_def zip_name_def zip_extra_def
      zip_data_def zip_fail_def Let_def split: if_splits prod.splits)

text \<open>A turn that returns has failed, is done, or waits for more bytes in the state it was in.\<close>

lemma turn_ret:
  assumes "zip_turn cb b z = Ret r z'" and "b \<noteq> [] \<or> z_st z = DATA \<and> z_dataLeft z = 0" and "z_st z \<noteq> ERR"
  shows "\<not> r \<and> z_st z' = ERR \<or> r \<and> z_st z' = DONE \<or> r \<and> z_st z' = z_st z \<and> z_st z \<in> {SIG, HDR, NAME, EXTRA}"
  using assms by (cases "z_st z") (auto simp: zip_turn_def zip_sig_def zip_hdr_def zip_name_def zip_extra_def
      zip_data_def zip_fail_def Let_def unat_eq_0 split: if_splits prod.splits)

lemma zip_loop_done: "z_st z = DONE \<Longrightarrow> zip_loop cb b z = (True, z)"
  by (subst zip_loop.simps) (simp add: zip_turn_def)

lemma zip_loop_stop: "b = [] \<Longrightarrow> \<not> (z_st z = DATA \<and> z_dataLeft z = 0) \<Longrightarrow> zip_loop cb b z = (True, z)"
  by (subst zip_loop.simps) auto

lemma zip_loop_step:
  "b \<noteq> [] \<or> z_st z = DATA \<and> z_dataLeft z = 0 \<Longrightarrow>
     zip_loop cb b z = (case zip_turn cb b z of More z' b' \<Rightarrow> zip_loop cb b' z' | Ret r z' \<Rightarrow> (r, z'))"
  by (subst zip_loop.simps) simp

lemma zip_loop_true: "zip_loop cb b z = (True, z1) \<Longrightarrow> z_st z \<noteq> ERR \<Longrightarrow> z_st z1 \<noteq> ERR"
proof (induction cb b z rule: zip_loop.induct)
  case (1 cb b z)
  show ?case
  proof (cases "b \<noteq> [] \<or> z_st z = DATA \<and> z_dataLeft z = 0")
    case True
    note step = zip_loop_step [OF True, of cb]
    show ?thesis
    proof (cases "zip_turn cb b z")
      case (More z' b')
      then show ?thesis using "1.IH" [OF True More] "1.prems" step turn_more_st [OF More] by simp
    next
      case (Ret r z')
      then show ?thesis using turn_ret [OF Ret True "1.prems"(2)] "1.prems" step by auto
    qed
  next
    case False
    then show ?thesis using "1.prems" by (simp add: zip_loop_stop)
  qed
qed

lemma turn_append_ret:
  assumes sink: "sink_streams cb" and go: "b \<noteq> [] \<or> z_st z = DATA \<and> z_dataLeft z = 0" "z_st z \<noteq> ERR"
    and t: "zip_turn cb b z = Ret r z'" and ys: "ys \<noteq> []"
  shows "zip_turn cb (b @ ys) z = (if r \<and> z_st z' \<noteq> DONE then zip_turn cb ys z' else Ret r z')"
proof (cases "z_st z")
  case SIG
  then show ?thesis using turn_copy_append [of z cb b ys] turn_ret [OF t go] t by auto
next
  case HDR
  then show ?thesis using turn_copy_append [of z cb b ys] turn_ret [OF t go] t by auto
next
  case NAME
  then show ?thesis using turn_copy_append [of z cb b ys] turn_ret [OF t go] t by auto
next
  case EXTRA
  have "r \<and> z_st z' = EXTRA"
    using t EXTRA by (auto simp: zip_turn_def zip_extra_def Let_def split: if_splits prod.splits)
  then show ?thesis using turn_extra_append [OF EXTRA, of cb b ys] t by simp
next
  case DONE
  then show ?thesis using t by (simp add: zip_turn_def)
next
  case ERR
  then show ?thesis using go by simp
qed (use turn_data_append [of z b cb ys] turn_data_cut [OF sink, of z b ys] turn_ret [OF t go] t go ys in
    \<open>cases "z_dataLeft z = 0 \<or> unat (z_dataLeft z) \<le> length b"; auto simp: not_le\<close>)+

lemma turn_append_more:
  assumes sink: "sink_streams cb" and go: "b \<noteq> [] \<or> z_st z = DATA \<and> z_dataLeft z = 0" "z_st z \<noteq> ERR"
    and t: "zip_turn cb b z = More z' b'" and ys: "ys \<noteq> []"
  shows "zip_turn cb (b @ ys) z = More z' (b' @ ys) \<or>
    b' = [] \<and> \<not> (z_st z' = DATA \<and> z_dataLeft z' = 0) \<and>
    (zip_turn cb (b @ ys) z = zip_turn cb ys z' \<or>
     (\<exists>x y. zip_turn cb (b @ ys) z = Ret False x \<and> zip_turn cb ys z' = Ret False y \<and> zip_obs False x = zip_obs False y))"
proof (cases "z_st z")
  case SIG
  then show ?thesis using turn_copy_append [of z cb b ys] t by auto
next
  case HDR
  then show ?thesis using turn_copy_append [of z cb b ys] t by auto
next
  case NAME
  then show ?thesis using turn_copy_append [of z cb b ys] t by auto
next
  case EXTRA
  then show ?thesis using turn_extra_append [OF EXTRA, of cb b ys] t by simp
next
  case DONE
  then show ?thesis using t by (simp add: zip_turn_def)
next
  case ERR
  then show ?thesis using go by simp
qed (use turn_data_append [of z b cb ys] turn_data_cut [OF sink, of z b ys] t go ys in
    \<open>cases "z_dataLeft z = 0 \<or> unat (z_dataLeft z) \<le> length b"; auto simp: not_le\<close>)+

lemma zip_loop_append:
  assumes "sink_streams cb" and "z_st z \<noteq> ERR"
  shows "case_prod zip_obs (zip_loop cb (b @ ys) z) = case_prod zip_obs
    (case zip_loop cb b z of (r, z1) \<Rightarrow> if r then zip_loop cb ys z1 else (False, z1))"
  using assms
proof (induction cb b z rule: zip_loop.induct)
  case (1 cb b z)
  show ?case
  proof (cases "b \<noteq> [] \<or> z_st z = DATA \<and> z_dataLeft z = 0")
    case False
    then show ?thesis by (simp add: zip_loop_stop)
  next
    case go: True
    then have go': "b @ ys \<noteq> [] \<or> z_st z = DATA \<and> z_dataLeft z = 0" by auto
    note step = zip_loop_step [OF go, of cb] zip_loop_step [OF go', of cb]
    show ?thesis
    proof (cases "ys = []")
      case True
      show ?thesis
      proof (cases "zip_turn cb b z")
        case (Ret r z')
        then show ?thesis using turn_ret [OF Ret go "1.prems"(2)] True step by (auto simp: zip_loop_stop)
      next
        case (More z' b')
        then show ?thesis using "1.IH" [OF go More "1.prems"(1) turn_more_st [OF More]] True step by simp
      qed
    next
      case ys: False
      have ys_step: "zip_loop cb ys x = (case zip_turn cb ys x of More z2 b' \<Rightarrow> zip_loop cb b' z2 | Ret r z2 \<Rightarrow> (r, z2))" for x
        using ys by (simp add: zip_loop_step)
      show ?thesis
      proof (cases "zip_turn cb b z")
        case (Ret r z')
        then show ?thesis
          using turn_append_ret [OF "1.prems"(1) go "1.prems"(2) Ret ys] turn_ret [OF Ret go "1.prems"(2)] step ys_step [of z']
          by (auto simp: zip_loop_done zip_turn_def)
      next
        case (More z' b')
        note ih = "1.IH" [OF go More "1.prems"(1) turn_more_st [OF More]]
        from turn_append_more [OF "1.prems"(1) go "1.prems"(2) More ys] show ?thesis
        proof (elim disjE conjE)
          assume "zip_turn cb (b @ ys) z = More z' (b' @ ys)"
          then show ?thesis using ih step More by simp
        next
          assume "b' = []" "\<not> (z_st z' = DATA \<and> z_dataLeft z' = 0)" "zip_turn cb (b @ ys) z = zip_turn cb ys z'"
          then show ?thesis using step More ys_step [of z'] by (simp add: zip_loop_stop)
        next
          assume b': "b' = []" "\<not> (z_st z' = DATA \<and> z_dataLeft z' = 0)"
            and "\<exists>x y. zip_turn cb (b @ ys) z = Ret False x \<and> zip_turn cb ys z' = Ret False y \<and> zip_obs False x = zip_obs False y"
          then obtain x y where "zip_turn cb (b @ ys) z = Ret False x" "zip_turn cb ys z' = Ret False y"
            "zip_obs False x = zip_obs False y" by blast
          then show ?thesis using step More ys_step [of z'] b' by (simp add: zip_loop_stop)
        qed
      qed
    qed
  qed
qed

text \<open>How the upload is cut into pieces does not matter. With a data sink that does not care how
  an entry's bytes are cut, feeding two pieces one after the other and feeding them as one give
  the same answer, the same callbacks' effects, the same error, and, unless the reader has
  failed, the same state.\<close>

theorem zip_feed_split:
  assumes "sink_streams cb"
  shows "case_prod zip_obs (zip_feed cb (b1 @ b2) z) = case_prod zip_obs
    (case zip_feed cb b1 z of (r, z1) \<Rightarrow> if r then zip_feed cb b2 z1 else (False, z1))"
proof (cases "z_st z = ERR")
  case True
  then show ?thesis by (simp add: zip_feed_def)
next
  case False
  have "z_st z1 \<noteq> ERR" if "zip_loop cb b1 z = (True, z1)" for z1 by (rule zip_loop_true [OF that False])
  then show ?thesis
    using zip_loop_append [OF assms False, of b1 b2] False
    by (cases "zip_loop cb b1 z") (auto simp: zip_feed_def)
qed

theorem zip_feed_split_witness:
  "case_prod zip_obs (zip_feed \<lparr>cb_entry = None, cb_data = None, cb_entryEnd = None\<rparr> ([0x50, 0x4B] @ [0x05, 0x06]) (zip_new ())) =
    case_prod zip_obs (case zip_feed \<lparr>cb_entry = None, cb_data = None, cb_entryEnd = None\<rparr> [0x50, 0x4B] (zip_new ()) of
      (r, z1) \<Rightarrow> if r then zip_feed \<lparr>cb_entry = None, cb_data = None, cb_entryEnd = None\<rparr> [0x05, 0x06] z1 else (False, z1))"
  by (rule zip_feed_split) (simp add: sink_streams_def)

end
