(* ===== verification/OtaArchive.thy ===== *)
theory OtaArchive
  imports OtaZip MsgCodec
begin

text \<open>
  The archive reader against a writer of stored archives: an archive of well-formed entries,
  fed as one piece, makes exactly the callbacks of its entries in order.
\<close>

subsection \<open>A writer\<close>

definition le16 :: "u16 \<Rightarrow> bytes" where
  "le16 w = [ucast w, ucast (drop_bit 8 w)]"

definition le32 :: "u32 \<Rightarrow> bytes" where
  "le32 w = [ucast w, ucast (drop_bit 8 w), ucast (drop_bit 16 w), ucast (drop_bit 24 w)]"

text \<open>\<open>ze_misc\<close>: modification time, date and CRC-32, which the reader does not look at.\<close>

record ZipEntry =
  ze_version :: u16
  ze_flags :: u16
  ze_misc :: bytes
  ze_name :: bytes
  ze_extra :: bytes
  ze_data :: bytes

definition zip_header :: "ZipEntry \<Rightarrow> bytes" where
  "zip_header e =
     le16 (ze_version e) @ le16 (ze_flags e) @ le16 0 @ ze_misc e @
     le32 (of_nat (length (ze_data e))) @ le32 (of_nat (length (ze_data e))) @
     le16 (of_nat (length (ze_name e))) @ le16 (of_nat (length (ze_extra e)))"

definition zip_entry :: "ZipEntry \<Rightarrow> bytes" where
  "zip_entry e = le32 0x04034b50 @ zip_header e @ ze_name e @ ze_extra e @ ze_data e"

definition ze_ok :: "ZipEntry \<Rightarrow> bool" where
  "ze_ok e \<longleftrightarrow> ze_flags e AND 0x0008 = 0 \<and> length (ze_misc e) = 8 \<and>
     1 \<le> length (ze_name e) \<and> length (ze_name e) \<le> kNameMax \<and> 0 \<notin> set (ze_name e) \<and>
     length (ze_extra e) < 2 ^ 16 \<and> length (ze_data e) < 2 ^ 32"

text \<open>The end of the entries: the first bytes of the central directory.\<close>

definition zip_end :: "bytes \<Rightarrow> bool" where
  "zip_end b \<longleftrightarrow> (\<exists>r. b = le32 0x02014b50 @ r \<or> b = le32 0x06054b50 @ r)"

text \<open>What the callbacks make of an entry, and of a list of them: whether to go on, the context.\<close>

definition put_entry :: "'c OtaZipCbs \<Rightarrow> ZipEntry \<Rightarrow> 'c \<Rightarrow> bool \<times> 'c" where
  "put_entry cb e c =
     (case callEntry cb (ze_name e) (of_nat (length (ze_data e))) c of
        (d, c1) \<Rightarrow>
          if \<not> d then (True, c1)
          else
            (case (if ze_data e = [] then (True, c1) else callData cb (ze_data e) DATA c1) of
               (ok, c2) \<Rightarrow> if ok then callEnd cb DATA c2 else (False, c2)))"

fun put_entries :: "'c OtaZipCbs \<Rightarrow> ZipEntry list \<Rightarrow> 'c \<Rightarrow> bool \<times> 'c" where
  "put_entries cb [] c = (True, c)"
| "put_entries cb (e # es) c = (case put_entry cb e c of (ok, c1) \<Rightarrow> if ok then put_entries cb es c1 else (False, c1))"

subsection \<open>Fields\<close>

lemma le_length [simp]: "length (le16 v) = 2" "length (le32 w) = 4"
  by (simp_all add: le16_def le32_def)

lemma rd16_at: "length a = i \<Longrightarrow> rd16 (a @ le16 w @ b) i = w"
  by (simp add: rd16_def le16_def nth_append u16_of_two_bytes)

lemma rd32_at: "length a = i \<Longrightarrow> rd32 (a @ le32 w @ b) i = w"
  by (simp add: rd32_def le32_def nth_append u32_of_bytes)

lemma zip_header_length: "ze_ok e \<Longrightarrow> length (zip_header e) = 26"
  by (simp add: zip_header_def ze_ok_def)

lemma zip_header_fields:
  assumes "ze_ok e"
  shows "rd16 (zip_header e) 2 = ze_flags e" "rd16 (zip_header e) 4 = 0"
    "rd32 (zip_header e) 14 = of_nat (length (ze_data e))" "rd32 (zip_header e) 18 = of_nat (length (ze_data e))"
    "rd16 (zip_header e) 22 = of_nat (length (ze_name e))" "rd16 (zip_header e) 24 = of_nat (length (ze_extra e))"
proof -
  let ?h = "zip_header e" and ?v = "le16 (ze_version e)" and ?f = "le16 (ze_flags e)" and ?m = "ze_misc e"
    and ?s = "le32 (of_nat (length (ze_data e)))" and ?n = "le16 (of_nat (length (ze_name e)))"
    and ?x = "le16 (of_nat (length (ze_extra e)))"
  have m: "length ?m = 8" using assms by (simp add: ze_ok_def)
  show "rd16 ?h 2 = ze_flags e" using rd16_at [of ?v 2] by (simp add: zip_header_def)
  show "rd16 ?h 4 = 0" using rd16_at [of "?v @ ?f" 4] by (simp add: zip_header_def)
  show "rd32 ?h 14 = of_nat (length (ze_data e))"
    using rd32_at [of "?v @ ?f @ le16 0 @ ?m" 14] m by (simp add: zip_header_def)
  show "rd32 ?h 18 = of_nat (length (ze_data e))"
    using rd32_at [of "?v @ ?f @ le16 0 @ ?m @ ?s" 18] m by (simp add: zip_header_def)
  show "rd16 ?h 22 = of_nat (length (ze_name e))"
    using rd16_at [of "?v @ ?f @ le16 0 @ ?m @ ?s @ ?s" 22] m by (simp add: zip_header_def)
  show "rd16 ?h 24 = of_nat (length (ze_extra e))"
    using rd16_at [of "?v @ ?f @ le16 0 @ ?m @ ?s @ ?s @ ?n" 24 _ "[]"] m by (simp add: zip_header_def)
qed

lemma copyIn_list:
  "length xs + got = need \<Longrightarrow> need \<le> length buf \<Longrightarrow>
     copyIn need buf got (xs @ r) = (take got buf @ xs @ drop need buf, need, r)"
proof (induction xs arbitrary: buf got)
  case Nil
  then show ?case by (simp add: copyIn_done)
next
  case (Cons x xs)
  have "take (Suc got) (buf[got := x]) = take got buf @ [x]" "drop need (buf[got := x]) = drop need buf"
    using Cons.prems by (simp_all add: take_Suc_conv_app_nth)
  then show ?case using Cons by simp
qed

subsection \<open>The turns of an entry\<close>

definition at_start :: "'c \<Rightarrow> 'c OtaZipStream \<Rightarrow> bool" where
  "at_start c z \<longleftrightarrow> z_st z = SIG \<and> z_got z = 0 \<and> length (z_hdr z) = 26 \<and> length (z_name z) = kNameMax + 1 \<and> z_ctx z = c"

lemma at_start_new: "at_start c (zip_new c)"
  by (simp add: at_start_def zip_new_def)

lemma turn_sig:
  assumes "at_start c z"
  shows "zip_turn cb (le32 w @ r) z =
    (let z1 = z\<lparr>z_hdr := le32 w @ drop 4 (z_hdr z), z_got := 4\<rparr> in
     if w = 0x02014b50 \<or> w = 0x06054b50 then Ret True (z1\<lparr>z_st := DONE\<rparr>)
     else if w \<noteq> 0x04034b50 then zip_fail ''bad local header signature'' z1
     else More (z1\<lparr>z_st := HDR, z_got := 0, z_need := 26\<rparr>) r)"
proof -
  have "copyIn 4 (z_hdr z) (z_got z) (le32 w @ r) = (le32 w @ drop 4 (z_hdr z), 4, r)"
    using copyIn_list [of "le32 w" 0 4 "z_hdr z" r] assms by (simp add: at_start_def)
  moreover have "rd32 (le32 w @ drop 4 (z_hdr z)) 0 = w" using rd32_at [of "[]" 0] by simp
  ultimately show ?thesis using assms by (simp add: at_start_def zip_turn_def zip_sig_def Let_def)
qed

lemma turn_hdr:
  assumes "ze_ok e" and "z_st z = HDR" "z_got z = 0" "z_need z = 26" "length (z_hdr z) = 26"
  shows "zip_turn cb (zip_header e @ r) z = More (z\<lparr>z_hdr := zip_header e, z_dataLeft := of_nat (length (ze_data e)),
      z_nameLen := of_nat (length (ze_name e)), z_extraLen := of_nat (length (ze_extra e)), z_st := NAME, z_got := 0\<rparr>) r"
proof -
  have c: "copyIn 26 (z_hdr z) 0 (zip_header e @ r) = (zip_header e, 26, r)"
    using copyIn_list [of "zip_header e" 0 26 "z_hdr z" r] zip_header_length [OF assms(1)] assms(5) by simp
  have n: "unat (of_nat (length (ze_name e)) :: u16) = length (ze_name e)" "length (ze_name e) \<noteq> 0"
    using assms(1) by (auto simp: ze_ok_def kNameMax_def unat_of_nat)
  then have "(of_nat (length (ze_name e)) :: u16) \<noteq> 0" by auto
  then show ?thesis
    using assms(2-4) c n assms(1)
    by (cases z) (simp add: zip_turn_def zip_hdr_def zip_header_fields [OF assms(1)] ze_ok_def Let_def)
qed

lemma turn_name:
  assumes "ze_ok e" and "z_st z = NAME" "z_got z = 0" "z_nameLen z = of_nat (length (ze_name e))"
    and "length (z_name z) = kNameMax + 1"
  shows "\<exists>nm. zip_turn cb (ze_name e @ r) z = More (z\<lparr>z_name := nm, z_st := EXTRA, z_got := 0\<rparr>) r \<and>
    zip_cstr nm = ze_name e \<and> length nm = kNameMax + 1"
proof -
  let ?n = "length (ze_name e)"
  let ?nm = "(ze_name e @ drop ?n (z_name z))[?n := 0]"
  have n: "unat (of_nat ?n :: u16) = ?n" "?n \<le> kNameMax" "0 \<notin> set (ze_name e)"
    using assms(1) by (auto simp: ze_ok_def kNameMax_def unat_of_nat)
  have "copyIn ?n (z_name z) 0 (ze_name e @ r) = (ze_name e @ drop ?n (z_name z), ?n, r)"
    using copyIn_list [of "ze_name e" 0 ?n "z_name z" r] n(2) assms(5) by simp
  then have "zip_turn cb (ze_name e @ r) z = More (z\<lparr>z_name := ?nm, z_st := EXTRA, z_got := 0\<rparr>) r"
    using assms n(1) by (cases z) (simp add: zip_turn_def zip_name_def Let_def)
  moreover obtain y ys where "drop ?n (z_name z) = y # ys"
    using n(2) assms(5) by (cases "drop ?n (z_name z)") simp_all
  then have "?nm = ze_name e @ 0 # ys" by simp
  then have "zip_cstr ?nm = ze_name e" using n(3) unfolding zip_cstr_def by (simp add: takeWhile_append)
  moreover have "length ?nm = kNameMax + 1" using n(2) assms(5) by simp
  ultimately show ?thesis by blast
qed

lemma turn_extra:
  assumes "ze_ok e" and "z_st z = EXTRA" "z_got z = 0" "z_extraLen z = of_nat (length (ze_extra e))"
    and "z_hdr z = zip_header e" "zip_cstr (z_name z) = ze_name e"
  shows "zip_turn cb (ze_extra e @ r) z =
    (case callEntry cb (ze_name e) (of_nat (length (ze_data e))) (z_ctx z) of
       (d, c) \<Rightarrow> More (z\<lparr>z_ctx := c, z_deliver := d, z_st := (if d then DATA else SKIP), z_got := 0\<rparr>) r)"
proof -
  have x: "unat (of_nat (length (ze_extra e)) :: u16) = length (ze_extra e)"
    using assms(1) by (simp add: ze_ok_def unat_of_nat)
  show ?thesis
    using assms x by (cases z) (simp add: zip_turn_def zip_extra_def zip_header_fields Let_def split: prod.split)
qed

lemma turn_payload:
  assumes "z_st z = DATA \<or> z_st z = SKIP" and "z_dataLeft z = of_nat (length b)" "length b < 2 ^ 32" "b \<noteq> []"
  shows "zip_turn cb (b @ r) z = (case callData cb b (z_st z) (z_ctx z) of (ok, c) \<Rightarrow>
    if \<not> ok then zip_fail ''data sink abort'' (z\<lparr>z_ctx := c\<rparr>) else More (z\<lparr>z_ctx := c, z_dataLeft := 0\<rparr>) r)"
proof -
  have u: "unat (of_nat (length b) :: u32) = length b" using assms(3) by (rule unat_of_nat_u32)
  then have "(of_nat (length b) :: u32) \<noteq> 0" using assms(4) by auto
  then show ?thesis
    using assms u by (cases z) (auto simp: zip_turn_def zip_data_def Let_def split: prod.split)
qed

lemma turn_end:
  assumes "z_st z = DATA \<or> z_st z = SKIP" and "z_dataLeft z = 0"
  shows "zip_turn cb r z = (case callEnd cb (z_st z) (z_ctx z) of (ok, c) \<Rightarrow>
    if \<not> ok then zip_fail ''entryEnd abort'' (z\<lparr>z_ctx := c\<rparr>) else More (z\<lparr>z_ctx := c, z_st := SIG, z_got := 0\<rparr>) r)"
  using assms by (auto simp: zip_turn_def zip_data_def Let_def split: prod.split)

subsection \<open>An entry\<close>

lemma loop_more: "zip_turn cb b z = More z' b' \<Longrightarrow> b \<noteq> [] \<Longrightarrow> zip_loop cb b z = zip_loop cb b' z'"
  by (simp add: zip_loop_step)

lemma loop_fail: "zip_turn cb b z = zip_fail e z' \<Longrightarrow> b \<noteq> [] \<or> z_st z = DATA \<and> z_dataLeft z = 0 \<Longrightarrow>
    \<exists>z2. zip_loop cb b z = (False, z2) \<and> z_st z2 = ERR \<and> z_ctx z2 = z_ctx z'"
  by (simp add: zip_loop_step zip_fail_def)

text \<open>The end of an entry, with the next entry or the central directory behind it.\<close>

lemma entry_end:
  assumes "z_st z = DATA \<or> z_st z = SKIP" and "z_dataLeft z = 0" and "r \<noteq> []"
    and "length (z_hdr z) = 26" "length (z_name z) = kNameMax + 1" and "callEnd cb (z_st z) (z_ctx z) = (ok, c)"
  shows "if ok then \<exists>z'. zip_loop cb r z = zip_loop cb r z' \<and> at_start c z'
    else \<exists>z'. zip_loop cb r z = (False, z') \<and> z_st z' = ERR \<and> z_ctx z' = c"
proof (cases ok)
  case True
  have "zip_loop cb r z = zip_loop cb r (z\<lparr>z_ctx := c, z_st := SIG, z_got := 0\<rparr>)"
    using turn_end [OF assms(1, 2), of cb r] assms(3, 6) True by (intro loop_more) simp_all
  then show ?thesis using assms(4, 5) True by (simp add: at_start_def) (rule exI [of _ "z\<lparr>z_ctx := c, z_st := SIG, z_got := 0\<rparr>"], simp)
next
  case False
  then show ?thesis
    using loop_fail [of cb r z "''entryEnd abort''" "z\<lparr>z_ctx := c\<rparr>"] turn_end [OF assms(1, 2), of cb r] assms(3, 6) by simp
qed

lemma entry_body:
  assumes "z_st z = DATA \<or> z_st z = SKIP" and "z_dataLeft z = of_nat (length b)" "length b < 2 ^ 32" and "r \<noteq> []"
    and "length (z_hdr z) = 26" "length (z_name z) = kNameMax + 1"
    and "(case (if b = [] then (True, z_ctx z) else callData cb b (z_st z) (z_ctx z)) of
       (ok, c2) \<Rightarrow> if ok then callEnd cb (z_st z) c2 else (False, c2)) = (ok, c)"
  shows "if ok then \<exists>z'. zip_loop cb (b @ r) z = zip_loop cb r z' \<and> at_start c z'
    else \<exists>z'. zip_loop cb (b @ r) z = (False, z') \<and> z_st z' = ERR \<and> z_ctx z' = c"
proof (cases "b = []")
  case True
  then show ?thesis using entry_end [OF assms(1) _ assms(4-6), of cb ok c] assms(2, 7) by simp
next
  case False
  obtain ok1 c1 where d: "callData cb b (z_st z) (z_ctx z) = (ok1, c1)" by (cases "callData cb b (z_st z) (z_ctx z)")
  note t = turn_payload [OF assms(1-3) False, of cb r]
  show ?thesis
  proof (cases ok1)
    case True
    let ?z = "z\<lparr>z_ctx := c1, z_dataLeft := 0\<rparr>"
    have "zip_loop cb (b @ r) z = zip_loop cb r ?z" using t d True False by (intro loop_more) simp_all
    then show ?thesis
      using entry_end [of ?z r cb ok c] assms(1, 4-7) d True False by simp
  next
    case f: False
    then show ?thesis
      using loop_fail [of cb "b @ r" z "''data sink abort''" "z\<lparr>z_ctx := c1\<rparr>"] t d False assms(7) by simp
  qed
qed

lemma entry_fed:
  assumes e: "ze_ok e" and z: "at_start c z" and r: "r \<noteq> []" and p: "put_entry cb e c = (ok, c')"
  shows "if ok then \<exists>z'. zip_loop cb (zip_entry e @ r) z = zip_loop cb r z' \<and> at_start c' z'
    else \<exists>z'. zip_loop cb (zip_entry e @ r) z = (False, z') \<and> z_st z' = ERR \<and> z_ctx z' = c'"
proof -
  let ?r2 = "ze_name e @ ze_extra e @ ze_data e @ r"
  let ?z1 = "z\<lparr>z_hdr := le32 0x04034b50 @ drop 4 (z_hdr z), z_got := 0, z_st := HDR, z_need := 26\<rparr>"
  let ?z2 = "?z1\<lparr>z_hdr := zip_header e, z_dataLeft := of_nat (length (ze_data e)),
      z_nameLen := of_nat (length (ze_name e)), z_extraLen := of_nat (length (ze_extra e)), z_st := NAME, z_got := 0\<rparr>"
  have c: "z_ctx z = c" using z by (simp add: at_start_def)
  have h: "length (zip_header e) = 26" by (rule zip_header_length [OF e])
  have one: "zip_turn cb (le32 0x04034b50 @ zip_header e @ ?r2) z = More ?z1 (zip_header e @ ?r2)"
    by (simp add: turn_sig [OF z] Let_def)
  have two: "zip_turn cb (zip_header e @ ?r2) ?z1 = More ?z2 ?r2"
    using z by (intro turn_hdr [OF e, THEN trans]) (simp_all add: at_start_def)
  obtain nm where three: "zip_turn cb ?r2 ?z2 = More (?z2\<lparr>z_name := nm, z_st := EXTRA, z_got := 0\<rparr>) (ze_extra e @ ze_data e @ r)"
    and nm: "zip_cstr nm = ze_name e" "length nm = kNameMax + 1"
    using turn_name [OF e, of ?z2 cb "ze_extra e @ ze_data e @ r"] z by (auto simp: at_start_def)
  define z3 where "z3 = ?z2\<lparr>z_name := nm, z_st := EXTRA, z_got := 0\<rparr>"
  have z3: "z_st z3 = EXTRA" "z_got z3 = 0" "z_extraLen z3 = of_nat (length (ze_extra e))" "z_hdr z3 = zip_header e"
    "zip_cstr (z_name z3) = ze_name e" "z_ctx z3 = c" "z_dataLeft z3 = of_nat (length (ze_data e))"
    "length (z_name z3) = kNameMax + 1"
    using nm c by (simp_all add: z3_def)
  obtain d c1 where d: "callEntry cb (ze_name e) (of_nat (length (ze_data e))) c = (d, c1)" by (cases "callEntry cb (ze_name e) (of_nat (length (ze_data e))) c")
  define z4 where "z4 = z3\<lparr>z_ctx := c1, z_deliver := d, z_st := (if d then DATA else SKIP), z_got := 0\<rparr>"
  have four: "zip_turn cb (ze_extra e @ ze_data e @ r) z3 = More z4 (ze_data e @ r)"
    using turn_extra [OF e z3(1-5), of cb "ze_data e @ r"] d z3(6) by (simp add: z4_def)
  have "zip_loop cb (zip_entry e @ r) z = zip_loop cb (zip_header e @ ?r2) ?z1"
    using loop_more [OF one] by (simp add: zip_entry_def le32_def)
  also have "\<dots> = zip_loop cb ?r2 ?z2" using loop_more [OF two] r by simp
  also have "\<dots> = zip_loop cb (ze_extra e @ ze_data e @ r) z3" using loop_more [OF three] r by (simp add: z3_def)
  also have "\<dots> = zip_loop cb (ze_data e @ r) z4" using loop_more [OF four] r by simp
  finally have run: "zip_loop cb (zip_entry e @ r) z = zip_loop cb (ze_data e @ r) z4" .
  have z4: "z_st z4 = (if d then DATA else SKIP)" "z_dataLeft z4 = of_nat (length (ze_data e))" "length (z_hdr z4) = 26"
    "length (z_name z4) = kNameMax + 1" "z_ctx z4 = c1"
    using z3 h by (simp_all add: z4_def)
  have skip: "callData cb b SKIP x = (True, x)" "callEnd cb SKIP x = (True, x)" for b x
    by (simp_all add: callData_def callEnd_def split: option.split)
  have "(case (if ze_data e = [] then (True, z_ctx z4) else callData cb (ze_data e) (z_st z4) (z_ctx z4)) of
      (ok, c2) \<Rightarrow> if ok then callEnd cb (z_st z4) c2 else (False, c2)) = (ok, c')"
    using p d skip unfolding z4(1) z4(5) by (cases d; cases "ze_data e = []") (simp_all add: put_entry_def)
  then show ?thesis
    unfolding run using entry_body [of z4 "ze_data e" r cb ok c'] z4 r e by (simp add: ze_ok_def)
qed

subsection \<open>An archive\<close>

lemma end_fed:
  assumes "at_start c z" and "zip_end b"
  shows "\<exists>z'. zip_loop cb b z = (True, z') \<and> z_st z' = DONE \<and> z_ctx z' = c"
proof -
  obtain w r where b: "b = le32 w @ r" "w = 0x02014b50 \<or> w = 0x06054b50" using assms(2) by (auto simp: zip_end_def)
  then have "b \<noteq> []" by (simp add: le32_def)
  then show ?thesis using turn_sig [OF assms(1), of cb w r] b assms(1) by (simp add: zip_loop_step at_start_def Let_def)
qed

lemma entries_fed:
  "\<forall>e \<in> set es. ze_ok e \<Longrightarrow> at_start c z \<Longrightarrow> zip_end b \<Longrightarrow> put_entries cb es c = (ok, c') \<Longrightarrow>
   \<exists>z'. zip_loop cb (concat (map zip_entry es) @ b) z = (ok, z') \<and> z_st z' = (if ok then DONE else ERR) \<and> z_ctx z' = c'"
proof (induction es arbitrary: c z)
  case Nil
  then show ?case using end_fed [OF Nil.prems(2, 3), of cb] by simp
next
  case (Cons e es)
  obtain ok1 c1 where p: "put_entry cb e c = (ok1, c1)" by (cases "put_entry cb e c")
  have r: "concat (map zip_entry es) @ b \<noteq> []" using Cons.prems(3) by (auto simp: zip_end_def le32_def)
  have e: "ze_ok e" using Cons.prems(1) by simp
  show ?case
  proof (cases ok1)
    case True
    obtain z1 where z1: "zip_loop cb (zip_entry e @ concat (map zip_entry es) @ b) z =
        zip_loop cb (concat (map zip_entry es) @ b) z1" "at_start c1 z1"
      using entry_fed [OF e Cons.prems(2) r p] True by auto
    show ?thesis
      using Cons.IH [OF _ z1(2) Cons.prems(3)] Cons.prems(1, 4) p True z1(1) by simp
  next
    case False
    then show ?thesis using entry_fed [OF e Cons.prems(2) r p] Cons.prems(4) p by simp
  qed
qed

text \<open>C20: a stored archive is read back entry by entry. For any list of well-formed stored entries
  followed by a central directory, a fresh reader makes, for each entry in order, exactly the
  callbacks of that entry, with its name, its size and its bytes (an entry that is not wanted
  gets no data), is done after the last one, and stops with an error at the first callback
  that refuses.\<close>

theorem zip_reads_archive:
  assumes "\<forall>e \<in> set es. ze_ok e" and "zip_end b" and "put_entries cb es c = (ok, c')"
  shows "\<exists>z'. zip_feed cb (concat (map zip_entry es) @ b) (zip_new c) = (ok, z') \<and>
    z_st z' = (if ok then DONE else ERR) \<and> z_ctx z' = c'"
  using entries_fed [OF assms(1) at_start_new assms(2, 3)] by (simp add: zip_feed_def zip_new_def)

text \<open>The witness: one file of two bytes, into a sink that collects name and bytes.\<close>

definition demo_cbs :: "bytes list OtaZipCbs" where
  "demo_cbs = \<lparr>cb_entry = Some (\<lambda>nm sz c. (True, c @ [nm])), cb_data = Some (\<lambda>b c. (True, butlast c @ [last c @ b])),
     cb_entryEnd = None\<rparr>"

definition demo_entry :: ZipEntry where
  "demo_entry = \<lparr>ze_version = 20, ze_flags = 0, ze_misc = replicate 8 0, ze_name = [0x61], ze_extra = [],
     ze_data = [1, 2]\<rparr>"

theorem zip_reads_archive_witness:
  "\<exists>z'. zip_feed demo_cbs (concat (map zip_entry [demo_entry]) @ le32 0x02014b50) (zip_new []) = (True, z') \<and>
    z_st z' = DONE \<and> z_ctx z' = [[0x61, 1, 2]]"
proof (rule zip_reads_archive [of _ _ _ _ True, simplified])
  show "zip_end (le32 0x02014b50)" unfolding zip_end_def by (intro exI [of _ "[]"]) simp
qed (simp_all add: ze_ok_def demo_entry_def kNameMax_def put_entry_def demo_cbs_def callEntry_def callData_def callEnd_def)

end
