(* ===== verification/OtaGui.thy ===== *)
theory OtaGui
  imports OtaArchive
begin

text \<open>
  The dashboard update (\<open>web/handlers/AutoLinkWebHandlersOta.cpp\<close>, \<open>handleOtaGui\<close>): the archive of
  the upload is read piece by piece as the socket delivers it, and every entry with an
  acceptable name becomes a file of the flash file system.

  The file system is an argument: \<open>fs_mkdir\<close>, \<open>fs_open\<close> (for writing), \<open>fs_write\<close> (how many bytes it
  took), \<open>fs_close\<close> on a state of its own. The socket is the list of what \<open>httpd_req_recv\<close> returns.
\<close>

subsection \<open>The sink\<close>

record 'f Fs =
  fs_mkdir :: "bytes \<Rightarrow> 'f \<Rightarrow> 'f"
  fs_open :: "bytes \<Rightarrow> 'f \<Rightarrow> bool \<times> 'f"
  fs_write :: "bytes \<Rightarrow> 'f \<Rightarrow> nat \<times> 'f"
  fs_close :: "'f \<Rightarrow> 'f"

record 'f GuiSink =
  gs_fs :: 'f
  gs_wrote :: bool

text \<open>\<open>for (char *p = path + 1; *p; p++) if (*p == '/') mkdir(the path before p)\<close>\<close>

definition gui_mkdirs :: "'f Fs \<Rightarrow> bytes \<Rightarrow> 'f \<Rightarrow> 'f" where
  "gui_mkdirs fs path f =
     fold (\<lambda>i f. if path ! i = 0x2F then fs_mkdir fs (take i path) f else f) [1..<length path] f"

definition guiEntry :: "'f Fs \<Rightarrow> bytes \<Rightarrow> u32 \<Rightarrow> 'f GuiSink \<Rightarrow> bool \<times> 'f GuiSink" where
  "guiEntry fs name sz s =
     (case otaSafeEntryName name 128 of
        None \<Rightarrow> (False, s)
      | Some path \<Rightarrow>
          (case fs_open fs path (gui_mkdirs fs path (gs_fs s)) of (ok, f) \<Rightarrow> (ok, s\<lparr>gs_fs := f\<rparr>)))"

definition guiData :: "'f Fs \<Rightarrow> bytes \<Rightarrow> 'f GuiSink \<Rightarrow> bool \<times> 'f GuiSink" where
  "guiData fs b s = (case fs_write fs b (gs_fs s) of (n, f) \<Rightarrow> (n = length b, s\<lparr>gs_fs := f\<rparr>))"

definition guiEnd :: "'f Fs \<Rightarrow> 'f GuiSink \<Rightarrow> bool \<times> 'f GuiSink" where
  "guiEnd fs s = (True, s\<lparr>gs_fs := fs_close fs (gs_fs s), gs_wrote := True\<rparr>)"

definition guiCbs :: "'f Fs \<Rightarrow> 'f GuiSink OtaZipCbs" where
  "guiCbs fs = \<lparr>cb_entry = Some (guiEntry fs), cb_data = Some (guiData fs), cb_entryEnd = Some (guiEnd fs)\<rparr>"

subsection \<open>The upload\<close>

text \<open>What one \<open>httpd_req_recv\<close> returns: the timeout code, or the bytes it got, none of them on an
  error or at the end of the stream.\<close>

datatype Recv = RecvTimeout | RecvBytes bytes

text \<open>The loop; each entry of the list is the socket's answer to a request for so many bytes, and a
  socket that has no more answers is \<open>None\<close>.\<close>

fun gui_loop :: "'f Fs \<Rightarrow> nat \<Rightarrow> (nat \<Rightarrow> Recv) list \<Rightarrow> nat \<Rightarrow> bool \<Rightarrow> 'f GuiSink OtaZipStream \<Rightarrow>
    (bool \<times> nat \<times> 'f GuiSink OtaZipStream) option" where
  "gui_loop fs chunkSz rs left ok z =
     (if ok \<and> left > 0 then
        (case rs of
           [] \<Rightarrow> None
         | recv # rs' \<Rightarrow>
             let ask = (if left > chunkSz then chunkSz else left) in
             (case recv ask of
                RecvTimeout \<Rightarrow> gui_loop fs chunkSz rs' left ok z
              | RecvBytes b \<Rightarrow>
                  if b = [] then Some (False, left, z)
                  else
                    (case zip_feed (guiCbs fs) b z of
                       (r, z') \<Rightarrow> gui_loop fs chunkSz rs' (left - length b) r z')))
      else Some (ok, left, z))"

declare gui_loop.simps [simp del]

text \<open>Accepted or refused, and the file system afterwards. The receive buffer is taken to be
  allocated, and closing a file that is not open changes nothing.\<close>

definition handleOtaGui ::
  "'f Fs \<Rightarrow> bool \<Rightarrow> nat \<Rightarrow> (nat \<Rightarrow> Recv) list \<Rightarrow> nat \<Rightarrow> 'f \<Rightarrow> (bool \<times> 'f) option" where
  "handleOtaGui fs mounted freeHeap rs content_len f =
     (if content_len = 0 \<or> \<not> mounted then Some (False, f)
      else
        (case gui_loop fs (otaRecvChunkBytes freeHeap OTA_HEAP_RESERVE) rs content_len True
           (zip_new \<lparr>gs_fs = f, gs_wrote = False\<rparr>) of
           None \<Rightarrow> None
         | Some (ok, left, z) \<Rightarrow>
             Some (ok \<and> z_st z = DONE \<and> gs_wrote (z_ctx z), fs_close fs (gs_fs (z_ctx z)))))"

subsection \<open>Paths\<close>

text \<open>The components of a path, and where it leads when "." stays, ".." goes up and an empty
  component is skipped.\<close>

fun path_comps :: "bytes \<Rightarrow> bytes list" where
  "path_comps [] = [[]]"
| "path_comps (x # xs) =
     (if x = 0x2F then [] # path_comps xs else (x # hd (path_comps xs)) # tl (path_comps xs))"

definition resolve :: "bytes \<Rightarrow> bytes list" where
  "resolve p = foldl (\<lambda>dir c. if c = [] \<or> c = [0x2E] then dir else if c = [0x2E, 0x2E] then butlast dir else dir @ [c])
     [] (path_comps p)"

text \<open>A path below \<open>/web\<close>, or \<open>/web\<close> itself.\<close>

definition confined :: "bytes \<Rightarrow> bool" where
  "confined p \<longleftrightarrow> (\<exists>r. resolve p = [0x77, 0x65, 0x62] # r)"

lemma comps_ne [simp]: "path_comps p \<noteq> []"
  by (cases p) simp_all

lemma comps_hd: "hd (path_comps p) = takeWhile (\<lambda>x. x \<noteq> 0x2F) p"
  by (induction p) simp_all

lemma comps_dotdot: "[0x2E, 0x2E] \<in> set (path_comps p) \<Longrightarrow> has_dotdot p"
proof (induction p)
  case Nil
  then show ?case by simp
next
  case (Cons x xs)
  have tl: "c \<in> set (tl (path_comps xs)) \<Longrightarrow> c \<in> set (path_comps xs)" for c
    by (cases "path_comps xs") simp_all
  have up: "has_dotdot xs \<Longrightarrow> has_dotdot (x # xs)" by (cases xs) simp_all
  show ?case
  proof (cases "x = 0x2F")
    case True
    then show ?thesis using Cons up by simp
  next
    case False
    then consider "x # hd (path_comps xs) = [0x2E, 0x2E]" | "[0x2E, 0x2E] \<in> set (path_comps xs)"
      using Cons.prems tl by auto
    then show ?thesis
    proof cases
      case 1
      then show ?thesis by (cases xs) (auto simp: comps_hd split: if_splits)
    next
      case 2
      then show ?thesis using Cons.IH up by simp
    qed
  qed
qed

lemma dotdot_take: "has_dotdot (take n p) \<Longrightarrow> has_dotdot p"
proof (induction p arbitrary: n rule: has_dotdot.induct)
  case (1 a b s)
  show ?case
  proof (cases n)
    case (Suc m)
    then show ?thesis using 1(1) [of m] 1(2) by (cases m) auto
  qed (use 1 in simp)
qed (auto simp: take_Cons split: nat.splits)

lemma resolve_push:
  "[0x2E, 0x2E] \<notin> set cs \<Longrightarrow>
    foldl (\<lambda>dir c. if c = [] \<or> c = [0x2E] then dir else if c = [0x2E, 0x2E] then butlast dir else dir @ [c]) d cs =
      d @ filter (\<lambda>c. c \<noteq> [] \<and> c \<noteq> [0x2E]) cs"
  by (induction cs arbitrary: d) auto

lemma confined_web:
  assumes "\<not> has_dotdot n"
  shows "confined (kPrefix @ n)" "confined (butlast kPrefix)"
proof -
  have "[0x2E, 0x2E] \<notin> set (path_comps n)" using comps_dotdot assms by blast
  then show "confined (kPrefix @ n)"
    by (simp add: confined_def resolve_def kPrefix_def resolve_push)
  show "confined (butlast kPrefix)"
    by (simp add: confined_def resolve_def kPrefix_def)
qed

subsection \<open>What the sink touches\<close>

lemma mkdirs_confined:
  assumes mk: "\<And>p f. confined p \<Longrightarrow> Q f \<Longrightarrow> Q (fs_mkdir fs p f)" and n: "\<not> has_dotdot n" and "Q f"
  shows "Q (gui_mkdirs fs (kPrefix @ n) f)"
proof -
  have c: "confined (take i (kPrefix @ n))" if "1 \<le> i" "i < length (kPrefix @ n)" "(kPrefix @ n) ! i = 0x2F" for i
  proof (cases "i < 5")
    case True
    then have "i = 1 \<or> i = 2 \<or> i = 3 \<or> i = 4" using that(1) by auto
    then have "i = 4" using that(3) by (auto simp: kPrefix_def)
    then have "take i (kPrefix @ n) = butlast kPrefix" by (simp add: kPrefix_def)
    then show ?thesis using confined_web(2) [OF n] by simp
  next
    case False
    then have "take i (kPrefix @ n) = kPrefix @ take (i - 5) n" by (simp only: take_append) (simp add: kPrefix_def numeral_eq_Suc)
    moreover have "\<not> has_dotdot (take (i - 5) n)" using n dotdot_take by blast
    ultimately show ?thesis using confined_web(1) by simp
  qed
  define path where "path = kPrefix @ n"
  have "Q (fold (\<lambda>i f. if path ! i = 0x2F then fs_mkdir fs (take i path) f else f) is f)"
    if "\<forall>i \<in> set is. 1 \<le> i \<and> i < length path" "Q f" for "is" f
    using that
  proof (induction "is" arbitrary: f)
    case (Cons i "is")
    then have "path ! i = 0x2F \<Longrightarrow> confined (take i path)" using c [folded path_def] by simp
    then show ?case using Cons mk by simp
  qed simp
  then show ?thesis using assms(3) unfolding gui_mkdirs_def path_def by simp
qed

lemma safe_name: "otaSafeEntryName n k = Some p \<Longrightarrow> p = kPrefix @ n \<and> \<not> has_dotdot n"
  by (auto simp: otaSafeEntryName_def Let_def split: if_splits)

text \<open>An invariant of the context that every callback keeps is kept by the reader.\<close>

definition cbs_keep :: "'c OtaZipCbs \<Rightarrow> ('c \<Rightarrow> bool) \<Rightarrow> bool" where
  "cbs_keep cb Q \<longleftrightarrow> (\<forall>c. Q c \<longrightarrow> (\<forall>nm sz. Q (snd (callEntry cb nm sz c))) \<and> (\<forall>b st. Q (snd (callData cb b st c))) \<and>
     (\<forall>st. Q (snd (callEnd cb st c))))"

definition turn_state :: "'z turn \<Rightarrow> 'z" where
  "turn_state t = (case t of More z b \<Rightarrow> z | Ret r z \<Rightarrow> z)"

lemma turn_ctx:
  "z_ctx (turn_state (zip_sig b z)) = z_ctx z" "z_ctx (turn_state (zip_hdr b z)) = z_ctx z"
  "z_ctx (turn_state (zip_name b z)) = z_ctx z"
  by (simp_all add: turn_state_def zip_sig_def zip_hdr_def zip_name_def zip_fail_def Let_def split_beta)

lemma turn_keeps:
  assumes "cbs_keep cb Q" and "Q (z_ctx z)"
  shows "Q (z_ctx (turn_state (zip_turn cb b z)))"
proof -
  have "Q (z_ctx (turn_state (zip_extra cb b z)))"
    using assms by (simp add: turn_state_def zip_extra_def cbs_keep_def Let_def split_beta)
  moreover have "Q (z_ctx (turn_state (zip_data cb b z)))"
    using assms by (simp add: turn_state_def zip_data_def zip_fail_def cbs_keep_def Let_def split_beta)
  moreover have "turn_state (Ret r z) = z" for r by (simp add: turn_state_def)
  ultimately show ?thesis
    using assms(2) by (simp add: zip_turn_def turn_ctx split: St.split)
qed

lemma zip_loop_keeps: "cbs_keep cb Q \<Longrightarrow> Q (z_ctx z) \<Longrightarrow> Q (z_ctx (snd (zip_loop cb b z)))"
proof (induction cb b z rule: zip_loop.induct)
  case (1 cb b z)
  note turn = turn_keeps [OF "1.prems", of b]
  show ?case
  proof (cases "b \<noteq> [] \<or> z_st z = DATA \<and> z_dataLeft z = 0")
    case True
    show ?thesis
    proof (cases "zip_turn cb b z")
      case (More z' b')
      then show ?thesis
        using "1.IH" [OF True More "1.prems"(1)] turn zip_loop_step [OF True, of cb] by (simp add: turn_state_def)
    next
      case (Ret r z')
      then show ?thesis using turn zip_loop_step [OF True, of cb] by (simp add: turn_state_def)
    qed
  next
    case False
    then show ?thesis using "1.prems"(2) by (simp add: zip_loop_stop)
  qed
qed

lemma gui_loop_keeps:
  "cbs_keep (guiCbs fs) Q \<Longrightarrow> Q (z_ctx z) \<Longrightarrow> gui_loop fs k rs left ok z = Some (ok', left', z') \<Longrightarrow> Q (z_ctx z')"
proof (induction rs arbitrary: left ok z)
  case Nil
  then show ?case by (subst (asm) gui_loop.simps) (auto split: if_splits)
next
  case (Cons r rs)
  have feed: "Q (z_ctx (snd (zip_feed (guiCbs fs) b z)))" for b
    using zip_loop_keeps [OF Cons.prems(1, 2)] Cons.prems(2) by (simp add: zip_feed_def)
  show ?case
  proof (cases "ok \<and> left > 0")
    case False
    then show ?thesis using Cons.prems(2, 3) by (subst (asm) gui_loop.simps) auto
  next
    case True
    let ?ask = "if left > k then k else left"
    note e = gui_loop.simps [of fs k "r # rs" left ok z] Cons.prems(3)
    show ?thesis
    proof (cases "r ?ask")
      case RecvTimeout
      then show ?thesis using Cons.IH [OF Cons.prems(1, 2), of left ok] e True by simp
    next
      case (RecvBytes b)
      obtain ok1 z1 where f: "zip_feed (guiCbs fs) b z = (ok1, z1)" by (cases "zip_feed (guiCbs fs) b z")
      show ?thesis
        using Cons.IH [OF Cons.prems(1), of z1 "left - length b" ok1] feed [of b] f e True RecvBytes Cons.prems(2)
        by (cases "b = []") auto
    qed
  qed
qed

text \<open>C23: an upload cannot write outside \<open>/web\<close>. Whatever the archive holds, whatever the socket
  delivers and however it is cut, every path the update hands to the file system, to make a
  directory or to open a file, leads to \<open>/web\<close> or below it: any property of the file system
  that such calls, writes and closes keep, is kept by the whole update.\<close>

theorem gui_confined:
  assumes "\<And>p f. confined p \<Longrightarrow> Q f \<Longrightarrow> Q (fs_mkdir fs p f)" "\<And>p f. confined p \<Longrightarrow> Q f \<Longrightarrow> Q (snd (fs_open fs p f))"
    and "\<And>b f. Q f \<Longrightarrow> Q (snd (fs_write fs b f))" "\<And>f. Q f \<Longrightarrow> Q (fs_close fs f)"
    and "Q f" and "handleOtaGui fs mounted heap rs n f = Some (ok, f')"
  shows "Q f'"
proof -
  have entry: "Q (gs_fs (snd (guiEntry fs nm sz s)))" if "Q (gs_fs s)" for nm sz s
  proof (cases "otaSafeEntryName nm 128")
    case (Some p)
    then have "p = kPrefix @ nm" "\<not> has_dotdot nm" using safe_name by blast+
    then show ?thesis
      using Some assms(2) [OF confined_web(1), OF _ mkdirs_confined [of Q fs nm "gs_fs s"]] assms(1) that
      by (simp add: guiEntry_def split_beta)
  qed (use that in \<open>simp add: guiEntry_def\<close>)
  have "cbs_keep (guiCbs fs) (\<lambda>s. Q (gs_fs s))"
    using entry assms(3, 4)
    by (simp add: cbs_keep_def guiCbs_def callEntry_def callData_def callEnd_def guiData_def guiEnd_def split_beta)
  note keep = gui_loop_keeps [OF this]
  show ?thesis
  proof (cases "n = 0 \<or> \<not> mounted")
    case True
    then show ?thesis using assms(5, 6) by (simp add: handleOtaGui_def)
  next
    case False
    let ?z = "zip_new \<lparr>gs_fs = f, gs_wrote = False\<rparr>" and ?k = "otaRecvChunkBytes heap OTA_HEAP_RESERVE"
    obtain ok1 left z1 where l: "gui_loop fs ?k rs n True ?z = Some (ok1, left, z1)" "f' = fs_close fs (gs_fs (z_ctx z1))"
      using assms(6) False by (auto simp: handleOtaGui_def split: option.splits)
    have "Q (gs_fs (z_ctx ?z))" using assms(5) by (simp add: zip_new_def)
    then show ?thesis using keep [OF _ l(1)] l(2) assms(4) by simp
  qed
qed

subsection \<open>An upload of an archive\<close>

lemma zip_loop_stable:
  assumes "sink_streams cb" and "z_st z \<noteq> ERR" and "zip_loop cb b z = (True, z1)"
  shows "zip_loop cb [] z1 = (True, z1)"
proof -
  have "z_st z1 \<noteq> ERR" by (rule zip_loop_true [OF assms(3, 2)])
  moreover obtain r z2 where r: "zip_loop cb [] z1 = (r, z2)" by (cases "zip_loop cb [] z1")
  moreover have "zip_obs True z1 = zip_obs r z2"
    using zip_loop_append [OF assms(1, 2), of b "[]"] unfolding append_Nil2 assms(3) prod.case r by simp
  ultimately show ?thesis by (auto simp: zip_obs_def split: if_splits)
qed

text \<open>What the socket delivers: the pieces of a body, with time-outs between them.\<close>

fun delivers :: "nat \<Rightarrow> (nat \<Rightarrow> Recv) list \<Rightarrow> bytes \<Rightarrow> bool" where
  "delivers k [] body \<longleftrightarrow> body = []"
| "delivers k (r # rs) body \<longleftrightarrow>
     (case r (if length body > k then k else length body) of
        RecvTimeout \<Rightarrow> delivers k rs body
      | RecvBytes b \<Rightarrow> b \<noteq> [] \<and> b = take (length b) body \<and> delivers k rs (drop (length b) body))"

lemma gui_loop_delivers:
  assumes "sink_streams (guiCbs fs)"
  shows "delivers k rs body \<Longrightarrow> z_st z \<noteq> ERR \<Longrightarrow> zip_loop (guiCbs fs) [] z = (True, z) \<Longrightarrow>
    \<exists>ok left z'. gui_loop fs k rs (length body) True z = Some (ok, left, z') \<and>
      zip_obs ok z' = case_prod zip_obs (zip_loop (guiCbs fs) body z)"
proof (induction rs arbitrary: body z)
  case Nil
  then show ?case by (intro exI [of _ True] exI [of _ 0] exI [of _ z]) (subst gui_loop.simps, simp)
next
  case (Cons r rs)
  show ?case
  proof (cases "body = []")
    case True
    then show ?thesis
      using Cons.prems(3) by (intro exI [of _ True] exI [of _ 0] exI [of _ z]) (subst gui_loop.simps, simp)
  next
    case False
    let ?ask = "if length body > k then k else length body"
    note e = gui_loop.simps [of fs k "r # rs" "length body" True z]
    show ?thesis
    proof (cases "r ?ask")
      case RecvTimeout
      then show ?thesis using Cons.IH [of body z] Cons.prems e False by simp
    next
      case (RecvBytes b)
      then have b: "b \<noteq> []" "b = take (length b) body" "delivers k rs (drop (length b) body)" using Cons.prems(1) by auto
      obtain ok1 z1 where f: "zip_loop (guiCbs fs) b z = (ok1, z1)" by (cases "zip_loop (guiCbs fs) b z")
      have "body = b @ drop (length b) body" using b(2) by (metis append_take_drop_id)
      then have whole: "case_prod zip_obs (zip_loop (guiCbs fs) body z) = case_prod zip_obs
          (if ok1 then zip_loop (guiCbs fs) (drop (length b) body) z1 else (False, z1))"
        using zip_loop_append [OF assms Cons.prems(2), of b "drop (length b) body"] f by simp
      have run: "gui_loop fs k (r # rs) (length body) True z =
          gui_loop fs k rs (length (drop (length b) body)) ok1 z1"
        using e False RecvBytes b(1) f Cons.prems(2) by (simp add: zip_feed_def)
      show ?thesis
      proof (cases ok1)
        case True
        have "z_st z1 \<noteq> ERR" "zip_loop (guiCbs fs) [] z1 = (True, z1)"
          using zip_loop_true [OF _ Cons.prems(2)] zip_loop_stable [OF assms Cons.prems(2)] f True by auto
        from Cons.IH [OF b(3) this] show ?thesis unfolding run whole using True by simp
      next
        case no: False
        then show ?thesis
          unfolding run whole
          by (intro exI [of _ False] exI [of _ "length (drop (length b) body)"] exI [of _ z1]) (subst gui_loop.simps, simp)
      qed
    qed
  qed
qed

text \<open>What the documentation of the file system promises of a write: bytes that fit are written in
  order, and writing two pieces is writing the one after the other.\<close>

definition fs_streams :: "'f Fs \<Rightarrow> bool" where
  "fs_streams fs \<longleftrightarrow>
     (\<forall>x y f. case fs_write fs x f of
        (n, f1) \<Rightarrow> n \<le> length x \<and> fs_write fs (x @ y) f =
          (if n = length x then (case fs_write fs y f1 of (k, f2) \<Rightarrow> (n + k, f2)) else (n, f1)))"

lemma gui_streams: "fs_streams fs \<Longrightarrow> sink_streams (guiCbs fs)" for fs :: "'f Fs"
  unfolding sink_streams_def
proof (intro allI impI)
  fix f and x y :: bytes and c :: "'f GuiSink"
  assume s: "fs_streams fs" and a: "cb_data (guiCbs fs) = Some f \<and> x \<noteq> [] \<and> y \<noteq> []"
  obtain n f1 where n: "fs_write fs x (gs_fs c) = (n, f1)" by (cases "fs_write fs x (gs_fs c)")
  obtain k f2 where k: "fs_write fs y f1 = (k, f2)" by (cases "fs_write fs y f1")
  have "case fs_write fs x (gs_fs c) of (n, f1) \<Rightarrow> n \<le> length x \<and> fs_write fs (x @ y) (gs_fs c) =
      (if n = length x then (case fs_write fs y f1 of (k, f2) \<Rightarrow> (n + k, f2)) else (n, f1))"
    using s unfolding fs_streams_def by (elim allE)
  then have "n \<le> length x" "fs_write fs (x @ y) (gs_fs c) = (if n = length x then (n + k, f2) else (n, f1))"
    using n k by simp_all
  moreover have "f = guiData fs" using a by (simp add: guiCbs_def)
  ultimately show "f (x @ y) c = (case f x c of (ok, c') \<Rightarrow> if ok then f y c' else (False, c'))"
    using n k by (auto simp: guiData_def)
qed

lemma gui_update_run:
  assumes "fs_streams fs" and "\<forall>e \<in> set es. ze_ok e" and "zip_end b"
    and "body = concat (map zip_entry es) @ b" and "delivers (otaRecvChunkBytes heap OTA_HEAP_RESERVE) rs body"
    and "put_entries (guiCbs fs) es \<lparr>gs_fs = f, gs_wrote = False\<rparr> = (ok, s)"
  shows "handleOtaGui fs True heap rs (length body) f = Some (ok \<and> gs_wrote s, fs_close fs (gs_fs s))"
proof -
  let ?k = "otaRecvChunkBytes heap OTA_HEAP_RESERVE" and ?z = "zip_new \<lparr>gs_fs = f, gs_wrote = False\<rparr>"
  have nil: "zip_loop (guiCbs fs) [] ?z = (True, ?z)" "z_st ?z \<noteq> ERR" by (simp_all add: zip_loop_stop zip_new_def)
  obtain ok1 left z1 where l: "gui_loop fs ?k rs (length body) True ?z = Some (ok1, left, z1)"
      "zip_obs ok1 z1 = case_prod zip_obs (zip_loop (guiCbs fs) body ?z)"
    using gui_loop_delivers [OF gui_streams [OF assms(1)] assms(5) nil(2) nil(1)] by blast
  obtain z2 where z2: "zip_loop (guiCbs fs) body ?z = (ok, z2)" "z_st z2 = (if ok then DONE else ERR)" "z_ctx z2 = s"
    using entries_fed [OF assms(2) at_start_new assms(3, 6)] assms(4) by blast
  have o: "zip_obs ok1 z1 = zip_obs ok z2" using l(2) z2(1) by simp
  have "ok1 = ok \<and> (z_st z1 = DONE \<longleftrightarrow> ok) \<and> z_ctx z1 = s"
    using o z2(2, 3) by (cases ok) (auto simp: zip_obs_def split: if_splits)
  moreover have "body \<noteq> []" using assms(3, 4) by (auto simp: zip_end_def le32_def)
  ultimately show ?thesis using l(1) by (auto simp: handleOtaGui_def)
qed

text \<open>C21: the update installs the archive. When the body of the upload is a stored archive of
  well-formed entries with a central directory, then however the socket cuts it and times out
  in between, the file system is left as if every entry had been handled whole and in order
  (directories made, file opened, bytes written, file closed; entries without an acceptable
  name skipped), and the update is accepted exactly when no write fell short and at least one
  file was written.\<close>

theorem gui_update:
  assumes "fs_streams fs" and "\<forall>e \<in> set es. ze_ok e" and "zip_end b"
    and "body = concat (map zip_entry es) @ b" and "delivers (otaRecvChunkBytes heap OTA_HEAP_RESERVE) rs body"
    and "put_entries (guiCbs fs) es \<lparr>gs_fs = f, gs_wrote = False\<rparr> = (ok, s)"
  shows "handleOtaGui fs True heap rs (length body) f = Some (ok \<and> gs_wrote s, fs_close fs (gs_fs s))"
  by (rule gui_update_run [OF assms])

text \<open>The witnesses: a file system that records the paths it is given and takes every byte, and an
  archive of one file, delivered after a time-out.\<close>

definition log_fs :: "bytes list Fs" where
  "log_fs = \<lparr>fs_mkdir = (\<lambda>p f. f @ [p]), fs_open = (\<lambda>p f. (True, f @ [p])), fs_write = (\<lambda>b f. (length b, f)),
     fs_close = (\<lambda>f. f)\<rparr>"

definition demo_body :: bytes where
  "demo_body = zip_entry demo_entry @ le32 0x02014b50"

lemma demo_upload:
  "fs_streams log_fs" "\<forall>e \<in> set [demo_entry]. ze_ok e" "zip_end (le32 0x02014b50)"
  "demo_body = concat (map zip_entry [demo_entry]) @ le32 0x02014b50"
  "delivers (otaRecvChunkBytes 0 OTA_HEAP_RESERVE) [\<lambda>_. RecvTimeout, \<lambda>_. RecvBytes demo_body] demo_body"
  "put_entries (guiCbs log_fs) [demo_entry] \<lparr>gs_fs = [], gs_wrote = False\<rparr> =
     (True, \<lparr>gs_fs = [butlast kPrefix, kPrefix @ [0x61]], gs_wrote = True\<rparr>)"
proof -
  show "zip_end (le32 0x02014b50)" unfolding zip_end_def by (intro exI [of _ "[]"]) simp
  show "put_entries (guiCbs log_fs) [demo_entry] \<lparr>gs_fs = [], gs_wrote = False\<rparr> =
     (True, \<lparr>gs_fs = [butlast kPrefix, kPrefix @ [0x61]], gs_wrote = True\<rparr>)"
    by code_simp
qed (simp_all add: fs_streams_def log_fs_def ze_ok_def demo_entry_def kNameMax_def demo_body_def le32_def)

theorem gui_update_witness:
  "handleOtaGui log_fs True 0 [\<lambda>_. RecvTimeout, \<lambda>_. RecvBytes demo_body] (length demo_body) [] =
    Some (True, [butlast kPrefix, kPrefix @ [0x61]])"
  using gui_update [OF demo_upload] by (simp add: log_fs_def)

theorem gui_confined_witness:
  "list_all confined [butlast kPrefix, kPrefix @ [0x61]]"
proof (rule gui_confined [of "list_all confined" log_fs "[]"])
  show "handleOtaGui log_fs True 0 [\<lambda>_. RecvTimeout, \<lambda>_. RecvBytes demo_body] (length demo_body) [] =
    Some (True, [butlast kPrefix, kPrefix @ [0x61]])"
    using gui_update_run [OF demo_upload] by (simp add: log_fs_def)
qed (simp_all add: log_fs_def)

end
