(* ===== verification/OtaFw.thy ===== *)
theory OtaFw
  imports OtaGui
begin

text \<open>
  The firmware update (\<open>web/handlers/AutoLinkWebHandlersOta.cpp\<close>, \<open>handleOtaFw\<close>): the image is
  written to the inactive slot as it arrives, and the slot becomes the boot slot only at the
  end. The flash functions of the ESP-IDF are an argument, on a state of their own; a result
  other than \<open>ESP_OK\<close> is \<open>False\<close>.
\<close>

record 'o EspOta =
  ota_begin :: "nat \<Rightarrow> 'o \<Rightarrow> bool \<times> 'o"
  ota_write :: "bytes \<Rightarrow> 'o \<Rightarrow> bool \<times> 'o"
  ota_end :: "'o \<Rightarrow> bool \<times> 'o"
  ota_abort :: "'o \<Rightarrow> 'o"
  ota_set_boot :: "'o \<Rightarrow> bool \<times> 'o"

text \<open>The receive loop: success, what is left, the flash.\<close>

fun fw_loop :: "'o EspOta \<Rightarrow> nat \<Rightarrow> (nat \<Rightarrow> Recv) list \<Rightarrow> nat \<Rightarrow> 'o \<Rightarrow> (bool \<times> nat \<times> 'o) option" where
  "fw_loop ota chunkSz rs left h =
     (if left > 0 then
        (case rs of
           [] \<Rightarrow> None
         | recv # rs' \<Rightarrow>
             let ask = (if left > chunkSz then chunkSz else left) in
             (case recv ask of
                RecvTimeout \<Rightarrow> fw_loop ota chunkSz rs' left h
              | RecvBytes b \<Rightarrow>
                  if b = [] then Some (False, left, h)
                  else
                    (case ota_write ota b h of
                       (ok, h1) \<Rightarrow>
                         if \<not> ok then Some (False, left, h1)
                         else fw_loop ota chunkSz rs' (left - length b) h1)))
      else Some (True, left, h))"

declare fw_loop.simps [simp del]

text \<open>\<open>nextSize\<close> is the size of the inactive slot, if there is one; \<open>buf\<close> whether the buffer could be
  allocated. The answer is whether the board restarts into the new image.\<close>

definition handleOtaFw ::
  "'o EspOta \<Rightarrow> nat option \<Rightarrow> bool \<Rightarrow> nat \<Rightarrow> (nat \<Rightarrow> Recv) list \<Rightarrow> nat \<Rightarrow> 'o \<Rightarrow> (bool \<times> 'o) option" where
  "handleOtaFw ota nextSize buf freeHeap rs tot h =
     (case nextSize of
        None \<Rightarrow> Some (False, h)
      | Some sz \<Rightarrow>
          if tot = 0 \<or> tot > sz then Some (False, h)
          else
            (case (if buf then ota_begin ota tot h else (False, h)) of
               (begun, h1) \<Rightarrow>
                 if \<not> begun then Some (False, h1)
                 else
                   (case fw_loop ota (otaRecvChunkBytes freeHeap OTA_HEAP_RESERVE) rs tot h1 of
                      None \<Rightarrow> None
                    | Some (ok, left, h2) \<Rightarrow>
                        (case (if ok then ota_end ota h2 else (False, ota_abort ota h2)) of
                           (fin, h3) \<Rightarrow> if fin then Some (ota_set_boot ota h3) else Some (False, h3)))))"

subsection \<open>What is booted\<close>

text \<open>All pieces written, each with success.\<close>

fun write_all :: "'o EspOta \<Rightarrow> bytes list \<Rightarrow> 'o \<Rightarrow> 'o option" where
  "write_all ota [] h = Some h"
| "write_all ota (p # ps) h = (case ota_write ota p h of (ok, h1) \<Rightarrow> if ok then write_all ota ps h1 else None)"

text \<open>A socket never returns more than it was asked for.\<close>

definition recv_bounded :: "(nat \<Rightarrow> Recv) list \<Rightarrow> bool" where
  "recv_bounded rs \<longleftrightarrow> (\<forall>r \<in> set rs. \<forall>k b. r k = RecvBytes b \<longrightarrow> length b \<le> k)"

text \<open>The pieces the socket delivers, until all is there, the client goes away or the answers run out. A
  time-out is asked again.\<close>

fun fw_received :: "nat \<Rightarrow> (nat \<Rightarrow> Recv) list \<Rightarrow> nat \<Rightarrow> bytes list" where
  "fw_received chunkSz [] left = []"
| "fw_received chunkSz (recv # rs) left =
     (if left = 0 then []
      else case recv (min left chunkSz) of
        RecvTimeout \<Rightarrow> fw_received chunkSz rs left
      | RecvBytes b \<Rightarrow> if b = [] then [] else b # fw_received chunkSz rs (left - length b))"

text \<open>What the documentation of the flash functions says of the slot to boot, as an observation \<open>boot\<close> of the
  flash: only \<open>esp_ota_set_boot_partition\<close> changes it.\<close>

definition keeps_boot :: "'o EspOta \<Rightarrow> ('o \<Rightarrow> 'b) \<Rightarrow> bool" where
  "keeps_boot ota boot \<longleftrightarrow>
     (\<forall>n h. boot (snd (ota_begin ota n h)) = boot h) \<and> (\<forall>b h. boot (snd (ota_write ota b h)) = boot h) \<and>
     (\<forall>h. boot (snd (ota_end ota h)) = boot h \<and> boot (ota_abort ota h) = boot h)"

lemma fw_loop_boot:
  "keeps_boot ota boot \<Longrightarrow> fw_loop ota k rs left h = Some (ok, left', h') \<Longrightarrow> boot h' = boot h"
proof (induction rs arbitrary: left h)
  case Nil
  then show ?case by (subst (asm) fw_loop.simps) (simp split: if_splits)
next
  case (Cons r rs)
  note e = fw_loop.simps [of ota k "r # rs" left h] Cons.prems(2)
  have w: "boot (snd (ota_write ota b h)) = boot h" for b using Cons.prems(1) by (simp add: keeps_boot_def)
  show ?case
  proof (cases "left > 0")
    case True
    show ?thesis
    proof (cases "r (if left > k then k else left)")
      case RecvTimeout
      then show ?thesis using Cons.IH [OF Cons.prems(1), of left h] e True by simp
    next
      case (RecvBytes b)
      obtain ok1 h1 where w1: "ota_write ota b h = (ok1, h1)" by (cases "ota_write ota b h")
      then show ?thesis
        using Cons.IH [OF Cons.prems(1), of "left - length b" h1] e True RecvBytes w [of b]
        by (auto split: if_splits)
    qed
  qed (use e in simp)
qed

lemma fw_loop_writes:
  "recv_bounded rs \<Longrightarrow> fw_loop ota k rs left h = Some (True, left', h') \<Longrightarrow>
    write_all ota (fw_received k rs left) h = Some h' \<and> length (concat (fw_received k rs left)) = left"
proof (induction rs arbitrary: left h)
  case Nil
  then show ?case by (subst (asm) fw_loop.simps) (simp split: if_splits)
next
  case (Cons r rs)
  have rb: "recv_bounded rs" using Cons.prems(1) by (simp add: recv_bounded_def)
  have ask: "(if left > k then k else left) = min left k" by simp
  note e = fw_loop.simps [of ota k "r # rs" left h, unfolded ask Let_def] Cons.prems(2)
  show ?case
  proof (cases "left > 0")
    case False
    then show ?thesis using e by simp
  next
    case True
    show ?thesis
    proof (cases "r (min left k)")
      case RecvTimeout
      then show ?thesis using Cons.IH [OF rb, of left h] e True by simp
    next
      case (RecvBytes b)
      have len: "length b \<le> left" using Cons.prems(1) RecvBytes by (fastforce simp: recv_bounded_def)
      obtain ok h1 where w: "ota_write ota b h = (ok, h1)" by (cases "ota_write ota b h")
      have run: "b \<noteq> []" "ok" "fw_loop ota k rs (left - length b) h1 = Some (True, left', h')"
        using e True RecvBytes w by (auto split: if_splits)
      then show ?thesis using Cons.IH [OF rb run(3)] w True RecvBytes len by simp
    qed
  qed
qed

text \<open>C22: only a whole image is booted. With a socket that returns no more than it was asked for, and a flash
  in which only \<open>esp_ota_set_boot_partition\<close> changes the slot to boot: when the update reports success, the
  slot was begun with the announced size, which fits it, the pieces the socket delivered, exactly that many
  bytes, were written in their order, each write and the final check succeeded, and then the boot slot
  was set. When it reports a failure the boot slot is the one from before, unless the whole image was
  written and checked just so and the setting of the boot slot itself failed.\<close>

theorem fw_boots_whole_image:
  assumes "recv_bounded rs" and "keeps_boot ota boot" and "handleOtaFw ota nextSize buf heap rs tot h = Some (ok, h')"
  defines "ps \<equiv> fw_received (otaRecvChunkBytes heap OTA_HEAP_RESERVE) rs tot"
  defines "whole \<equiv> \<lambda>res. \<exists>sz h1 h2 h3. nextSize = Some sz \<and> 0 < tot \<and> tot \<le> sz \<and> ota_begin ota tot h = (True, h1) \<and>
      write_all ota ps h1 = Some h2 \<and> length (concat ps) = tot \<and> ota_end ota h2 = (True, h3) \<and>
      ota_set_boot ota h3 = (res, h')"
  shows "if ok then whole True else boot h' = boot h \<or> whole False"
proof (cases "\<exists>sz. nextSize = Some sz \<and> 0 < tot \<and> tot \<le> sz \<and> buf")
  case False
  then show ?thesis using assms(3) by (auto simp: handleOtaFw_def split: option.splits if_splits)
next
  case True
  then obtain sz where s: "nextSize = Some sz" "0 < tot" "tot \<le> sz" "buf" by blast
  have kb: "boot (snd (ota_begin ota tot h)) = boot h" "boot (snd (ota_end ota x)) = boot x" "boot (ota_abort ota x) = boot x" for x
    using assms(2) by (simp_all add: keeps_boot_def)
  obtain begun h1 where b: "ota_begin ota tot h = (begun, h1)" by (cases "ota_begin ota tot h")
  show ?thesis
  proof (cases begun)
    case False
    then show ?thesis using assms(3) s b kb(1) by (simp add: handleOtaFw_def)
  next
    case begun: True
    obtain ok1 left h2 where l: "fw_loop ota (otaRecvChunkBytes heap OTA_HEAP_RESERVE) rs tot h1 = Some (ok1, left, h2)"
      using assms(3) s b begun by (auto simp: handleOtaFw_def split: option.splits)
    have b2: "boot h2 = boot h" using fw_loop_boot [OF assms(2) l] kb(1) b by simp
    show ?thesis
    proof (cases ok1)
      case False
      then show ?thesis using assms(3) s b begun l b2 kb(3) [of h2] by (auto simp: handleOtaFw_def)
    next
      case ok1: True
      have ps: "write_all ota ps h1 = Some h2" "length (concat ps) = tot"
        using fw_loop_writes [OF assms(1), of ota "otaRecvChunkBytes heap OTA_HEAP_RESERVE" tot h1 left h2] l ok1
        by (simp_all add: ps_def)
      obtain fin h3 where f: "ota_end ota h2 = (fin, h3)" by (cases "ota_end ota h2")
      show ?thesis
      proof (cases fin)
        case False
        then show ?thesis using assms(3) s b begun l ok1 f b2 kb(2) [of h2] by (auto simp: handleOtaFw_def)
      next
        case True
        then have "ota_set_boot ota h3 = (ok, h')" using assms(3) s b begun l ok1 f by (simp add: handleOtaFw_def)
        then have "whole ok" using s b begun ps f True by (auto simp: whole_def)
        then show ?thesis by (cases ok) simp_all
      qed
    qed
  qed
qed

text \<open>The witness: a flash that keeps the bytes and whether the slot to boot was set. An image of three bytes in
  two pieces is booted; when the client goes away after two of them, the slot is not.\<close>

definition demo_ota :: "(bytes \<times> bool) EspOta" where
  "demo_ota = \<lparr>ota_begin = (\<lambda>n h. (True, ([], snd h))), ota_write = (\<lambda>b h. (True, (fst h @ b, snd h))),
     ota_end = (\<lambda>h. (True, h)), ota_abort = (\<lambda>h. h), ota_set_boot = (\<lambda>h. (True, (fst h, True)))\<rparr>"

theorem fw_boots_whole_image_witness:
  "write_all demo_ota [[1, 2], [3]] ([], False) = Some ([1, 2, 3], False) \<and>
   (\<exists>h'. handleOtaFw demo_ota (Some 100) True 0 [\<lambda>k. RecvBytes [1, 2], \<lambda>k. RecvBytes []] 3 ([], False) = Some (False, h') \<and>
      \<not> snd h')"
proof -
  let ?rs = "[\<lambda>k. RecvBytes (take k [1, 2]), \<lambda>k. RecvTimeout, \<lambda>k. RecvBytes (take k [3])]"
  let ?gone = "[\<lambda>k. RecvBytes (take k [1, 2]), \<lambda>k. RecvBytes []]"
  have ota: "keeps_boot demo_ota snd" by (simp add: keeps_boot_def demo_ota_def)
  have all: "handleOtaFw demo_ota (Some 100) True 0 ?rs 3 ([], False) = Some (True, ([1, 2, 3], True))"
    by (simp add: handleOtaFw_def fw_loop.simps demo_ota_def otaRecvChunkBytes_def)
  have part: "handleOtaFw demo_ota (Some 100) True 0 ?gone 3 ([], False) = Some (False, ([1, 2], False))"
    by (simp add: handleOtaFw_def fw_loop.simps demo_ota_def otaRecvChunkBytes_def)
  have rb: "recv_bounded ?rs" "recv_bounded ?gone" by (auto simp: recv_bounded_def)
  have "\<not> snd ([1, 2 :: u8], False)"
    using fw_boots_whole_image [OF rb(2) ota part] by simp
  then show ?thesis
    using fw_boots_whole_image [OF rb(1) ota all] part
    by (simp add: demo_ota_def otaRecvChunkBytes_def handleOtaFw_def fw_loop.simps)
qed

end
