(* ===== verification/LogRing.thy ===== *)
theory LogRing
  imports AlPrelude
begin

text \<open>
  The log queue (\<open>util/log/LogRingBuffer.h\<close>, \<open>util/log/Log.cpp\<close>): a ring of fixed size that drops
  the oldest line when it is full, the producer \<open>emit\<close> and the drain on the ESP32, and the
  producer of a host build, which queues in a \<open>std::deque\<close>.

  A C string is a \<open>string\<close>. The formatting of a line (\<open>vsnprintf\<close> without its limit) is done by the
  caller; the sink and the console are lists of what they were given.
\<close>

subsection \<open>The interface\<close>

text \<open>A bounded queue that drops its oldest entry when it is full.\<close>

locale drop_oldest =
  fixes push :: "'e \<Rightarrow> 's \<Rightarrow> bool \<times> 's" and pop :: "'s \<Rightarrow> ('e \<times> 's) option"
    and abs :: "'s \<Rightarrow> 'e list" and inv :: "'s \<Rightarrow> bool" and cap :: nat
  assumes abs_le: "inv s \<Longrightarrow> length (abs s) \<le> cap"
    and push_inv: "inv s \<Longrightarrow> inv (snd (push e s))"
    and push_abs: "inv s \<Longrightarrow> abs (snd (push e s)) = (if length (abs s) = cap then tl (abs s) else abs s) @ [e]"
    and push_drops: "inv s \<Longrightarrow> fst (push e s) \<longleftrightarrow> length (abs s) = cap"
    and pop_none: "inv s \<Longrightarrow> pop s = None \<longleftrightarrow> abs s = []"
    and pop_some: "inv s \<Longrightarrow> pop s = Some (e, s') \<Longrightarrow> inv s' \<and> abs s = e # abs s'"
    and cap_pos: "0 < cap"
begin

lemma push_suffix:
  assumes "inv s"
  shows "abs (snd (push e s)) = drop (length (abs s @ [e]) - cap) (abs s @ [e])"
  using push_abs [OF assms, of e] abs_le [OF assms] cap_pos by (cases "abs s") auto

lemma push_all:
  "inv s \<Longrightarrow> inv (fold (\<lambda>e s. snd (push e s)) es s) \<and>
     abs (fold (\<lambda>e s. snd (push e s)) es s) = drop (length (abs s @ es) - cap) (abs s @ es)"
proof (induction es arbitrary: s)
  case Nil
  then show ?case using abs_le [OF Nil] by simp
next
  case (Cons e es)
  let ?s = "snd (push e s)" and ?a = "abs s @ [e]"
  have a: "abs ?s = drop (length ?a - cap) ?a" by (rule push_suffix [OF Cons.prems])
  have "drop (length (drop k X @ es) - cap) (drop k X @ es) = drop (length (X @ es) - cap) (X @ es)"
    if "k = length X - cap" for k and X :: "'e list"
  proof (cases "length X \<le> cap")
    case True
    then show ?thesis using that by simp
  next
    case False
    have x: "drop k X @ es = drop k (X @ es)" using that by simp
    have "length (drop k (X @ es)) - cap + k = length (X @ es) - cap" using that False by simp
    then show ?thesis unfolding x drop_drop by (rule arg_cong)
  qed
  from this [of "length ?a - cap" ?a] show ?case
    using Cons.IH [OF push_inv [OF Cons.prems]] a by simp
qed

end

subsection \<open>The ring\<close>

record Entry =
  e_sev :: char
  e_tag :: string
  e_msg :: string
  e_tsMs :: u32

record LogRing =
  lr_ring :: "nat \<Rightarrow> Entry"
  lr_head :: nat
  lr_tail :: nat

definition QUEUE_CAP :: nat where "QUEUE_CAP = 128"
definition ringN :: nat where "ringN = QUEUE_CAP + 1"

definition entry_init :: Entry where
  "entry_init = \<lparr>e_sev = CHR ''I'', e_tag = [], e_msg = [], e_tsMs = 0\<rparr>"

definition ring_new :: LogRing where
  "ring_new = \<lparr>lr_ring = (\<lambda>_. entry_init), lr_head = 0, lr_tail = 0\<rparr>"

text \<open>\<open>strncpy\<close> of 15 and 159 characters into the fields.\<close>

definition mkEntry :: "char \<Rightarrow> string \<Rightarrow> string \<Rightarrow> u32 \<Rightarrow> Entry" where
  "mkEntry sev tag msg tsMs = \<lparr>e_sev = sev, e_tag = take 15 tag, e_msg = take 159 msg, e_tsMs = tsMs\<rparr>"

definition tryPush :: "nat \<Rightarrow> Entry \<Rightarrow> LogRing \<Rightarrow> bool \<times> LogRing" where
  "tryPush n e r =
     (let nxt = (lr_tail r + 1) mod n; dropped = (nxt = lr_head r);
          r1 = (if dropped then r\<lparr>lr_head := (lr_head r + 1) mod n\<rparr> else r) in
      (dropped, r1\<lparr>lr_ring := (lr_ring r1)(lr_tail r1 := e), lr_tail := nxt\<rparr>))"

definition tryPop :: "nat \<Rightarrow> LogRing \<Rightarrow> (Entry \<times> LogRing) option" where
  "tryPop n r =
     (if lr_head r = lr_tail r then None
      else Some (lr_ring r (lr_head r), r\<lparr>lr_head := (lr_head r + 1) mod n\<rparr>))"

definition ring_size :: "nat \<Rightarrow> LogRing \<Rightarrow> nat" where
  "ring_size n r = (lr_tail r + n - lr_head r) mod n"

subsection \<open>The ring is a bounded queue\<close>

definition ring_inv :: "nat \<Rightarrow> LogRing \<Rightarrow> bool" where
  "ring_inv n r \<longleftrightarrow> lr_head r < n \<and> lr_tail r < n"

definition ring_abs :: "nat \<Rightarrow> LogRing \<Rightarrow> Entry list" where
  "ring_abs n r = map (\<lambda>i. lr_ring r ((lr_head r + i) mod n)) [0..<ring_size n r]"

lemma ring_size_lt: "1 < n \<Longrightarrow> ring_size n r < n"
  by (simp add: ring_size_def)

lemma ring_size_eq:
  assumes "ring_inv n r"
  shows "ring_size n r = (if lr_head r \<le> lr_tail r then lr_tail r - lr_head r else lr_tail r + n - lr_head r)"
  using assms by (auto simp: ring_size_def ring_inv_def mod_if)

lemma tail_slot:
  assumes "ring_inv n r" shows "(lr_head r + ring_size n r) mod n = lr_tail r"
  using assms by (auto simp: ring_size_eq ring_inv_def mod_if)

lemma ring_full:
  assumes "1 < n" and "ring_inv n r"
  shows "(lr_tail r + 1) mod n = lr_head r \<longleftrightarrow> ring_size n r = n - 1"
  using assms by (auto simp: ring_size_eq ring_inv_def mod_if)

lemma ring_push:
  assumes n: "1 < n" and inv: "ring_inv n r"
  shows "ring_inv n (snd (tryPush n e r)) \<and> (fst (tryPush n e r) \<longleftrightarrow> ring_size n r = n - 1) \<and>
    ring_abs n (snd (tryPush n e r)) =
      (if ring_size n r = n - 1 then tl (ring_abs n r) else ring_abs n r) @ [e]"
proof -
  let ?k = "ring_size n r" and ?h = "lr_head r" and ?t = "lr_tail r"
  define r' where "r' = snd (tryPush n e r)"
  have full: "(?t + 1) mod n = ?h \<longleftrightarrow> ?k = n - 1" by (rule ring_full [OF n inv])
  have h: "?h < n" "?t < n" using inv by (simp_all add: ring_inv_def)
  have k: "?k < n" using ring_size_lt n by simp
  have other: "((lr_ring r)(?t := e)) ((?h + i) mod n) = lr_ring r ((?h + i) mod n)" if "i < ?k" for i
    using slot_inj [OF h(1), of i ?k] that k tail_slot [OF inv] by auto
  have inv': "ring_inv n r'" using h n by (auto simp: r'_def ring_inv_def tryPush_def Let_def)
  have abs': "ring_abs n r' = (if ?k = n - 1 then tl (ring_abs n r) else ring_abs n r) @ [e]"
  proof (cases "?k = n - 1")
    case True
    have r': "lr_head r' = (?h + 1) mod n" "lr_tail r' = ?h" "lr_ring r' = (lr_ring r)(?t := e)"
      using full True by (simp_all add: r'_def tryPush_def Let_def)
    have size': "ring_size n r' = n - 1"
      using r' h n by (auto simp: ring_size_def mod_if)
    have slot: "(Suc ?h mod n + i) mod n = Suc (?h + i) mod n" for i using mod_add_left_eq [of "Suc ?h" n i] by simp
    have "[0..<n - 1] = [0..<n - 2] @ [n - 2]" using n upt_Suc_append [of 0 "n - 2"] by (simp add: Suc_diff_Suc numeral_2_eq_2)
    moreover have "((lr_ring r)(?t := e)) ((?h + Suc (n - 2)) mod n) = e"
      using tail_slot [OF inv] True n by (simp add: Suc_diff_Suc numeral_2_eq_2)
    moreover have "tl (ring_abs n r) = map (\<lambda>i. lr_ring r ((?h + Suc i) mod n)) [0..<n - 2]"
      using True by (intro nth_equalityI) (simp_all add: ring_abs_def nth_tl numeral_2_eq_2)
    moreover have "((lr_ring r)(?t := e)) ((?h + Suc i) mod n) = lr_ring r ((?h + Suc i) mod n)" if "i < n - 2" for i
      using other [of "Suc i"] True that by simp
    ultimately show ?thesis
      using True by (simp add: ring_abs_def size' r' slot)
  next
    case False
    have r': "lr_head r' = ?h" "lr_tail r' = (?t + 1) mod n" "lr_ring r' = (lr_ring r)(?t := e)"
      using full False by (simp_all add: r'_def tryPush_def Let_def)
    have size': "ring_size n r' = Suc ?k"
      using r' h n False k ring_size_eq [OF inv] full by (auto simp: ring_size_def mod_if split: if_splits)
    then show ?thesis
      using False other tail_slot [OF inv] by (simp add: ring_abs_def r')
  qed
  show ?thesis
    using inv' abs' full unfolding r'_def by (simp add: tryPush_def Let_def)
qed

lemma ring_pop:
  assumes "1 < n" and inv: "ring_inv n r"
  shows "tryPop n r = None \<longleftrightarrow> ring_abs n r = []"
    and "tryPop n r = Some (e, r') \<Longrightarrow> ring_inv n r' \<and> ring_abs n r = e # ring_abs n r'"
proof -
  let ?k = "ring_size n r" and ?h = "lr_head r" and ?t = "lr_tail r"
  have h: "?h < n" "?t < n" using inv by (simp_all add: ring_inv_def)
  have empty: "?h = ?t \<longleftrightarrow> ?k = 0" using h by (auto simp: ring_size_eq [OF inv] split: if_splits)
  show "tryPop n r = None \<longleftrightarrow> ring_abs n r = []"
    using empty by (simp add: tryPop_def ring_abs_def)
  assume p: "tryPop n r = Some (e, r')"
  then have ne: "?h \<noteq> ?t" and r': "e = lr_ring r ?h" "lr_head r' = Suc ?h mod n" "lr_tail r' = ?t" "lr_ring r' = lr_ring r"
    by (auto simp: tryPop_def split: if_splits)
  have inv': "ring_inv n r'" using h r' by (simp add: ring_inv_def)
  have k: "?k = Suc (ring_size n r')"
    using h r' ne by (auto simp: ring_size_eq [OF inv] ring_size_eq [OF inv'] mod_if split: if_splits)
  have slot: "(Suc ?h mod n + i) mod n = Suc (?h + i) mod n" for i using mod_add_left_eq [of "Suc ?h" n i] by simp
  have "ring_abs n r = e # ring_abs n r'"
    using r' h k by (simp add: ring_abs_def slot map_upt_Suc del: upt_Suc)
  then show "ring_inv n r' \<and> ring_abs n r = e # ring_abs n r'" using inv' by simp
qed

interpretation log_ring: drop_oldest "tryPush ringN" "tryPop ringN" "ring_abs ringN" "ring_inv ringN" QUEUE_CAP
proof
  have n: "1 < ringN" "ringN - 1 = QUEUE_CAP" by (simp_all add: ringN_def QUEUE_CAP_def)
  fix s e s'
  assume inv: "ring_inv ringN s"
  have len: "length (ring_abs ringN s) = ring_size ringN s" by (simp add: ring_abs_def)
  show "length (ring_abs ringN s) \<le> QUEUE_CAP" using len ring_size_lt [OF n(1), of s] n(2) by simp
  show "ring_inv ringN (snd (tryPush ringN e s))" "fst (tryPush ringN e s) \<longleftrightarrow> length (ring_abs ringN s) = QUEUE_CAP"
    "ring_abs ringN (snd (tryPush ringN e s)) =
      (if length (ring_abs ringN s) = QUEUE_CAP then tl (ring_abs ringN s) else ring_abs ringN s) @ [e]"
    using ring_push [OF n(1) inv, of e] len n(2) by simp_all
  show "tryPop ringN s = None \<longleftrightarrow> ring_abs ringN s = []" by (rule ring_pop(1) [OF n(1) inv])
  show "tryPop ringN s = Some (e, s') \<Longrightarrow> ring_inv ringN s' \<and> ring_abs ringN s = e # ring_abs ringN s'"
    by (rule ring_pop(2) [OF n(1) inv])
qed (simp add: QUEUE_CAP_def)

subsection \<open>The logger\<close>

text \<open>
  The fields after \<open>lg_console\<close> exist in a host build only, those before \<open>lg_droppedLines\<close> on the
  ESP32 only.
\<close>

record Log =
  lg_ring :: LogRing
  lg_espDropWarned :: bool
  lg_droppedLines :: u64
  lg_none :: bool
  lg_truncWarned :: bool
  lg_hasSink :: bool
  lg_sunk :: "(char \<times> string \<times> string) list"
  lg_console :: "Entry list"
  lg_pending :: "string list"
  lg_dropWarned :: bool
  lg_stderr :: "string list"
  lg_stdout :: "string list"

definition log_new :: Log where
  "log_new = \<lparr>lg_ring = ring_new, lg_espDropWarned = False, lg_droppedLines = 0, lg_none = False,
     lg_truncWarned = False, lg_hasSink = False, lg_sunk = [], lg_console = [], lg_pending = [],
     lg_dropWarned = False, lg_stderr = [], lg_stdout = []\<rparr>"

definition toSink :: "char \<Rightarrow> string \<Rightarrow> string \<Rightarrow> Log \<Rightarrow> Log" where
  "toSink sev tag msg l = (if lg_hasSink l then l\<lparr>lg_sunk := lg_sunk l @ [(sev, tag, msg)]\<rparr> else l)"

definition kOverflowMsg :: string where
  "kOverflowMsg = ''Log: ESP ring overflow, dropping oldest lines (drain task not keeping up)''"

definition kDropMsg :: string where
  "kDropMsg = ''W [AutoLink] Log: queue overflow, dropping oldest lines (drainPending not called often enough)'' @ [CHR 0x0A]"

text \<open>
  The part of \<open>emit\<close> both builds share. \<open>line\<close> is the formatted line before the limit of the
  buffer, \<open>truncNote\<close> the text of the truncation warning.
\<close>

definition emit_sink :: "string \<Rightarrow> char \<Rightarrow> string \<Rightarrow> string \<Rightarrow> Log \<Rightarrow> Log" where
  "emit_sink truncNote sev tag line l =
     (let l1 = (if length line > 159 \<and> \<not> lg_truncWarned l
                then toSink CHR ''E'' tag truncNote (l\<lparr>lg_truncWarned := True\<rparr>) else l) in
      toSink sev tag (take 159 line) l1)"

definition emit_ring :: "char \<Rightarrow> string \<Rightarrow> string \<Rightarrow> u32 \<Rightarrow> Log \<Rightarrow> Log" where
  "emit_ring sev tag msg tsMs l =
     (case tryPush ringN (mkEntry sev tag msg tsMs) (lg_ring l) of
        (dropped, r) \<Rightarrow>
          let l1 = l\<lparr>lg_ring := r\<rparr> in
          if dropped then
            let l2 = l1\<lparr>lg_droppedLines := lg_droppedLines l1 + 1\<rparr> in
            if \<not> lg_espDropWarned l2
            then toSink CHR ''W'' ''AutoLink'' kOverflowMsg (l2\<lparr>lg_espDropWarned := True\<rparr>) else l2
          else l1\<lparr>lg_espDropWarned := False\<rparr>)"

definition log_emit :: "string \<Rightarrow> char \<Rightarrow> string \<Rightarrow> string \<Rightarrow> u32 \<Rightarrow> Log \<Rightarrow> Log" where
  "log_emit truncNote sev tag line tsMs l =
     (if lg_none l then l
      else emit_ring sev tag (take 159 line) tsMs (emit_sink truncNote sev tag line l))"

definition emit_queue :: "char \<Rightarrow> string \<Rightarrow> string \<Rightarrow> Log \<Rightarrow> Log" where
  "emit_queue sev tag msg l =
     (let queued = sev # '' ['' @ tag @ ''] '' @ msg in
      if length queued < 448 then
        let l1 = (if length (lg_pending l) \<ge> QUEUE_CAP then
                    let l2 = l\<lparr>lg_pending := tl (lg_pending l), lg_droppedLines := lg_droppedLines l + 1\<rparr> in
                    if \<not> lg_dropWarned l2
                    then l2\<lparr>lg_dropWarned := True, lg_stderr := lg_stderr l2 @ [kDropMsg]\<rparr> else l2
                  else l) in
        l1\<lparr>lg_pending := lg_pending l1 @ [queued], lg_dropWarned := False\<rparr>
      else l)"

definition log_emit_host :: "string \<Rightarrow> char \<Rightarrow> string \<Rightarrow> string \<Rightarrow> Log \<Rightarrow> Log" where
  "log_emit_host truncNote sev tag line l =
     (if lg_none l then l
      else emit_queue sev tag (take 159 line) (emit_sink truncNote sev tag line l))"

text \<open>The drain ends: every turn takes a line out.\<close>

function drain_ring :: "nat \<Rightarrow> LogRing \<Rightarrow> Entry list \<times> LogRing" where
  "drain_ring n r =
     (if 1 < n \<and> ring_inv n r then
        (case tryPop n r of
           None \<Rightarrow> ([], r)
         | Some (e, r1) \<Rightarrow> (case drain_ring n r1 of (es, r2) \<Rightarrow> (e # es, r2)))
      else ([], r))"
  by pat_completeness auto
termination
proof (relation "measure (\<lambda>(n, r). length (ring_abs n r))")
  fix n r x e r1
  assume "1 < n \<and> ring_inv n r" "tryPop n r = Some x" "(e, r1) = x"
  then show "((n, r1), n, r) \<in> measure (\<lambda>(n, r). length (ring_abs n r))"
    using ring_pop(2) [of n r e r1] by auto
qed simp

declare drain_ring.simps [simp del]

definition drainPending :: "Log \<Rightarrow> Log" where
  "drainPending l = (case drain_ring ringN (lg_ring l) of (es, r) \<Rightarrow> l\<lparr>lg_ring := r, lg_console := lg_console l @ es\<rparr>)"

definition drainPending_host :: "Log \<Rightarrow> Log" where
  "drainPending_host l = l\<lparr>lg_stdout := lg_stdout l @ map (\<lambda>line. line @ [CHR 0x0A]) (lg_pending l), lg_pending := []\<rparr>"

definition log_pendingCount :: "Log \<Rightarrow> nat" where
  "log_pendingCount l = ring_size ringN (lg_ring l)"

definition log_clearPending :: "Log \<Rightarrow> Log" where
  "log_clearPending l = l\<lparr>lg_ring := snd (drain_ring ringN (lg_ring l))\<rparr>"

definition log_clearDroppedLines :: "Log \<Rightarrow> Log" where
  "log_clearDroppedLines l = l\<lparr>lg_droppedLines := 0\<rparr>"

subsection \<open>A burst of lines\<close>

lemma drain_ring_all:
  "1 < n \<Longrightarrow> ring_inv n r \<Longrightarrow>
     \<exists>r'. drain_ring n r = (ring_abs n r, r') \<and> ring_inv n r' \<and> ring_abs n r' = []"
proof (induction n r rule: drain_ring.induct)
  case (1 n r)
  show ?case
  proof (cases "tryPop n r")
    case None
    then have "ring_abs n r = []" using ring_pop(1) [OF "1.prems"] by simp
    with None "1.prems" show ?thesis by (simp add: drain_ring.simps [of n r])
  next
    case (Some x)
    obtain e r1 where x: "x = (e, r1)" by (cases x)
    have r1: "ring_inv n r1" "ring_abs n r = e # ring_abs n r1"
      using ring_pop(2) [OF "1.prems", of e r1] Some x by simp_all
    obtain r' where "drain_ring n r1 = (ring_abs n r1, r')" "ring_inv n r' \<and> ring_abs n r' = []"
      using "1.IH" [OF _ Some x [symmetric]] "1.prems" r1(1) by auto
    with Some x r1 "1.prems" show ?thesis by (simp add: drain_ring.simps [of n r])
  qed
qed

text \<open>A line is severity, tag, text and time.\<close>

type_synonym Line = "char \<times> string \<times> string \<times> u32"

definition emit_all :: "string \<Rightarrow> Line list \<Rightarrow> Log \<Rightarrow> Log" where
  "emit_all trunc = fold (\<lambda>(sev, tag, line, ts). log_emit trunc sev tag line ts)"

definition line_entry :: "Line \<Rightarrow> Entry" where
  "line_entry = (\<lambda>(sev, tag, line, ts). mkEntry sev tag (take 159 line) ts)"

definition line_sunk :: "Line \<Rightarrow> char \<times> string \<times> string" where
  "line_sunk = (\<lambda>(sev, tag, line, ts). (sev, tag, line))"

definition short_line :: "Line \<Rightarrow> bool" where
  "short_line = (\<lambda>(sev, tag, line, ts). length line \<le> 159)"

lemma emit_short:
  fixes trunc sev tag ts
  assumes "\<not> lg_none l" "lg_hasSink l" "length line \<le> 159" "ring_inv ringN (lg_ring l)"
  defines "l' \<equiv> log_emit trunc sev tag line ts l" and "full \<equiv> length (ring_abs ringN (lg_ring l)) = QUEUE_CAP"
  shows "\<not> lg_none l' \<and> lg_hasSink l' \<and> lg_console l' = lg_console l \<and> ring_inv ringN (lg_ring l') \<and>
    ring_abs ringN (lg_ring l') =
      (if full then tl (ring_abs ringN (lg_ring l)) else ring_abs ringN (lg_ring l)) @ [mkEntry sev tag (take 159 line) ts] \<and>
    lg_droppedLines l' = lg_droppedLines l + (if full then 1 else 0) \<and> lg_espDropWarned l' = full \<and>
    lg_sunk l' = lg_sunk l @ [(sev, tag, line)] @
      (if full \<and> \<not> lg_espDropWarned l then [(CHR ''W'', ''AutoLink'', kOverflowMsg)] else [])"
proof -
  obtain d r where p: "tryPush ringN (mkEntry sev tag (take 159 line) ts) (lg_ring l) = (d, r)" by fastforce
  note ring = log_ring.push_inv [OF assms(4), of "mkEntry sev tag (take 159 line) ts"]
    log_ring.push_abs [OF assms(4), of "mkEntry sev tag (take 159 line) ts"]
    log_ring.push_drops [OF assms(4), of "mkEntry sev tag (take 159 line) ts"]
  have "d = full" using ring(3) p by (simp add: full_def)
  with ring(1,2) p assms(1-3) show ?thesis
    by (simp add: l'_def full_def log_emit_def emit_sink_def emit_ring_def toSink_def)
qed

lemma emit_all_state:
  fixes trunc
  assumes "\<not> lg_none l" "lg_hasSink l" "ring_inv ringN (lg_ring l)" "ring_abs ringN (lg_ring l) = []"
    and "list_all short_line es"
  defines "l' \<equiv> emit_all trunc es l"
  shows "\<not> lg_none l' \<and> lg_hasSink l' \<and> lg_console l' = lg_console l \<and> ring_inv ringN (lg_ring l') \<and>
    ring_abs ringN (lg_ring l') = drop (length es - QUEUE_CAP) (map line_entry es) \<and>
    lg_droppedLines l' = lg_droppedLines l + of_nat (length es - QUEUE_CAP) \<and>
    (es \<noteq> [] \<longrightarrow> lg_espDropWarned l' = (QUEUE_CAP < length es)) \<and>
    lg_sunk l' = lg_sunk l @ map line_sunk (take (Suc QUEUE_CAP) es) @
      (if QUEUE_CAP < length es then [(CHR ''W'', ''AutoLink'', kOverflowMsg)] else []) @
      map line_sunk (drop (Suc QUEUE_CAP) es)"
  using assms(5) unfolding l'_def
proof (induction es rule: rev_induct)
  case Nil
  then show ?case using assms(1-4) by (simp add: emit_all_def)
next
  case (snoc x es)
  obtain sev tag line ts where x: "x = (sev, tag, line, ts)" by (cases x)
  define m where "m = emit_all trunc es l"
  have IH: "\<not> lg_none m" "lg_hasSink m" "lg_console m = lg_console l" "ring_inv ringN (lg_ring m)"
    "ring_abs ringN (lg_ring m) = drop (length es - QUEUE_CAP) (map line_entry es)"
    "lg_droppedLines m = lg_droppedLines l + of_nat (length es - QUEUE_CAP)"
    "es \<noteq> [] \<Longrightarrow> lg_espDropWarned m = (QUEUE_CAP < length es)"
    "lg_sunk m = lg_sunk l @ map line_sunk (take (Suc QUEUE_CAP) es) @
      (if QUEUE_CAP < length es then [(CHR ''W'', ''AutoLink'', kOverflowMsg)] else []) @
      map line_sunk (drop (Suc QUEUE_CAP) es)"
    using snoc.IH snoc.prems unfolding m_def by simp_all
  have step: "emit_all trunc (es @ [x]) l = log_emit trunc sev tag line ts m"
    by (simp add: m_def emit_all_def x)
  have full: "length (ring_abs ringN (lg_ring m)) = QUEUE_CAP \<longleftrightarrow> QUEUE_CAP \<le> length es"
    using IH(5) by (auto simp: QUEUE_CAP_def)
  have "length line \<le> 159" using snoc.prems by (simp add: short_line_def x)
  note emit = emit_short [OF IH(1,2) this IH(4), of trunc sev tag ts, folded step]
  show ?case
  proof (cases "QUEUE_CAP \<le> length es")
    case True
    then have "es \<noteq> []" by (auto simp: QUEUE_CAP_def)
    note w = IH(7) [OF this]
    have d: "Suc (length es) - QUEUE_CAP = Suc (length es - QUEUE_CAP)" using True by simp
    have q: "Suc 0 - QUEUE_CAP = 0" "Suc (length es - QUEUE_CAP) - length es = 0" using True by (auto simp: QUEUE_CAP_def)
    have t: "tl (drop (length es - QUEUE_CAP) (map line_entry es)) = map line_entry (drop (Suc (length es - QUEUE_CAP)) es)"
      by (simp only: drop_map drop_Suc tl_drop map_tl [symmetric])
    show ?thesis
      using emit [unfolded IH(5) t] IH(3,6,8) full True w
      by (cases "length es = QUEUE_CAP") (simp_all add: d q line_entry_def line_sunk_def x drop_map del: of_nat_diff)
  next
    case False
    then show ?thesis
      using emit IH(3,5,6,8) full by (simp add: line_entry_def line_sunk_def x)
  qed
qed

text \<open>C30: a burst of short lines that starts with an empty ring, followed by the drain: the console
  gets exactly the last 128 lines (all, if there are no more) in the order of the calls; the
  counter grows by the number of lines lost; the sink gets every line in order, and exactly one
  overflow warning, right after the line that caused the first loss; the ring is empty again.
\<close>

theorem log_ring_keeps_latest:
  fixes trunc
  assumes "\<not> lg_none l" "lg_hasSink l" "ring_inv ringN (lg_ring l)" "ring_abs ringN (lg_ring l) = []"
    and "list_all short_line es"
  defines "l' \<equiv> drainPending (emit_all trunc es l)"
  shows "lg_console l' = lg_console l @ drop (length es - 128) (map line_entry es) \<and>
    lg_droppedLines l' = lg_droppedLines l + of_nat (length es - 128) \<and>
    lg_sunk l' = lg_sunk l @ map line_sunk (take 129 es) @
      (if 128 < length es then [(CHR ''W'', ''AutoLink'', kOverflowMsg)] else []) @ map line_sunk (drop 129 es) \<and>
    log_pendingCount l' = 0"
proof -
  note s = emit_all_state [OF assms(1-5), of trunc, unfolded QUEUE_CAP_def]
  define m where "m = emit_all trunc es l"
  have inv: "ring_inv ringN (lg_ring m)" using s by (simp add: m_def)
  obtain r where r: "drain_ring ringN (lg_ring m) = (ring_abs ringN (lg_ring m), r)" "ring_abs ringN r = []"
    using drain_ring_all [OF _ inv] by (auto simp: ringN_def QUEUE_CAP_def)
  have "ring_size ringN r = 0" using r(2) by (simp add: ring_abs_def)
  then show ?thesis
    using s r(1) by (simp add: l'_def m_def [symmetric] drainPending_def log_pendingCount_def)
qed

lemma ring_new_empty: "ring_inv ringN ring_new" "ring_abs ringN ring_new = []"
  by (simp_all add: ring_inv_def ring_new_def ring_abs_def ring_size_def ringN_def QUEUE_CAP_def)

lemma log_ring_keeps_latest_witness:
  "let l' = drainPending (emit_all [] (replicate 130 (CHR ''I'', ''t'', ''hi'', 7)) (log_new\<lparr>lg_hasSink := True\<rparr>)) in
    lg_console l' = replicate 128 (mkEntry CHR ''I'' ''t'' ''hi'' 7) \<and> lg_droppedLines l' = 2"
  using log_ring_keeps_latest [of "log_new\<lparr>lg_hasSink := True\<rparr>" "replicate 130 (CHR ''I'', ''t'', ''hi'', 7)" "[]"]
  by (simp add: log_new_def ring_new_empty list_all_iff short_line_def line_entry_def Let_def)

subsection \<open>The producer of a host build\<close>

definition emit_all_host :: "string \<Rightarrow> Line list \<Rightarrow> Log \<Rightarrow> Log" where
  "emit_all_host trunc = fold (\<lambda>(sev, tag, line, ts). log_emit_host trunc sev tag line)"

definition line_queued :: "Line \<Rightarrow> string" where
  "line_queued = (\<lambda>(sev, tag, line, ts). sev # '' ['' @ tag @ ''] '' @ take 159 line)"

definition short_tag :: "Line \<Rightarrow> bool" where
  "short_tag = (\<lambda>(sev, tag, line, ts). length tag \<le> 280)"

lemma emit_sink_fields:
  "lg_none (emit_sink trunc sev tag line l) = lg_none l"
  "lg_pending (emit_sink trunc sev tag line l) = lg_pending l"
  "lg_dropWarned (emit_sink trunc sev tag line l) = lg_dropWarned l"
  "lg_droppedLines (emit_sink trunc sev tag line l) = lg_droppedLines l"
  "lg_stderr (emit_sink trunc sev tag line l) = lg_stderr l"
  "lg_stdout (emit_sink trunc sev tag line l) = lg_stdout l"
  by (simp_all add: emit_sink_def toSink_def Let_def)

lemma emit_host_step:
  fixes trunc sev line ts
  assumes "\<not> lg_none l" "length tag \<le> 280" "length (lg_pending l) \<le> QUEUE_CAP" "\<not> lg_dropWarned l"
  defines "l' \<equiv> log_emit_host trunc sev tag line l" and "full \<equiv> length (lg_pending l) = QUEUE_CAP"
  shows "\<not> lg_none l' \<and> \<not> lg_dropWarned l' \<and> lg_stdout l' = lg_stdout l \<and>
    lg_pending l' = (if full then tl (lg_pending l) else lg_pending l) @ [line_queued (sev, tag, line, ts)] \<and>
    lg_droppedLines l' = lg_droppedLines l + (if full then 1 else 0) \<and>
    lg_stderr l' = lg_stderr l @ (if full then [kDropMsg] else [])"
  using assms(1-4)
  by (auto simp: l'_def full_def log_emit_host_def emit_queue_def emit_sink_fields Let_def line_queued_def)

text \<open>A burst of lines on a host build that starts with an empty queue: the queue holds the last
  128 lines in order and the counter grows by the lines lost, as on the ESP32; but the warning
  latch is cleared by the very call that set it, so the error stream gets one warning for
  every line lost, not one for the streak.
\<close>

theorem host_log_warns_every_drop:
  assumes "\<not> lg_none l" "lg_pending l = []" "\<not> lg_dropWarned l" "list_all short_tag es"
  shows "lg_pending (emit_all_host trunc es l) = drop (length es - 128) (map line_queued es) \<and>
    lg_droppedLines (emit_all_host trunc es l) = lg_droppedLines l + of_nat (length es - 128) \<and>
    lg_stderr (emit_all_host trunc es l) = lg_stderr l @ replicate (length es - 128) kDropMsg"
proof -
  have "\<not> lg_none (emit_all_host trunc es l) \<and> \<not> lg_dropWarned (emit_all_host trunc es l) \<and>
    lg_pending (emit_all_host trunc es l) = drop (length es - QUEUE_CAP) (map line_queued es) \<and>
    lg_droppedLines (emit_all_host trunc es l) = lg_droppedLines l + of_nat (length es - QUEUE_CAP) \<and>
    lg_stderr (emit_all_host trunc es l) = lg_stderr l @ replicate (length es - QUEUE_CAP) kDropMsg"
    using assms(4)
  proof (induction es rule: rev_induct)
    case Nil
    then show ?case using assms(1-3) by (simp add: emit_all_host_def)
  next
    case (snoc x es)
    obtain sev tag line ts where x: "x = (sev, tag, line, ts)" by (cases x)
    define m where "m = emit_all_host trunc es l"
    have IH: "\<not> lg_none m" "\<not> lg_dropWarned m"
      "lg_pending m = drop (length es - QUEUE_CAP) (map line_queued es)"
      "lg_droppedLines m = lg_droppedLines l + of_nat (length es - QUEUE_CAP)"
      "lg_stderr m = lg_stderr l @ replicate (length es - QUEUE_CAP) kDropMsg"
      using snoc.IH snoc.prems by (simp_all add: m_def)
    have len: "length (lg_pending m) \<le> QUEUE_CAP" "length tag \<le> 280"
      using snoc.prems by (simp_all add: IH(3) short_tag_def x)
    have step: "emit_all_host trunc (es @ [x]) l = log_emit_host trunc sev tag line m"
      by (simp add: m_def emit_all_host_def x)
    note emit = emit_host_step [OF IH(1) len(2,1) IH(2), of trunc sev line ts, folded step x]
    show ?case
    proof (cases "QUEUE_CAP \<le> length es")
      case True
      then have d: "Suc (length es) - QUEUE_CAP = Suc (length es - QUEUE_CAP)"
        "Suc (length es - QUEUE_CAP) - length es = 0" "length (lg_pending m) = QUEUE_CAP"
        by (auto simp: QUEUE_CAP_def IH(3))
      have "tl (drop (length es - QUEUE_CAP) (map line_queued es)) = drop (Suc (length es - QUEUE_CAP)) (map line_queued es)"
        by (simp only: drop_Suc tl_drop)
      then show ?thesis
        using emit IH(4,5) d by (simp add: IH(3) replicate_append_same del: of_nat_diff)
    next
      case False
      then show ?thesis using emit IH(4,5) by (simp add: IH(3))
    qed
  qed
  then show ?thesis by (simp add: QUEUE_CAP_def)
qed

lemma host_log_warns_every_drop_witness:
  "lg_stderr (emit_all_host [] (replicate 130 (CHR ''I'', ''t'', ''hi'', 7)) log_new) = [kDropMsg, kDropMsg]"
  using host_log_warns_every_drop [of log_new "replicate 130 (CHR ''I'', ''t'', ''hi'', 7)" "[]"]
  by (simp add: log_new_def list_all_iff short_tag_def numeral_2_eq_2)

end
