(* ===== verification/LogLevel.thy ===== *)
theory LogLevel
  imports LogRing
begin

text \<open>
  The levels of the log (\<open>util/log/Log.h\<close>): each of the five calls formats and emits its line only
  when the level admits it. \<open>emit\<close> itself (\<open>LogRing\<close>) looks only at whether the level is \<open>NONE\<close>.
\<close>

datatype Level = LvNone | LvError | LvWarning | LvInfo | LvDebug | LvVerbose

fun level_num :: "Level \<Rightarrow> nat" where
  "level_num LvNone = 0"
| "level_num LvError = 1"
| "level_num LvWarning = 2"
| "level_num LvInfo = 3"
| "level_num LvDebug = 4"
| "level_num LvVerbose = 5"

lemma level_num_inj: "level_num a = level_num b \<longleftrightarrow> a = b"
  by (cases a; cases b) simp_all

text \<open>The order of the C++ enumeration.\<close>

instantiation Level :: linorder
begin

definition less_eq_Level :: "Level \<Rightarrow> Level \<Rightarrow> bool" where
  "less_eq_Level a b \<longleftrightarrow> level_num a \<le> level_num b"

definition less_Level :: "Level \<Rightarrow> Level \<Rightarrow> bool" where
  "less_Level a b \<longleftrightarrow> level_num a < level_num b"

instance
  by standard (auto simp: less_eq_Level_def less_Level_def level_num_inj)

end

record LevelLog =
  ll_lvl :: Level
  ll_log :: Log

definition levelLog_new :: LevelLog where
  "levelLog_new = \<lparr>ll_lvl = LvError, ll_log = log_new\<rparr>"

definition setLevel :: "Level \<Rightarrow> LevelLog \<Rightarrow> LevelLog" where
  "setLevel lv s = s\<lparr>ll_lvl := lv, ll_log := (ll_log s)\<lparr>lg_none := (lv = LvNone)\<rparr>\<rparr>"

definition getLevel :: "LevelLog \<Rightarrow> Level" where
  "getLevel s = ll_lvl s"

definition wouldEmit :: "Level \<Rightarrow> LevelLog \<Rightarrow> bool" where
  "wouldEmit lvl_for_msg s \<longleftrightarrow> lvl_for_msg \<le> ll_lvl s"

text \<open>The five calls, with the line as it is formatted.\<close>

definition emitTo :: "string \<Rightarrow> char \<Rightarrow> string \<Rightarrow> string \<Rightarrow> u32 \<Rightarrow> LevelLog \<Rightarrow> LevelLog" where
  "emitTo trunc sev tag line ts s = s\<lparr>ll_log := log_emit trunc sev tag line ts (ll_log s)\<rparr>"

definition log_error :: "string \<Rightarrow> string \<Rightarrow> string \<Rightarrow> u32 \<Rightarrow> LevelLog \<Rightarrow> LevelLog" where
  "log_error trunc tag line ts s = (if ll_lvl s < LvError then s else emitTo trunc CHR ''E'' tag line ts s)"

definition log_warning :: "string \<Rightarrow> string \<Rightarrow> string \<Rightarrow> u32 \<Rightarrow> LevelLog \<Rightarrow> LevelLog" where
  "log_warning trunc tag line ts s = (if ll_lvl s < LvWarning then s else emitTo trunc CHR ''W'' tag line ts s)"

definition log_info :: "string \<Rightarrow> string \<Rightarrow> string \<Rightarrow> u32 \<Rightarrow> LevelLog \<Rightarrow> LevelLog" where
  "log_info trunc tag line ts s = (if ll_lvl s < LvInfo then s else emitTo trunc CHR ''I'' tag line ts s)"

definition log_debug :: "string \<Rightarrow> string \<Rightarrow> string \<Rightarrow> u32 \<Rightarrow> LevelLog \<Rightarrow> LevelLog" where
  "log_debug trunc tag line ts s = (if ll_lvl s < LvDebug then s else emitTo trunc CHR ''D'' tag line ts s)"

definition log_verbose :: "string \<Rightarrow> string \<Rightarrow> string \<Rightarrow> u32 \<Rightarrow> LevelLog \<Rightarrow> LevelLog" where
  "log_verbose trunc tag line ts s = (if ll_lvl s < LvVerbose then s else emitTo trunc CHR ''V'' tag line ts s)"

lemmas log_calls = log_error_def log_warning_def log_info_def log_debug_def log_verbose_def

subsection \<open>What a level lets through\<close>

text \<open>A call of a level, and the severity its line carries.\<close>

type_synonym Call = "Level \<times> string \<times> string \<times> u32"

fun log_call :: "string \<Rightarrow> Call \<Rightarrow> LevelLog \<Rightarrow> LevelLog" where
  "log_call trunc (LvNone, tag, line, ts) = (\<lambda>s. s)"
| "log_call trunc (LvError, tag, line, ts) = log_error trunc tag line ts"
| "log_call trunc (LvWarning, tag, line, ts) = log_warning trunc tag line ts"
| "log_call trunc (LvInfo, tag, line, ts) = log_info trunc tag line ts"
| "log_call trunc (LvDebug, tag, line, ts) = log_debug trunc tag line ts"
| "log_call trunc (LvVerbose, tag, line, ts) = log_verbose trunc tag line ts"

fun severity :: "Level \<Rightarrow> char" where
  "severity LvError = CHR ''E''"
| "severity LvWarning = CHR ''W''"
| "severity LvInfo = CHR ''I''"
| "severity LvDebug = CHR ''D''"
| "severity LvVerbose = CHR ''V''"
| "severity LvNone = CHR '' ''"

definition call_line :: "Call \<Rightarrow> Line" where
  "call_line = (\<lambda>(k, tag, line, ts). (severity k, tag, line, ts))"

text \<open>The flag of \<open>LogRing\<close> stands for the level.\<close>

definition level_inv :: "LevelLog \<Rightarrow> bool" where
  "level_inv s \<longleftrightarrow> (lg_none (ll_log s) \<longleftrightarrow> ll_lvl s = LvNone)"

lemma emit_none: "lg_none (log_emit trunc sev tag line ts l) = lg_none l"
  by (simp add: log_emit_def emit_ring_def emit_sink_def toSink_def Let_def split: prod.split)

lemma log_call_cases:
  assumes "k \<noteq> LvNone"
  shows "log_call trunc (k, tag, line, ts) s =
    (if wouldEmit k s then emitTo trunc (severity k) tag line ts s else s)"
  using assms by (cases k) (auto simp: log_calls wouldEmit_def not_less)

text \<open>A run of calls at a fixed level emits the lines of the admitted calls, in order, each with its
  severity, and nothing else; at \<open>NONE\<close> none.\<close>

lemma level_admits:
  assumes "list_all (\<lambda>c. fst c \<noteq> LvNone) cs"
  shows "fold (log_call trunc) cs s =
    s\<lparr>ll_log := emit_all trunc (map call_line (filter (\<lambda>c. wouldEmit (fst c) s) cs)) (ll_log s)\<rparr>"
  using assms
proof (induction cs arbitrary: s)
  case Nil
  then show ?case by (simp add: emit_all_def)
next
  case (Cons c cs)
  obtain k tag line ts where c: "c = (k, tag, line, ts)" by (cases c)
  have k: "k \<noteq> LvNone" "list_all (\<lambda>c. fst c \<noteq> LvNone) cs" using Cons.prems by (simp_all add: c)
  show ?case
    using Cons.IH [OF k(2), of "log_call trunc c s"] log_call_cases [OF k(1), of trunc tag line ts s]
    by (simp add: c wouldEmit_def emitTo_def emit_all_def call_line_def)
qed

lemma level_inv_kept:
  "level_inv levelLog_new" "level_inv (setLevel lv s)" "level_inv s \<Longrightarrow> level_inv (log_call trunc c s)"
proof -
  show "level_inv levelLog_new" "level_inv (setLevel lv s)"
    by (simp_all add: level_inv_def levelLog_new_def log_new_def setLevel_def)
  show "level_inv (log_call trunc c s)" if "level_inv s"
    using that by (cases "(trunc, c)" rule: log_call.cases) (simp_all add: log_calls emitTo_def level_inv_def emit_none)
qed

lemma silent_level:
  assumes "list_all (\<lambda>c. fst c \<noteq> LvNone) cs" and "getLevel s = LvNone"
  shows "fold (log_call trunc) cs s = s"
proof -
  have "\<not> wouldEmit (fst c) s" if "c \<in> set cs" for c
    using assms that by (cases "fst c") (auto simp: list_all_iff wouldEmit_def getLevel_def less_eq_Level_def)
  then have "filter (\<lambda>c. wouldEmit (fst c) s) cs = []" by simp
  then show ?thesis by (simp add: level_admits [OF assms(1)] emit_all_def)
qed

text \<open>A burst of calls at one level, drained: with a sink, short lines and an empty ring the console gets the
  last \<open>QUEUE_CAP\<close> of the admitted lines.\<close>

lemma level_burst:
  fixes trunc
  assumes "list_all (\<lambda>c. fst c \<noteq> LvNone) cs" and "level_inv s" and "getLevel s \<noteq> LvNone" and "lg_hasSink (ll_log s)"
    and "ring_inv ringN (lg_ring (ll_log s))" and "ring_abs ringN (lg_ring (ll_log s)) = []"
    and "list_all (short_line \<circ> call_line) cs"
  defines "out \<equiv> map call_line (filter (\<lambda>c. wouldEmit (fst c) s) cs)"
  shows "ring_abs ringN (lg_ring (ll_log (fold (log_call trunc) cs s))) = drop (length out - QUEUE_CAP) (map line_entry out)"
proof -
  have "list_all short_line out" using assms(7) by (auto simp: out_def list_all_iff)
  from emit_all_state [OF _ assms(4-6) this, of trunc] show ?thesis
    using assms(2, 3) by (simp add: level_admits [OF assms(1)] out_def level_inv_def getLevel_def)
qed

end
