(* ===== verification/LinkFacade.thy ===== *)
theory LinkFacade
  imports LinkApi
begin

text \<open>
  The face of the library (\<open>include/AutoLink.h\<close>, \<open>AutoLink.cpp\<close>): the class \<open>AutoLink\<close> owns a HAL, a
  cache and a \<open>Link\<close> and forwards every call; here it is the \<open>Link\<close> itself (its copies of role and
  configuration are only logged). With it the getters of \<open>Link.h\<close> and the two snapshots of the
  counters, \<open>getStats\<close> and \<open>getDiag\<close> of \<open>LinkCore.cpp\<close>. The counters of the UART driver and of the
  log are arguments.
\<close>

subsection \<open>Getters and setters of the link\<close>

definition arqPendingCount :: "Link \<Rightarrow> int" where
  "arqPendingCount l = arq_pendingCount (l_arq l)"

definition arqWindow :: "Link \<Rightarrow> int" where
  "arqWindow l = window_' (l_cache l)"

definition pendingAcks :: "Link \<Rightarrow> int" where
  "pendingAcks l = arq_pendingCount (l_arq l)"

definition isAcked :: "u8 \<Rightarrow> Link \<Rightarrow> bool" where
  "isAcked cobsSeq l \<longleftrightarrow> \<not> arq_isPending cobsSeq (l_arq l)"

definition bytesRecvdFor :: "u8 \<Rightarrow> Link \<Rightarrow> u16" where
  "bytesRecvdFor cobsSeq l = arq_bytesFor cobsSeq (l_arq l)"

definition bytesRecvdForMessage :: "u8 \<Rightarrow> u8 \<Rightarrow> Link \<Rightarrow> u16" where
  "bytesRecvdForMessage baseSeq baseLap l = arq_bytesForMessage baseSeq baseLap (l_arq l)"

definition lastAckSeq :: "Link \<Rightarrow> u8" where "lastAckSeq l = t_lastAckSeq (l_t l)"
definition lastNakSeq :: "Link \<Rightarrow> u8" where "lastNakSeq l = t_lastNakSeq (l_t l)"
definition lastRxSeq :: "Link \<Rightarrow> u8" where "lastRxSeq l = r_lastRxSeq (l_r l)"

definition lastSendMsgReason :: "Link \<Rightarrow> SendMsgReason" where
  "lastSendMsgReason l = t_lastSendMsgReason (l_t l)"

definition setLinkPaused :: "bool \<Rightarrow> Link \<Rightarrow> Link" where
  "setLinkPaused p l = l_s_update (\<lambda>s. s\<lparr>s_linkPaused := p\<rparr>) l"

definition setMode :: "Mode \<Rightarrow> Link \<Rightarrow> Link" where
  "setMode m l = l_cfg_update (\<lambda>c. c\<lparr>cfg_mode := m\<rparr>) l"

definition link_mode :: "Link \<Rightarrow> Mode" where "link_mode l = cfg_mode (l_cfg l)"

definition setMaxMsg :: "nat \<Rightarrow> Link \<Rightarrow> Link" where
  "setMaxMsg m l = l_cfg_update (\<lambda>c. c\<lparr>cfg_maxMsg := m\<rparr>) l"

definition maxMsg :: "Link \<Rightarrow> nat" where "maxMsg l = cfg_maxMsg (l_cfg l)"

definition setTxDelayMs :: "int \<Rightarrow> Link \<Rightarrow> Link" where
  "setTxDelayMs ms l = l_cfg_update (\<lambda>c. c\<lparr>cfg_txDelayMs := (if ms < 0 then 0 else ms)\<rparr>) l"

definition txDelayMs :: "Link \<Rightarrow> int" where "txDelayMs l = cfg_txDelayMs (l_cfg l)"

subsection \<open>The snapshots\<close>

record Stats =
  st_tx :: u64
  st_rx :: u64
  st_discCount :: u64
  st_frameErrs :: u64
  st_badHeaderErrs :: u64
  st_overLenErrs :: u64
  st_crcFailErrs :: u64
  st_droppedChunksOnReset :: u64
  st_postLockQuietDrops :: u64
  st_rateLimitedDrops :: u64
  st_gbnWindowFullDrops :: u64
  st_poolExhaustDrops :: u64
  st_txRingStallDrops :: u64
  st_settleDrops :: u64
  st_acksSent :: u64
  st_naksSent :: u64
  st_holdNaksLiveness :: u64
  st_resyncDroppedBytes :: u64
  st_staleAmbiguous :: u64
  st_txBlockedMs :: u64
  st_rxOverflows :: u64
  st_rxFrameErrs :: u64
  st_logDrops :: u64

definition getStats :: "u64 \<Rightarrow> u64 \<Rightarrow> u64 \<Rightarrow> Link \<Rightarrow> Stats" where
  "getStats rxOverflows rxFrameErrs logDrops l =
     \<lparr>st_tx = c_txBytes (l_c l), st_rx = c_rxBytes (l_c l), st_discCount = n_discCount (l_n l),
      st_frameErrs = n_frameErrs (l_n l), st_badHeaderErrs = n_badHeaderErrs (l_n l),
      st_overLenErrs = n_overLenErrs (l_n l), st_crcFailErrs = n_crcFailErrs (l_n l),
      st_droppedChunksOnReset = n_droppedChunksOnReset (l_n l),
      st_postLockQuietDrops = n_postLockQuietDrops (l_n l), st_rateLimitedDrops = n_rateLimitedCount (l_n l),
      st_gbnWindowFullDrops = n_gbnWindowFullDrops (l_n l), st_poolExhaustDrops = n_poolExhaustDrops (l_n l),
      st_txRingStallDrops = n_txRingStallDrops (l_n l), st_settleDrops = n_settleDrops (l_n l),
      st_acksSent = c_acksSent (l_c l), st_naksSent = c_naksSent (l_c l),
      st_holdNaksLiveness = c_holdNaksLiveness (l_c l), st_resyncDroppedBytes = c_resyncDroppedBytes (l_c l),
      st_staleAmbiguous = c_staleAmbiguous (l_c l), st_txBlockedMs = c_txBlockedMs (l_c l),
      st_rxOverflows = rxOverflows, st_rxFrameErrs = rxFrameErrs, st_logDrops = logDrops\<rparr>"

record Diag =
  dg_txSeq :: u8
  dg_rxSeqSet :: bool
  dg_rxSeq :: u8
  dg_gaps :: u64
  dg_stale :: u64
  dg_lostMsgs :: u64
  dg_baudRetries :: u64
  dg_preferredBaud :: u8
  dg_resetReasons :: "ResetReason \<Rightarrow> u64"
  dg_resetCount :: u64
  dg_breaksSuppressed :: u64

definition getDiag :: "Link \<Rightarrow> Diag" where
  "getDiag l =
     \<lparr>dg_txSeq = t_txSeq (l_t l), dg_rxSeqSet = r_rxSeqSet (l_r l), dg_rxSeq = r_rxSeq (l_r l),
      dg_gaps = c_gaps (l_c l), dg_stale = c_stale (l_c l), dg_lostMsgs = c_lostMsgs (l_c l),
      dg_baudRetries = word_of_int (s_baudRetries (l_s l)), dg_preferredBaud = p_preferredBaud (l_p l),
      dg_resetReasons = n_resetReasonCounts (l_n l), dg_resetCount = n_resetCount (l_n l),
      dg_breaksSuppressed = b_breaksSuppressed (l_b l)\<rparr>"

subsection \<open>The facade\<close>

definition al_new :: "Hal \<Rightarrow> bool \<Rightarrow> AutoLinkConfig \<Rightarrow> Link" where
  "al_new hal isMaster cfg =
     link_new hal (cache_new AUTOLINK_ARQ_PIPELINE_WINDOW) isMaster (clampToMaxBauds cfg)"

definition al_ready :: "Link \<Rightarrow> bool" where "al_ready l \<longleftrightarrow> l_state l = OK"

text \<open>The three forms of \<open>sendMsg\<close>; the caller's sequence number is zeroed for an empty message.\<close>

definition al_sendMsg :: "bytes \<Rightarrow> int \<Rightarrow> windows \<Rightarrow> Link \<Rightarrow> (bool \<times> u8 \<times> Link) option" where
  "al_sendMsg b len ws l =
     map_option (\<lambda>(r, l1). (sr_ok r, if len \<le> 0 then 0 else sr_base r, l1)) (sendMsg b len ws l)"

definition al_send :: "bytes \<Rightarrow> int \<Rightarrow> windows \<Rightarrow> Link \<Rightarrow> (int \<times> Link) option" where
  "al_send b len ws l =
     (if len \<le> 0 then Some (0, l)
      else map_option (\<lambda>(ok, _, l1). (if ok then len else 0, l1)) (al_sendMsg b len ws l))"

definition al_recv :: "int \<Rightarrow> Link \<Rightarrow> (int \<times> bytes \<times> Link) option" where
  "al_recv max_len l = recvMsg max_len l"

definition al_err :: "Link \<Rightarrow> Link" where "al_err l = err CrcFail l"

lemmas facade_defs = arqPendingCount_def arqWindow_def isAcked_def lastNakSeq_def lastSendMsgReason_def
  setLinkPaused_def link_mode_def maxMsg_def txDelayMs_def al_ready_def al_recv_def

text \<open>The web monitor's reset leaves no error behind: after \<open>resetStats\<close>, \<open>resetErrors\<close> and \<open>resetDiag\<close> the
  byte counters, the disconnects, all frame errors and their causes, the chunks lost, the
  refusals for a full window or pool, and the gap, stale and loss counts read zero; the session
  (state, window, cache, queue, wire) is as before.\<close>

theorem reset_counters_zero:
  fixes l :: Link
  defines "l' \<equiv> resetDiag (resetErrors (resetStats l))"
  shows "st_tx (getStats ov fe ld l') = 0 \<and> st_rx (getStats ov fe ld l') = 0 \<and>
    st_discCount (getStats ov fe ld l') = 0 \<and> st_frameErrs (getStats ov fe ld l') = 0 \<and>
    st_badHeaderErrs (getStats ov fe ld l') + st_overLenErrs (getStats ov fe ld l') + st_crcFailErrs (getStats ov fe ld l') = 0 \<and>
    st_droppedChunksOnReset (getStats ov fe ld l') = 0 \<and> st_gbnWindowFullDrops (getStats ov fe ld l') = 0 \<and>
    st_poolExhaustDrops (getStats ov fe ld l') = 0 \<and> dg_gaps (getDiag l') = 0 \<and> dg_stale (getDiag l') = 0 \<and>
    dg_lostMsgs (getDiag l') = 0 \<and> l_state l' = l_state l \<and> l_arq l' = l_arq l \<and> l_cache l' = l_cache l \<and>
    l_hw l' = l_hw l \<and> l_t l' = l_t l \<and> l_r l' = l_r l"
  by (simp add: l'_def getStats_def getDiag_def resetStats_def resetErrors_def resetDiag_def)

end
