(* ===== verification/PingGap.thy ===== *)
theory PingGap
  imports LinkFacade
begin

text \<open>
  The parts of the ping-pong application that do not touch the link: the gap machine
  (\<open>pingpong/PingGap.h\<close>), the payloads (\<open>pingpong/PingFill.h\<close>) and the statistics line
  (\<open>logStats\<close>, \<open>pingpong/PingPongBase.h\<close>). \<open>random(n)\<close> is an argument.
\<close>

subsection \<open>The gap machine\<close>

definition PING_GAP_NO_GAP :: u8 where "PING_GAP_NO_GAP = 0xFF"

datatype GapAction = GapStay | GapEnter | GapUpdate | GapResume

text \<open>The action and \<open>nextGap\<close>.\<close>

definition decideGapTransition :: "u8 \<Rightarrow> u8 \<Rightarrow> bool \<Rightarrow> GapAction \<times> u8" where
  "decideGapTransition currentGap lastNak gapPending =
     (if currentGap = PING_GAP_NO_GAP then
        (if lastNak \<noteq> PING_GAP_NO_GAP \<and> gapPending then (GapEnter, lastNak) else (GapStay, PING_GAP_NO_GAP))
      else if lastNak \<noteq> PING_GAP_NO_GAP \<and> lastNak \<noteq> currentGap then (GapUpdate, lastNak)
      else if \<not> gapPending then (GapResume, PING_GAP_NO_GAP)
      else (GapStay, currentGap))"

subsection \<open>Payloads\<close>

definition pingPickMsgSizeClamped :: "(int \<Rightarrow> int) \<Rightarrow> int \<Rightarrow> int \<Rightarrow> int \<Rightarrow> int \<Rightarrow> int" where
  "pingPickMsgSizeClamped rnd maxSeqSize liveCap randomMinBytes randomMaxBytes =
     (let cap0 = maxSeqSize; cap1 = (if randomMaxBytes < cap0 then randomMaxBytes else cap0);
          cap = (if liveCap < cap1 then liveCap else cap1);
          minSize = (if randomMinBytes > cap then cap else randomMinBytes);
          span0 = cap - minSize + 1; span = (if span0 < 1 then 1 else span0) in
      minSize + rnd span)"

definition HEX_DIGITS :: string where "HEX_DIGITS = ''0123456789abcdefghijklmnopqrstuvwxyz''"

definition pingFillSequential :: "nat \<Rightarrow> bytes" where
  "pingFillSequential n = map (\<lambda>i. of_char (HEX_DIGITS ! (i mod 36))) [0..<n]"

definition pingFillRandom :: "(nat \<Rightarrow> int) \<Rightarrow> nat \<Rightarrow> bytes" where
  "pingFillRandom rnd n = map (\<lambda>i. word_of_int (rnd i)) [0..<n]"

subsection \<open>The statistics line\<close>

record StatBaseline =
  sb_tMs :: u32
  sb_lastTx :: u64
  sb_lastRx :: u64
  sb_lastLinkDropped :: u64
  sb_lastAppDropped :: u64

definition statBaseline_init :: StatBaseline where
  "statBaseline_init = \<lparr>sb_tMs = 0, sb_lastTx = 0, sb_lastRx = 0, sb_lastLinkDropped = 0, sb_lastAppDropped = -1\<rparr>"

definition resetStatBaseline :: "StatBaseline \<Rightarrow> StatBaseline" where
  "resetStatBaseline b = b\<lparr>sb_lastTx := 0, sb_lastRx := 0, sb_tMs := 0\<rparr>"

fun reasonCode :: "SendMsgReason \<Rightarrow> int" where
  "reasonCode SmOk = 0"
| "reasonCode SmNotOk = 1"
| "reasonCode SmPostLockQuiet = 2"
| "reasonCode SmGbnWindowFull = 3"
| "reasonCode SmPoolExhaust = 4"
| "reasonCode SmLengthInvalid = 5"
| "reasonCode SmLengthZero = 6"
| "reasonCode SmChunksOverflow = 7"
| "reasonCode SmSyncMidMessageTimeout = 8"
| "reasonCode SmRateLimited = 9"
| "reasonCode SmTxRingStall = 10"
| "reasonCode SmNone = 11"

definition sendReasonName :: "int \<Rightarrow> string" where
  "sendReasonName r =
     (if r = 0 then ''Ok'' else if r = 1 then ''NotOk'' else if r = 2 then ''PostLockQuiet''
      else if r = 3 then ''GbnWindowFull'' else if r = 4 then ''PoolExhaust'' else if r = 5 then ''LengthInvalid''
      else if r = 6 then ''LengthZero'' else if r = 7 then ''ChunksOverflow''
      else if r = 8 then ''SyncMidMessageTimeout'' else if r = 9 then ''RateLimited''
      else if r = 10 then ''TxRingStall'' else ''?'')"

datatype DropWarning = NoWarning | LinkSideOnly u64 | AppSideOnly u64

record AppStateLog =
  as_gapStopped :: bool
  as_gapMissingSeq :: u8
  as_paused :: bool
  as_lastSendMsgReason :: int

definition appStateLog_init :: AppStateLog where
  "appStateLog_init = \<lparr>as_gapStopped = False, as_gapMissingSeq = 0xFF, as_paused = False, as_lastSendMsgReason = 0\<rparr>"

text \<open>What a statistics line computes, beside the counters it copies.\<close>

record StatLine =
  ln_warning :: DropWarning
  ln_txRate :: u64
  ln_rxRate :: u64
  ln_reason :: string

definition logStats :: "u32 \<Rightarrow> Stats \<Rightarrow> u64 \<Rightarrow> AppStateLog \<Rightarrow> StatBaseline \<Rightarrow> StatLine option \<times> StatBaseline" where
  "logStats now s appDropped app b =
     (if now - sb_tMs b < 5000 then (None, b)
      else if st_tx s < sb_lastTx b \<or> st_rx s < sb_lastRx b
      then (None, b\<lparr>sb_lastTx := st_tx s, sb_lastRx := st_rx s, sb_tMs := now\<rparr>)
      else
        let linkDelta = st_droppedChunksOnReset s - sb_lastLinkDropped b;
            appDelta = appDropped - sb_lastAppDropped b;
            w = (if sb_lastAppDropped b \<noteq> -1 then
                   if linkDelta > 0 \<and> appDelta = 0 then LinkSideOnly linkDelta
                   else if appDelta > 0 \<and> linkDelta = 0 then AppSideOnly appDelta else NoWarning
                 else NoWarning);
            dt = now - sb_tMs b in
        (Some \<lparr>ln_warning = w,
           ln_txRate = (if dt \<noteq> 0 then (st_tx s - sb_lastTx b) * 1000 div ucast dt else 0),
           ln_rxRate = (if dt \<noteq> 0 then (st_rx s - sb_lastRx b) * 1000 div ucast dt else 0),
           ln_reason = sendReasonName (as_lastSendMsgReason app)\<rparr>,
         b\<lparr>sb_lastLinkDropped := st_droppedChunksOnReset s, sb_lastAppDropped := appDropped,
           sb_lastTx := st_tx s, sb_lastRx := st_rx s, sb_tMs := now\<rparr>))"

subsection \<open>Sizes that fit\<close>

lemma pick_bounds:
  assumes rnd: "\<And>n. 0 < n \<Longrightarrow> 0 \<le> rnd n \<and> rnd n < n"
    and "1 \<le> maxSeqSize" "1 \<le> liveCap" "1 \<le> randomMinBytes" "1 \<le> randomMaxBytes"
  shows "1 \<le> pingPickMsgSizeClamped rnd maxSeqSize liveCap randomMinBytes randomMaxBytes"
    and "pingPickMsgSizeClamped rnd maxSeqSize liveCap randomMinBytes randomMaxBytes \<le> min maxSeqSize (min randomMaxBytes liveCap)"
proof -
  define cap where "cap = min maxSeqSize (min randomMaxBytes liveCap)"
  define minSize where "minSize = min randomMinBytes cap"
  have eq: "pingPickMsgSizeClamped rnd maxSeqSize liveCap randomMinBytes randomMaxBytes = minSize + rnd (cap - minSize + 1)"
    by (simp add: pingPickMsgSizeClamped_def Let_def cap_def minSize_def min_def)
  have "1 \<le> cap" using assms(2-5) by (simp add: cap_def)
  moreover have "minSize \<le> cap" unfolding minSize_def by (rule min.cobounded2)
  moreover have "1 \<le> minSize" using assms(4) \<open>1 \<le> cap\<close> by (simp add: minSize_def)
  moreover have "0 \<le> rnd (cap - minSize + 1) \<and> rnd (cap - minSize + 1) < cap - minSize + 1"
    using rnd [of "cap - minSize + 1"] \<open>minSize \<le> cap\<close> by simp
  ultimately show "1 \<le> pingPickMsgSizeClamped rnd maxSeqSize liveCap randomMinBytes randomMaxBytes"
    "pingPickMsgSizeClamped rnd maxSeqSize liveCap randomMinBytes randomMaxBytes \<le> min maxSeqSize (min randomMaxBytes liveCap)"
    unfolding eq cap_def [symmetric] by linarith+
qed

lemma fill_lengths: "length (pingFillSequential n) = n" "length (pingFillRandom r n) = n"
  by (simp_all add: pingFillSequential_def pingFillRandom_def)

end
