(* ===== verification/Ping.thy ===== *)
theory Ping
  imports PingGap "HOL-Library.Monad_Syntax"
begin

text \<open>
  The ping-pong application on the link (\<open>pingpong/Ping.h\<close>, \<open>pingpong/Pong.h\<close>): \<open>Ping\<close> sends messages
  while the window has room and counts those the link reports as acknowledged; \<open>Pong\<close> reads
  and throws away.

  The other tasks run whenever the loop makes a call: on the link, on the log, on the LED. For \<open>Pong\<close> they
  can only change the link: a pass takes a list with one entry per call, whose first function is what they did
  before the call and whose rest are the windows inside it (for \<open>sendMsg\<close>). For \<open>Ping\<close> an entry also has what
  the task of the HTTP server did to the Ping itself meanwhile, through the hooks that \<open>installWebHooks\<close> hands it: the
  loop sees it when the call returns. A list that runs out gives \<open>None\<close>. The statements between two
  calls are one step, and a plain read that follows a call at once (\<open>ready()\<close> and the reason after a refusal,
  \<open>millis()\<close>) sees the state that call left. The clock \<open>millis()\<close> is the link's. The 10 ms pauses
  are left out; \<open>random(n)\<close> is an argument, with the number of the draw.
\<close>

subsection \<open>Calls on the link\<close>

type_synonym io = "windows list"

definition enter :: "windows \<Rightarrow> Link \<Rightarrow> Link" where
  "enter ws l = (case ws of [] \<Rightarrow> l | w # _ \<Rightarrow> w l)"

fun tick :: "io \<Rightarrow> Link \<Rightarrow> (Link \<times> io) option" where
  "tick [] l = None"
| "tick (ws # io) l = Some (enter ws l, io)"

definition BUF_SIZE :: int where "BUF_SIZE = int AUTOLINK_DEFAULT_MAX_MSG"
definition MAX_TX_PER_LOOP :: nat where "MAX_TX_PER_LOOP = 16"

fun io_recv :: "io \<Rightarrow> Link \<Rightarrow> (int \<times> Link \<times> io) option" where
  "io_recv [] l = None"
| "io_recv (ws # io) l = map_option (\<lambda>(n, _, l1). (n, l1, io)) (al_recv BUF_SIZE (enter ws l))"

fun io_send :: "bytes \<Rightarrow> int \<Rightarrow> io \<Rightarrow> Link \<Rightarrow> (bool \<times> u8 \<times> Link \<times> io) option" where
  "io_send b n [] l = None"
| "io_send b n (ws # io) l = map_option (\<lambda>(ok, s, l1). (ok, s, l1, io)) (al_sendMsg b n (tl ws) (enter ws l))"

text \<open>\<open>while ((got = recv(...)) > 0)\<close>: the number of messages and the last answer.\<close>

fun drain_rx :: "io \<Rightarrow> Link \<Rightarrow> (nat \<times> int \<times> Link \<times> io) option" where
  "drain_rx [] l = None"
| "drain_rx (ws # io) l =
     (case al_recv BUF_SIZE (enter ws l) of
        None \<Rightarrow> None
      | Some (n, _, l1) \<Rightarrow>
          if n > 0 then map_option (\<lambda>(k, m, l2, io2). (Suc k, m, l2, io2)) (drain_rx io l1)
          else Some (0, n, l1, io))"

subsection \<open>The state of a Ping\<close>

datatype FillMode = SEQUENTIAL | RANDOM

definition WINDOW :: nat where "WINDOW = nat AUTOLINK_ARQ_PIPELINE_WINDOW"
definition STALL_MS :: u32 where "STALL_MS = 10000"
definition SETTLE_MS :: u32 where "SETTLE_MS = AUTOLINK_APP_SETTLE_MS"
definition GAP_STOP_FORCE_RESUME_MS :: u32 where "GAP_STOP_FORCE_RESUME_MS = 5000"
definition RANDOM_MIN_BYTES :: int where "RANDOM_MIN_BYTES = 1"
definition RANDOM_MAX_BYTES :: int where "RANDOM_MAX_BYTES = maxLenForChunkBudget (AUTOLINK_ARQ_PIPELINE_WINDOW div 2)"
definition BACKPRESSURE_COOLDOWN_MS :: u32 where "BACKPRESSURE_COOLDOWN_MS = 1000"

record Slot =
  sl_len :: int
  sl_crc :: u16
  sl_seq :: u8

record Ping =
  pg_queue :: "nat \<Rightarrow> Slot"
  pg_head :: nat
  pg_tail :: nat
  pg_count :: int
  pg_tStall :: u32
  pg_tReady :: u32
  pg_tSweepStall :: u32
  pg_tNotReady :: u32
  pg_tNextSendMs :: u32
  pg_backpressureCoolUntilMs :: u32
  pg_consecTransient :: u32
  pg_havePendingDraw :: bool
  pg_pendingDrawLen :: int
  pg_pendingDrawCrc :: u16
  pg_gapSeq :: u8
  pg_lastSeq :: u8
  pg_tGapStopMs :: u32
  pg_seqSize :: int
  pg_maxSeqSize :: int
  pg_successEchoCount :: u64
  pg_mismatchCount :: u64
  pg_sendBuf :: bytes
  pg_stat :: StatBaseline
  pg_fillMode :: FillMode
  pg_paused :: bool
  pg_wasReady :: bool
  pg_draws :: nat

definition ping_init :: Ping where
  "ping_init =
     \<lparr>pg_queue = (\<lambda>_. \<lparr>sl_len = 0, sl_crc = 0, sl_seq = 0\<rparr>), pg_head = 0, pg_tail = 0, pg_count = 0,
      pg_tStall = 0, pg_tReady = 0, pg_tSweepStall = 0, pg_tNotReady = 0, pg_tNextSendMs = 0,
      pg_backpressureCoolUntilMs = 0, pg_consecTransient = 0, pg_havePendingDraw = False,
      pg_pendingDrawLen = 0, pg_pendingDrawCrc = 0, pg_gapSeq = PING_GAP_NO_GAP, pg_lastSeq = 0,
      pg_tGapStopMs = 0, pg_seqSize = 1, pg_maxSeqSize = BUF_SIZE, pg_successEchoCount = 0,
      pg_mismatchCount = 0, pg_sendBuf = [], pg_stat = statBaseline_init, pg_fillMode = SEQUENTIAL,
      pg_paused = True, pg_wasReady = False, pg_draws = 0\<rparr>"

definition clearQueue :: "Ping \<Rightarrow> Ping" where
  "clearQueue p = p\<lparr>pg_head := 0, pg_tail := 0, pg_count := 0, pg_tStall := 0, pg_gapSeq := PING_GAP_NO_GAP,
     pg_tGapStopMs := 0, pg_havePendingDraw := False\<rparr>"

definition effWindow :: "Link \<Rightarrow> int" where
  "effWindow l = (if arqWindow l > 0 then arqWindow l else int WINDOW)"

text \<open>\<open>pickMsgSize_\<close>; \<open>rnd k n\<close> is the \<open>k\<close>-th \<open>random(n)\<close>.\<close>

definition pickMsgSize :: "(nat \<Rightarrow> int \<Rightarrow> int) \<Rightarrow> FillMode \<Rightarrow> Link \<Rightarrow> Ping \<Rightarrow> int \<times> Ping" where
  "pickMsgSize rnd m l p =
     (if m = SEQUENTIAL then (if pg_seqSize p < 1 then 1 else pg_seqSize p, p)
      else
        let cap0 = maxLenForFreeWindow (effWindow l) (arqPendingCount l);
            liveCap = (if cap0 < 1 then 1 else cap0) in
        (pingPickMsgSizeClamped (rnd (pg_draws p)) (pg_maxSeqSize p) liveCap RANDOM_MIN_BYTES RANDOM_MAX_BYTES,
         p\<lparr>pg_draws := pg_draws p + 1\<rparr>))"

definition fillBuf :: "(nat \<Rightarrow> int \<Rightarrow> int) \<Rightarrow> FillMode \<Rightarrow> nat \<Rightarrow> Ping \<Rightarrow> bytes \<times> Ping" where
  "fillBuf rnd m n p =
     (if m = SEQUENTIAL then (pingFillSequential n, p)
      else (pingFillRandom (\<lambda>i. rnd (pg_draws p + i) 256) n, p\<lparr>pg_draws := pg_draws p + n\<rparr>))"

subsection \<open>The controls, and calls during which they come in\<close>

definition ping_setFillMode :: "FillMode \<Rightarrow> Ping \<Rightarrow> Ping" where
  "ping_setFillMode m p =
     (let p1 = p\<lparr>pg_fillMode := m\<rparr> in if m = SEQUENTIAL then p1\<lparr>pg_seqSize := 1\<rparr> else p1)"

definition ping_setPaused :: "bool \<Rightarrow> Ping \<Rightarrow> Link \<Rightarrow> Ping \<times> Link" where
  "ping_setPaused b p l =
     (let p1 = p\<lparr>pg_paused := b\<rparr>; l1 = setLinkPaused b l in
      if \<not> b then
        ((clearQueue p1)\<lparr>pg_stat := resetStatBaseline (pg_stat p1), pg_tNextSendMs := 0, pg_gapSeq := PING_GAP_NO_GAP,
           pg_tGapStopMs := 0, pg_tSweepStall := l_now l1\<rparr>, kickoff l1)
      else (p1, l1))"

text \<open>The pieces of the controls, between their calls on the link, that change the Ping: \<open>setFillMode\<close>; the flag
  that \<open>setPaused\<close> sets; the restart of \<open>setPaused(false)\<close>.\<close>

datatype Hook = HookFill FillMode | HookPause bool | HookResume u32

fun hook_do :: "Hook \<Rightarrow> Ping \<Rightarrow> Ping" where
  "hook_do (HookFill m) p = ping_setFillMode m p"
| "hook_do (HookPause b) p = p\<lparr>pg_paused := b\<rparr>"
| "hook_do (HookResume now) p =
     (clearQueue p)\<lparr>pg_stat := resetStatBaseline (pg_stat p), pg_tNextSendMs := 0, pg_gapSeq := PING_GAP_NO_GAP,
        pg_tGapStopMs := 0, pg_tSweepStall := now\<rparr>"

lemma ping_setPaused_hooks:
  "fst (ping_setPaused b p l) = fold hook_do (HookPause b # (if b then [] else [HookResume (l_now (setLinkPaused b l))])) p"
  by (simp add: ping_setPaused_def clearQueue_def Let_def)

type_synonym pio = "(Hook list \<times> windows) list"

text \<open>Any call that leaves the link as the other tasks make it; \<open>recv\<close>; \<open>sendMsg\<close>.\<close>

fun pcall :: "pio \<Rightarrow> Ping \<Rightarrow> Link \<Rightarrow> (Ping \<times> Link \<times> pio) option" where
  "pcall [] p l = None"
| "pcall ((hs, ws) # io) p l = Some (fold hook_do hs p, enter ws l, io)"

fun precv :: "pio \<Rightarrow> Ping \<Rightarrow> Link \<Rightarrow> (int \<times> Ping \<times> Link \<times> pio) option" where
  "precv [] p l = None"
| "precv ((hs, ws) # io) p l = map_option (\<lambda>(n, _, l1). (n, fold hook_do hs p, l1, io)) (al_recv BUF_SIZE (enter ws l))"

fun psend :: "bytes \<Rightarrow> int \<Rightarrow> pio \<Rightarrow> Ping \<Rightarrow> Link \<Rightarrow> (bool \<times> u8 \<times> Ping \<times> Link \<times> pio) option" where
  "psend b n [] p l = None"
| "psend b n ((hs, ws) # io) p l =
     map_option (\<lambda>(ok, s, l1). (ok, s, fold hook_do hs p, l1, io)) (al_sendMsg b n (tl ws) (enter ws l))"

text \<open>\<open>while ((got = recv(...)) > 0)\<close>: the last answer.\<close>

fun pdrain :: "pio \<Rightarrow> Ping \<Rightarrow> Link \<Rightarrow> (int \<times> Ping \<times> Link \<times> pio) option" where
  "pdrain [] p l = None"
| "pdrain ((hs, ws) # io) p l =
     (case al_recv BUF_SIZE (enter ws l) of
        None \<Rightarrow> None
      | Some (n, _, l1) \<Rightarrow>
          if n > 0 then pdrain io (fold hook_do hs p) l1 else Some (n, fold hook_do hs p, l1, io))"

lemma pcall_length: "pcall io p l = Some (p1, l1, io1) \<Longrightarrow> length io1 < length io"
  by (cases "(io, p, l)" rule: pcall.cases) auto

subsection \<open>The pass when the link is not ready, and the first one when it is\<close>

text \<open>The call is the log line of a lost link.\<close>

definition ping_notReady :: "u32 \<Rightarrow> pio \<Rightarrow> Ping \<Rightarrow> Link \<Rightarrow> (Ping \<times> Link \<times> pio) option" where
  "ping_notReady now io p l =
     (if pg_wasReady p then
        do {
          (p1, l1, io1) \<leftarrow> pcall io p l;
          Some ((clearQueue (p1\<lparr>pg_wasReady := False\<rparr>))
            \<lparr>pg_consecTransient := 0, pg_tSweepStall := now, pg_gapSeq := pg_lastSeq p1 + 1, pg_tGapStopMs := 0,
             pg_backpressureCoolUntilMs := 0, pg_stat := resetStatBaseline (pg_stat p1)\<rparr>, l1, io1)
        }
      else Some (if now - pg_tNotReady p \<ge> 1000 then p\<lparr>pg_tNotReady := now\<rparr> else p, l, io))"

text \<open>\<open>flushRx\<close>, the stale messages, the LED.\<close>

definition ping_firstReady :: "u32 \<Rightarrow> pio \<Rightarrow> Ping \<Rightarrow> Link \<Rightarrow> (Ping \<times> Link \<times> pio) option" where
  "ping_firstReady now io p l =
     (if pg_wasReady p then Some (p, l, io)
      else do {
        (p1, l1, io1) \<leftarrow> pcall io p l;
        (_, p2, l2, io2) \<leftarrow> pdrain io1 p1 (flushRx l1);
        (p3, l3, io3) \<leftarrow> pcall io2 p2 l2;
        Some (p3\<lparr>pg_tReady := now, pg_wasReady := True, pg_consecTransient := 0, pg_gapSeq := PING_GAP_NO_GAP,
          pg_tGapStopMs := 0, pg_backpressureCoolUntilMs := 0\<rparr>, l3, io3)
      })"

text \<open>The calls are the log line and \<open>flushRx\<close>.\<close>

definition ping_stall :: "u32 \<Rightarrow> pio \<Rightarrow> Ping \<Rightarrow> Link \<Rightarrow> (Ping \<times> Link \<times> pio) option" where
  "ping_stall now io p l =
     (if pg_count p = int WINDOW then
        let p1 = (if pg_tStall p = 0 then p\<lparr>pg_tStall := now\<rparr> else p) in
        if now - pg_tStall p1 > STALL_MS then
          do {
            (p2, l2, io2) \<leftarrow> pcall io p1 l;
            (p3, l3, io3) \<leftarrow> pcall io2 (clearQueue p2) l2;
            Some (p3\<lparr>pg_consecTransient := pg_consecTransient p3 + 1\<rparr>, flushRx l3, io3)
          }
        else Some (p1, l, io)
      else Some (p\<lparr>pg_tStall := 0\<rparr>, l, io))"

subsection \<open>The gap stop\<close>

text \<open>The next \<open>gapSeq_\<close> and \<open>tGapStopMs_\<close>, when nothing comes in between.\<close>

definition gap_step :: "u32 \<Rightarrow> Link \<Rightarrow> u8 \<Rightarrow> u32 \<Rightarrow> u8 \<times> u32" where
  "gap_step now l gap tStop =
     (let lastNak = lastNakSeq l;
          gapCand = (if gap = PING_GAP_NO_GAP then lastNak else gap);
          gapPending = (gapCand \<noteq> PING_GAP_NO_GAP \<and> \<not> isAcked gapCand l) in
      case decideGapTransition gap lastNak gapPending of
        (a0, next0) \<Rightarrow>
          let stale = ((a0 = GapEnter \<or> a0 = GapUpdate) \<and> next0 \<noteq> PING_GAP_NO_GAP \<and> isAcked next0 l);
              a = (if stale then GapStay else a0); next1 = (if stale then gap else next0);
              t1 = (if a = GapEnter \<or> a = GapUpdate then now else if a = GapResume then 0 else tStop) in
          if gap \<noteq> PING_GAP_NO_GAP \<and> t1 \<noteq> 0 \<and> now - t1 > GAP_STOP_FORCE_RESUME_MS
          then (PING_GAP_NO_GAP, 0) else (next1, t1))"

definition ping_gap :: "u32 \<Rightarrow> Link \<Rightarrow> Ping \<Rightarrow> Ping" where
  "ping_gap now l p =
     (case gap_step now l (pg_gapSeq p) (pg_tGapStopMs p) of (g, t) \<Rightarrow> p\<lparr>pg_gapSeq := g, pg_tGapStopMs := t\<rparr>)"

text \<open>The same with its four calls: \<open>lastNakSeq\<close>, the two \<open>isAcked\<close>, the log line.\<close>

definition ping_gapRun :: "u32 \<Rightarrow> pio \<Rightarrow> Ping \<Rightarrow> Link \<Rightarrow> (Ping \<times> Link \<times> pio) option" where
  "ping_gapRun now io p l =
     do {
       (p1, l1, io1) \<leftarrow> pcall io p l;
       let lastNak = lastNakSeq l1;
       let gapCand = (if pg_gapSeq p1 = PING_GAP_NO_GAP then lastNak else pg_gapSeq p1);
       (p2, l2, io2) \<leftarrow> pcall io1 p1 l1;
       let d = decideGapTransition (pg_gapSeq p2) lastNak (gapCand \<noteq> PING_GAP_NO_GAP \<and> \<not> isAcked gapCand l2);
       (p3, l3, io3) \<leftarrow> pcall io2 p2 l2;
       let stale = ((fst d = GapEnter \<or> fst d = GapUpdate) \<and> snd d \<noteq> PING_GAP_NO_GAP \<and> isAcked (snd d) l3);
       let a = (if stale then GapStay else fst d);
       let next1 = (if stale then pg_gapSeq p3 else snd d);
       (p4, l4, io4) \<leftarrow> pcall io3 p3 l3;
       let t1 = (if a = GapEnter \<or> a = GapUpdate then now else if a = GapResume then 0 else pg_tGapStopMs p4);
       let forced = (pg_gapSeq p4 \<noteq> PING_GAP_NO_GAP \<and> t1 \<noteq> 0 \<and> now - t1 > GAP_STOP_FORCE_RESUME_MS);
       Some (p4\<lparr>pg_gapSeq := (if forced then PING_GAP_NO_GAP else next1), pg_tGapStopMs := (if forced then 0 else t1)\<rparr>, l4, io4)
     }"

lemma ping_gapRun_alone:
  "ping_gapRun now (replicate 4 ([], []) @ io) p l = Some (ping_gap now l p, l, io)"
proof -
  have call: "pcall (([], []) # io) p l = Some (p, l, io)" for io p l by (simp add: enter_def)
  have four: "replicate 4 ([], []) @ io = ([], []) # ([], []) # ([], []) # ([], []) # io" by (simp add: numeral_eq_Suc)
  show ?thesis
    unfolding ping_gapRun_def four call Option.bind.simps prod.case Let_def ping_gap_def gap_step_def split_beta
    by (simp only: call Option.bind.simps if_distrib [of fst] if_distrib [of snd] fst_conv snd_conv)
qed

subsection \<open>The acknowledged messages\<close>

text \<open>\<open>while (count_ > 0 && isAcked(queue_[head_].seq))\<close>. The second call is the log line, after which the
  body goes on with the head and the count it then finds.\<close>

definition ping_pop :: "Ping \<Rightarrow> Ping" where
  "ping_pop p = p\<lparr>pg_head := (pg_head p + 1) mod WINDOW, pg_count := pg_count p - 1\<rparr>"

function ping_reap :: "pio \<Rightarrow> Ping \<Rightarrow> Link \<Rightarrow> (Ping \<times> Link \<times> pio) option" where
  "ping_reap io p l =
     (if pg_count p \<le> 0 then Some (p, l, io)
      else
        (case pcall io p l of
           None \<Rightarrow> None
         | Some (p1, l1, io1) \<Rightarrow>
             if \<not> isAcked (sl_seq (pg_queue p (pg_head p))) l1 then Some (p1, l1, io1)
             else
               (case pcall io1 (p1\<lparr>pg_successEchoCount := pg_successEchoCount p1 + 1\<rparr>) l1 of
                  None \<Rightarrow> None
                | Some (p2, l2, io2) \<Rightarrow> ping_reap io2 (ping_pop p2) l2)))"
  by pat_completeness auto
termination
  by (relation "measure (\<lambda>(io, p, l). length io)") (auto dest!: pcall_length)

declare ping_reap.simps [simp del]

subsection \<open>The sends of a pass\<close>

definition ping_refused :: "int \<Rightarrow> u16 \<Rightarrow> Link \<Rightarrow> Ping \<Rightarrow> Ping" where
  "ping_refused n crc l p =
     (if lastSendMsgReason l \<noteq> SmGbnWindowFull
      then p\<lparr>pg_backpressureCoolUntilMs := l_now l + BACKPRESSURE_COOLDOWN_MS, pg_havePendingDraw := False\<rparr>
      else p\<lparr>pg_pendingDrawLen := n, pg_pendingDrawCrc := crc, pg_havePendingDraw := True\<rparr>)"

text \<open>What is written of the slot before the LED, and what behind it.\<close>

definition ping_slot :: "int \<Rightarrow> u16 \<Rightarrow> Ping \<Rightarrow> Ping" where
  "ping_slot n crc p =
     p\<lparr>pg_havePendingDraw := False,
       pg_queue := (pg_queue p)(pg_tail p := (pg_queue p (pg_tail p))\<lparr>sl_len := n, sl_crc := crc\<rparr>)\<rparr>"

definition ping_enqueue :: "u8 \<Rightarrow> Ping \<Rightarrow> Ping" where
  "ping_enqueue seq p =
     p\<lparr>pg_queue := (pg_queue p)(pg_tail p := (pg_queue p (pg_tail p))\<lparr>sl_seq := seq\<rparr>), pg_lastSeq := seq,
       pg_tail := (pg_tail p + 1) mod WINDOW, pg_count := pg_count p + 1, pg_consecTransient := 0\<rparr>"

definition ping_nextSize :: "Ping \<Rightarrow> Ping" where
  "ping_nextSize p =
     (if pg_fillMode p = SEQUENTIAL
      then p\<lparr>pg_seqSize := (if pg_seqSize p + 1 > pg_maxSeqSize p then 1 else pg_seqSize p + 1)\<rparr> else p)"

definition ping_sent :: "u8 \<Rightarrow> int \<Rightarrow> Link \<Rightarrow> Ping \<Rightarrow> Ping" where
  "ping_sent seq txDelay l p =
     (let p1 = ping_nextSize (ping_enqueue seq p) in
      if txDelay > 0 then p1\<lparr>pg_tNextSendMs := l_now l + u32_of_int txDelay\<rparr> else p1)"

definition neededChunks :: "Ping \<Rightarrow> int" where
  "neededChunks p =
     (if pg_havePendingDraw p then chunksForMsgLen (pg_pendingDrawLen p)
      else if pg_fillMode p = SEQUENTIAL then chunksForMsgLen (pg_seqSize p) else 1)"

text \<open>The held draw with its old bytes, or a new one: its length, its bytes and their CRC. Picking the size of
  a new one reads the link; the mode is read again for the bytes.\<close>

definition ping_draw :: "(nat \<Rightarrow> int \<Rightarrow> int) \<Rightarrow> pio \<Rightarrow> Ping \<Rightarrow> Link \<Rightarrow> (int \<times> u16 \<times> Ping \<times> Link \<times> pio) option" where
  "ping_draw rnd io p l =
     (if pg_havePendingDraw p then Some (pg_pendingDrawLen p, pg_pendingDrawCrc p, p, l, io)
      else do {
        (p1, l1, io1) \<leftarrow> pcall io p l;
        (case pickMsgSize rnd (pg_fillMode p) l1 p1 of
           (n, p2) \<Rightarrow>
             (case fillBuf rnd (pg_fillMode p2) (nat n) p2 of
                (b, p3) \<Rightarrow> Some (n, crc16 b, p3\<lparr>pg_sendBuf := b @ drop (length b) (pg_sendBuf p3)\<rparr>, l1, io1)))
      })"

text \<open>The conditions that end the loop before the window is looked at: a full queue, the transmit delay,
  the cool-down after a refusal.\<close>

definition send_held :: "int \<Rightarrow> u32 \<Rightarrow> Ping \<Rightarrow> bool" where
  "send_held txDelay now p \<longleftrightarrow> \<not> pg_count p < int WINDOW \<or>
     txDelay > 0 \<and> i32_of_u32 (now - pg_tNextSendMs p) < 0 \<or>
     pg_backpressureCoolUntilMs p \<noteq> 0 \<and> i32_of_u32 (now - pg_backpressureCoolUntilMs p) < 0"

text \<open>The loop of at most \<open>k\<close> sends.\<close>

fun ping_sends :: "(nat \<Rightarrow> int \<Rightarrow> int) \<Rightarrow> nat \<Rightarrow> int \<Rightarrow> u32 \<Rightarrow> pio \<Rightarrow> Ping \<Rightarrow> Link \<Rightarrow> (Ping \<times> Link \<times> pio) option" where
  "ping_sends rnd 0 txDelay now io p l = Some (p, l, io)"
| "ping_sends rnd (Suc k) txDelay now io p l =
     (if send_held txDelay now p then Some (p, l, io)
      else do {
        (p1, l1, io1) \<leftarrow> pcall io p l;
        if effWindow l1 - arqPendingCount l1 < neededChunks p1 then Some (p1, l1, io1)
        else do {
          (n, crc, p2, l2, io2) \<leftarrow> ping_draw rnd io1 p1 l1;
          (ok, seq, p3, l3, io3) \<leftarrow> psend (pg_sendBuf p2) n io2 p2 l2;
          if ok then do {
            (p4, l4, io4) \<leftarrow> pcall io3 (ping_slot n crc p3) l3;
            ping_sends rnd k txDelay now io4 (ping_sent seq txDelay l4 p4) l4
          }
          else if \<not> al_ready l3 then Some (p3, l3, io3)
          else do {
            (p4, l4, io4) \<leftarrow> pcall io3 p3 l3;
            Some (ping_refused n crc l4 p4, l4, io4)
          }
        }
      })"

subsection \<open>One pass\<close>

definition ping_stats :: "bool \<Rightarrow> u64 \<times> u64 \<times> u64 \<Rightarrow> Link \<Rightarrow> Ping \<Rightarrow> Ping" where
  "ping_stats gapStopped drv l p =
     (case drv of
        (ov, fe, ld) \<Rightarrow>
          let app = appStateLog_init\<lparr>as_gapStopped := gapStopped,
                as_gapMissingSeq := (if gapStopped then pg_gapSeq p else 0xFF), as_paused := pg_paused p,
                as_lastSendMsgReason := reasonCode (lastSendMsgReason l)\<rparr> in
          p\<lparr>pg_stat := snd (logStats (l_now l) (getStats ov fe ld l) 0 app (pg_stat p))\<rparr>)"

definition ping_gapStopped :: "u64 \<times> u64 \<times> u64 \<Rightarrow> pio \<Rightarrow> Ping \<Rightarrow> Link \<Rightarrow> (Ping \<times> Link \<times> pio) option" where
  "ping_gapStopped drv io p l =
     do {
       (_, p1, l1, io1) \<leftarrow> pdrain io p l;
       (p2, l2, io2) \<leftarrow> ping_reap io1 p1 l1;
       Some (ping_stats True drv l2 p2, l2, io2)
     }"

text \<open>After a message that was not one: the log line, \<open>clearQueue_\<close>, \<open>flushRx\<close>.\<close>

definition ping_mismatch :: "pio \<Rightarrow> Ping \<Rightarrow> Link \<Rightarrow> (Ping \<times> Link \<times> pio) option" where
  "ping_mismatch io p l =
     do {
       (p1, l1, io1) \<leftarrow> pcall io p l;
       (p2, l2, io2) \<leftarrow> pcall io1 (clearQueue (p1\<lparr>pg_mismatchCount := pg_mismatchCount p1 + 1\<rparr>)) l1;
       Some (p2\<lparr>pg_consecTransient := pg_consecTransient p2 + 1\<rparr>, flushRx l2, io2)
     }"

definition ping_active :: "(nat \<Rightarrow> int \<Rightarrow> int) \<Rightarrow> u64 \<times> u64 \<times> u64 \<Rightarrow> u32 \<Rightarrow> pio \<Rightarrow> Ping \<Rightarrow> Link \<Rightarrow> (Ping \<times> Link \<times> pio) option" where
  "ping_active rnd drv now io p l =
     (let maxTx = (if link_mode l = SYNC then 1 else MAX_TX_PER_LOOP); txDelay = txDelayMs l;
          p0 = (if txDelay > 0 \<and> pg_tNextSendMs p = 0 then p\<lparr>pg_tNextSendMs := now\<rparr> else p) in
      do {
        (p1, l1, io1) \<leftarrow> ping_sends rnd maxTx txDelay now io p0 l;
        (got, p2, l2, io2) \<leftarrow> pdrain io1 p1 l1;
        (p3, l3, io3) \<leftarrow> ping_reap io2 p2 l2;
        (p4, l4, io4) \<leftarrow> (if got < 0 then ping_mismatch io3 p3 l3 else Some (p3\<lparr>pg_consecTransient := 0\<rparr>, l3, io3));
        Some (ping_stats False drv l4 p4, l4, io4)
      })"

definition ping_loop :: "(nat \<Rightarrow> int \<Rightarrow> int) \<Rightarrow> u64 \<times> u64 \<times> u64 \<Rightarrow> pio \<Rightarrow> Ping \<Rightarrow> Link \<Rightarrow> (Ping \<times> Link \<times> pio) option" where
  "ping_loop rnd drv io p l =
     do {
       (p0, l0, io0) \<leftarrow> pcall io p l;
       let now = l_now l0;
       if \<not> al_ready l0 then ping_notReady now io0 p0 l0
       else do {
         (p1, l1, io1) \<leftarrow> ping_firstReady now io0 p0 l0;
         if now - pg_tReady p1 < SETTLE_MS then Some (p1, l1, io1)
         else do {
           (p2, l2, io2) \<leftarrow> ping_stall now io1 p1 l1;
           if pg_paused p2 then do { (_, p3, l3, io3) \<leftarrow> precv io2 p2 l2; Some (p3, l3, io3) }
           else do {
             (p3, l3, io3) \<leftarrow> ping_gapRun now io2 p2 l2;
             if pg_gapSeq p3 \<noteq> PING_GAP_NO_GAP then ping_gapStopped drv io3 p3 l3
             else ping_active rnd drv now io3 p3 l3
           }
         }
       }
     }"

subsection \<open>Start-up\<close>

text \<open>\<open>setup\<close>, after the serial port and the web monitor. The mode saved in flash (0xFF: none; \<open>None\<close>: the
  store cannot be opened) is restored before the link begins. \<open>healthy\<close> is the driver's
  \<open>isHealthy()\<close>; the code halts where the result is \<open>None\<close>.\<close>

definition bringUpLink :: "u8 option \<Rightarrow> bool \<Rightarrow> bool \<Rightarrow> Link \<Rightarrow> Link option" where
  "bringUpLink saved healthy prePaused l =
     (let l1 = (if prePaused then setLinkPaused True l else l);
          l2 = (case saved of
                  None \<Rightarrow> l1
                | Some m \<Rightarrow> if m \<noteq> 0xFF then setMode (if m = 0 then SYNC else ASYNC) l1 else l1) in
      case link_begin l2 of (ok, l3) \<Rightarrow> if \<not> ok \<or> \<not> healthy then None else Some l3)"

definition ping_setup :: "u8 option \<Rightarrow> bool \<Rightarrow> bool \<Rightarrow> Ping \<Rightarrow> Link \<Rightarrow> (Ping \<times> Link) option" where
  "ping_setup saved healthy monUp p l =
     map_option
       (\<lambda>l1. let p1 = p\<lparr>pg_maxSeqSize := int (maxMsg l1)\<rparr> in
          if \<not> monUp then (p1\<lparr>pg_paused := False\<rparr>, kickoff (setLinkPaused False l1)) else (p1, l1))
       (bringUpLink saved healthy (pg_paused p) l)"

subsection \<open>Pong\<close>

record Pong =
  pn_ackCount :: u64
  pn_tNotReady :: u32
  pn_tReady :: u32
  pn_stat :: StatBaseline
  pn_wasReady :: bool

definition pong_init :: Pong where
  "pong_init = \<lparr>pn_ackCount = 0, pn_tNotReady = 0, pn_tReady = 0, pn_stat = statBaseline_init, pn_wasReady = False\<rparr>"

definition pong_notReady :: "u32 \<Rightarrow> Pong \<Rightarrow> Pong" where
  "pong_notReady now p =
     (if pn_wasReady p then p\<lparr>pn_wasReady := False, pn_tNotReady := now, pn_stat := resetStatBaseline (pn_stat p)\<rparr>
      else if now - pn_tNotReady p \<ge> 1000 then p\<lparr>pn_tNotReady := now\<rparr> else p)"

definition pong_setup :: "u8 option \<Rightarrow> bool \<Rightarrow> Link \<Rightarrow> Link option" where
  "pong_setup saved healthy l = map_option kickoff (bringUpLink saved healthy False l)"

text \<open>\<open>while (recvThisLoop < maxAck && (n = recv(...)) > 0)\<close>\<close>

fun pong_recvs :: "nat \<Rightarrow> io \<Rightarrow> Pong \<Rightarrow> Link \<Rightarrow> (Pong \<times> Link \<times> io) option" where
  "pong_recvs 0 io p l = Some (p, l, io)"
| "pong_recvs (Suc k) io p l =
     do {
       (n, l1, io1) \<leftarrow> io_recv io l;
       if n > 0 then pong_recvs k io1 (p\<lparr>pn_ackCount := pn_ackCount p + 1\<rparr>) l1 else Some (p, l1, io1)
     }"

definition pong_loop :: "u64 \<times> u64 \<times> u64 \<Rightarrow> io \<Rightarrow> Pong \<Rightarrow> Link \<Rightarrow> (Pong \<times> Link \<times> io) option" where
  "pong_loop drv io p l =
     do {
       (l0, io0) \<leftarrow> tick io l;
       let now = l_now l0;
       if \<not> al_ready l0 then Some (pong_notReady now p, l0, io0)
       else if \<not> pn_wasReady p then Some (p\<lparr>pn_wasReady := True, pn_tReady := now\<rparr>, l0, io0)
       else if pn_tReady p \<noteq> 0 \<and> now - pn_tReady p < SETTLE_MS
       then do { (_, _, l1, io1) \<leftarrow> drain_rx io0 l0; Some (p, l1, io1) }
       else do {
         (p1, l1, io1) \<leftarrow>
           (if pn_tReady p \<noteq> 0
            then do { (_, _, l1, io1) \<leftarrow> drain_rx io0 l0; Some (p\<lparr>pn_tReady := 0\<rparr>, l1, io1) }
            else Some (p, l0, io0));
         (p2, l2, io2) \<leftarrow> pong_recvs (if link_mode l1 = SYNC then 1 else MAX_TX_PER_LOOP) io1 p1 l1;
         (case drv of
            (ov, fe, ld) \<Rightarrow>
              Some (p2\<lparr>pn_stat := snd (logStats (l_now l2) (getStats ov fe ld l2) 0
                 (appStateLog_init\<lparr>as_lastSendMsgReason := reasonCode (lastSendMsgReason l2)\<rparr>) (pn_stat p2))\<rparr>, l2, io2))
       }
     }"

subsection \<open>The queue of a Ping\<close>

text \<open>With \<open>lo\<close> the least count: -1 in general, 0 while no \<open>setPaused(false)\<close> comes in.\<close>

definition ping_inv :: "int \<Rightarrow> Ping \<Rightarrow> bool" where
  "ping_inv lo p \<longleftrightarrow> pg_head p < WINDOW \<and> lo \<le> pg_count p \<and> pg_count p \<le> int WINDOW \<and>
     int (pg_tail p) = (int (pg_head p) + pg_count p) mod int WINDOW \<and>
     1 \<le> pg_seqSize p \<and> pg_seqSize p \<le> pg_maxSeqSize p \<and> (pg_havePendingDraw p \<longrightarrow> 1 \<le> pg_pendingDrawLen p)"

definition rnd_ok :: "(nat \<Rightarrow> int \<Rightarrow> int) \<Rightarrow> bool" where
  "rnd_ok rnd \<longleftrightarrow> (\<forall>k n. 0 < n \<longrightarrow> 0 \<le> rnd k n \<and> rnd k n < n)"

definition no_resume :: "pio \<Rightarrow> bool" where
  "no_resume io \<longleftrightarrow> list_all (\<lambda>c. list_all (\<lambda>h. \<forall>now. h \<noteq> HookResume now) (fst c)) io"

definition calls_ok :: "int \<Rightarrow> pio \<Rightarrow> bool" where
  "calls_ok lo io \<longleftrightarrow> lo = -1 \<or> lo = 0 \<and> no_resume io"

text \<open>What every part of a pass keeps: the invariant, and the assumption for the calls that are left.\<close>

definition keeps_inv :: "int \<Rightarrow> (Ping \<times> Link \<times> pio) option \<Rightarrow> bool" where
  "keeps_inv lo r \<longleftrightarrow> (\<forall>p l io. r = Some (p, l, io) \<longrightarrow> ping_inv lo p \<and> calls_ok lo io)"

lemma keeps_invI: "(\<And>p l io. r = Some (p, l, io) \<Longrightarrow> ping_inv lo p \<and> calls_ok lo io) \<Longrightarrow> keeps_inv lo r"
  by (simp add: keeps_inv_def)

lemma keeps_invD: "keeps_inv lo r \<Longrightarrow> r = Some (p, l, io) \<Longrightarrow> ping_inv lo p \<and> calls_ok lo io"
  by (simp add: keeps_inv_def)

lemma keeps_inv_Some [simp]: "keeps_inv lo (Some (p, l, io)) \<longleftrightarrow> ping_inv lo p \<and> calls_ok lo io"
  by (simp add: keeps_inv_def)

lemma keeps_inv_bind:
  assumes "keeps_inv lo r" and "\<And>p l io. ping_inv lo p \<Longrightarrow> calls_ok lo io \<Longrightarrow> keeps_inv lo (f (p, l, io))"
  shows "keeps_inv lo (r \<bind> f)"
proof (cases r)
  case (Some x)
  obtain p l io where x: "x = (p, l, io)" by (cases x)
  then show ?thesis using assms(1) assms(2) [of p io l] Some by simp
qed (simp add: keeps_inv_def)

lemma WINDOW_eq: "WINDOW = 32"
  by (simp add: WINDOW_def wire_defs)

lemma random_cap: "1 \<le> RANDOM_MAX_BYTES"
  by (simp add: RANDOM_MAX_BYTES_def maxLenForChunkBudget_def wire_defs)

text \<open>Fields the invariant does not read.\<close>

lemma ping_inv_upd [simp]:
  "ping_inv lo (p\<lparr>pg_wasReady := a\<rparr>) = ping_inv lo p" "ping_inv lo (p\<lparr>pg_consecTransient := b\<rparr>) = ping_inv lo p"
  "ping_inv lo (p\<lparr>pg_tSweepStall := b\<rparr>) = ping_inv lo p" "ping_inv lo (p\<lparr>pg_gapSeq := c\<rparr>) = ping_inv lo p"
  "ping_inv lo (p\<lparr>pg_tGapStopMs := b\<rparr>) = ping_inv lo p" "ping_inv lo (p\<lparr>pg_backpressureCoolUntilMs := b\<rparr>) = ping_inv lo p"
  "ping_inv lo (p\<lparr>pg_stat := d\<rparr>) = ping_inv lo p" "ping_inv lo (p\<lparr>pg_tNotReady := b\<rparr>) = ping_inv lo p"
  "ping_inv lo (p\<lparr>pg_tReady := b\<rparr>) = ping_inv lo p" "ping_inv lo (p\<lparr>pg_tStall := b\<rparr>) = ping_inv lo p"
  "ping_inv lo (p\<lparr>pg_tNextSendMs := b\<rparr>) = ping_inv lo p" "ping_inv lo (p\<lparr>pg_successEchoCount := e\<rparr>) = ping_inv lo p"
  "ping_inv lo (p\<lparr>pg_mismatchCount := e\<rparr>) = ping_inv lo p" "ping_inv lo (p\<lparr>pg_paused := a\<rparr>) = ping_inv lo p"
  "ping_inv lo (p\<lparr>pg_sendBuf := f\<rparr>) = ping_inv lo p" "ping_inv lo (p\<lparr>pg_draws := g\<rparr>) = ping_inv lo p"
  "ping_inv lo (p\<lparr>pg_queue := q\<rparr>) = ping_inv lo p" "ping_inv lo (p\<lparr>pg_lastSeq := c\<rparr>) = ping_inv lo p"
  "ping_inv lo (p\<lparr>pg_fillMode := m\<rparr>) = ping_inv lo p"
  by (simp_all add: ping_inv_def)

lemma ping_inv_less: "ping_inv 0 p \<Longrightarrow> ping_inv (-1) p"
  by (simp add: ping_inv_def)

lemma ping_inv_clear: "ping_inv lo p \<Longrightarrow> lo \<le> 0 \<Longrightarrow> ping_inv lo (clearQueue p)"
  by (simp add: ping_inv_def clearQueue_def WINDOW_eq)

lemma calls_ok_lo: "calls_ok lo io \<Longrightarrow> lo \<le> 0"
  by (auto simp: calls_ok_def)

text \<open>The hooks keep the invariant, and leave the count alone or set it to zero.\<close>

lemma hook_inv: "ping_inv lo p \<Longrightarrow> lo \<le> 0 \<Longrightarrow> ping_inv lo (hook_do h p)"
proof (cases h)
  case (HookFill m)
  then show "ping_inv lo p \<Longrightarrow> lo \<le> 0 \<Longrightarrow> ping_inv lo (hook_do h p)"
    by (simp add: ping_setFillMode_def Let_def) (simp add: ping_inv_def)
qed (simp_all add: ping_inv_clear)

lemma hook_count:
  "pg_count (hook_do h p) = pg_count p \<or> pg_count (hook_do h p) = 0 \<and> (\<exists>now. h = HookResume now)"
  by (cases h) (simp_all add: ping_setFillMode_def clearQueue_def Let_def)

lemma hooks_inv: "ping_inv lo p \<Longrightarrow> lo \<le> 0 \<Longrightarrow> ping_inv lo (fold hook_do hs p)"
  by (induction hs arbitrary: p) (simp_all add: hook_inv)

lemma hooks_count:
  "pg_count (fold hook_do hs p) = pg_count p \<or>
    pg_count (fold hook_do hs p) = 0 \<and> \<not> list_all (\<lambda>h. \<forall>now. h \<noteq> HookResume now) hs"
proof (induction hs arbitrary: p)
  case (Cons h hs)
  show ?case using hook_count [of h p]
  proof
    assume "pg_count (hook_do h p) = pg_count p"
    then show ?thesis using Cons.IH [of "hook_do h p"] by auto
  next
    assume h: "pg_count (hook_do h p) = 0 \<and> (\<exists>now. h = HookResume now)"
    then have "\<not> list_all (\<lambda>h. \<forall>now. h \<noteq> HookResume now) (h # hs)" by auto
    then show ?thesis using Cons.IH [of "hook_do h p"] h by (metis fold_simps(2))
  qed
qed simp

lemma calls_ok_Cons: "calls_ok lo ((hs, ws) # io) \<Longrightarrow> calls_ok lo io"
  by (auto simp: calls_ok_def no_resume_def)

lemma pcall_inv:
  assumes "pcall io p l = Some (p1, l1, io1)" "ping_inv lo p" "calls_ok lo io"
  shows "ping_inv lo p1" "calls_ok lo io1" "pg_count p1 = pg_count p \<or> pg_count p1 = 0 \<and> lo = -1"
proof -
  obtain hs ws where io: "io = (hs, ws) # io1" "p1 = fold hook_do hs p"
    using assms(1) by (cases "(io, p, l)" rule: pcall.cases) auto
  show "ping_inv lo p1" "calls_ok lo io1"
    using hooks_inv [OF assms(2) calls_ok_lo [OF assms(3)]] calls_ok_Cons [of lo hs ws io1] assms(3) by (simp_all add: io)
  show "pg_count p1 = pg_count p \<or> pg_count p1 = 0 \<and> lo = -1"
    using hooks_count [of hs p] assms(3) by (auto simp: io calls_ok_def no_resume_def)
qed

lemma keeps_pcall: "ping_inv lo p \<Longrightarrow> calls_ok lo io \<Longrightarrow> keeps_inv lo (pcall io p l)"
  by (rule keeps_invI) (simp add: pcall_inv)

lemma pdrain_inv:
  "pdrain io p l = Some (n, p1, l1, io1) \<Longrightarrow> ping_inv lo p \<Longrightarrow> calls_ok lo io \<Longrightarrow> ping_inv lo p1 \<and> calls_ok lo io1"
proof (induction io p l rule: pdrain.induct)
  case (2 hs ws io p l)
  have p: "ping_inv lo (fold hook_do hs p)" "calls_ok lo io"
    using hooks_inv [OF 2(3) calls_ok_lo [OF 2(4)]] calls_ok_Cons [OF 2(4)] by simp_all
  obtain m b l2 where r: "al_recv BUF_SIZE (enter ws l) = Some (m, b, l2)" using 2(2) by (auto split: option.splits)
  show ?case
  proof (cases "m > 0")
    case True
    then show ?thesis using 2(1) [OF r refl refl True _ p] 2(2) r by simp
  next
    case False
    then show ?thesis using 2(2) r p by auto
  qed
qed simp

lemma precv_inv:
  "precv io p l = Some (n, p1, l1, io1) \<Longrightarrow> ping_inv lo p \<Longrightarrow> calls_ok lo io \<Longrightarrow> ping_inv lo p1 \<and> calls_ok lo io1"
  using hooks_inv calls_ok_lo calls_ok_Cons by (cases "(io, p, l)" rule: precv.cases) auto

lemma psend_inv:
  assumes "psend b n io p l = Some (ok, s, p1, l1, io1)" "ping_inv lo p" "calls_ok lo io"
  shows "ping_inv lo p1" "calls_ok lo io1" "pg_count p1 = pg_count p \<or> pg_count p1 = 0"
proof -
  obtain hs ws where io: "io = (hs, ws) # io1" "p1 = fold hook_do hs p"
    using assms(1) by (cases "(b, n, io, p, l)" rule: psend.cases) auto
  show "ping_inv lo p1" "calls_ok lo io1" "pg_count p1 = pg_count p \<or> pg_count p1 = 0"
    using hooks_inv [OF assms(2) calls_ok_lo [OF assms(3)]] calls_ok_Cons [of lo hs ws io1] hooks_count [of hs p] assms(3)
    by (auto simp: io)
qed

subsection \<open>Its parts keep the invariant\<close>

lemma pickMsgSize_pos:
  assumes "rnd_ok rnd" "ping_inv lo p" "pickMsgSize rnd m l p = (n, p1)"
  shows "1 \<le> n \<and> ping_inv lo p1 \<and> pg_count p1 = pg_count p"
proof (cases "m = SEQUENTIAL")
  case False
  define cap where "cap = (if maxLenForFreeWindow (effWindow l) (arqPendingCount l) < 1 then 1
    else maxLenForFreeWindow (effWindow l) (arqPendingCount l))"
  have "1 \<le> pingPickMsgSizeClamped (rnd (pg_draws p)) (pg_maxSeqSize p) cap RANDOM_MIN_BYTES RANDOM_MAX_BYTES"
  proof (rule pick_bounds(1))
    show "1 \<le> pg_maxSeqSize p" using assms(2) by (simp add: ping_inv_def)
    show "0 \<le> rnd (pg_draws p) n \<and> rnd (pg_draws p) n < n" if "0 < n" for n using assms(1) that by (simp add: rnd_ok_def)
  qed (simp_all add: cap_def RANDOM_MIN_BYTES_def random_cap)
  then show ?thesis using False assms(2,3) by (auto simp: pickMsgSize_def cap_def [symmetric] Let_def)
qed (use assms in \<open>auto simp: pickMsgSize_def\<close>)

lemma ping_draw_inv:
  assumes "rnd_ok rnd" "ping_inv lo p" "calls_ok lo io" "ping_draw rnd io p l = Some (n, crc, p1, l1, io1)"
  shows "1 \<le> n" "ping_inv lo p1" "calls_ok lo io1" "pg_count p1 = pg_count p \<or> pg_count p1 = 0"
proof -
  have "1 \<le> n \<and> ping_inv lo p1 \<and> calls_ok lo io1 \<and> (pg_count p1 = pg_count p \<or> pg_count p1 = 0)"
  proof (cases "pg_havePendingDraw p")
    case True
    then show ?thesis using assms by (auto simp: ping_draw_def ping_inv_def)
  next
    case False
    obtain p2 l2 io2 where c: "pcall io p l = Some (p2, l2, io2)"
      using assms(4) False by (auto simp: ping_draw_def split: Option.bind_splits)
    obtain k p3 where k: "pickMsgSize rnd (pg_fillMode p) l2 p2 = (k, p3)" by fastforce
    obtain b p4 where b: "fillBuf rnd (pg_fillMode p3) (nat k) p3 = (b, p4)" by fastforce
    have r: "n = k" "p1 = p4\<lparr>pg_sendBuf := b @ drop (length b) (pg_sendBuf p4)\<rparr>" "io1 = io2"
      using assms(4) False by (simp_all add: ping_draw_def c k b)
    have "ping_inv lo p4 = ping_inv lo p3" "pg_count p4 = pg_count p3" using b by (auto simp: fillBuf_def split: if_splits)
    then show ?thesis
      using pcall_inv [OF c assms(2,3)] pickMsgSize_pos [OF assms(1) _ k, of lo] by (auto simp: r)
  qed
  then show "1 \<le> n" "ping_inv lo p1" "calls_ok lo io1" "pg_count p1 = pg_count p \<or> pg_count p1 = 0" by simp_all
qed

lemma ping_slot_inv:
  assumes "ping_inv lo p"
  shows "ping_inv lo (ping_slot n crc p)" "pg_count (ping_slot n crc p) = pg_count p"
  using assms by (simp_all add: ping_slot_def ping_inv_def)

lemma ping_sent_inv:
  assumes "ping_inv lo p" "pg_count p < int WINDOW"
  shows "ping_inv lo (ping_sent s d l p)"
proof -
  have "(int (pg_tail p) + 1) mod 32 = (int (pg_head p) + pg_count p + 1) mod 32"
    using assms(1) by (simp add: ping_inv_def WINDOW_eq mod_add_left_eq)
  then have tail: "(int (pg_head p) + (pg_count p + 1)) mod 32 = (int (pg_tail p) + 1) mod 32" by (simp add: add.assoc)
  have "ping_inv lo (ping_enqueue s p)"
    using assms tail by (simp add: ping_inv_def ping_enqueue_def WINDOW_eq zmod_int add.commute [of 1])
  then have "ping_inv lo (ping_nextSize (ping_enqueue s p))"
    by (simp add: ping_nextSize_def) (simp add: ping_inv_def)
  then show ?thesis by (simp add: ping_sent_def Let_def)
qed

lemma ping_sends_inv:
  "rnd_ok rnd \<Longrightarrow> ping_inv lo p \<Longrightarrow> calls_ok lo io \<Longrightarrow> keeps_inv lo (ping_sends rnd k d now io p l)"
proof (induction k arbitrary: io p l)
  case (Suc k)
  show ?case
  proof (rule keeps_invI)
    fix p' l' io' assume run: "ping_sends rnd (Suc k) d now io p l = Some (p', l', io')"
    show "ping_inv lo p' \<and> calls_ok lo io'"
    proof (cases "send_held d now p")
      case True
      then show ?thesis using run Suc.prems by auto
    next
      case False
      then have room: "pg_count p < int WINDOW" by (simp add: send_held_def)
      obtain p1 l1 io1 where 1: "pcall io p l = Some (p1, l1, io1)"
        using run False by (auto split: Option.bind_splits)
      note i1 = pcall_inv [OF 1 Suc.prems(2,3)]
      show ?thesis
      proof (cases "effWindow l1 - arqPendingCount l1 < neededChunks p1")
        case True
        then show ?thesis using run False 1 i1 by auto
      next
        case gate: False
        obtain n crc p2 l2 io2 where 2: "ping_draw rnd io1 p1 l1 = Some (n, crc, p2, l2, io2)"
          using run False 1 gate by (auto split: Option.bind_splits)
        note i2 = ping_draw_inv [OF Suc.prems(1) i1(1,2) 2]
        obtain ok s p3 l3 io3 where 3: "psend (pg_sendBuf p2) n io2 p2 l2 = Some (ok, s, p3, l3, io3)"
          using run False 1 gate 2 by (auto split: Option.bind_splits)
        note i3 = psend_inv [OF 3 i2(2,3)]
        show ?thesis
        proof (cases ok)
          case True
          then obtain p4 l4 io4 where 4: "pcall io3 (ping_slot n crc p3) l3 = Some (p4, l4, io4)"
            using run False 1 gate 2 3 by (auto split: Option.bind_splits)
          note i4 = pcall_inv [OF 4 ping_slot_inv(1) [OF i3(1)] i3(2)]
          have "pg_count p4 < int WINDOW"
            using room i1(3) i2(4) i3(3) i4(3) ping_slot_inv(2) [OF i3(1)] by (auto simp: WINDOW_eq)
          then have "keeps_inv lo (ping_sends rnd k d now io4 (ping_sent s d l4 p4) l4)"
            by (intro Suc.IH Suc.prems(1) ping_sent_inv i4)
          then show ?thesis using run False 1 gate 2 3 4 True by (auto simp: keeps_inv_def)
        next
          case nok: False
          show ?thesis
          proof (cases "al_ready l3")
            case False
            then show ?thesis using run \<open>\<not> send_held d now p\<close> 1 gate 2 3 nok i3 by auto
          next
            case True
            then obtain p4 l4 io4 where 4: "pcall io3 p3 l3 = Some (p4, l4, io4)"
              using run False 1 gate 2 3 nok by (auto split: Option.bind_splits)
            note i4 = pcall_inv [OF 4 i3(1,2)]
            have "ping_inv lo (ping_refused n crc l4 p4)"
              using i4(1) i2(1) by (simp add: ping_refused_def) (simp add: ping_inv_def)
            then show ?thesis using run False 1 gate 2 3 nok True 4 i4(2) by auto
          qed
        qed
      qed
    qed
  qed
qed simp

lemma ping_pop_inv:
  assumes "ping_inv lo p" "lo + 1 \<le> pg_count p"
  shows "ping_inv lo (ping_pop p)"
proof -
  have "(int (Suc (pg_head p) mod 32) + (pg_count p - 1)) mod 32 = (int (pg_head p) + pg_count p) mod 32"
    by (simp add: zmod_int mod_simps)
  then show ?thesis using assms by (simp add: ping_inv_def ping_pop_def WINDOW_eq)
qed

lemma ping_reap_inv: "ping_inv lo p \<Longrightarrow> calls_ok lo io \<Longrightarrow> keeps_inv lo (ping_reap io p l)"
proof (induction io p l rule: ping_reap.induct)
  case (1 io p l)
  show ?case
  proof (rule keeps_invI)
    fix p' l' io' assume run: "ping_reap io p l = Some (p', l', io')"
    show "ping_inv lo p' \<and> calls_ok lo io'"
    proof (cases "pg_count p \<le> 0")
      case True
      then show ?thesis using run 1(2,3) by (simp add: ping_reap.simps [of io p l])
    next
      case cnt: False
      obtain p1 l1 io1 where c: "pcall io p l = Some (p1, l1, io1)"
        using run cnt by (auto simp: ping_reap.simps [of io p l] split: option.splits)
      note i1 = pcall_inv [OF c 1(2,3)]
      show ?thesis
      proof (cases "isAcked (sl_seq (pg_queue p (pg_head p))) l1")
        case False
        then show ?thesis using run cnt c i1 by (simp add: ping_reap.simps [of io p l])
      next
        case True
        obtain p2 l2 io2 where d: "pcall io1 (p1\<lparr>pg_successEchoCount := pg_successEchoCount p1 + 1\<rparr>) l1 = Some (p2, l2, io2)"
          using run cnt c True by (auto simp: ping_reap.simps [of io p l] split: option.splits)
        have i2: "ping_inv lo p2" "calls_ok lo io2" "pg_count p2 = pg_count p1 \<or> pg_count p2 = 0 \<and> lo = -1"
          using pcall_inv [OF d _ i1(2)] i1(1) by simp_all
        have "lo + 1 \<le> pg_count p2" using i2(3) i1(3) cnt calls_ok_lo [OF 1(3)] by auto
        then have "keeps_inv lo (ping_reap io2 (ping_pop p2) l2)"
          using 1(1) [OF cnt c refl refl _ d refl refl ping_pop_inv [OF i2(1)] i2(2)] True by simp
        then show ?thesis using run cnt c True d by (simp add: ping_reap.simps [of io p l] keeps_inv_def)
      qed
    qed
  qed
qed

lemma ping_notReady_inv: "ping_inv lo p \<Longrightarrow> calls_ok lo io \<Longrightarrow> keeps_inv lo (ping_notReady now io p l)"
  unfolding ping_notReady_def
  by (auto intro!: keeps_inv_bind keeps_pcall simp: ping_inv_clear calls_ok_lo)

lemma ping_firstReady_inv: "ping_inv lo p \<Longrightarrow> calls_ok lo io \<Longrightarrow> keeps_inv lo (ping_firstReady now io p l)"
proof (rule keeps_invI)
  fix p' l' io' assume p: "ping_inv lo p" "calls_ok lo io" and run: "ping_firstReady now io p l = Some (p', l', io')"
  show "ping_inv lo p' \<and> calls_ok lo io'"
  proof (cases "pg_wasReady p")
    case False
    then obtain p1 l1 io1 n p2 l2 io2 p3 l3 io3 where
      c: "pcall io p l = Some (p1, l1, io1)" "pdrain io1 p1 (flushRx l1) = Some (n, p2, l2, io2)" "pcall io2 p2 l2 = Some (p3, l3, io3)"
      and r: "ping_inv lo p' = ping_inv lo p3" "io' = io3"
      using run by (auto simp: ping_firstReady_def split: Option.bind_splits)
    show ?thesis using pcall_inv [OF c(1) p] pdrain_inv [OF c(2)] pcall_inv [OF c(3)] by (simp add: r)
  qed (use p run in \<open>simp add: ping_firstReady_def\<close>)
qed

lemma ping_stall_inv: "ping_inv lo p \<Longrightarrow> calls_ok lo io \<Longrightarrow> keeps_inv lo (ping_stall now io p l)"
  unfolding ping_stall_def Let_def
  by (auto intro!: keeps_inv_bind keeps_pcall simp: ping_inv_clear calls_ok_lo)

lemma ping_gapRun_inv: "ping_inv lo p \<Longrightarrow> calls_ok lo io \<Longrightarrow> keeps_inv lo (ping_gapRun now io p l)"
  unfolding ping_gapRun_def Let_def
  by (auto intro!: keeps_inv_bind keeps_pcall)

lemma ping_stats_inv: "ping_inv lo (ping_stats g drv l p) = ping_inv lo p" "pg_count (ping_stats g drv l p) = pg_count p"
  by (cases drv, simp add: ping_stats_def Let_def)+

lemma ping_gapStopped_inv:
  assumes "ping_inv lo p" "calls_ok lo io"
  shows "keeps_inv lo (ping_gapStopped drv io p l)"
proof (rule keeps_invI)
  fix p' l' io' assume "ping_gapStopped drv io p l = Some (p', l', io')"
  then obtain n p1 l1 io1 p2 where
    c: "pdrain io p l = Some (n, p1, l1, io1)" "ping_reap io1 p1 l1 = Some (p2, l', io')" "p' = ping_stats True drv l' p2"
    by (auto simp: ping_gapStopped_def split: Option.bind_splits)
  show "ping_inv lo p' \<and> calls_ok lo io'"
    using pdrain_inv [OF c(1) assms] keeps_invD [OF ping_reap_inv c(2)] by (simp add: c(3) ping_stats_inv)
qed

lemma ping_mismatch_inv: "ping_inv lo p \<Longrightarrow> calls_ok lo io \<Longrightarrow> keeps_inv lo (ping_mismatch io p l)"
  unfolding ping_mismatch_def
  by (auto intro!: keeps_inv_bind keeps_pcall simp: ping_inv_clear calls_ok_lo)

lemma ping_active_inv:
  assumes "rnd_ok rnd" "ping_inv lo p" "calls_ok lo io"
  shows "keeps_inv lo (ping_active rnd drv now io p l)"
proof (rule keeps_invI)
  fix p' l' io' assume run: "ping_active rnd drv now io p l = Some (p', l', io')"
  define p0 where "p0 = (if txDelayMs l > 0 \<and> pg_tNextSendMs p = 0 then p\<lparr>pg_tNextSendMs := now\<rparr> else p)"
  have p0: "ping_inv lo p0" using assms(2) by (simp add: p0_def)
  obtain p1 l1 io1 got p2 l2 io2 p3 l3 io3 p4 where
    c: "ping_sends rnd (if link_mode l = SYNC then 1 else MAX_TX_PER_LOOP) (txDelayMs l) now io p0 l = Some (p1, l1, io1)"
      "pdrain io1 p1 l1 = Some (got, p2, l2, io2)" "ping_reap io2 p2 l2 = Some (p3, l3, io3)"
      "(if got < 0 then ping_mismatch io3 p3 l3 else Some (p3\<lparr>pg_consecTransient := 0\<rparr>, l3, io3)) = Some (p4, l', io')"
      "p' = ping_stats False drv l' p4"
    using run unfolding ping_active_def Let_def p0_def [symmetric] by (fastforce split: Option.bind_splits)
  note i1 = keeps_invD [OF ping_sends_inv [OF assms(1) p0 assms(3)] c(1)]
  note i2 = pdrain_inv [OF c(2), of lo]
  note i3 = keeps_invD [OF ping_reap_inv c(3), of lo]
  have "ping_inv lo p4 \<and> calls_ok lo io'"
    using keeps_invD [OF ping_mismatch_inv, of lo p3 io3 l3 p4 l' io'] c(4) i1 i2 i3 by (auto split: if_splits)
  then show "ping_inv lo p' \<and> calls_ok lo io'" by (simp add: c(5) ping_stats_inv)
qed

lemma keeps_precv: "ping_inv lo p \<Longrightarrow> calls_ok lo io \<Longrightarrow> keeps_inv lo (precv io p l \<bind> (\<lambda>(_, r). Some r))"
  by (cases "precv io p l") (auto simp: keeps_inv_def dest: precv_inv)

lemma ping_loop_inv:
  assumes rnd: "rnd_ok rnd" and p: "ping_inv lo p" "calls_ok lo io"
  shows "keeps_inv lo (ping_loop rnd drv io p l)"
proof -
  have late: "keeps_inv lo
      (do {
         (p2, l2, io2) \<leftarrow> ping_stall now io p l;
         if pg_paused p2 then do { (_, p3, l3, io3) \<leftarrow> precv io2 p2 l2; Some (p3, l3, io3) }
         else do {
           (p3, l3, io3) \<leftarrow> ping_gapRun now io2 p2 l2;
           if pg_gapSeq p3 \<noteq> PING_GAP_NO_GAP then ping_gapStopped drv io3 p3 l3
           else ping_active rnd drv now io3 p3 l3
         }
       })" if "ping_inv lo p" "calls_ok lo io" for now io p l
    by (intro keeps_inv_bind [OF ping_stall_inv [OF that]])
      (simp add: keeps_precv keeps_inv_bind [OF ping_gapRun_inv] ping_gapStopped_inv ping_active_inv [OF rnd])
  show ?thesis
    unfolding ping_loop_def Let_def
    by (intro keeps_inv_bind [OF keeps_pcall [OF p]])
      (simp add: ping_notReady_inv keeps_inv_bind [OF ping_firstReady_inv] late)
qed

end
