(* ===== verification/WebLog.thy ===== *)
theory WebLog
  imports AlPrelude
begin

text \<open>
  The log of the web monitor: the ring the log sink fills (\<open>logSinkCb\<close>,
  \<open>web/handlers/AutoLinkWebHttpd.cpp\<close>), the page \<open>/logs\<close> (\<open>handleLogs\<close>,
  \<open>web/handlers/AutoLinkWebHandlersData.cpp\<close>) and the same page formatted into a buffer
  (\<open>formatLogsJson\<close>, \<open>web/AutoLinkWebCore.cpp\<close>).

  A C string is a \<open>string\<close>; the wall clock and \<open>millis()\<close> are arguments. \<open>handleLogs\<close> gives the lock
  away between two lines, so it takes, for its \<open>k\<close>-th attempt to lock, what the other tasks logged
  before it and whether the lock was got in time.
\<close>

subsection \<open>Numbers\<close>

text \<open>\<open>%lu\<close>, \<open>%02lu\<close> and \<open>%03lu\<close>.\<close>

definition digit :: "nat \<Rightarrow> char" where
  "digit d = char_of (48 + d)"

fun dec :: "nat \<Rightarrow> string" where
  "dec n = (if n < 10 then [digit n] else dec (n div 10) @ [digit (n mod 10)])"

declare dec.simps [simp del]

definition pad :: "nat \<Rightarrow> nat \<Rightarrow> string" where
  "pad w n = replicate (w - length (dec n)) (CHR ''0'') @ dec n"

subsection \<open>The ring\<close>

definition WEB_RING_CAP :: nat where "WEB_RING_CAP = 200"
definition WEB_LINE_CAP :: nat where "WEB_LINE_CAP = 180"

record WebLogEntry =
  we_seq :: u32
  we_sev :: char
  we_line :: string

record WebLog =
  wl_ring :: "nat \<Rightarrow> WebLogEntry"
  wl_head :: u32
  wl_dropped :: u32
  wl_dropWarned :: bool
  wl_alloc :: bool
  wl_ntpSynced :: bool

definition web_entry_zero :: WebLogEntry where
  "web_entry_zero = \<lparr>we_seq = 0, we_sev = CHR 0x00, we_line = []\<rparr>"

definition web_log_new :: WebLog where
  "web_log_new = \<lparr>wl_ring = (\<lambda>_. web_entry_zero), wl_head = 0, wl_dropped = 0, wl_dropWarned = False,
     wl_alloc = True, wl_ntpSynced = False\<rparr>"

text \<open>The time stamp: wall-clock hours, minutes, seconds and milliseconds, or the uptime with a star.\<close>

definition uptime_stamp :: "u32 \<Rightarrow> string" where
  "uptime_stamp ms_total =
     (let s = unat ms_total div 1000 in
      take 15 (pad 2 (s div 3600) @ '':'' @ pad 2 (s mod 3600 div 60) @ '':'' @ pad 2 (s mod 60) @ ''.'' @
        pad 3 (unat ms_total mod 1000) @ ''*''))"

definition log_stamp :: "bool \<Rightarrow> (nat \<times> nat \<times> nat \<times> nat) option \<Rightarrow> u32 \<Rightarrow> string" where
  "log_stamp ntp tod ms_total =
     (if ntp then
        (case tod of
           Some (h, m, s, ms) \<Rightarrow> take 15 (pad 2 h @ '':'' @ pad 2 m @ '':'' @ pad 2 s @ ''.'' @ pad 3 ms)
         | None \<Rightarrow> uptime_stamp ms_total)
      else uptime_stamp ms_total)"

text \<open>One call of the sink: whether it got the lock, and what it was given.\<close>

record SinkCall =
  sc_lock :: bool
  sc_sev :: char
  sc_tag :: string
  sc_msg :: string
  sc_tod :: "(nat \<times> nat \<times> nat \<times> nat) option"
  sc_ms :: u32

definition sink_line :: "bool \<Rightarrow> SinkCall \<Rightarrow> string" where
  "sink_line ntp c =
     take 179 (log_stamp ntp (sc_tod c) (sc_ms c) @ '' '' @ [sc_sev c] @ '' '' @ sc_tag c @ '' '' @ sc_msg c)"

definition logSinkCb :: "SinkCall \<Rightarrow> WebLog \<Rightarrow> WebLog" where
  "logSinkCb c w =
     (if \<not> wl_alloc w then w
      else if \<not> sc_lock c then w\<lparr>wl_dropped := wl_dropped w + 1, wl_dropWarned := True\<rparr>
      else
        let idx = unat (wl_head w) mod WEB_RING_CAP in
        w\<lparr>wl_dropWarned := False,
          wl_ring := (wl_ring w)(idx := \<lparr>we_seq = wl_head w, we_sev = sc_sev c, we_line = sink_line (wl_ntpSynced w) c\<rparr>),
          wl_head := wl_head w + 1\<rparr>)"

definition log_calls :: "SinkCall list \<Rightarrow> WebLog \<Rightarrow> WebLog" where
  "log_calls cs w = fold logSinkCb cs w"

subsection \<open>JSON strings\<close>

definition esc_char :: "char \<Rightarrow> string" where
  "esc_char c =
     (if c = CHR 0x22 then [CHR 0x5C, CHR 0x22]
      else if c = CHR 0x5C then [CHR 0x5C, CHR 0x5C]
      else if c = CHR 0x0A then [CHR 0x5C, CHR ''n'']
      else if c = CHR 0x0D then [CHR 0x5C, CHR ''r'']
      else [c])"

text \<open>The loop over a line: it stops when fewer than four characters of the buffer are left.\<close>

fun esc_loop :: "nat \<Rightarrow> string \<Rightarrow> string \<Rightarrow> string" where
  "esc_loop cap out [] = out"
| "esc_loop cap out (c # cs) = (if length out + 4 < cap then esc_loop cap (out @ esc_char c) cs else out)"

definition QUOTE :: string where "QUOTE = [CHR 0x22]"

definition page_head :: "nat \<Rightarrow> nat \<Rightarrow> string" where
  "page_head head dropped =
     ''{'' @ QUOTE @ ''head'' @ QUOTE @ '':'' @ dec head @ '','' @ QUOTE @ ''dropped'' @ QUOTE @ '':'' @ dec dropped @ '','' @
     QUOTE @ ''lines'' @ QUOTE @ '':[''"

text \<open>The start of a line's object; \<open>handleLogs\<close> has a blank before \<open>"text"\<close>, \<open>formatLogsJson\<close> none.\<close>

definition line_head :: "string \<Rightarrow> nat \<Rightarrow> char \<Rightarrow> string" where
  "line_head blank i sev =
     ''{'' @ QUOTE @ ''seq'' @ QUOTE @ '':'' @ dec i @ '','' @ QUOTE @ ''sev'' @ QUOTE @ '':'' @ QUOTE @ [sev] @ QUOTE @
     '','' @ blank @ QUOTE @ ''text'' @ QUOTE @ '':'' @ QUOTE"

subsection \<open>The page \<open>/logs\<close>\<close>

text \<open>What is lost and where the page starts, for the client's last position.\<close>

definition page_ringStart :: "u32 \<Rightarrow> u32" where
  "page_ringStart head = (if head > 200 then head - 200 else 0)"

definition page_dropped :: "u32 \<Rightarrow> u32 \<Rightarrow> u32" where
  "page_dropped head since = (if since < page_ringStart head then page_ringStart head - since else 0)"

definition page_start :: "u32 \<Rightarrow> u32 \<Rightarrow> u32" where
  "page_start head since = (if since > page_ringStart head then since else page_ringStart head)"

definition line_chunk :: "nat \<Rightarrow> WebLogEntry \<Rightarrow> string" where
  "line_chunk i e = esc_loop 424 (line_head '' '' i (we_sev e)) (we_line e) @ QUOTE @ ''}''"

text \<open>What happens at the \<open>k\<close>-th attempt to lock: the calls of the sink since the last one, whether the
  lock was got within 50 ms; and whether the chunk sent after it was accepted.\<close>

record PageEnv =
  pe_calls :: "SinkCall list"
  pe_lock :: bool
  pe_sent :: bool

fun logs_loop :: "(nat \<Rightarrow> PageEnv) \<Rightarrow> nat \<Rightarrow> bool \<Rightarrow> nat list \<Rightarrow> WebLog \<Rightarrow> bool \<times> string list \<times> WebLog" where
  "logs_loop env k first [] w = (True, [], w)"
| "logs_loop env k first (i # is) w =
     (let w1 = log_calls (pe_calls (env k)) w; e = wl_ring w1 (i mod WEB_RING_CAP) in
      if \<not> (pe_lock (env k) \<and> we_seq e = of_nat i) then logs_loop env (k + 1) first is w1
      else
        let out = (if first then [] else ['','']) @ [line_chunk i e] in
        if \<not> pe_sent (env k) then (False, out, w1)
        else (case logs_loop env (k + 1) False is w1 of (ok, rest, w2) \<Rightarrow> (ok, out @ rest, w2)))"

text \<open>\<open>char head[48]\<close> cuts the head of the page at 47 characters.\<close>

definition handleLogs :: "(nat \<Rightarrow> PageEnv) \<Rightarrow> u32 \<Rightarrow> WebLog \<Rightarrow> bool \<times> string list \<times> WebLog" where
  "handleLogs env since w =
     (let w1 = log_calls (pe_calls (env 0)) w;
          total = (if pe_lock (env 0) then wl_head w1 else 0) in
      case logs_loop env 1 True [unat (page_start total since)..<unat total] w1 of
        (ok, chunks, w2) \<Rightarrow>
          (ok, take 47 (page_head (unat total) (unat (page_dropped total since))) # chunks @ (if ok then ['']}''] else []), w2))"

subsection \<open>The page in a buffer\<close>

text \<open>The result of the line loop: the text written so far.\<close>

fun format_loop :: "(nat \<Rightarrow> WebLogEntry) \<Rightarrow> nat \<Rightarrow> bool \<Rightarrow> nat list \<Rightarrow> string \<Rightarrow> string" where
  "format_loop ring outLen first [] out = out"
| "format_loop ring outLen first (i # is) out =
     (let e = ring (i mod WEB_RING_CAP) in
      if we_seq e \<noteq> of_nat i then format_loop ring outLen first is out
      else if \<not> first \<and> \<not> 1 < outLen - length out then out
      else
        let out1 = (if first then out else out @ '',''); hd = line_head [] i (we_sev e) in
        if \<not> length hd < outLen - length out1 then out1
        else
          let out2 = esc_loop outLen (out1 @ hd) (we_line e);
              out3 = (if length out2 + 2 < outLen then out2 @ QUOTE @ ''}'' else out2) in
          format_loop ring outLen False is out3)"

text \<open>The text in the buffer and the returned length; \<open>snprintf\<close> returns the length it would need.\<close>

definition formatLogsJson :: "(nat \<Rightarrow> WebLogEntry) \<Rightarrow> u32 \<Rightarrow> u32 \<Rightarrow> nat \<Rightarrow> string \<times> nat" where
  "formatLogsJson ring head since outLen =
     (if outLen = 0 then ([], 0)
      else
        let h = page_head (unat head) (unat (page_dropped head since)) in
        if length h \<ge> outLen then (take (outLen - 1) h, length h)
        else
          let out = format_loop ring outLen True [unat (page_start head since)..<unat head] h in
          if 2 < outLen - length out then (out @ '']}'', length out + 2)
          else (out @ take (outLen - length out - 1) '']}'', length out))"

subsection \<open>Reading the texts back\<close>

lemma digit_code: "d < 10 \<Longrightarrow> of_char (digit d) = 48 + d"
  by (simp add: digit_def)

definition is_digit :: "char \<Rightarrow> bool" where
  "is_digit c \<longleftrightarrow> 48 \<le> (of_char c :: nat) \<and> (of_char c :: nat) \<le> 57"

fun undec :: "nat \<Rightarrow> string \<Rightarrow> nat \<times> string" where
  "undec n [] = (n, [])"
| "undec n (c # cs) = (if is_digit c then undec (10 * n + (of_char c - 48)) cs else (n, c # cs))"

fun ends_number :: "string \<Rightarrow> bool" where
  "ends_number [] \<longleftrightarrow> True"
| "ends_number (c # cs) \<longleftrightarrow> \<not> is_digit c"

lemma undec_stop: "ends_number rest \<Longrightarrow> undec n rest = (n, rest)"
  by (cases rest) simp_all

lemma undec_dec: "\<exists>k. \<forall>m rest. undec m (dec n @ rest) = undec (m * 10 ^ k + n) rest"
proof (induction n rule: dec.induct)
  case (1 n)
  show ?case
  proof (cases "n < 10")
    case True
    then have "\<forall>m rest. undec m (dec n @ rest) = undec (m * 10 ^ 1 + n) rest"
      by (simp add: dec.simps [of n] is_digit_def digit_code mult.commute)
    then show ?thesis by blast
  next
    case False
    from 1 [OF this] obtain k where k: "\<forall>m rest. undec m (dec (n div 10) @ rest) = undec (m * 10 ^ k + n div 10) rest"
      by blast
    have n: "10 * (m * 10 ^ k + n div 10) + n mod 10 = m * 10 ^ Suc k + n" for m by (simp add: algebra_simps)
    have "\<forall>m rest. undec m (dec n @ rest) = undec (m * 10 ^ Suc k + n) rest"
      using False k by (simp add: dec.simps [of n] is_digit_def digit_code less_Suc_eq_le [symmetric] n [symmetric] del: power_Suc)
    then show ?thesis by blast
  qed
qed

lemma undec_dec_stop: "ends_number rest \<Longrightarrow> undec 0 (dec n @ rest) = (n, rest)"
  using undec_dec [of n] undec_stop by auto

lemma dec_length: "n < 10 ^ k \<Longrightarrow> 0 < k \<Longrightarrow> length (dec n) \<le> k"
proof (induction n arbitrary: k rule: dec.induct)
  case (1 n)
  show ?case
  proof (cases "n < 10")
    case True
    then show ?thesis using 1(3) by (simp add: dec.simps [of n])
  next
    case False
    obtain j where j: "k = Suc j" using 1(3) by (cases k) auto
    have k: "k = Suc j" "0 < j" using False 1(2) j by (cases j; simp)+
    have "n div 10 < 10 ^ j" using 1(2) k(1) by (simp add: less_mult_imp_div_less mult.commute)
    then show ?thesis using 1(1) [OF False, of j] False k by (simp add: dec.simps [of n])
  qed
qed

lemma dec_u32_length: "n < 2 ^ 32 \<Longrightarrow> length (dec n) \<le> 10"
  by (rule dec_length) simp_all

fun unesc :: "string \<Rightarrow> (string \<times> string) option" where
  "unesc [] = None"
| "unesc (c # cs) =
     (if c = CHR 0x22 then Some ([], cs)
      else if c = CHR 0x5C then
        (case cs of
           [] \<Rightarrow> None
         | d # ds \<Rightarrow>
             map_option (\<lambda>(t, rest). ((if d = CHR ''n'' then CHR 0x0A else if d = CHR ''r'' then CHR 0x0D else d) # t, rest))
               (unesc ds))
      else map_option (\<lambda>(t, rest). (c # t, rest)) (unesc cs))"

definition esc :: "string \<Rightarrow> string" where
  "esc line = concat (map esc_char line)"

lemma unesc_esc: "unesc (esc line @ QUOTE @ rest) = Some (line, rest)"
  by (induction line) (auto simp: esc_def esc_char_def QUOTE_def)

lemma esc_char_length: "length (esc_char c) \<le> 2"
  by (simp add: esc_char_def)

lemma esc_length: "length (esc line) \<le> 2 * length line"
proof (induction line)
  case (Cons c line)
  then show ?case using esc_char_length [of c] by (simp add: esc_def)
qed (simp add: esc_def)

lemma esc_loop_all:
  "length out + length (esc line) + 4 \<le> cap \<Longrightarrow> esc_loop cap out line = out @ esc line"
proof (induction line arbitrary: out)
  case (Cons c line)
  have "0 < length (esc_char c)" by (simp add: esc_char_def)
  then have "length out + 4 < cap" using Cons.prems by (simp add: esc_def del: length_greater_0_conv)
  then show ?case using Cons.prems Cons.IH [of "out @ esc_char c"] by (simp add: esc_def)
qed (simp add: esc_def)

definition strip :: "string \<Rightarrow> string \<Rightarrow> string option" where
  "strip p s = (if take (length p) s = p then Some (drop (length p) s) else None)"

lemma strip_append [simp]: "strip p (p @ s) = Some s"
  by (simp add: strip_def)

text \<open>A reader of a line's object, with or without the blank.\<close>

definition parse_line :: "string \<Rightarrow> ((nat \<times> char \<times> string) \<times> string) option" where
  "parse_line s =
     Option.bind (strip (''{'' @ QUOTE @ ''seq'' @ QUOTE @ '':'') s) (\<lambda>s1.
       case undec 0 s1 of
         (i, s2) \<Rightarrow>
           Option.bind (strip ('','' @ QUOTE @ ''sev'' @ QUOTE @ '':'' @ QUOTE) s2) (\<lambda>s3.
             case s3 of
               [] \<Rightarrow> None
             | sev # s4 \<Rightarrow>
                 Option.bind (strip (QUOTE @ '','') s4) (\<lambda>s5.
                   Option.bind (strip (QUOTE @ ''text'' @ QUOTE @ '':'' @ QUOTE) (case s5 of c # s6 \<Rightarrow> if c = CHR '' '' then s6 else s5 | [] \<Rightarrow> []))
                     (\<lambda>s7. Option.bind (unesc s7) (\<lambda>(line, s8). map_option (\<lambda>s9. ((i, sev, line), s9)) (strip ''}'' s8))))))"

lemma parse_line_text:
  assumes "blank = [] \<or> blank = '' ''"
  shows "parse_line (line_head blank i sev @ esc line @ QUOTE @ ''}'' @ rest) = Some ((i, sev, line), rest)"
proof -
  let ?s2 = "'','' @ QUOTE @ ''sev'' @ QUOTE @ '':'' @ QUOTE @ [sev] @ QUOTE @ '','' @ blank @ QUOTE @ ''text'' @ QUOTE @ '':'' @
    QUOTE @ esc line @ QUOTE @ ''}'' @ rest"
  have "undec 0 (dec i @ ?s2) = (i, ?s2)" by (rule undec_dec_stop) (simp add: is_digit_def)
  moreover have "line_head blank i sev @ esc line @ QUOTE @ ''}'' @ rest = (''{'' @ QUOTE @ ''seq'' @ QUOTE @ '':'') @ dec i @ ?s2"
    by (simp add: line_head_def)
  moreover have "strip ('','' @ QUOTE @ ''sev'' @ QUOTE @ '':'' @ QUOTE) ?s2 =
     Some (sev # (QUOTE @ '','') @ blank @ (QUOTE @ ''text'' @ QUOTE @ '':'' @ QUOTE) @ esc line @ QUOTE @ ''}'' @ rest)"
    using strip_append [of "'','' @ QUOTE @ ''sev'' @ QUOTE @ '':'' @ QUOTE"
      "sev # (QUOTE @ '','') @ blank @ (QUOTE @ ''text'' @ QUOTE @ '':'' @ QUOTE) @ esc line @ QUOTE @ ''}'' @ rest"] by simp
  moreover have "(case blank @ (QUOTE @ ''text'' @ QUOTE @ '':'' @ QUOTE) @ r of c # s6 \<Rightarrow>
      if c = CHR '' '' then s6 else blank @ (QUOTE @ ''text'' @ QUOTE @ '':'' @ QUOTE) @ r | [] \<Rightarrow> []) =
      (QUOTE @ ''text'' @ QUOTE @ '':'' @ QUOTE) @ r" for r
    using assms by (auto simp: QUOTE_def)
  ultimately show ?thesis
    by (simp only: parse_line_def strip_append Option.bind.simps prod.case list.case unesc_esc option.map)
qed


subsection \<open>The ring holds the last lines\<close>

text \<open>What a sequence of calls adds to the log, from number \<open>n\<close> on.\<close>

fun logged :: "bool \<Rightarrow> nat \<Rightarrow> SinkCall list \<Rightarrow> WebLogEntry list" where
  "logged ntp n [] = []"
| "logged ntp n (c # cs) =
     (if sc_lock c
      then \<lparr>we_seq = of_nat n, we_sev = sc_sev c, we_line = sink_line ntp c\<rparr> # logged ntp (n + 1) cs
      else logged ntp n cs)"

text \<open>\<open>h\<close> is everything ever logged; the ring holds its last 200 entries.\<close>

definition web_hist :: "WebLogEntry list \<Rightarrow> WebLog \<Rightarrow> bool" where
  "web_hist h w \<longleftrightarrow> wl_alloc w \<and> wl_head w = of_nat (length h) \<and>
     (\<forall>i < length h. length h \<le> i + 200 \<longrightarrow> wl_ring w (i mod 200) = h ! i) \<and>
     (\<forall>i < length h. we_seq (h ! i) = of_nat i \<and> length (we_line (h ! i)) \<le> 179)"

lemma logged_length: "length (logged ntp n cs) \<le> length cs"
  by (induction cs arbitrary: n) (auto intro: le_SucI)

lemma web_hist_snoc:
  assumes h: "web_hist h w" and n: "length h < 2 ^ 32" and "sc_lock c"
  defines "e \<equiv> \<lparr>we_seq = of_nat (length h), we_sev = sc_sev c, we_line = sink_line (wl_ntpSynced w) c\<rparr>"
  shows "web_hist (h @ [e]) (logSinkCb c w) \<and> wl_ntpSynced (logSinkCb c w) = wl_ntpSynced w"
proof -
  have idx: "unat (wl_head w) = length h" using h n by (simp add: web_hist_def unat_of_nat_u32)
  have w': "logSinkCb c w = w\<lparr>wl_dropWarned := False, wl_ring := (wl_ring w)(length h mod 200 := e), wl_head := wl_head w + 1\<rparr>"
    using h assms(3) idx by (simp add: logSinkCb_def web_hist_def Let_def e_def WEB_RING_CAP_def)
  have "wl_ring (logSinkCb c w) (i mod 200) = (h @ [e]) ! i"
    if "i < Suc (length h)" "Suc (length h) \<le> i + 200" for i
  proof (cases "i = length h")
    case False
    then have "i < length h" using that by simp
    moreover have "i mod 200 \<noteq> length h mod 200"
    proof
      assume "i mod 200 = length h mod 200"
      then have "200 dvd length h - i" using mod_eq_dvd_iff_nat [of i "length h" 200] that(1) by simp
      then show False using that False by (auto dest!: dvd_imp_le)
    qed
    ultimately show ?thesis using h that by (simp add: w' web_hist_def nth_append)
  qed (simp add: w')
  then show ?thesis
    using h by (auto simp: web_hist_def w' e_def nth_append less_Suc_eq sink_line_def)
qed

lemma web_hist_calls:
  "web_hist h w \<Longrightarrow> length h + length cs < 2 ^ 32 \<Longrightarrow>
     web_hist (h @ logged (wl_ntpSynced w) (length h) cs) (log_calls cs w) \<and> wl_ntpSynced (log_calls cs w) = wl_ntpSynced w"
proof (induction cs arbitrary: h w)
  case Nil
  then show ?case by (simp add: log_calls_def)
next
  case (Cons c cs)
  show ?case
  proof (cases "sc_lock c")
    case True
    let ?e = "\<lparr>we_seq = of_nat (length h), we_sev = sc_sev c, we_line = sink_line (wl_ntpSynced w) c\<rparr>"
    have "web_hist (h @ [?e]) (logSinkCb c w) \<and> wl_ntpSynced (logSinkCb c w) = wl_ntpSynced w"
      using web_hist_snoc [OF Cons.prems(1) _ True] Cons.prems(2) by simp
    then show ?thesis
      using Cons.IH [of "h @ [?e]" "logSinkCb c w"] Cons.prems(2) True by (simp add: log_calls_def)
  next
    case False
    then have "web_hist h (logSinkCb c w) \<and> wl_ntpSynced (logSinkCb c w) = wl_ntpSynced w"
      using Cons.prems(1) by (simp add: logSinkCb_def web_hist_def)
    then show ?thesis
      using Cons.IH [of h "logSinkCb c w"] Cons.prems(2) False by (simp add: log_calls_def)
  qed
qed

text \<open>The entry found in the slot of number \<open>i\<close> has that number exactly if it was not overwritten.\<close>

lemma web_hist_slot:
  assumes h: "web_hist h w" and n: "length h < 2 ^ 32" and i: "i < length h"
  shows "we_seq (wl_ring w (i mod 200)) = of_nat i \<longleftrightarrow> length h \<le> i + 200"
    and "length h \<le> i + 200 \<Longrightarrow> wl_ring w (i mod 200) = h ! i"
proof -
  define j where "j = i + 200 * ((length h - 1 - i) div 200)"
  have "200 * ((length h - 1 - i) div 200) \<le> length h - 1 - i" "length h - 1 - i < 200 * ((length h - 1 - i) div 200) + 200"
    using div_mult_mod_eq [of "length h - 1 - i" 200] mod_less_divisor [of 200 "length h - 1 - i"] by linarith+
  then have j: "j < length h" "length h \<le> j + 200" "i \<le> j" "j mod 200 = i mod 200"
    using i by (auto simp: j_def)
  then have "we_seq (wl_ring w (i mod 200)) = of_nat j"
    using h by (metis web_hist_def)
  moreover have "(of_nat j :: u32) = of_nat i \<longleftrightarrow> j = i"
    using j(1) i n unat_of_nat_u32 [of i] unat_of_nat_u32 [of j] by (metis less_trans)
  moreover have "j = i \<longleftrightarrow> length h \<le> i + 200"
    using j(1,2,3) by (auto simp: j_def)
  ultimately show "we_seq (wl_ring w (i mod 200)) = of_nat i \<longleftrightarrow> length h \<le> i + 200" by simp
  show "length h \<le> i + 200 \<Longrightarrow> wl_ring w (i mod 200) = h ! i"
    using h i by (simp add: web_hist_def)
qed

subsection \<open>The page shows what was logged\<close>

fun comma_sep :: "string list \<Rightarrow> string list" where
  "comma_sep [] = []"
| "comma_sep (x # xs) = x # concat (map (\<lambda>y. ['','', y]) xs)"

definition more_lines :: "string list \<Rightarrow> string list" where
  "more_lines xs = concat (map (\<lambda>y. ['','', y]) xs)"

lemma comma_sep_split: "comma_sep xs = (case xs of [] \<Rightarrow> [] | x # ys \<Rightarrow> x # more_lines ys)"
  by (cases xs) (simp_all add: more_lines_def)

definition env_calls :: "(nat \<Rightarrow> PageEnv) \<Rightarrow> nat \<Rightarrow> nat \<Rightarrow> SinkCall list" where
  "env_calls env k n = concat (map (\<lambda>j. pe_calls (env j)) [k..<n])"

lemma env_calls_step: "k < n \<Longrightarrow> env_calls env k n = pe_calls (env k) @ env_calls env (Suc k) n"
  by (simp add: env_calls_def upt_conv_Cons)

lemma logs_loop_lines:
  assumes "web_hist h w" "sorted is" "distinct is" "set is \<subseteq> {..<length h}"
    and "length h + length (env_calls env k (k + length is)) < 2 ^ 32"
    and "logs_loop env k first is w = (ok, chunks, w')"
  shows "\<exists>h' js. web_hist (h @ h') w' \<and> sorted js \<and> distinct js \<and> set js \<subseteq> set is \<and>
    length h' \<le> length (env_calls env k (k + length is)) \<and>
    chunks = (if first then comma_sep else more_lines) (map (\<lambda>i. line_chunk i ((h @ h') ! i)) js) \<and>
    (ok \<longrightarrow> (\<forall>k. pe_lock (env k)) \<longrightarrow> (\<forall>i \<in> set is. length (h @ h') \<le> i + 200 \<longrightarrow> i \<in> set js))"
  using assms
proof (induction "is" arbitrary: h w k first ok chunks w')
  case Nil
  then show ?case by (intro exI [of _ "[]"]) (auto simp: more_lines_def)
next
  case (Cons i "is")
  have calls: "env_calls env k (Suc (k + length is)) = pe_calls (env k) @ env_calls env (Suc k) (Suc (k + length is))"
    by (simp add: env_calls_step)
  define h1 where "h1 = logged (wl_ntpSynced w) (length h) (pe_calls (env k))"
  define w1 where "w1 = log_calls (pe_calls (env k)) w"
  have l1: "length h1 \<le> length (pe_calls (env k))" by (simp add: h1_def logged_length)
  have hist: "web_hist (h @ h1) w1"
    using web_hist_calls [OF Cons.prems(1), of "pe_calls (env k)"] Cons.prems(5) by (simp add: h1_def w1_def calls)
  have n: "length (h @ h1) < 2 ^ 32" using Cons.prems(5) l1 by (simp add: calls)
  have i: "i < length (h @ h1)" using Cons.prems(4) by simp
  have rest: "set is \<subseteq> {..<length (h @ h1)}" using Cons.prems(4) by auto
  have bound: "length (h @ h1) + length (env_calls env (k + 1) (k + 1 + length is)) < 2 ^ 32"
    using Cons.prems(5) l1 by (simp add: calls)
  have sd: "sorted is" "distinct is" using Cons.prems(2,3) by simp_all
  note IH = Cons.IH [OF hist sd rest bound]
  note slot = web_hist_slot [OF hist n i]
  show ?case
  proof (cases "pe_lock (env k) \<and> we_seq (wl_ring w1 (i mod WEB_RING_CAP)) = of_nat i")
    case False
    then have "logs_loop env (k + 1) first is w1 = (ok, chunks, w')"
      using Cons.prems(6) by (simp add: w1_def Let_def)
    from IH [OF this] obtain h' js where
      *: "web_hist ((h @ h1) @ h') w'" "sorted js" "distinct js" "set js \<subseteq> set is"
        "length h' \<le> length (env_calls env (k + 1) (k + 1 + length is))"
        "chunks = (if first then comma_sep else more_lines) (map (\<lambda>i. line_chunk i (((h @ h1) @ h') ! i)) js)"
        "ok \<longrightarrow> (\<forall>k. pe_lock (env k)) \<longrightarrow> (\<forall>i \<in> set is. length ((h @ h1) @ h') \<le> i + 200 \<longrightarrow> i \<in> set js)"
      by blast
    have "\<forall>k. pe_lock (env k) \<Longrightarrow> \<not> length (h @ h1) \<le> i + 200"
      using False slot(1) by (simp add: WEB_RING_CAP_def)
    then show ?thesis
      using * l1 by (intro exI [of _ "h1 @ h'"] exI [of _ js]) (auto simp: calls)
  next
    case True
    have keep: "length (h @ h1) \<le> i + 200" using True slot(1) by (simp add: WEB_RING_CAP_def)
    have e: "wl_ring w1 (i mod WEB_RING_CAP) = (h @ h1) ! i" using slot(2) [OF keep] by (simp add: WEB_RING_CAP_def)
    show ?thesis
    proof (cases "pe_sent (env k)")
      case False
      then have "\<not> ok \<and> chunks = (if first then [] else ['','']) @ [line_chunk i ((h @ h1) ! i)] \<and> w' = w1"
        using Cons.prems(6) True e by (simp add: w1_def [symmetric] Let_def)
      then show ?thesis
        using hist l1 i by (intro exI [of _ h1] exI [of _ "[i]"]) (auto simp: more_lines_def calls)
    next
      case sent: True
      obtain ok2 rest2 w2 where r: "logs_loop env (k + 1) False is w1 = (ok2, rest2, w2)" by (cases "logs_loop env (k + 1) False is w1")
      have res: "ok = ok2" "w' = w2" "chunks = (if first then [] else ['','']) @ [line_chunk i ((h @ h1) ! i)] @ rest2"
        using Cons.prems(6) True e sent r by (simp_all add: w1_def [symmetric] Let_def)
      from IH [OF r] obtain h' js where
        *: "web_hist ((h @ h1) @ h') w2" "sorted js" "distinct js" "set js \<subseteq> set is"
          "length h' \<le> length (env_calls env (k + 1) (k + 1 + length is))"
          "rest2 = more_lines (map (\<lambda>i. line_chunk i (((h @ h1) @ h') ! i)) js)"
          "ok2 \<longrightarrow> (\<forall>k. pe_lock (env k)) \<longrightarrow> (\<forall>i \<in> set is. length ((h @ h1) @ h') \<le> i + 200 \<longrightarrow> i \<in> set js)"
        by auto
      have "((h @ h1) @ h') ! i = (h @ h1) ! i" using i by (simp only: nth_append if_True)
      then show ?thesis
        using * res l1 Cons.prems(2,3)
        by (intro exI [of _ "h1 @ h'"] exI [of _ "i # js"]) (auto simp: calls more_lines_def)
    qed
  qed
qed


lemma line_head_length: "i < 2 ^ 32 \<Longrightarrow> length (line_head '' '' i sev) \<le> 40"
  using dec_u32_length [of i] by (simp add: line_head_def QUOTE_def)

lemma line_chunk_whole:
  assumes "i < 2 ^ 32" "length (we_line e) \<le> 179"
  shows "line_chunk i e = line_head '' '' i (we_sev e) @ esc (we_line e) @ QUOTE @ ''}''"
proof -
  have "length (line_head '' '' i (we_sev e)) + length (esc (we_line e)) + 4 \<le> 424"
    using line_head_length [OF assms(1), of "we_sev e"] esc_length [of "we_line e"] assms(2) by linarith
  then show ?thesis by (simp add: line_chunk_def esc_loop_all)
qed

text \<open>A line of the page reads back as what was logged: for every line the sink can store, the
  object on the page, read as JSON, is its number, its severity and its text, whatever
  characters the text holds, and the fixed buffer of the handler never cuts it.\<close>

theorem web_line_roundtrip:
  assumes "i < 2 ^ 32" "length (we_line e) \<le> 179"
  shows "parse_line (line_chunk i e @ rest) = Some ((i, we_sev e, we_line e), rest)"
  using parse_line_text [of "'' ''" i "we_sev e" "we_line e" rest] line_chunk_whole [OF assms] by simp

theorem web_line_roundtrip_witness:
  "parse_line (line_chunk 7 \<lparr>we_seq = 7, we_sev = CHR ''E'', we_line = [CHR 0x22, CHR 0x5C, CHR 0x0A]\<rparr>) =
    Some ((7, CHR ''E'', [CHR 0x22, CHR 0x5C, CHR 0x0A]), [])"
  using web_line_roundtrip [of 7 "\<lparr>we_seq = 7, we_sev = CHR ''E'', we_line = [CHR 0x22, CHR 0x5C, CHR 0x0A]\<rparr>" "[]"]
  by simp

lemma page_bounds:
  assumes "unat pos = T"
  shows "unat (page_dropped pos since) = T - 200 - unat since" "unat (page_start pos since) = max (T - 200) (unat since)"
proof -
  have rs: "unat (page_ringStart pos) = T - 200"
    using assms by (auto simp: page_ringStart_def word_less_nat_alt unat_sub_if' word_le_nat_alt)
  then show "unat (page_dropped pos since) = T - 200 - unat since"
    by (auto simp: page_dropped_def word_less_nat_alt unat_sub_if')
  show "unat (page_start pos since) = max (T - 200) (unat since)"
    using rs by (auto simp: page_start_def word_less_nat_alt)
qed


text \<open>The witness: one line was logged; another one comes in before each attempt to lock.\<close>

definition demo_call :: SinkCall where
  "demo_call = \<lparr>sc_lock = True, sc_sev = CHR ''I'', sc_tag = ''t'', sc_msg = ''hi'', sc_tod = None, sc_ms = 1500\<rparr>"

definition demo_env :: "nat \<Rightarrow> PageEnv" where
  "demo_env k = \<lparr>pe_calls = (if k < 3 then [demo_call] else []), pe_lock = True, pe_sent = True\<rparr>"

lemma demo_hist: "\<exists>e. web_hist [e] (logSinkCb demo_call web_log_new)"
  using web_hist_snoc [of "[]" web_log_new demo_call]
  by (auto simp: web_hist_def web_log_new_def demo_call_def)

lemma demo_env_calls: "length (env_calls demo_env 0 n) \<le> 3"
proof (induction n)
  case (Suc n)
  have "env_calls demo_env 0 (Suc n) = env_calls demo_env 0 n @ (if n < 3 then [demo_call] else [])"
    by (simp add: env_calls_def demo_env_def)
  moreover have "length (env_calls demo_env 0 n) \<le> n"
    by (induction n) (auto simp: env_calls_def demo_env_def)
  ultimately show ?case using Suc by (cases "n < 3") simp_all
qed (simp add: env_calls_def)


subsection \<open>The page in a buffer is whole or says so\<close>

definition line_text :: "nat \<Rightarrow> WebLogEntry \<Rightarrow> string" where
  "line_text i e = line_head [] i (we_sev e) @ esc (we_line e) @ QUOTE @ ''}''"

definition ring_lines :: "(nat \<Rightarrow> WebLogEntry) \<Rightarrow> nat list \<Rightarrow> string list" where
  "ring_lines ring is =
     map (\<lambda>i. line_text i (ring (i mod 200))) (filter (\<lambda>i. we_seq (ring (i mod 200)) = of_nat i) is)"

lemma format_loop_whole:
  "length out + length (concat ((if first then comma_sep else more_lines) (ring_lines ring is))) + 2 < outLen \<Longrightarrow>
    format_loop ring outLen first is out = out @ concat ((if first then comma_sep else more_lines) (ring_lines ring is))"
proof (induction "is" arbitrary: first out)
  case Nil
  then show ?case by (simp add: ring_lines_def more_lines_def)
next
  case (Cons i "is")
  let ?e = "ring (i mod 200)"
  show ?case
  proof (cases "we_seq ?e = of_nat i")
    case False
    then show ?thesis using Cons by (simp add: WEB_RING_CAP_def ring_lines_def)
  next
    case True
    let ?sep = "if first then [] else '',''"
    let ?out = "out @ ?sep @ line_text i ?e"
    have whole: "concat ((if first then comma_sep else more_lines) (ring_lines ring (i # is))) =
        ?sep @ line_text i ?e @ concat (more_lines (ring_lines ring is))"
      using True by (simp add: ring_lines_def more_lines_def)
    have fit: "length out + length ?sep + length (line_text i ?e) + length (concat (more_lines (ring_lines ring is))) + 2 < outLen"
      using Cons.prems unfolding whole by simp
    have esc: "esc_loop outLen (out @ ?sep @ line_head [] i (we_sev ?e)) (we_line ?e) =
        out @ ?sep @ line_head [] i (we_sev ?e) @ esc (we_line ?e)"
      using esc_loop_all [of "out @ ?sep @ line_head [] i (we_sev ?e)" "we_line ?e" outLen] fit
      by (simp add: line_text_def QUOTE_def)
    have "format_loop ring outLen first (i # is) out = format_loop ring outLen False is ?out"
      using True fit esc by (auto simp: WEB_RING_CAP_def Let_def line_text_def QUOTE_def)
    also have "\<dots> = ?out @ concat (more_lines (ring_lines ring is))"
      using Cons.IH [of ?out False] fit by simp
    finally show ?thesis using whole by simp
  qed
qed

text \<open>\<open>formatLogsJson\<close> writes the whole page exactly when it fits: if the complete page (head, the
  lines of the ring from the client's position on that still have their number, tail) is
  shorter than the buffer, the buffer holds just that and its length is returned.
\<close>

theorem format_logs_whole:
  fixes head since ring
  defines "page \<equiv> page_head (unat head) (unat (page_dropped head since)) @
    concat (comma_sep (ring_lines ring [unat (page_start head since)..<unat head])) @ '']}''"
  assumes "length page < outLen"
  shows "formatLogsJson ring head since outLen = (page, length page)"
proof -
  have "format_loop ring outLen True [unat (page_start head since)..<unat head] (page_head (unat head) (unat (page_dropped head since))) =
    page_head (unat head) (unat (page_dropped head since)) @ concat (comma_sep (ring_lines ring [unat (page_start head since)..<unat head]))"
    using format_loop_whole [of "page_head (unat head) (unat (page_dropped head since))" True ring
      "[unat (page_start head since)..<unat head]" outLen] assms(2) by (simp add: page_def)
  then show ?thesis using assms(2) by (simp add: formatLogsJson_def page_def Let_def)
qed

lemma esc_loop_bound: "length out < cap \<Longrightarrow> length (esc_loop cap out line) < cap"
proof (induction line arbitrary: out)
  case (Cons c line)
  then show ?case using esc_char_length [of c] Cons.IH [of "out @ esc_char c"] by simp
qed simp

lemma format_loop_bound: "length out < outLen \<Longrightarrow> length (format_loop ring outLen first is out) < outLen"
proof (induction "is" arbitrary: first out)
  case (Cons i "is")
  let ?e = "ring (i mod WEB_RING_CAP)" and ?o1 = "if first then out else out @ '',''"
  let ?o2 = "esc_loop outLen (?o1 @ line_head [] i (we_sev ?e)) (we_line ?e)"
  show ?case
  proof (cases "we_seq ?e \<noteq> of_nat i \<or> (\<not> first \<and> \<not> 1 < outLen - length out)")
    case True
    then show ?thesis using Cons by (auto simp: Let_def)
  next
    case False
    then have o1: "length ?o1 < outLen" using Cons.prems by auto
    show ?thesis
    proof (cases "length (line_head [] i (we_sev ?e)) < outLen - length ?o1")
      case True
      then have o2: "length ?o2 < outLen" using esc_loop_bound [of "?o1 @ line_head [] i (we_sev ?e)" outLen "we_line ?e"] by simp
      have "length (if length ?o2 + 2 < outLen then ?o2 @ QUOTE @ ''}'' else ?o2) < outLen"
        using o2 by (simp add: QUOTE_def)
      from Cons.IH [OF this, of False] show ?thesis using False True Cons.prems by (simp add: Let_def)
    qed (use False o1 Cons.prems in \<open>simp add: Let_def\<close>)
  qed
qed simp

text \<open>\<open>formatLogsJson\<close> never writes outside its buffer: the text leaves room for the terminating
  zero, and the returned length is inside the buffer unless the head of the page alone did not
  fit.
\<close>

theorem format_logs_in_buffer:
  assumes "0 < outLen" and "formatLogsJson ring head since outLen = (text, n)"
  shows "length text < outLen \<and> (n < outLen \<or> outLen \<le> length (page_head (unat head) (unat (page_dropped head since))))"
  using assms format_loop_bound [of "page_head (unat head) (unat (page_dropped head since))" outLen ring True
    "[unat (page_start head since)..<unat head]"]
  by (auto simp: formatLogsJson_def Let_def not_le split: if_splits)

definition demo_ring :: "nat \<Rightarrow> WebLogEntry" where
  "demo_ring i = \<lparr>we_seq = of_nat i, we_sev = CHR ''I'', we_line = [CHR 0x22]\<rparr>"

theorem format_logs_whole_witness:
  "snd (formatLogsJson demo_ring 2 0 200) =
    length (page_head 2 0 @ concat (comma_sep (ring_lines demo_ring [0, 1])) @ '']}'')"
proof -
  have l: "length (page_head 2 0 @ concat (comma_sep (ring_lines demo_ring [0, 1])) @ '']}'') < 200"
    by code_simp
  have u: "[0..<2] = [0, 1 :: nat]" by (simp add: upt_rec)
  show ?thesis
    using format_logs_whole [of 2 0 demo_ring 200] l
    by (simp add: page_dropped_def page_start_def page_ringStart_def u)
qed

theorem format_logs_in_buffer_witness:
  "length (fst (formatLogsJson demo_ring 2 0 50)) < 50"
  using format_logs_in_buffer [of 50 demo_ring 2 0 "fst (formatLogsJson demo_ring 2 0 50)" "snd (formatLogsJson demo_ring 2 0 50)"]
  by simp

end
