(* ===== verification/WebCtl.thy ===== *)
theory WebCtl
  imports Ping WebLog
begin

text \<open>
  The controls of the web monitor (\<open>web/handlers/AutoLinkWebHandlersData.cpp\<close>, the parsers of
  \<open>web/AutoLinkWebCore.cpp\<close>, the statistics tick of \<open>web/handlers/AutoLinkWebHttpd.cpp\<close>, the restored log
  level of \<open>begin\<close> in \<open>web/handlers/AutoLinkWebLifecycle.cpp\<close>) on the device they control: its link, its Ping
  (a Pong installs no hooks), its log level and what flash remembers.

  The HTTP server is outside: a handler is given the value of its query key (\<open>None\<close> when the server finds
  none that fits the buffer) and whether the flash store could be opened.
\<close>

subsection \<open>Parsers\<close>

text \<open>\<open>atoi\<close>: blanks, a sign, digits. Out of range it saturates, as newlib does (C leaves it open).\<close>

definition c_isspace :: "char \<Rightarrow> bool" where
  "c_isspace c \<longleftrightarrow> c = CHR '' '' \<or> 9 \<le> (of_char c :: nat) \<and> (of_char c :: nat) \<le> 13"

fun digits_value :: "int \<Rightarrow> string \<Rightarrow> int" where
  "digits_value acc [] = acc"
| "digits_value acc (c # cs) =
     (if 48 \<le> (of_char c :: nat) \<and> (of_char c :: nat) \<le> 57 then digits_value (10 * acc + (of_char c - 48)) cs else acc)"

definition c_atoi :: "string \<Rightarrow> int" where
  "c_atoi s =
     (let t = dropWhile c_isspace s;
          v = (case t of [] \<Rightarrow> 0
               | c # cs \<Rightarrow> if c = CHR ''-'' then - digits_value 0 cs else if c = CHR ''+'' then digits_value 0 cs
                          else digits_value 0 t) in
      if v > 2147483647 then 2147483647 else if v < -2147483648 then -2147483648 else v)"

definition LOG_NONE :: int where "LOG_NONE = 0"
definition LOG_INFO :: int where "LOG_INFO = 3"
definition LOG_VERBOSE :: int where "LOG_VERBOSE = 5"

definition parseLevelQuery :: "string option \<Rightarrow> int" where
  "parseLevelQuery v =
     (case v of None \<Rightarrow> -1
      | Some s \<Rightarrow>
          if s = [] then -1
          else let lv = c_atoi s in if lv = LOG_NONE then -2 else if lv < 0 \<or> lv > LOG_VERBOSE then -3 else lv)"

definition parseModeQuery :: "string option \<Rightarrow> int" where
  "parseModeQuery v =
     (case v of None \<Rightarrow> -1 | Some s \<Rightarrow> if s = ''seq'' then 0 else if s = ''rand'' then 1 else -1)"

definition validRoleString :: "string option \<Rightarrow> bool" where
  "validRoleString v = (case v of None \<Rightarrow> False | Some s \<Rightarrow> length s > 0 \<and> length s < 8)"

text \<open>The answer and the level of the log.\<close>

definition applyLogLevel :: "int \<Rightarrow> int \<Rightarrow> int \<times> int" where
  "applyLogLevel lv cur =
     (if lv = LOG_NONE then (-1, cur) else if lv < 0 \<or> lv > LOG_VERBOSE then (-2, cur) else (lv, lv))"

subsection \<open>The device\<close>

record WebSnapshot =
  ws_state :: string
  ws_errCount :: u32
  ws_txBps :: u32
  ws_rxBps :: u32
  ws_txTotal :: u64
  ws_rxTotal :: u64
  ws_errTotal :: u64
  ws_lostMsgs :: u64
  ws_postLockQuietDrops :: u64
  ws_rateLimitedDrops :: u64
  ws_txRingStallDrops :: u64
  ws_logDrops :: u64
  ws_rssi :: int
  ws_freeHeap :: u32
  ws_uptimeS :: u32
  ws_baudRate :: u32
  ws_fillMode :: u8
  ws_msgPaused :: u8
  ws_linkMode :: u8
  ws_linkModeLabel :: string
  ws_txDelayMs :: int
  ws_role :: string
  ws_webLogDropped :: u32

text \<open>What flash keeps in the name space \<open>autolink\<close>.\<close>

record Nvs =
  nv_level :: "u8 option"
  nv_mode :: "u8 option"

record Device =
  dv_link :: Link
  dv_ping :: "Ping option"
  dv_level :: int
  dv_nvs :: Nvs
  dv_prevTx :: u64
  dv_prevRx :: u64
  dv_snap :: WebSnapshot

text \<open>A reply: the status, the text handed over and the number of bytes the handler says it has.\<close>

record Reply =
  rp_status :: nat
  rp_text :: string
  rp_len :: nat

definition reply :: "nat \<Rightarrow> string \<Rightarrow> nat \<Rightarrow> Reply" where
  "reply st t n = \<lparr>rp_status = st, rp_text = t, rp_len = n\<rparr>"

subsection \<open>The handlers\<close>

definition quoted :: "string \<Rightarrow> string" where "quoted s = [CHR 0x27] @ s @ [CHR 0x27]"

definition modeCode :: "Mode \<Rightarrow> u8" where
  "modeCode m = (if m = SYNC then 0 else 1)"

definition handleReset :: "bool \<Rightarrow> Device \<Rightarrow> Reply \<times> Device" where
  "handleReset locked d =
     (let d1 = d\<lparr>dv_link := resetDiag (resetErrors (resetStats (dv_link d)))\<rparr> in
      (reply 200 ''ok'' 2, if locked then d1\<lparr>dv_prevTx := 0, dv_prevRx := 0\<rparr> else d1))"

definition handleLevel :: "string option \<Rightarrow> bool \<Rightarrow> Device \<Rightarrow> Reply \<times> Device" where
  "handleLevel v nvsOk d =
     (case v of
        None \<Rightarrow> (reply 400 ''missing ?lv='' 13, d)
      | Some s \<Rightarrow>
          (case applyLogLevel (parseLevelQuery (Some s)) (dv_level d) of
             (rc, lvl) \<Rightarrow>
               if rc < 0 then
                 (if rc = -2
                  then reply 400 ''lv=0 (NONE) is rejected: silences all logs and is unrecoverable without reflash'' 79
                  else reply 400 ''lv must be 1..5 (ERROR..VERBOSE)'' 33, d\<lparr>dv_level := lvl\<rparr>)
               else
                 (reply 200 ''ok'' 2,
                  d\<lparr>dv_level := lvl,
                    dv_nvs := (if nvsOk then (dv_nvs d)\<lparr>nv_level := Some (word_of_int rc)\<rparr> else dv_nvs d)\<rparr>)))"

definition handleMode :: "string option \<Rightarrow> bool \<Rightarrow> Device \<Rightarrow> Reply \<times> Device" where
  "handleMode v nvsOk d =
     (case v of
        None \<Rightarrow> (reply 400 ''missing ?m='' 12, d)
      | Some s \<Rightarrow>
          (case (if s = ''SYNC'' then Some SYNC else if s = ''ASYNC'' then Some ASYNC else None) of
             None \<Rightarrow> (reply 400 ''m must be SYNC or ASYNC'' 24, d)
           | Some m \<Rightarrow>
               (reply 200 ''ok'' 2,
                if nvsOk then d\<lparr>dv_nvs := (dv_nvs d)\<lparr>nv_mode := Some (modeCode m)\<rparr>\<rparr> else d)))"

text \<open>The hooks of \<open>Ping::installWebHooks\<close>; a mode other than 0 and 1 is never written.\<close>

definition handleFillMode :: "string option \<Rightarrow> Device \<Rightarrow> Reply \<times> Device" where
  "handleFillMode v d =
     (case v of
        None \<Rightarrow> (reply 400 ''missing ?m='' 12, d)
      | Some s \<Rightarrow>
          (case dv_ping d of
             None \<Rightarrow> (reply 404 ''no fill mode (Pong?)'' 22, d)
           | Some p \<Rightarrow>
               if s = ''seq'' then (reply 200 ''ok'' 2, d\<lparr>dv_ping := Some (ping_setFillMode SEQUENTIAL p)\<rparr>)
               else if s = ''rand'' then (reply 200 ''ok'' 2, d\<lparr>dv_ping := Some (ping_setFillMode RANDOM p)\<rparr>)
               else (reply 400 (''m must be '' @ quoted ''seq'' @ '' or '' @ quoted ''rand'') 25, d)))"

definition handleMsgPause :: "string option \<Rightarrow> Device \<Rightarrow> Reply \<times> Device" where
  "handleMsgPause v d =
     (case v of
        None \<Rightarrow> (reply 400 ''missing ?p='' 12, d)
      | Some s \<Rightarrow>
          (case dv_ping d of
             None \<Rightarrow> (reply 404 ''no msg pause (Pong?)'' 22, d)
           | Some p \<Rightarrow>
               (case (if s = ''1'' \<or> s = ''true'' then Some True else if s = ''0'' \<or> s = ''false'' then Some False else None) of
                  None \<Rightarrow> (reply 400 (''p must be '' @ quoted ''1'' @ '', '' @ quoted ''0'' @ '', '' @ quoted ''true'' @ '', or '' @ quoted ''false'') 38, d)
                | Some b \<Rightarrow>
                    (case ping_setPaused b p (dv_link d) of
                       (p1, l1) \<Rightarrow>
                         (if b then reply 200 ''paused'' 6 else reply 200 ''resumed'' 7, d\<lparr>dv_ping := Some p1, dv_link := l1\<rparr>)))))"

definition handleDelay :: "string option \<Rightarrow> Device \<Rightarrow> Reply \<times> Device" where
  "handleDelay v d =
     (case v of
        None \<Rightarrow> (reply 400 ''missing ?ms='' 12, d)
      | Some s \<Rightarrow>
          (case dv_ping d of
             None \<Rightarrow> (reply 404 ''no tx delay (Pong?)'' 20, d)
           | Some p \<Rightarrow>
               let ms = c_atoi s in
               if ms < 0 then (reply 400 ''ms must be >= 0'' 15, d)
               else (reply 200 (take 15 (dec (nat ms))) (length (dec (nat ms))), d\<lparr>dv_link := setTxDelayMs ms (dv_link d)\<rparr>)))"

subsection \<open>The statistics\<close>

definition StateToStr :: "State \<Rightarrow> string" where
  "StateToStr s = (case s of OK \<Rightarrow> ''OK'' | SWP \<Rightarrow> ''SWP'')"

text \<open>The tick of each second; \<open>drv\<close> are the counters of driver and log, then signal strength, free heap and
  \<open>millis()\<close>.\<close>

definition statTimerCb :: "u64 \<times> u64 \<times> u64 \<Rightarrow> int \<Rightarrow> u32 \<Rightarrow> u32 \<Rightarrow> Device \<Rightarrow> Device" where
  "statTimerCb drv rssi heap ms d =
     (let l = dv_link d; s = (case drv of (ov, fe, ld) \<Rightarrow> getStats ov fe ld l); dg = getDiag l; mode = modeCode (link_mode l) in
      d\<lparr>dv_snap := (dv_snap d)\<lparr>
          ws_txBps := (if st_tx s \<ge> dv_prevTx d then ucast (st_tx s - dv_prevTx d) else 0),
          ws_rxBps := (if st_rx s \<ge> dv_prevRx d then ucast (st_rx s - dv_prevRx d) else 0),
          ws_txTotal := st_tx s, ws_rxTotal := st_rx s, ws_errTotal := st_discCount s, ws_errCount := ucast (st_frameErrs s),
          ws_lostMsgs := dg_lostMsgs dg, ws_postLockQuietDrops := st_postLockQuietDrops s,
          ws_rateLimitedDrops := st_rateLimitedDrops s, ws_txRingStallDrops := st_txRingStallDrops s,
          ws_logDrops := st_logDrops s, ws_state := take 3 (StateToStr (l_state l)), ws_rssi := rssi, ws_freeHeap := heap,
          ws_uptimeS := ms div 1000, ws_baudRate := getCurrentBaud l,
          ws_fillMode := (case dv_ping d of None \<Rightarrow> 0 | Some p \<Rightarrow> if pg_fillMode p = SEQUENTIAL then 0 else 1),
          ws_linkMode := mode, ws_linkModeLabel := (if mode = modeCode SYNC then ''SYNC'' else ''ASYNC''),
          ws_msgPaused := (case dv_ping d of None \<Rightarrow> 0 | Some p \<Rightarrow> if pg_paused p then 1 else 0),
          ws_txDelayMs := (case dv_ping d of None \<Rightarrow> 0 | Some p \<Rightarrow> txDelayMs l)\<rparr>,
        dv_prevTx := st_tx s, dv_prevRx := st_rx s\<rparr>)"

definition sdec :: "int \<Rightarrow> string" where
  "sdec i = (if i < 0 then ''-'' @ dec (nat (- i)) else dec (nat i))"

definition jkey :: "string \<Rightarrow> string \<Rightarrow> string" where
  "jkey sep name = sep @ QUOTE @ name @ QUOTE @ '':''"

definition jstr :: "string \<Rightarrow> string" where "jstr s = QUOTE @ s @ QUOTE"

definition stats_json :: "WebSnapshot \<Rightarrow> int \<Rightarrow> string \<Rightarrow> string" where
  "stats_json s logLevel version =
     jkey ''{'' ''state'' @ jstr (ws_state s) @ jkey '','' ''errCount'' @ dec (unat (ws_errCount s)) @
     jkey '', '' ''errTotal'' @ dec (unat (ws_errTotal s)) @ jkey '', '' ''lostMsgs'' @ dec (unat (ws_lostMsgs s)) @
     jkey '', '' ''quietDrops'' @ dec (unat (ws_postLockQuietDrops s)) @ jkey '', '' ''rateDrops'' @ dec (unat (ws_rateLimitedDrops s)) @
     jkey '', '' ''ringStallDrops'' @ dec (unat (ws_txRingStallDrops s)) @ jkey '', '' ''logDrops'' @ dec (unat (ws_logDrops s)) @
     jkey '', '' ''txBps'' @ dec (unat (ws_txBps s)) @ jkey '','' ''rxBps'' @ dec (unat (ws_rxBps s)) @
     jkey '', '' ''txTotal'' @ dec (unat (ws_txTotal s)) @ jkey '','' ''rxTotal'' @ dec (unat (ws_rxTotal s)) @
     jkey '', '' ''rssi'' @ sdec (ws_rssi s) @ jkey '','' ''freeHeap'' @ dec (unat (ws_freeHeap s)) @
     jkey '','' ''uptimeS'' @ dec (unat (ws_uptimeS s)) @ jkey '', '' ''baudRate'' @ dec (unat (ws_baudRate s)) @
     jkey '','' ''lvl'' @ sdec logLevel @ jkey '','' ''mode'' @ dec (unat (ws_fillMode s)) @
     jkey '', '' ''msgPaused'' @ dec (unat (ws_msgPaused s)) @ jkey '', '' ''linkMode'' @ dec (unat (ws_linkMode s)) @
     jkey '', '' ''linkModeLabel'' @ jstr (ws_linkModeLabel s) @ jkey '', '' ''txDelayMs'' @ sdec (ws_txDelayMs s) @
     jkey '', '' ''role'' @ jstr (ws_role s) @ jkey '', '' ''webLogDropped'' @ dec (unat (ws_webLogDropped s)) @
     jkey '', '' ''version'' @ jstr version @ ''}''"

text \<open>The text in the buffer and the length it would need.\<close>

definition formatStatsJson :: "WebSnapshot \<Rightarrow> int \<Rightarrow> string \<Rightarrow> nat \<Rightarrow> string \<times> nat" where
  "formatStatsJson s logLevel version outLen =
     (if outLen = 0 then ([], 0)
      else (take (outLen - 1) (stats_json s logLevel version), length (stats_json s logLevel version)))"

definition handleStats :: "string \<Rightarrow> Device \<Rightarrow> Reply" where
  "handleStats version d =
     (case formatStatsJson (dv_snap d) (dv_level d) version 512 of (t, n) \<Rightarrow> reply 200 t n)"

subsection \<open>The page, and the body of a refused upload\<close>

text \<open>\<open>httpd_resp_send_chunk\<close> in turn until one is refused: did all go out, and which did.\<close>

fun send_chunks :: "(nat \<Rightarrow> bool) \<Rightarrow> nat \<Rightarrow> string list \<Rightarrow> bool \<times> string list" where
  "send_chunks ans k [] = (True, [])"
| "send_chunks ans k (c # cs) =
     (if ans k then (case send_chunks ans (k + 1) cs of (ok, out) \<Rightarrow> (ok, c # out)) else (False, []))"

function part_chunks :: "string \<Rightarrow> string list" where
  "part_chunks data = (if data = [] then [] else take 4096 data # part_chunks (drop 4096 data))"
  by auto
termination by (relation "measure length") auto

declare part_chunks.simps [simp del]

text \<open>\<open>file\<close>: the pieces the file system reads of \<open>/web/index.html\<close>, if it is there; otherwise the built-in page
  goes out, part by part. The last, empty chunk ends the response.\<close>

definition handleRoot :: "string list option \<Rightarrow> string list \<Rightarrow> (nat \<Rightarrow> bool) \<Rightarrow> bool \<times> string list" where
  "handleRoot file parts ans =
     (case send_chunks ans 0 (case file of Some pieces \<Rightarrow> pieces | None \<Rightarrow> concat (map part_chunks parts)) of
        (ok, out) \<Rightarrow> (ok, if ok then out @ [[]] else out))"

lemma part_chunks_concat: "concat (part_chunks data) = data"
proof (induction data rule: part_chunks.induct)
  case (1 data)
  then show ?case by (subst part_chunks.simps) simp
qed

lemma part_chunks_small: "c \<in> set (part_chunks data) \<Longrightarrow> 0 < length c \<and> length c \<le> 4096"
proof (induction data rule: part_chunks.induct)
  case (1 data)
  then show ?case by (subst (asm) part_chunks.simps) (auto split: if_splits)
qed

lemma send_chunks_prefix: "send_chunks ans k cs = (ok, out) \<Longrightarrow> (ok \<longrightarrow> out = cs) \<and> out = take (length out) cs"
  by (induction cs arbitrary: k ok out) (auto split: if_splits prod.splits)

text \<open>\<open>drainBody_\<close>: the answers of \<open>httpd_req_recv\<close>, where -3 is a time-out; \<open>None\<close> when they run out.\<close>

fun drainBody :: "int list \<Rightarrow> nat \<Rightarrow> nat option" where
  "drainBody [] remaining = (if remaining > 0 then None else Some 0)"
| "drainBody (r # rs) remaining =
     (if remaining = 0 then Some 0
      else if r = -3 then drainBody rs remaining
      else if r \<le> 0 then Some remaining
      else drainBody rs (remaining - nat r))"

subsection \<open>Start-up\<close>

text \<open>\<open>initSerial\<close> sets the level of the log.\<close>

definition initSerial :: "Device \<Rightarrow> Device" where
  "initSerial d = d\<lparr>dv_level := LOG_INFO\<rparr>"

text \<open>The level \<open>begin\<close> restores; the flags say whether flash could be read and written.\<close>

definition web_restoreLevel :: "bool \<Rightarrow> bool \<Rightarrow> Device \<Rightarrow> Device" where
  "web_restoreLevel prefsOk p2Ok d =
     (if \<not> prefsOk then d
      else
        let saved = (case nv_level (dv_nvs d) of None \<Rightarrow> 0xFF | Some v \<Rightarrow> v) in
        if saved = 0xFF then d
        else if saved = 0 then
          (let d1 = d\<lparr>dv_level := LOG_INFO\<rparr> in
           if p2Ok then d1\<lparr>dv_nvs := (dv_nvs d1)\<lparr>nv_level := Some 3\<rparr>\<rparr> else d1)
        else if saved \<le> 5 then d\<lparr>dv_level := uint saved\<rparr>
        else d)"

definition web_boot :: "bool \<Rightarrow> bool \<Rightarrow> Device \<Rightarrow> Device" where
  "web_boot prefsOk p2Ok d = web_restoreLevel prefsOk p2Ok (initSerial d)"

definition setRole :: "string \<Rightarrow> Device \<Rightarrow> Device" where
  "setRole role d = d\<lparr>dv_snap := (dv_snap d)\<lparr>ws_role := take 7 role\<rparr>\<rparr>"

text \<open>The cap on the message size, applied by the constructor and by \<open>setLinkMaxMsg\<close>.\<close>

definition web_capMaxMsg :: "nat \<Rightarrow> Link \<Rightarrow> Link" where
  "web_capMaxMsg cap l = (if maxMsg l > cap then setMaxMsg cap l else l)"

subsection \<open>The requests\<close>

text \<open>The table of \<open>setupHttpAndLogging_\<close>, without the pages and the updates.\<close>

datatype WebRequest =
    GetStats | PostReset bool | PostLevel "string option" bool | PostMode "string option" bool
  | PostFillMode "string option" | PostPauseMsg "string option" | PostDelay "string option"

fun web_handle :: "string \<Rightarrow> WebRequest \<Rightarrow> Device \<Rightarrow> Reply \<times> Device" where
  "web_handle version GetStats d = (handleStats version d, d)"
| "web_handle version (PostReset locked) d = handleReset locked d"
| "web_handle version (PostLevel v nvsOk) d = handleLevel v nvsOk d"
| "web_handle version (PostMode v nvsOk) d = handleMode v nvsOk d"
| "web_handle version (PostFillMode v) d = handleFillMode v d"
| "web_handle version (PostPauseMsg v) d = handleMsgPause v d"
| "web_handle version (PostDelay v) d = handleDelay v d"

end
