(* ===== verification/PingProps.thy ===== *)
theory PingProps
  imports Ping LinkDemo
begin

text \<open>
  The properties of the ping-pong application: how it counts, when it stops for a gap. The witnesses run on the demo links.
\<close>

text \<open>C32: a pass of the loop keeps the ring of a Ping consistent, whatever the other tasks do to the link
  in its windows, and the task of the HTTP server to the Ping itself (a change of the fill mode, Pause, Start)
  while the pass makes a call: the head stays below 32, the count between -1 and 32, the tail where the two put it,
  the ramp between one byte and the largest message, and a held-back message is not empty. Where no Start comes in
  during the pass, a count that was not negative does not become so. It can: Start empties the queue between the
  check of the oldest message and the decrement (the case of the witness), which leaves -1.\<close>

theorem ping_loop_keeps_ok:
  assumes "rnd_ok rnd" and "ping_inv (-1) p" and "ping_loop rnd drv io p l = Some (p', l', io')"
  shows "pg_head p' < 32 \<and> -1 \<le> pg_count p' \<and> pg_count p' \<le> 32 \<and>
    int (pg_tail p') = (int (pg_head p') + pg_count p') mod 32 \<and>
    1 \<le> pg_seqSize p' \<and> pg_seqSize p' \<le> pg_maxSeqSize p' \<and>
    (pg_havePendingDraw p' \<longrightarrow> 1 \<le> pg_pendingDrawLen p') \<and>
    (no_resume io \<and> 0 \<le> pg_count p \<longrightarrow> 0 \<le> pg_count p')"
proof -
  have all: "ping_inv (-1) p'"
    using keeps_invD [OF ping_loop_inv [OF assms(1,2)] assms(3)] by (simp add: calls_ok_def)
  have "ping_inv 0 p'" if "no_resume io" "0 \<le> pg_count p"
  proof -
    have "ping_inv 0 p" using assms(2) that(2) by (simp add: ping_inv_def)
    then show ?thesis
      using keeps_invD [OF ping_loop_inv [OF assms(1)] assms(3), of 0] that(1) by (simp add: calls_ok_def)
  qed
  then show ?thesis using all by (auto simp: ping_inv_def WINDOW_eq)
qed

text \<open>C33: the forced end of a gap stop lasts one pass. When the missing number has been waited for more
  than five seconds, the pass clears the stop; but the link still names that number as its last
  NAK and still has it pending, so the next pass, whatever this one did besides, stops sending
  again and restarts the five seconds.\<close>

theorem gap_force_resume_one_pass:
  assumes "pg_gapSeq p = g" "g \<noteq> PING_GAP_NO_GAP" "pg_tGapStopMs p \<noteq> 0" "now - pg_tGapStopMs p > 5000"
    and "lastNakSeq l = g" "\<not> isAcked g l" and "lastNakSeq l' = g" "\<not> isAcked g l'"
    and "pg_gapSeq q = pg_gapSeq (ping_gap now l p)"
  shows "pg_gapSeq (ping_gap now l p) = PING_GAP_NO_GAP \<and>
    pg_gapSeq (ping_gap now' l' q) = g \<and> pg_tGapStopMs (ping_gap now' l' q) = now'"
proof -
  have "pg_gapSeq (ping_gap now l p) = PING_GAP_NO_GAP"
    using assms(1-6) by (simp add: ping_gap_def gap_step_def decideGapTransition_def Let_def GAP_STOP_FORCE_RESUME_MS_def)
  then show ?thesis
    using assms(2,7-9) by (simp add: ping_gap_def gap_step_def decideGapTransition_def Let_def)
qed

text \<open>A gap stop follows the link. Sending stops when the last NAK names a number the link has
  pending, moves on when the NAK moves on, and ends as soon as the number is acknowledged.\<close>

theorem gap_stop_follows_link:
  fixes l :: Link and p :: Ping and now :: u32
  defines "p' \<equiv> ping_gap now l p" and "gap \<equiv> pg_gapSeq p" and "nak \<equiv> lastNakSeq l"
  shows "(gap = PING_GAP_NO_GAP \<longrightarrow> nak \<noteq> PING_GAP_NO_GAP \<longrightarrow> \<not> isAcked nak l \<longrightarrow> pg_gapSeq p' = nak \<and> pg_tGapStopMs p' = now) \<and>
    (gap = PING_GAP_NO_GAP \<longrightarrow> nak = PING_GAP_NO_GAP \<or> isAcked nak l \<longrightarrow> pg_gapSeq p' = PING_GAP_NO_GAP) \<and>
    (gap \<noteq> PING_GAP_NO_GAP \<longrightarrow> nak \<noteq> PING_GAP_NO_GAP \<longrightarrow> nak \<noteq> gap \<longrightarrow> \<not> isAcked nak l \<longrightarrow>
       pg_gapSeq p' = nak \<and> pg_tGapStopMs p' = now) \<and>
    (gap \<noteq> PING_GAP_NO_GAP \<longrightarrow> nak = PING_GAP_NO_GAP \<or> nak = gap \<longrightarrow> isAcked gap l \<longrightarrow> pg_gapSeq p' = PING_GAP_NO_GAP)"
  by (auto simp: p'_def gap_def nak_def ping_gap_def gap_step_def decideGapTransition_def Let_def GAP_STOP_FORCE_RESUME_MS_def)

subsection \<open>Witnesses\<close>

definition demo_rnd :: "nat \<Rightarrow> int \<Rightarrow> int" where "demo_rnd k n = 0"

definition demo_ping :: Ping where
  "demo_ping = ping_init\<lparr>pg_fillMode := RANDOM, pg_paused := False, pg_wasReady := True\<rparr>"

lemma demo_rnd_ok: "rnd_ok demo_rnd"
  by (simp add: rnd_ok_def demo_rnd_def)

text \<open>Number 0 is pending, number 5 is not.\<close>

definition demo_pend :: Link where
  "demo_pend = l_arq_update (arq_onSent 0 0 5000 0) (demo_link True)"

lemma demo_pend_pending: "isAcked 5 demo_pend" "\<not> isAcked 0 demo_pend"
  by (simp_all add: demo_pend_def isAcked_def arq_isPending_def arq_onSent_def arq_new_def arq_clearAll_def
    budgetIdx_def wire_defs Let_def)

lemma demo_pend_simps [simp]: "l_now demo_pend = 5000" "al_ready demo_pend" "lastNakSeq demo_pend = PING_GAP_NO_GAP"
  "al_recv BUF_SIZE demo_pend = Some (0, [], demo_pend)" "txDelayMs demo_pend = 0"
  by (simp_all add: demo_pend_def facade_defs demo_link_def link_new_def demo_hal_def demo_cfg_def recvMsg_def
    recvMsg_header_def hal_appBufAvailable_def codec_inMsg_def codec_init_def PING_GAP_NO_GAP_def wire_defs config_default_def)

text \<open>A pass that cools down after a refusal, with number 5 at the head of the queue; Start comes in during
  the log line of its acknowledgement.\<close>

definition demo_waiting :: Ping where
  "demo_waiting = (ping_sent 5 0 demo_pend (ping_slot 10 0 demo_ping))\<lparr>pg_backpressureCoolUntilMs := 6000\<rparr>"

definition demo_calls :: pio where
  "demo_calls = replicate 7 ([], []) @ [([HookPause False, HookResume 5000], [])]"

lemma demo_waiting_inv: "ping_inv (-1) demo_waiting"
  by (simp add: demo_waiting_def ping_slot_def ping_sent_def ping_enqueue_def ping_nextSize_def demo_ping_def ping_init_def
    ping_inv_def WINDOW_eq BUF_SIZE_def wire_defs Let_def)

lemma demo_waiting_simps:
  "pg_count demo_waiting = 1" "pg_head demo_waiting = 0" "sl_seq (pg_queue demo_waiting 0) = 5" "pg_wasReady demo_waiting"
  "pg_tReady demo_waiting = 0" "pg_gapSeq demo_waiting = PING_GAP_NO_GAP" "pg_tGapStopMs demo_waiting = 0"
  "\<not> pg_paused demo_waiting" "pg_backpressureCoolUntilMs demo_waiting = 6000" "pg_tStall demo_waiting = 0"
  by (simp_all add: demo_waiting_def ping_slot_def ping_sent_def ping_enqueue_def ping_nextSize_def demo_ping_def ping_init_def
    WINDOW_eq Let_def)

definition demo_popped :: Ping where
  "demo_popped = ping_pop (fold hook_do [HookPause False, HookResume 5000]
    (demo_waiting\<lparr>pg_successEchoCount := pg_successEchoCount demo_waiting + 1\<rparr>))"

lemma demo_waiting_reap:
  "ping_reap [([], []), ([HookPause False, HookResume 5000], [])] demo_waiting demo_pend = Some (demo_popped, demo_pend, [])"
  using demo_pend_pending(1)
  by (simp add: ping_reap.simps [of "[([], []), ([HookPause False, HookResume 5000], [])]"] ping_reap.simps [of "[]"]
    demo_waiting_simps enter_def demo_popped_def ping_pop_def clearQueue_def)

lemma demo_waiting_same: "demo_waiting\<lparr>pg_tStall := 0\<rparr> = demo_waiting" "ping_gap 5000 demo_pend demo_waiting = demo_waiting"
proof -
  have "demo_waiting\<lparr>pg_tStall := pg_tStall demo_waiting\<rparr> = demo_waiting"
    "demo_waiting\<lparr>pg_gapSeq := pg_gapSeq demo_waiting, pg_tGapStopMs := pg_tGapStopMs demo_waiting\<rparr> = demo_waiting" by simp_all
  then show "demo_waiting\<lparr>pg_tStall := 0\<rparr> = demo_waiting" "ping_gap 5000 demo_pend demo_waiting = demo_waiting"
    by (simp_all add: ping_gap_def gap_step_def decideGapTransition_def demo_waiting_simps Let_def)
qed

lemma demo_waiting_run:
  "\<exists>p'. ping_loop demo_rnd (0, 0, 0) demo_calls demo_waiting demo_pend = Some (p', demo_pend, []) \<and> pg_count p' = -1"
proof -
  have io: "demo_calls = ([], []) # ([], []) # ([], []) # ([], []) # ([], []) # ([], []) # ([], []) #
      [([HookPause False, HookResume 5000], [])]"
    by (simp add: demo_calls_def numeral_eq_Suc)
  have call: "pcall (([], []) # io) p l = Some (p, l, io)" for io p l by (simp add: enter_def)
  have gap: "ping_gapRun 5000 (([], []) # ([], []) # ([], []) # ([], []) # io) demo_waiting demo_pend = Some (demo_waiting, demo_pend, io)" for io
    using ping_gapRun_alone [of 5000 io demo_waiting demo_pend] by (simp add: numeral_eq_Suc demo_waiting_same)
  have "send_held 0 5000 demo_waiting" by (simp add: send_held_def demo_waiting_simps)
  then have sends: "ping_sends demo_rnd MAX_TX_PER_LOOP 0 5000 io demo_waiting demo_pend = Some (demo_waiting, demo_pend, io)" for io
    by (simp add: MAX_TX_PER_LOOP_def numeral_eq_Suc)
  have drain: "pdrain (([], []) # io) demo_waiting demo_pend = Some (0, demo_waiting, demo_pend, io)" for io
    by (simp add: enter_def)
  have "link_mode demo_pend = ASYNC" by (simp add: link_mode_def demo_pend_def)
  then have active: "ping_active demo_rnd (0, 0, 0) 5000 [([], []), ([], []), ([HookPause False, HookResume 5000], [])] demo_waiting demo_pend =
      Some (ping_stats False (0, 0, 0) demo_pend (demo_popped\<lparr>pg_consecTransient := 0\<rparr>), demo_pend, [])"
    by (simp add: ping_active_def sends drain demo_waiting_reap del: pdrain.simps)
  have "ping_loop demo_rnd (0, 0, 0) demo_calls demo_waiting demo_pend =
      Some (ping_stats False (0, 0, 0) demo_pend (demo_popped\<lparr>pg_consecTransient := 0\<rparr>), demo_pend, [])"
    by (simp add: ping_loop_def io call ping_firstReady_def ping_stall_def demo_waiting_same demo_waiting_simps gap active
      SETTLE_MS_def WINDOW_eq wire_defs Let_def del: pcall.simps)
  moreover have "pg_count demo_popped = -1" by (simp add: demo_popped_def ping_pop_def clearQueue_def)
  ultimately show ?thesis by (simp add: ping_stats_inv)
qed

theorem ping_loop_keeps_ok_witness:
  "\<exists>p'. ping_loop demo_rnd (0, 0, 0) demo_calls demo_waiting demo_pend = Some (p', demo_pend, []) \<and>
    pg_count p' = -1 \<and> int (pg_tail p') = (int (pg_head p') - 1) mod 32"
proof -
  obtain p' where run: "ping_loop demo_rnd (0, 0, 0) demo_calls demo_waiting demo_pend = Some (p', demo_pend, [])"
    and neg: "pg_count p' = -1" using demo_waiting_run by blast
  have "int (pg_tail p') = (int (pg_head p') + pg_count p') mod 32"
    using ping_loop_keeps_ok [OF demo_rnd_ok demo_waiting_inv run] by (elim conjE)
  then show ?thesis using run neg by simp
qed

definition demo_naked :: Link where
  "demo_naked = l_t_update (\<lambda>t. t\<lparr>t_lastNakSeq := 0\<rparr>) demo_pend"

theorem gap_force_resume_one_pass_witness:
  "pg_gapSeq (ping_gap 9000 demo_naked (demo_ping\<lparr>pg_gapSeq := 0, pg_tGapStopMs := 1000\<rparr>)) = PING_GAP_NO_GAP \<and>
    pg_gapSeq (ping_gap 9010 demo_naked demo_ping) = 0"
proof -
  have l: "lastNakSeq demo_naked = 0" "\<not> isAcked 0 demo_naked"
    using demo_pend_pending(2) by (simp_all add: demo_naked_def lastNakSeq_def isAcked_def)
  show ?thesis
    using gap_force_resume_one_pass [of "demo_ping\<lparr>pg_gapSeq := 0, pg_tGapStopMs := 1000\<rparr>" 0 9000 demo_naked demo_naked demo_ping 9010]
      gap_force_resume_one_pass [of "demo_ping\<lparr>pg_gapSeq := 0, pg_tGapStopMs := 1000\<rparr>" 0 9000 demo_naked demo_naked
        "ping_gap 9000 demo_naked (demo_ping\<lparr>pg_gapSeq := 0, pg_tGapStopMs := 1000\<rparr>)" 9010] l
    by (simp add: PING_GAP_NO_GAP_def demo_ping_def ping_init_def)
qed

text \<open>The link's last NAK names number 0, which is pending.\<close>

theorem gap_stop_follows_link_witness:
  "pg_gapSeq (ping_gap 9000 demo_naked demo_ping) = 0"
proof -
  have l: "lastNakSeq demo_naked = 0" "\<not> isAcked 0 demo_naked"
    using demo_pend_pending(2) by (simp_all add: demo_naked_def lastNakSeq_def isAcked_def)
  have g: "pg_gapSeq demo_ping = PING_GAP_NO_GAP" by (simp add: demo_ping_def ping_init_def)
  show ?thesis
    using conjunct1 [OF gap_stop_follows_link [where l = demo_naked and p = demo_ping and now = 9000]] l g
    by (simp add: PING_GAP_NO_GAP_def)
qed

end
