(* ===== verification/WebProps.thy ===== *)
theory WebProps
  imports WebCtl PingProps LinkSession
begin

text \<open>
  The properties of the web monitor's controls: what a refused request leaves alone, what survives a
  restart, what the statistics count.
\<close>

lemma handler_defs: "web_handle version r d = (rp, d') \<Longrightarrow> rp_status rp \<noteq> 200 \<Longrightarrow> d' = d"
  by (cases r)
    (auto simp: handleStats_def handleReset_def handleLevel_def handleMode_def handleFillMode_def handleMsgPause_def
      handleDelay_def reply_def applyLogLevel_def Let_def split: option.splits if_splits prod.splits)

text \<open>What an accepted request does to the device, one fact for each kind.\<close>

definition counters_zeroed :: "Link \<Rightarrow> Link" where
  "counters_zeroed l =
     l_c_update (\<lambda>c. c\<lparr>c_txBytes := 0, c_rxBytes := 0, c_gaps := 0, c_stale := 0, c_lostMsgs := 0\<rparr>)
      (l_n_update (\<lambda>n. n\<lparr>n_discCount := 0, n_frameErrs := 0, n_droppedChunksOnReset := 0, n_badHeaderErrs := 0,
         n_overLenErrs := 0, n_crcFailErrs := 0, n_gbnWindowFullDrops := 0, n_poolExhaustDrops := 0\<rparr>)
       (l_e_update (\<lambda>e. e\<lparr>e_lastBadHeaderLogMs := 0, e_errWindowCount := 0, e_errWindowStartMs := l_now l\<rparr>) l))"

lemma reset_effect:
  assumes "handleReset locked d = (rp, d')"
  shows "d' = d\<lparr>dv_link := counters_zeroed (dv_link d),
      dv_prevTx := (if locked then 0 else dv_prevTx d), dv_prevRx := (if locked then 0 else dv_prevRx d)\<rparr>"
proof -
  have "resetDiag (resetErrors (resetStats (dv_link d))) = counters_zeroed (dv_link d)"
    by (simp add: resetStats_def resetErrors_def resetDiag_def counters_zeroed_def)
  then show ?thesis using assms by (auto simp: handleReset_def Let_def)
qed

lemma level_effect:
  assumes "handleLevel v nvsOk d = (rp, d')" "rp_status rp = 200"
  shows "\<exists>s. v = Some s \<and> 1 \<le> c_atoi s \<and> c_atoi s \<le> 5 \<and>
    d' = d\<lparr>dv_level := c_atoi s,
      dv_nvs := (if nvsOk then (dv_nvs d)\<lparr>nv_level := Some (word_of_int (c_atoi s))\<rparr> else dv_nvs d)\<rparr>"
  using assms
  by (auto simp: handleLevel_def reply_def applyLogLevel_def parseLevelQuery_def LOG_NONE_def LOG_VERBOSE_def Let_def
      split: option.splits if_splits prod.splits)

lemma mode_effect:
  assumes "handleMode v nvsOk d = (rp, d')" "rp_status rp = 200"
  shows "\<exists>m \<in> {SYNC, ASYNC}. v = Some (if m = SYNC then ''SYNC'' else ''ASYNC'') \<and>
    d' = (if nvsOk then d\<lparr>dv_nvs := (dv_nvs d)\<lparr>nv_mode := Some (if m = SYNC then 0 else 1)\<rparr>\<rparr> else d)"
  using assms by (auto simp: handleMode_def reply_def modeCode_def split: option.splits if_splits)

lemma fill_effect:
  assumes "handleFillMode v d = (rp, d')" "rp_status rp = 200"
  shows "\<exists>p. dv_ping d = Some p \<and>
    (v = Some ''seq'' \<and> d' = d\<lparr>dv_ping := Some (p\<lparr>pg_fillMode := SEQUENTIAL, pg_seqSize := 1\<rparr>)\<rparr> \<or>
     v = Some ''rand'' \<and> d' = d\<lparr>dv_ping := Some (p\<lparr>pg_fillMode := RANDOM\<rparr>)\<rparr>)"
  using assms by (auto simp: handleFillMode_def ping_setFillMode_def reply_def Let_def split: option.splits if_splits)

text \<open>A Ping that starts anew: nothing waiting, no gap, no held-back message, the rates from zero; mode, ramp and
  echoes counted stay.\<close>

definition ping_restarted :: "u32 \<Rightarrow> Ping \<Rightarrow> Ping" where
  "ping_restarted now p =
     p\<lparr>pg_paused := False, pg_head := 0, pg_tail := 0, pg_count := 0, pg_tStall := 0, pg_gapSeq := PING_GAP_NO_GAP,
       pg_tGapStopMs := 0, pg_havePendingDraw := False, pg_tNextSendMs := 0, pg_tSweepStall := now,
       pg_stat := resetStatBaseline (pg_stat p)\<rparr>"

lemma setPaused_effect:
  assumes "ping_setPaused b p l = (p1, l1)"
  shows "if b then p1 = p\<lparr>pg_paused := True\<rparr> \<and> l1 = l_s_update (\<lambda>s. s\<lparr>s_linkPaused := True\<rparr>) l
    else l1 = kickoff (l_s_update (\<lambda>s. s\<lparr>s_linkPaused := False\<rparr>) l) \<and> p1 = ping_restarted (l_now l) p"
  using assms by (cases b) (auto simp: ping_setPaused_def setLinkPaused_def clearQueue_def ping_restarted_def Let_def)

lemma pause_effect:
  assumes "handleMsgPause v d = (rp, d')" "rp_status rp = 200"
  shows "\<exists>p. dv_ping d = Some p \<and>
    (v \<in> {Some ''1'', Some ''true''} \<and>
       d' = d\<lparr>dv_ping := Some (p\<lparr>pg_paused := True\<rparr>), dv_link := l_s_update (\<lambda>s. s\<lparr>s_linkPaused := True\<rparr>) (dv_link d)\<rparr> \<or>
     v \<in> {Some ''0'', Some ''false''} \<and>
       d' = d\<lparr>dv_ping := Some (ping_restarted (l_now (dv_link d)) p),
         dv_link := kickoff (l_s_update (\<lambda>s. s\<lparr>s_linkPaused := False\<rparr>) (dv_link d))\<rparr>)"
proof -
  obtain s where v: "v = Some s" using assms by (cases v) (auto simp: handleMsgPause_def reply_def)
  obtain p where p: "dv_ping d = Some p" using assms by (cases "dv_ping d") (auto simp: handleMsgPause_def reply_def v)
  define bo where "bo = (if s = ''1'' \<or> s = ''true'' then Some True else if s = ''0'' \<or> s = ''false'' then Some False else None)"
  obtain b where b: "bo = Some b"
    using assms unfolding handleMsgPause_def v p option.case bo_def [symmetric] by (cases bo) (auto simp: reply_def)
  obtain p1 l1 where e: "ping_setPaused b p (dv_link d) = (p1, l1)" by fastforce
  have d': "d' = d\<lparr>dv_ping := Some p1, dv_link := l1\<rparr>"
    using assms(1) unfolding handleMsgPause_def v p option.case bo_def [symmetric] b by (simp add: e)
  have "if b then s = ''1'' \<or> s = ''true'' else s = ''0'' \<or> s = ''false''"
    using b unfolding bo_def by (cases "s = ''1'' \<or> s = ''true''"; cases "s = ''0'' \<or> s = ''false''") (simp_all only: if_True if_False, auto)
  then show ?thesis using setPaused_effect [OF e] by (cases b) (auto simp: v p d')
qed

lemma delay_effect:
  assumes "handleDelay v d = (rp, d')" "rp_status rp = 200"
  shows "\<exists>s p. v = Some s \<and> dv_ping d = Some p \<and> 0 \<le> c_atoi s \<and>
    d' = d\<lparr>dv_link := l_cfg_update (\<lambda>c. c\<lparr>cfg_txDelayMs := c_atoi s\<rparr>) (dv_link d)\<rparr>"
  using assms by (auto simp: handleDelay_def setTxDelayMs_def reply_def Let_def split: option.splits if_splits)

text \<open>C37: each web control does its own thing and nothing else. A request that is refused changes nothing at all. An
  accepted one changes the device exactly so: a reset zeroes the listed counters of the link, restarts its error window
  and, with the lock, zeroes the two bases of the rates; a level between 1 and 5 sets the
  log level and is remembered in flash; a mode is only remembered in flash; a fill mode sets that of the Ping, with
  the ramp back to one byte for the sequential one; a pause stops Ping and link; a resume restarts the Ping
  and kicks the link off; a delay sets the delay between sends; reading the statistics changes nothing.\<close>

theorem web_requests_confined:
  assumes "web_handle version r d = (rp, d')"
  shows "if rp_status rp \<noteq> 200 then d' = d
    else (case r of
        GetStats \<Rightarrow> d' = d
      | PostReset locked \<Rightarrow>
          d' = d\<lparr>dv_link := counters_zeroed (dv_link d), dv_prevTx := (if locked then 0 else dv_prevTx d),
            dv_prevRx := (if locked then 0 else dv_prevRx d)\<rparr>
      | PostLevel v nvsOk \<Rightarrow>
          (\<exists>s. v = Some s \<and> 1 \<le> c_atoi s \<and> c_atoi s \<le> 5 \<and>
             d' = d\<lparr>dv_level := c_atoi s,
               dv_nvs := (if nvsOk then (dv_nvs d)\<lparr>nv_level := Some (word_of_int (c_atoi s))\<rparr> else dv_nvs d)\<rparr>)
      | PostMode v nvsOk \<Rightarrow>
          (\<exists>m \<in> {SYNC, ASYNC}. v = Some (if m = SYNC then ''SYNC'' else ''ASYNC'') \<and>
             d' = (if nvsOk then d\<lparr>dv_nvs := (dv_nvs d)\<lparr>nv_mode := Some (if m = SYNC then 0 else 1)\<rparr>\<rparr> else d))
      | PostFillMode v \<Rightarrow>
          (\<exists>p. dv_ping d = Some p \<and>
             (v = Some ''seq'' \<and> d' = d\<lparr>dv_ping := Some (p\<lparr>pg_fillMode := SEQUENTIAL, pg_seqSize := 1\<rparr>)\<rparr> \<or>
              v = Some ''rand'' \<and> d' = d\<lparr>dv_ping := Some (p\<lparr>pg_fillMode := RANDOM\<rparr>)\<rparr>))
      | PostPauseMsg v \<Rightarrow>
          (\<exists>p. dv_ping d = Some p \<and>
             (v \<in> {Some ''1'', Some ''true''} \<and>
                d' = d\<lparr>dv_ping := Some (p\<lparr>pg_paused := True\<rparr>),
                  dv_link := l_s_update (\<lambda>s. s\<lparr>s_linkPaused := True\<rparr>) (dv_link d)\<rparr> \<or>
              v \<in> {Some ''0'', Some ''false''} \<and>
                d' = d\<lparr>dv_ping := Some (ping_restarted (l_now (dv_link d)) p),
                  dv_link := kickoff (l_s_update (\<lambda>s. s\<lparr>s_linkPaused := False\<rparr>) (dv_link d))\<rparr>))
      | PostDelay v \<Rightarrow>
          (\<exists>s p. v = Some s \<and> dv_ping d = Some p \<and> 0 \<le> c_atoi s \<and>
             d' = d\<lparr>dv_link := l_cfg_update (\<lambda>c. c\<lparr>cfg_txDelayMs := c_atoi s\<rparr>) (dv_link d)\<rparr>))"
proof (cases "rp_status rp = 200")
  case True
  show ?thesis
  proof (cases r)
    case GetStats
    then show ?thesis using assms True by simp
  next
    case (PostReset locked)
    then show ?thesis using assms True reset_effect [of locked d rp d'] by simp
  next
    case (PostLevel v nvsOk)
    then show ?thesis using assms True level_effect [of v nvsOk d rp d'] by simp
  next
    case (PostMode v nvsOk)
    then show ?thesis using assms True mode_effect [of v nvsOk d rp d'] by simp
  next
    case (PostFillMode v)
    then show ?thesis using assms True fill_effect [of v d rp d'] by simp
  next
    case (PostPauseMsg v)
    then show ?thesis using assms True pause_effect [of v d rp d'] by simp
  next
    case (PostDelay v)
    then show ?thesis using assms True delay_effect [of v d rp d'] by simp
  qed
qed (use handler_defs [OF assms] in simp)

lemma level_accepted:
  assumes "handleLevel v nvsOk d = (rp, d')" "rp_status rp = 200"
  shows "1 \<le> dv_level d' \<and> dv_level d' \<le> 5 \<and> (\<exists>s. v = Some s \<and> dv_level d' = c_atoi s) \<and>
    (nvsOk \<longrightarrow> nv_level (dv_nvs d') = Some (word_of_int (dv_level d')))"
  using assms
  by (auto simp: handleLevel_def reply_def applyLogLevel_def parseLevelQuery_def LOG_NONE_def LOG_VERBOSE_def Let_def
      split: option.splits if_splits prod.splits)

text \<open>A log level set over the web survives a restart. A request that is answered with 200 has set a level
  between 1 and 5, the number of its text; with flash writable, the next start of any device with
  that flash, whatever level the boot sets first, ends with the same level.\<close>

theorem web_level_survives:
  assumes "handleLevel v True d = (rp, d')" "rp_status rp = 200" and "dv_nvs boot = dv_nvs d'"
  shows "1 \<le> dv_level d' \<and> dv_level d' \<le> 5 \<and> v \<noteq> None \<and> dv_level d' = c_atoi (the v) \<and>
    dv_level (web_boot True p2Ok boot) = dv_level d'"
proof -
  have l: "1 \<le> dv_level d'" "dv_level d' \<le> 5" "\<exists>s. v = Some s \<and> dv_level d' = c_atoi s"
    "nv_level (dv_nvs d') = Some (word_of_int (dv_level d'))"
    using level_accepted [OF assms(1,2)] by simp_all
  define w :: u8 where "w = word_of_int (dv_level d')"
  have u: "uint w = dv_level d'" using l(1,2) by (simp add: w_def uint_word_of_int)
  have "w \<noteq> 0" "w \<noteq> 0xFF" "w \<le> 5" using u l(1,2) by (auto simp: word_le_def)
  then have "dv_level (web_boot True p2Ok boot) = uint w"
    using l(4) assms(3) by (simp add: web_boot_def web_restoreLevel_def initSerial_def w_def [symmetric] Let_def)
  then show ?thesis using l u by auto
qed

text \<open>A start of the device, or a request.\<close>

datatype WebEvent = Boot bool bool | Request WebRequest

fun web_event :: "string \<Rightarrow> WebEvent \<Rightarrow> Device \<Rightarrow> Device" where
  "web_event version (Boot prefsOk p2Ok) d = web_boot prefsOk p2Ok d"
| "web_event version (Request r) d = snd (web_handle version r d)"

lemma event_level: "1 \<le> dv_level d \<Longrightarrow> dv_level d \<le> 5 \<Longrightarrow> 1 \<le> dv_level (web_event version e d) \<and> dv_level (web_event version e d) \<le> 5"
proof (induction e)
  case (Boot p q)
  have "1 \<le> uint w \<and> uint w \<le> 5" if "w \<noteq> 0" "w \<le> (5 :: u8)" for w
  proof -
    have "uint w \<noteq> 0" using that(1) by (simp add: uint_0_iff)
    then show ?thesis using that(2) by (simp add: word_le_def order_neq_le_trans int_one_le_iff_zero_less)
  qed
  then show ?case by (auto simp: web_boot_def web_restoreLevel_def initSerial_def LOG_INFO_def Let_def split: option.splits)
next
  case (Request r)
  then show ?case
    by (cases r)
      (auto simp: handleMode_def handleReset_def handleDelay_def handleFillMode_def handleMsgPause_def handleLevel_def
        applyLogLevel_def LOG_NONE_def LOG_VERBOSE_def Let_def split: option.splits if_splits prod.splits)
qed

text \<open>The log can never be silenced. From the first start on, whatever flash holds, whatever requests
  come and whenever the device restarts, the level stays between ERROR and VERBOSE.\<close>

theorem web_never_silences:
  "1 \<le> dv_level (fold (web_event version) es (web_boot prefsOk p2Ok d)) \<and>
    dv_level (fold (web_event version) es (web_boot prefsOk p2Ok d)) \<le> 5"
proof -
  have keep: "1 \<le> dv_level x \<Longrightarrow> dv_level x \<le> 5 \<Longrightarrow> 1 \<le> dv_level (fold (web_event version) es x) \<and> dv_level (fold (web_event version) es x) \<le> 5"
    for x
  proof (induction es arbitrary: x)
    case (Cons e es)
    then show ?case using event_level [OF Cons.prems] by simp
  qed simp
  have "1 \<le> dv_level (web_boot prefsOk p2Ok d) \<and> dv_level (web_boot prefsOk p2Ok d) \<le> 5"
    using event_level [of "initSerial d" version "Boot prefsOk p2Ok"] by (simp add: initSerial_def web_boot_def LOG_INFO_def)
  then show ?thesis using keep by blast
qed

text \<open>The dashboard goes out whole: if every chunk is accepted, the chunks together are the page, none is
  empty but the last, and none of a built-in page is longer than 4 KB.\<close>

theorem web_root_sends_page:
  assumes "handleRoot file parts ans = (True, out)"
  shows "concat out = (case file of Some pieces \<Rightarrow> concat pieces | None \<Rightarrow> concat parts) \<and> last out = [] \<and>
    (file = None \<longrightarrow> (\<forall>c \<in> set (butlast out). 0 < length c \<and> length c \<le> 4096))"
proof -
  obtain o1 where s: "send_chunks ans 0 (case file of Some pieces \<Rightarrow> pieces | None \<Rightarrow> concat (map part_chunks parts)) = (True, o1)"
    "out = o1 @ [[]]"
    using assms by (auto simp: handleRoot_def split: prod.splits)
  have "o1 = (case file of Some pieces \<Rightarrow> pieces | None \<Rightarrow> concat (map part_chunks parts))"
    using send_chunks_prefix [OF s(1)] by simp
  moreover have "concat (concat (map part_chunks ps)) = concat ps" for ps by (induction ps) (simp_all add: part_chunks_concat)
  ultimately show ?thesis using part_chunks_small by (auto simp: s(2) split: option.splits)
qed

subsection \<open>Restart and start\<close>

lemma begin_paused:
  assumes "link_begin l = (True, l')" "s_linkPaused (l_s l)"
  shows "l_hw l' = l_hw l \<and> l_state l' = SWP \<and> l_cfg l' = l_cfg l \<and> s_linkPaused (l_s l')"
proof -
  have "s \<noteq> OK \<Longrightarrow> s = SWP" for s by (cases s) auto
  then show ?thesis using assms by (auto simp: link_begin_def computeDwells_def changeState_def hal_setOkState_def Let_def split: if_splits)
qed

lemma bringUp_paused:
  assumes "bringUpLink saved healthy True l = Some l'"
  shows "l_hw l' = l_hw l \<and> l_state l' = SWP \<and> s_linkPaused (l_s l') \<and>
    link_mode l' = (case saved of None \<Rightarrow> link_mode l | Some m \<Rightarrow> if m = 0xFF then link_mode l else if m = 0 then SYNC else ASYNC)"
proof -
  define l2 where "l2 = (case saved of None \<Rightarrow> setLinkPaused True l
    | Some m \<Rightarrow> if m \<noteq> 0xFF then setMode (if m = 0 then SYNC else ASYNC) (setLinkPaused True l) else setLinkPaused True l)"
  obtain ok l3 where b: "link_begin l2 = (ok, l3)" by fastforce
  have r: "ok" "l' = l3" using assms b by (auto simp: bringUpLink_def l2_def Let_def split: if_splits)
  have l2: "l_hw l2 = l_hw l" "s_linkPaused (l_s l2)"
    "link_mode l2 = (case saved of None \<Rightarrow> link_mode l | Some m \<Rightarrow> if m = 0xFF then link_mode l else if m = 0 then SYNC else ASYNC)"
    by (auto simp: l2_def setLinkPaused_def setMode_def link_mode_def split: option.split)
  show ?thesis using begin_paused [of l2 l3] b l2 r by (auto simp: link_mode_def)
qed

text \<open>The link mode chosen over the web is the mode after the next start, and only then. The request
  leaves the running link alone; a Ping that starts with that flash begins its link in the mode
  asked for.\<close>

theorem web_mode_after_restart:
  assumes "web_handle version (PostMode v True) d = (rp, d')" "rp_status rp = 200"
    and "ping_setup (nv_mode (dv_nvs d')) healthy True p l = Some (p', l')" "pg_paused p"
  shows "dv_link d' = dv_link d \<and> link_mode l' = (if v = Some ''SYNC'' then SYNC else ASYNC) \<and>
    (v = Some ''SYNC'' \<or> v = Some ''ASYNC'')"
proof -
  have v: "v = Some ''SYNC'' \<and> nv_mode (dv_nvs d') = Some 0 \<or> v = Some ''ASYNC'' \<and> nv_mode (dv_nvs d') = Some 1"
    "dv_link d' = dv_link d"
    using assms(1,2) by (auto simp: handleMode_def reply_def modeCode_def split: option.splits if_splits)
  have "bringUpLink (nv_mode (dv_nvs d')) healthy True l = Some l'" using assms(3,4) by (auto simp: ping_setup_def)
  then have "link_mode l' = (case nv_mode (dv_nvs d') of None \<Rightarrow> link_mode l
      | Some m \<Rightarrow> if m = 0xFF then link_mode l else if m = 0 then SYNC else ASYNC)"
    using bringUp_paused by blast
  then show ?thesis using v by auto
qed

text \<open>A Ping with a web monitor waits for its Start. After its set-up the link sweeps nothing: the wire,
  the break line and the timer are as before, and the Ping is paused. Start then makes the link
  exactly what it is after the set-up without a web monitor, and the Ping sends with an empty
  queue.\<close>

theorem web_start_gate:
  assumes "ping_setup saved healthy True p l = Some (p1, l1)" "pg_paused p"
    and "dv_ping d = Some p1" "dv_link d = l1" and "web_handle version (PostPauseMsg (Some ''0'')) d = (rp, d')"
  shows "l_hw l1 = l_hw l \<and> l_state l1 = SWP \<and> pg_paused p1 \<and> rp_status rp = 200 \<and>
    (\<exists>p2. ping_setup saved healthy False p l = Some (p2, dv_link d') \<and> \<not> pg_paused p2) \<and>
    (\<exists>p3. dv_ping d' = Some p3 \<and> \<not> pg_paused p3 \<and> pg_count p3 = 0)"
proof -
  have b: "bringUpLink saved healthy True l = Some l1" "p1 = p\<lparr>pg_maxSeqSize := int (maxMsg l1)\<rparr>"
    using assms(1,2) by (auto simp: ping_setup_def Let_def)
  have d': "dv_link d' = kickoff (setLinkPaused False l1)" "rp_status rp = 200"
    "\<exists>p3. dv_ping d' = Some p3 \<and> \<not> pg_paused p3 \<and> pg_count p3 = 0"
    using assms(3-5) by (auto simp: handleMsgPause_def ping_setPaused_def reply_def clearQueue_def Let_def)
  show ?thesis using bringUp_paused [OF b(1)] b assms(2) d' by (simp add: ping_setup_def Let_def)
qed

subsection \<open>Witnesses\<close>

definition demo_snap :: WebSnapshot where
  "demo_snap = \<lparr>ws_state = [], ws_errCount = 0, ws_txBps = 0, ws_rxBps = 0, ws_txTotal = 0, ws_rxTotal = 0, ws_errTotal = 0,
     ws_lostMsgs = 0, ws_postLockQuietDrops = 0, ws_rateLimitedDrops = 0, ws_txRingStallDrops = 0, ws_logDrops = 0,
     ws_rssi = 0, ws_freeHeap = 0, ws_uptimeS = 0, ws_baudRate = 0, ws_fillMode = 0, ws_msgPaused = 0, ws_linkMode = 0,
     ws_linkModeLabel = [], ws_txDelayMs = 0, ws_role = [], ws_webLogDropped = 0\<rparr>"

definition demo_device :: Device where
  "demo_device = \<lparr>dv_link = demo_link True, dv_ping = Some ping_init, dv_level = 3, dv_nvs = \<lparr>nv_level = None, nv_mode = None\<rparr>,
     dv_prevTx = 0, dv_prevRx = 0, dv_snap = demo_snap\<rparr>"

text \<open>The witnesses: a negative delay is refused; a delay of seven is set, and nothing else.\<close>

theorem web_requests_confined_witness:
  "(\<exists>rp. web_handle ''6'' (PostDelay (Some ''-3'')) demo_device = (rp, demo_device) \<and> rp_status rp = 400) \<and>
   (\<exists>rp. web_handle ''6'' (PostDelay (Some ''7'')) demo_device =
      (rp, demo_device\<lparr>dv_link := l_cfg_update (\<lambda>c. c\<lparr>cfg_txDelayMs := 7\<rparr>) (dv_link demo_device)\<rparr>) \<and> rp_status rp = 200)"
proof -
  obtain rp d' where h: "web_handle ''6'' (PostDelay (Some ''-3'')) demo_device = (rp, d')" by fastforce
  have "rp_status rp = 400"
    using h by (auto simp: handleDelay_def demo_device_def c_atoi_def c_isspace_def reply_def Let_def split: if_splits)
  then have "d' = demo_device" "rp_status rp = 400" using web_requests_confined [OF h] by simp_all
  moreover obtain rq e' where k: "web_handle ''6'' (PostDelay (Some ''7'')) demo_device = (rq, e')" by fastforce
  have seven: "c_atoi ''7'' = 7" by (simp add: c_atoi_def c_isspace_def)
  have "rp_status rq = 200"
    using k by (auto simp: handleDelay_def demo_device_def seven reply_def Let_def split: if_splits)
  then have "e' = demo_device\<lparr>dv_link := l_cfg_update (\<lambda>c. c\<lparr>cfg_txDelayMs := 7\<rparr>) (dv_link demo_device)\<rparr>" "rp_status rq = 200"
    using web_requests_confined [OF k] by (simp_all add: seven)
  ultimately show ?thesis using h k by blast
qed

theorem web_level_survives_witness:
  "\<exists>rp d'. handleLevel (Some ''5'') True demo_device = (rp, d') \<and> dv_level d' = 5 \<and> dv_level (web_boot True True d') = 5"
proof -
  obtain rp d' where h: "handleLevel (Some ''5'') True demo_device = (rp, d')" by fastforce
  have s: "rp_status rp = 200" and five: "c_atoi ''5'' = 5"
    using h by (auto simp: handleLevel_def parseLevelQuery_def applyLogLevel_def c_atoi_def c_isspace_def reply_def Let_def
      LOG_NONE_def LOG_VERBOSE_def)
  show ?thesis using web_level_survives [OF h s refl, of True] h five by auto
qed

lemma begin_demo_hal: "l_hw l = demo_hal \<Longrightarrow> fst (link_begin l)"
  by (simp add: link_begin_def hal_txRingSize_def wire_defs Let_def)

lemma demo_begin: "\<exists>p1 l1. ping_setup saved True True ping_init (demo_link True) = Some (p1, l1)"
proof -
  define l2 where "l2 = (case saved of None \<Rightarrow> setLinkPaused True (demo_link True)
    | Some m \<Rightarrow> if m \<noteq> 0xFF then setMode (if m = 0 then SYNC else ASYNC) (setLinkPaused True (demo_link True))
               else setLinkPaused True (demo_link True))"
  have "l_hw l2 = demo_hal" by (simp add: l2_def setLinkPaused_def setMode_def split: option.split)
  then have "fst (link_begin l2)" by (rule begin_demo_hal)
  then have "bringUpLink saved True True (demo_link True) = Some (snd (link_begin l2))"
    by (simp add: bringUpLink_def l2_def [symmetric] split_beta)
  then show ?thesis by (simp add: ping_setup_def ping_init_def)
qed

theorem web_mode_after_restart_witness:
  "\<exists>p' l'. ping_setup (Some 0) True True ping_init (demo_link True) = Some (p', l') \<and> link_mode l' = SYNC"
proof -
  obtain rp d' where h: "web_handle ''6'' (PostMode (Some ''SYNC'') True) demo_device = (rp, d')" by fastforce
  have m: "nv_mode (dv_nvs d') = Some 0" "rp_status rp = 200"
    using h by (auto simp: handleMode_def reply_def modeCode_def)
  obtain p' l' where s: "ping_setup (Some 0) True True ping_init (demo_link True) = Some (p', l')" using demo_begin by blast
  have s': "ping_setup (nv_mode (dv_nvs d')) True True ping_init (demo_link True) = Some (p', l')" using s m(1) by simp
  show ?thesis using web_mode_after_restart [OF h m(2) s'] s by (simp add: ping_init_def)
qed

theorem web_start_gate_witness:
  "\<exists>p1 l1. ping_setup None True True ping_init (demo_link True) = Some (p1, l1) \<and> l_hw l1 = demo_hal \<and> pg_paused p1"
proof -
  obtain p1 l1 where s: "ping_setup None True True ping_init (demo_link True) = Some (p1, l1)" using demo_begin by blast
  define d where "d = demo_device\<lparr>dv_link := l1, dv_ping := Some p1\<rparr>"
  have d: "dv_ping d = Some p1" "dv_link d = l1" by (simp_all add: d_def)
  obtain rp d' where h: "web_handle ''6'' (PostPauseMsg (Some ''0'')) d = (rp, d')" by fastforce
  show ?thesis using web_start_gate [OF s _ d h] s by (simp add: ping_init_def)
qed

end
