(* ===== verification/WebLife.thy ===== *)
theory WebLife
  imports AlPrelude
begin

text \<open>
  The life of the web monitor: \<open>begin\<close>, the background WiFi task and the destructor
  (\<open>web/handlers/AutoLinkWebLifecycle.cpp\<close>), \<open>setupHttpAndLogging_\<close> and \<open>mountFs_\<close>
  (\<open>web/handlers/AutoLinkWebHttpd.cpp\<close>).

  A handle is \<open>True\<close> when it is not null; \<open>wf_lost\<close> counts what is still allocated although its last
  handle was overwritten. WiFi, the timers and the HTTP server are outside: each step is given
  whether WiFi is connected, the clock and the answers it gets. \<open>strdup\<close> succeeds. The HTTP
  handlers' table is in \<open>WebCtl\<close>.

  The background task is cut wherever it waits: while it connects, in front of the NTP answer, in front of each
  attempt to start the server (five seconds each), while the handlers are registered, and between the three
  parts of taking the monitor down. \<open>begin\<close> on the application's task can run at any of these points; its own
  allocations are one step.
\<close>

subsection \<open>State\<close>

definition WIFI_BG_TIMEOUT_MS :: u32 where "WIFI_BG_TIMEOUT_MS = 10000"
definition WIFI_RETRY_BACKOFF_MS_MIN :: u32 where "WIFI_RETRY_BACKOFF_MS_MIN = 1000"
definition WIFI_RETRY_BACKOFF_MS_MAX :: u32 where "WIFI_RETRY_BACKOFF_MS_MAX = 30000"
definition HTTPD_RETRY_MAX :: nat where "HTTPD_RETRY_MAX = 14"

record WebLife =
  wf_enabled :: bool
  wf_ssid :: "string option"
  wf_pass :: "string option"
  wf_ring :: bool
  wf_snapMtx :: bool
  wf_logMtx :: bool
  wf_sink :: bool
  wf_statTimer :: bool
  wf_server :: bool
  wf_fsOk :: bool
  wf_ntpSynced :: bool
  wf_lost :: nat

definition web_new :: WebLife where
  "web_new = \<lparr>wf_enabled = False, wf_ssid = None, wf_pass = None, wf_ring = False, wf_snapMtx = False, wf_logMtx = False,
     wf_sink = False, wf_statTimer = False, wf_server = False, wf_fsOk = False, wf_ntpSynced = False, wf_lost = 0\<rparr>"

text \<open>Where the background task stands: not there, waiting without credentials, about to connect,
  connecting, about to bring the server up; inside the set-up, waiting for NTP, in front of an attempt to
  start the server, registering the handlers; watching the connection; taking server and timer down. The
  bool of the set-up says whether the task has credentials and goes on afterwards.\<close>

datatype WifiTask =
    NoTask
  | Offline u32
  | Retry u32
  | Connecting u32 u32
  | BringUp
  | SetupNtp bool
  | SetupHttpd bool nat
  | SetupDone bool
  | Watch
  | DropServer
  | DropTimer

subsection \<open>Begin and the HTTP server\<close>

record WebEnv =
  en_ring :: bool
  en_snapMtx :: bool
  en_logMtx :: bool
  en_task :: bool
  en_fs :: bool
  en_ntp :: bool
  en_timerCreate :: bool
  en_timerStart :: bool
  en_httpd :: bool

text \<open>The task starts with a look at its credentials.\<close>

definition task_start :: "u32 \<Rightarrow> WebLife \<Rightarrow> WifiTask" where
  "task_start now w =
     (if wf_ssid w \<noteq> None \<and> wf_ssid w \<noteq> Some [] then Retry WIFI_RETRY_BACKOFF_MS_MIN else Offline now)"

text \<open>\<open>begin\<close>; the log level it restores in between is \<open>web_restoreLevel\<close> of \<open>WebCtl\<close>, and its waiting at the
  end changes nothing.\<close>

definition web_begin :: "WebEnv \<Rightarrow> u32 \<Rightarrow> string option \<Rightarrow> string option \<Rightarrow> WebLife \<Rightarrow> WifiTask \<Rightarrow> bool \<times> WebLife \<times> WifiTask" where
  "web_begin env now ssid pass w t =
     (if wf_enabled w then (True, w, t)
      else
        let w1 = w\<lparr>wf_ssid := ssid, wf_pass := pass,
              wf_lost := wf_lost w + of_bool (wf_ring w) + of_bool (wf_snapMtx w) + of_bool (wf_logMtx w),
              wf_ring := en_ring env, wf_snapMtx := en_snapMtx env, wf_logMtx := en_logMtx env\<rparr> in
        if \<not> wf_ring w1 \<or> \<not> wf_snapMtx w1 \<or> \<not> wf_logMtx w1
        then (False, w1\<lparr>wf_ring := False, wf_snapMtx := False, wf_logMtx := False\<rparr>, t)
        else
          let w2 = w1\<lparr>wf_sink := True\<rparr> in
          if t \<noteq> NoTask then (True, w2, t)
          else if \<not> en_task env then (True, w2, t)
          else (True, w2, task_start now w2))"

definition mountFs :: "WebEnv \<Rightarrow> WebLife \<Rightarrow> WebLife" where
  "mountFs env w = (if wf_fsOk w then w else w\<lparr>wf_fsOk := en_fs env\<rparr>)"

text \<open>\<open>setupHttpAndLogging_\<close>, in the pieces between its waits. Where the task goes on after it:\<close>

definition after_setup :: "bool \<Rightarrow> bool \<Rightarrow> WifiTask" where
  "after_setup online ok = (if \<not> online then NoTask else if ok then Watch else BringUp)"

definition setup_fail :: "bool \<Rightarrow> WebLife \<Rightarrow> WebLife \<times> WifiTask" where
  "setup_fail online w = (w\<lparr>wf_statTimer := False, wf_server := False\<rparr>, after_setup online False)"

text \<open>Up to the wait for the time.\<close>

definition setup_enter :: "WebEnv \<Rightarrow> bool \<Rightarrow> WebLife \<Rightarrow> WebLife \<times> WifiTask" where
  "setup_enter env online w =
     (if wf_enabled w then (w, after_setup online True)
      else if \<not> wf_ring w \<or> \<not> wf_snapMtx w \<or> \<not> wf_logMtx w then (w, after_setup online False)
      else (mountFs env w, SetupNtp online))"

text \<open>The time, then the timer of the statistics, which runs from here on.\<close>

definition setup_timer :: "WebEnv \<Rightarrow> bool \<Rightarrow> WebLife \<Rightarrow> WebLife \<times> WifiTask" where
  "setup_timer env online w =
     (let w2 = (if en_ntp env then w\<lparr>wf_ntpSynced := True\<rparr> else w);
          w3 = (if en_timerCreate env then w2\<lparr>wf_lost := wf_lost w2 + of_bool (wf_statTimer w2), wf_statTimer := True\<rparr> else w2) in
      if \<not> en_timerCreate env \<or> \<not> en_timerStart env then setup_fail online w3
      else (w3, SetupHttpd online 1))"

text \<open>The attempt \<open>k\<close> to start the server, after its wait.\<close>

definition setup_attempt :: "WebEnv \<Rightarrow> bool \<Rightarrow> nat \<Rightarrow> WebLife \<Rightarrow> WebLife \<times> WifiTask" where
  "setup_attempt env online k w =
     (if en_httpd env then (w\<lparr>wf_lost := wf_lost w + of_bool (wf_server w), wf_server := True\<rparr>, SetupDone online)
      else if k < HTTPD_RETRY_MAX then (w, SetupHttpd online (k + 1))
      else setup_fail online w)"

definition setup_done :: "bool \<Rightarrow> WebLife \<Rightarrow> WebLife \<times> WifiTask" where
  "setup_done online w = (w\<lparr>wf_enabled := True\<rparr>, after_setup online True)"

subsection \<open>The background task\<close>

text \<open>What the task sees in one step: WiFi's status when a loop looks at it, and again right behind the loop.\<close>

record WifiIn =
  wi_now :: u32
  wi_connected :: bool
  wi_connected2 :: bool
  wi_env :: WebEnv

definition wifi_step :: "WifiIn \<Rightarrow> WebLife \<Rightarrow> WifiTask \<Rightarrow> WebLife \<times> WifiTask" where
  "wifi_step i w t =
     (case t of
        NoTask \<Rightarrow> (w, NoTask)
      | Offline start \<Rightarrow>
          if wi_connected i then setup_enter (wi_env i) False w
          else if wi_now i - start > WIFI_BG_TIMEOUT_MS then (w, NoTask)
          else (w, Offline start)
      | Retry backoff \<Rightarrow> (w, Connecting (wi_now i) backoff)
      | Connecting start backoff \<Rightarrow>
          if wi_connected i \<or> wi_now i - start > backoff then
            (if wi_connected2 i then (w, BringUp)
             else (w, Retry (if backoff * 2 > WIFI_RETRY_BACKOFF_MS_MAX then WIFI_RETRY_BACKOFF_MS_MAX else backoff * 2)))
          else (w, Connecting start backoff)
      | BringUp \<Rightarrow> if wf_enabled w then (w, Watch) else setup_enter (wi_env i) True w
      | SetupNtp online \<Rightarrow> setup_timer (wi_env i) online w
      | SetupHttpd online k \<Rightarrow> setup_attempt (wi_env i) online k w
      | SetupDone online \<Rightarrow> setup_done online w
      | Watch \<Rightarrow>
          if wi_connected i \<and> wf_enabled w then (w, Watch)
          else if wf_enabled w \<and> \<not> wi_connected2 i then (w\<lparr>wf_enabled := False\<rparr>, DropServer)
          else (w, Retry WIFI_RETRY_BACKOFF_MS_MIN)
      | DropServer \<Rightarrow> (w\<lparr>wf_server := False\<rparr>, DropTimer)
      | DropTimer \<Rightarrow> (w\<lparr>wf_statTimer := False\<rparr>, Retry WIFI_RETRY_BACKOFF_MS_MIN))"

definition web_destroy :: "WebLife \<Rightarrow> WebLife" where
  "web_destroy w = w\<lparr>wf_statTimer := False, wf_server := False, wf_sink := False, wf_snapMtx := False, wf_logMtx := False, wf_ring := False\<rparr>"

subsection \<open>Reachable states\<close>

inductive web_step :: "WebLife \<times> WifiTask \<Rightarrow> WebLife \<times> WifiTask \<Rightarrow> bool" where
  by_app: "web_begin env now ssid pass w t = (ok, w', t') \<Longrightarrow> web_step (w, t) (w', t')"
| by_task: "wifi_step i w t = (w', t') \<Longrightarrow> web_step (w, t) (w', t')"

inductive_cases web_stepE: "web_step s s'"

inductive web_reach :: "WebLife \<times> WifiTask \<Rightarrow> bool" where
  reach_init: "web_reach (web_new, NoTask)"
| reach_step: "web_reach s \<Longrightarrow> web_step s s' \<Longrightarrow> web_reach s'"

text \<open>The log's handles, and what the task's place says of server and timer.\<close>

definition log_ok :: "WebLife \<Rightarrow> bool" where
  "log_ok w \<longleftrightarrow> (wf_snapMtx w \<longleftrightarrow> wf_ring w) \<and> (wf_logMtx w \<longleftrightarrow> wf_ring w) \<and> (wf_ring w \<longrightarrow> wf_sink w)"

definition task_ok :: "WebLife \<Rightarrow> WifiTask \<Rightarrow> bool" where
  "task_ok w t \<longleftrightarrow>
     (case t of
        Retry b \<Rightarrow> 1000 \<le> b \<and> b \<le> 30000
      | Connecting _ b \<Rightarrow> 1000 \<le> b \<and> b \<le> 30000
      | SetupHttpd _ k \<Rightarrow> 1 \<le> k \<and> k \<le> 14
      | _ \<Rightarrow> True) \<and>
     (case t of
        SetupNtp _ \<Rightarrow> \<not> wf_enabled w \<and> \<not> wf_server w \<and> \<not> wf_statTimer w
      | SetupHttpd _ _ \<Rightarrow> \<not> wf_enabled w \<and> \<not> wf_server w \<and> wf_statTimer w
      | SetupDone _ \<Rightarrow> \<not> wf_enabled w \<and> wf_server w \<and> wf_statTimer w
      | Watch \<Rightarrow> wf_enabled w \<and> wf_server w \<and> wf_statTimer w
      | DropServer \<Rightarrow> \<not> wf_enabled w \<and> wf_server w \<and> wf_statTimer w
      | DropTimer \<Rightarrow> \<not> wf_enabled w \<and> \<not> wf_server w \<and> wf_statTimer w
      | _ \<Rightarrow> wf_server w = wf_enabled w \<and> wf_statTimer w = wf_enabled w)"

definition web_ok :: "WebLife \<times> WifiTask \<Rightarrow> bool" where
  "web_ok s \<longleftrightarrow> log_ok (fst s) \<and> task_ok (fst s) (snd s)"

lemma backoff_doubles:
  assumes "1000 \<le> b" "b \<le> (30000 :: u32)"
  shows "1000 \<le> b * 2 \<and> (b * 2 \<le> 30000 \<or> 30000 < b * 2) \<and> unat (b * 2) = 2 * unat b"
proof -
  have b: "1000 \<le> unat b" "unat b \<le> 30000" using assms by (simp_all add: word_le_nat_alt)
  then have "unat (b * 2) = 2 * unat b" by (simp add: unat_word_ariths)
  then show ?thesis using b by (auto simp: word_le_nat_alt word_less_nat_alt)
qed

lemmas setup_defs = setup_enter_def setup_timer_def setup_attempt_def setup_done_def setup_fail_def after_setup_def
  mountFs_def HTTPD_RETRY_MAX_def WIFI_RETRY_BACKOFF_MS_MIN_def WIFI_RETRY_BACKOFF_MS_MAX_def Let_def

text \<open>No step of the task touches the log, or loses a handle.\<close>

lemma step_keeps_ok:
  assumes "log_ok w" "task_ok w t"
  shows "log_ok (fst (wifi_step i w t)) \<and> task_ok (fst (wifi_step i w t)) (snd (wifi_step i w t)) \<and>
    wf_ring (fst (wifi_step i w t)) = wf_ring w \<and> wf_lost (fst (wifi_step i w t)) = wf_lost w"
proof (cases t)
  case (Connecting st b)
  then have "1000 \<le> b" "b \<le> 30000" using assms by (simp_all add: task_ok_def)
  then have "1000 \<le> b * 2" using backoff_doubles [of b] by simp
  then show ?thesis using assms Connecting
    by (simp add: wifi_step_def task_ok_def setup_defs not_less)
qed (use assms in \<open>simp_all add: wifi_step_def task_ok_def log_ok_def setup_defs\<close>)

lemma wifi_keeps_ok:
  assumes "wifi_step i w t = (w', t')" and "web_ok (w, t)"
  shows "web_ok (w', t') \<and> wf_ring w' = wf_ring w \<and> wf_lost w' = wf_lost w"
  using step_keeps_ok [of w t i] assms by (simp add: web_ok_def)

lemma task_ok_cong:
  assumes "wf_enabled w' = wf_enabled w" "wf_server w' = wf_server w" "wf_statTimer w' = wf_statTimer w"
  shows "task_ok w' t = task_ok w t"
  by (cases t) (simp_all add: task_ok_def assms)

lemma begin_keeps_ok:
  assumes "web_begin env now ssid pass w t = (ok, w', t')" and "web_ok (w, t)"
  shows "web_ok (w', t')"
proof (cases "wf_enabled w")
  case True
  then show ?thesis using assms by (simp add: web_begin_def)
next
  case False
  have w: "wf_enabled w' = wf_enabled w" "wf_server w' = wf_server w" "wf_statTimer w' = wf_statTimer w"
    using assms(1) by (auto simp: web_begin_def Let_def split: if_splits)
  have old: "task_ok w' t" using assms(2) task_ok_cong [OF w] by (simp add: web_ok_def)
  have "t' = t \<or> t = NoTask \<and> (\<exists>v. t' = task_start now v)" using assms(1) by (auto simp: web_begin_def Let_def split: if_splits)
  then have "task_ok w' t'"
  proof
    assume t: "t = NoTask \<and> (\<exists>v. t' = task_start now v)"
    have "task_start now v = Retry 1000 \<or> task_start now v = Offline now" for v
      unfolding task_start_def WIFI_RETRY_BACKOFF_MS_MIN_def by (rule if_split [THEN iffD2]) simp
    then have "t' = Retry 1000 \<or> t' = Offline now" using t by metis
    then show ?thesis using old t by (auto simp: task_ok_def)
  qed (use old in simp)
  moreover have "log_ok w'"
    using assms False by (auto simp: web_begin_def web_ok_def log_ok_def Let_def split: if_splits)
  ultimately show ?thesis by (simp add: web_ok_def)
qed

lemma reach_ok: "web_reach s \<Longrightarrow> web_ok s"
proof (induction rule: web_reach.induct)
  case reach_init
  then show ?case by (simp add: web_ok_def log_ok_def task_ok_def web_new_def)
next
  case (reach_step s s')
  from reach_step.hyps(2) reach_step.IH show ?case
    by (cases rule: web_step.cases) (auto intro: begin_keeps_ok dest: wifi_keeps_ok)
qed

subsection \<open>Properties\<close>

text \<open>C38: what is up in every interleaving of \<open>begin\<close>, as one step, with the pieces of the background task,
  whatever fails. A monitor that reports itself up has its HTTP server and its statistics timer, and a server never
  runs without the timer. The timer runs before the monitor reports itself up exactly while the server is
  being started or the monitor is being taken down, the server exactly while its handlers are registered or it is
  about to be stopped. The log's two locks are there exactly with its ring, and with the ring the sink. The
  waiting time for WiFi is between one and thirty seconds, and the attempts to start the server are at
  most 14. (The ring itself may be gone while the monitor is up: the witness.)\<close>

theorem web_monitor_consistent:
  assumes "web_reach (w, t)"
  shows "(wf_enabled w \<longrightarrow> wf_server w) \<and> (wf_server w \<longrightarrow> wf_statTimer w) \<and>
    (wf_statTimer w \<and> \<not> wf_enabled w \<longleftrightarrow> (\<exists>c k. t = SetupHttpd c k) \<or> (\<exists>c. t = SetupDone c) \<or> t = DropServer \<or> t = DropTimer) \<and>
    (wf_server w \<and> \<not> wf_enabled w \<longleftrightarrow> (\<exists>c. t = SetupDone c) \<or> t = DropServer) \<and>
    (wf_snapMtx w \<longleftrightarrow> wf_ring w) \<and> (wf_logMtx w \<longleftrightarrow> wf_ring w) \<and> (wf_ring w \<longrightarrow> wf_sink w) \<and>
    (\<forall>b s. t = Retry b \<or> t = Connecting s b \<longrightarrow> 1000 \<le> unat b \<and> unat b \<le> 30000) \<and>
    (\<forall>c k. t = SetupHttpd c k \<longrightarrow> 1 \<le> k \<and> k \<le> 14)"
proof -
  have ok: "log_ok w" "task_ok w t" using reach_ok [OF assms] by (simp_all add: web_ok_def)
  then show ?thesis by (cases t) (auto simp: log_ok_def task_ok_def word_le_nat_alt)
qed

text \<open>WiFi is there, the timer can be made, and the server starts.\<close>

definition wifi_up :: "WifiIn \<Rightarrow> bool" where
  "wifi_up i \<longleftrightarrow> wi_connected i \<and> wi_connected2 i \<and> en_timerCreate (wi_env i) \<and> en_timerStart (wi_env i) \<and> en_httpd (wi_env i)"

fun wifi_run :: "WifiIn list \<Rightarrow> WebLife \<times> WifiTask \<Rightarrow> WebLife \<times> WifiTask" where
  "wifi_run [] s = s"
| "wifi_run (i # is) s = wifi_run is (wifi_step i (fst s) (snd s))"

text \<open>How many such steps a task with credentials is away from watching; \<open>None\<close> for one without.\<close>

fun steps_to_watch :: "WifiTask \<Rightarrow> nat option" where
  "steps_to_watch NoTask = None"
| "steps_to_watch (Offline s) = None"
| "steps_to_watch (Retry b) = Some 6"
| "steps_to_watch (Connecting s b) = Some 5"
| "steps_to_watch BringUp = Some 4"
| "steps_to_watch (SetupNtp online) = (if online then Some 3 else None)"
| "steps_to_watch (SetupHttpd online k) = (if online then Some 2 else None)"
| "steps_to_watch (SetupDone online) = (if online then Some 1 else None)"
| "steps_to_watch Watch = Some 0"
| "steps_to_watch DropServer = Some 8"
| "steps_to_watch DropTimer = Some 7"

lemma step_nearer:
  assumes "wifi_up i" "web_ok (w, t)" "wf_ring w" "steps_to_watch t = Some n" "wifi_step i w t = (w', t')"
  shows "\<exists>m \<le> n - 1. steps_to_watch t' = Some m"
  using assms
  by (cases t) (auto simp: wifi_up_def wifi_step_def web_ok_def log_ok_def task_ok_def setup_defs split: if_splits)

lemma run_watches:
  "list_all wifi_up is \<Longrightarrow> web_ok (w, t) \<Longrightarrow> wf_ring w \<Longrightarrow> steps_to_watch t = Some n \<Longrightarrow> n \<le> length is \<Longrightarrow>
    \<exists>w'. wifi_run is (w, t) = (w', Watch) \<and> web_ok (w', Watch)"
proof (induction "is" arbitrary: w t n)
  case Nil
  then show ?case by (cases t) (auto split: if_splits)
next
  case (Cons i "is")
  obtain w1 t1 where s: "wifi_step i w t = (w1, t1)" by fastforce
  obtain m where m: "m \<le> n - 1" "steps_to_watch t1 = Some m"
    using step_nearer [OF _ Cons.prems(2-4) s] Cons.prems(1) by auto
  have "web_ok (w1, t1)" "wf_ring w1" using wifi_keeps_ok [OF s Cons.prems(2)] Cons.prems(3) by simp_all
  then show ?case using Cons.IH [of w1 t1 m] m Cons.prems(1,5) s by simp
qed

text \<open>C39: the web monitor comes up, and comes back after any loss of WiFi. Take a state that \<open>begin\<close> and the task can
  reach, in which the task runs with credentials, wherever it is, and the log's ring is there. Then eight
  steps of the task that see WiFi, the timer and the server working, with no \<open>begin\<close> in between, end with the
  monitor up.\<close>

theorem web_comes_up:
  assumes "web_reach (w, t)" "wf_ring w" "steps_to_watch t \<noteq> None" and "length is = 8" "list_all wifi_up is"
  shows "\<exists>w'. wifi_run is (w, t) = (w', Watch) \<and> wf_enabled w' \<and> wf_server w' \<and> wf_statTimer w'"
proof -
  obtain n where n: "steps_to_watch t = Some n" using assms(3) by blast
  then have "n \<le> 8" by (cases t) (auto split: if_splits)
  then obtain w' where "wifi_run is (w, t) = (w', Watch)" "web_ok (w', Watch)"
    using run_watches [OF assms(5) reach_ok [OF assms(1)] assms(2) n] assms(4) by auto
  then show ?thesis by (auto simp: web_ok_def task_ok_def)
qed

text \<open>C40: a second \<open>begin\<close> before the monitor is up loses the log. It reports success, but the ring and the
  two locks of the first are overwritten and never freed, and the credentials the background task
  connects with are exchanged under it.\<close>

theorem begin_again_leaks:
  assumes "web_reach (w, t)" "wf_ring w" "\<not> wf_enabled w" "t \<noteq> NoTask"
    and "en_ring env" "en_snapMtx env" "en_logMtx env" and "web_begin env now ssid pass w t = (ok, w', t')"
  shows "ok \<and> t' = t \<and> wf_lost w' = wf_lost w + 3 \<and> wf_ring w' \<and> wf_ssid w' = ssid \<and> wf_pass w' = pass"
proof -
  have "wf_snapMtx w" "wf_logMtx w" using reach_ok [OF assms(1)] assms(2) by (auto simp: web_ok_def log_ok_def)
  then show ?thesis using assms(2-8) by (auto simp: web_begin_def Let_def)
qed

subsection \<open>Witnesses\<close>

definition good_env :: WebEnv where
  "good_env = \<lparr>en_ring = True, en_snapMtx = True, en_logMtx = True, en_task = True, en_fs = True, en_ntp = True,
     en_timerCreate = True, en_timerStart = True, en_httpd = True\<rparr>"

definition good_in :: WifiIn where
  "good_in = \<lparr>wi_now = 9000, wi_connected = True, wi_connected2 = True, wi_env = good_env\<rparr>"

definition begun :: WebLife where
  "begun = fst (snd (web_begin good_env 100 (Some ''net'') (Some ''key'') web_new NoTask))"

lemma begun_reach: "web_reach (begun, Retry 1000)" "wf_ring begun" "\<not> wf_enabled begun" "wf_lost begun = 0"
proof -
  have b: "web_begin good_env 100 (Some ''net'') (Some ''key'') web_new NoTask = (True, begun, Retry 1000)"
    by (simp add: begun_def web_begin_def task_start_def good_env_def web_new_def WIFI_RETRY_BACKOFF_MS_MIN_def)
  show "web_reach (begun, Retry 1000)" using web_step.by_app [OF b] web_reach.intros by blast
  show "wf_ring begun" "\<not> wf_enabled begun" "wf_lost begun = 0"
    by (simp_all add: begun_def web_begin_def good_env_def web_new_def Let_def)
qed

lemma good_up: "wifi_up good_in"
  by (simp add: wifi_up_def good_in_def good_env_def)

text \<open>While the server is being started, a second \<open>begin\<close> cannot allocate its lock: the monitor comes up, the timer
  runs, but ring and locks are gone.\<close>

theorem web_monitor_consistent_witness:
  "\<exists>w. web_reach (w, Watch) \<and> wf_enabled w \<and> wf_server w \<and> wf_statTimer w \<and> \<not> wf_ring w \<and> \<not> wf_snapMtx w"
proof -
  define step where "step = (\<lambda>s. wifi_step good_in (fst s) (snd s))"
  have go: "web_reach (step s)" if "web_reach s" for s
  proof -
    obtain w t where st: "s = (w, t)" by (cases s)
    obtain w' t' where e: "wifi_step good_in w t = (w', t')" by fastforce
    from reach_step [OF that [unfolded st] web_step.by_task [OF e]] show ?thesis by (simp add: step_def st e)
  qed
  obtain w1 where w1: "step (step (step (step (begun, Retry 1000)))) = (w1, SetupHttpd True 1)" "\<not> wf_enabled w1"
    by (simp add: step_def wifi_step_def setup_defs good_in_def good_env_def begun_def web_begin_def web_new_def)
  have r1: "web_reach (w1, SetupHttpd True 1)" using begun_reach(1) go w1(1) by metis
  define w2 where "w2 = fst (snd (web_begin (good_env\<lparr>en_snapMtx := False\<rparr>) 200 None None w1 (SetupHttpd True 1)))"
  have b: "web_begin (good_env\<lparr>en_snapMtx := False\<rparr>) 200 None None w1 (SetupHttpd True 1) = (False, w2, SetupHttpd True 1)"
    and w2: "\<not> wf_ring w2" "\<not> wf_enabled w2"
    using w1(2) by (simp_all add: w2_def web_begin_def good_env_def Let_def)
  have r2: "web_reach (w2, SetupHttpd True 1)" using web_step.by_app [OF b] r1 by (rule reach_step [rotated])
  obtain w3 where w3: "step (step (w2, SetupHttpd True 1)) = (w3, Watch)" "wf_enabled w3" "\<not> wf_ring w3"
    using w2 by (simp add: step_def wifi_step_def setup_defs good_in_def good_env_def)
  have "web_reach (w3, Watch)" using go [OF go [OF r2]] w3(1) by simp
  from web_monitor_consistent [OF this] this w3 show ?thesis by blast
qed

theorem web_comes_up_witness:
  "\<exists>w'. wifi_run (replicate 8 good_in) (begun, Retry 1000) = (w', Watch) \<and> wf_enabled w'"
proof -
  have "list_all wifi_up (replicate 8 good_in)" using good_up by (simp add: list_all_iff)
  from web_comes_up [OF begun_reach(1,2) _ _ this] show ?thesis by auto
qed

theorem begin_again_leaks_witness:
  "\<exists>w' t'. web_begin good_env 200 (Some ''net2'') (Some ''key2'') begun (Retry 1000) = (True, w', t') \<and> wf_lost w' = 3"
proof -
  obtain ok w' t' where b: "web_begin good_env 200 (Some ''net2'') (Some ''key2'') begun (Retry 1000) = (ok, w', t')" by (metis prod_cases3)
  have e: "en_ring good_env" "en_snapMtx good_env" "en_logMtx good_env" by (simp_all add: good_env_def)
  show ?thesis using begin_again_leaks [OF begun_reach(1-3) _ e b] b begun_reach(4) by simp
qed

end
