(* ===== verification/AppQueue.thy ===== *)
theory AppQueue
  imports LinkState
begin

text \<open>
  What the link may rely on in a HAL's queue of received bytes: the part of the interface \<open>IHal\<close>
  (\<open>hal/IHal.h\<close>) between \<open>pushAppBuf\<close> and \<open>clearAppBuf\<close>, as a locale, and the host
  implementation (\<open>test/common/MockHal.h\<close>), on which the theorems about the link run, as a model of
  it. The device's implementation is in \<open>EspHal\<close>.
\<close>

definition hal_peekAppBuf :: "Hal \<Rightarrow> int \<times> Hal" where
  "hal_peekAppBuf h = (if h_appBuf h = [] then -1 else uint (hd (h_appBuf h)), h)"

subsection \<open>The contract\<close>

datatype QueueOp = Push bytes | Pop int | Peek

text \<open>A run: the bytes the queue took, the bytes it gave, the answers of the peeks.\<close>

fun queue_run :: "(bytes \<Rightarrow> 'h \<Rightarrow> int \<times> 'h) \<Rightarrow> (int \<Rightarrow> 'h \<Rightarrow> bytes \<times> 'h) \<Rightarrow> ('h \<Rightarrow> int \<times> 'h) \<Rightarrow>
    QueueOp list \<Rightarrow> 'h \<Rightarrow> bytes \<times> bytes \<times> 'h" where
  "queue_run push pop peek [] h = ([], [], h)"
| "queue_run push pop peek (Push b # ops) h =
     (case push b h of (n, h1) \<Rightarrow> (case queue_run push pop peek ops h1 of (i, out, h2) \<Rightarrow> (take (nat n) b @ i, out, h2)))"
| "queue_run push pop peek (Pop m # ops) h =
     (case pop m h of (b, h1) \<Rightarrow> (case queue_run push pop peek ops h1 of (i, out, h2) \<Rightarrow> (i, b @ out, h2)))"
| "queue_run push pop peek (Peek # ops) h = queue_run push pop peek ops (snd (peek h))"

locale app_queue =
  fixes push :: "bytes \<Rightarrow> 'h \<Rightarrow> int \<times> 'h" and pop :: "int \<Rightarrow> 'h \<Rightarrow> bytes \<times> 'h" and peek :: "'h \<Rightarrow> int \<times> 'h"
    and avail free :: "'h \<Rightarrow> int" and clear :: "'h \<Rightarrow> 'h"
    and ok :: "'h \<Rightarrow> bool" and bytes_of :: "'h \<Rightarrow> bytes"
  assumes push_law: "ok h \<Longrightarrow> push b h = (n, h') \<Longrightarrow>
      ok h' \<and> 0 \<le> n \<and> n \<le> int (length b) \<and> bytes_of h' = bytes_of h @ take (nat n) b"
    and push_free: "ok h \<Longrightarrow> push b h = (n, h') \<Longrightarrow> int (length b) \<le> free h \<Longrightarrow> n = int (length b)"
    and pop_law: "ok h \<Longrightarrow> pop m h = (b, h') \<Longrightarrow>
      ok h' \<and> b = take (nat m) (bytes_of h) \<and> bytes_of h' = drop (nat m) (bytes_of h)"
    and peek_law: "ok h \<Longrightarrow> peek h = (c, h') \<Longrightarrow>
      ok h' \<and> bytes_of h' = bytes_of h \<and> c = (if bytes_of h = [] then -1 else uint (hd (bytes_of h)))"
    and avail_law: "ok h \<Longrightarrow> avail h = int (length (bytes_of h))"
    and clear_law: "ok h \<Longrightarrow> ok (clear h) \<and> bytes_of (clear h) = []"
begin

text \<open>Nothing is lost, doubled or reordered: what was in the queue and what it took is what it gave and
  what is still in it.\<close>

lemma run_fifo:
  assumes "ok h" and "queue_run push pop peek ops h = (i, out, h')"
  shows "ok h' \<and> bytes_of h @ i = out @ bytes_of h'"
  using assms
proof (induction ops arbitrary: h i out h')
  case Nil
  then show ?case by simp
next
  case (Cons op ops)
  show ?case
  proof (cases op)
    case (Push b)
    obtain n h1 where p: "push b h = (n, h1)" by fastforce
    obtain i2 o2 h2 where r: "queue_run push pop peek ops h1 = (i2, o2, h2)" by (metis prod_cases3)
    have "ok h1 \<and> bytes_of h1 = bytes_of h @ take (nat n) b" using push_law [OF Cons.prems(1) p] by simp
    then show ?thesis using Cons.IH [OF _ r] Cons.prems(2) by (simp add: Push p r)
  next
    case (Pop m)
    obtain b h1 where p: "pop m h = (b, h1)" by fastforce
    obtain i2 o2 h2 where r: "queue_run push pop peek ops h1 = (i2, o2, h2)" by (metis prod_cases3)
    have 1: "ok h1 \<and> b @ bytes_of h1 = bytes_of h" using pop_law [OF Cons.prems(1) p] by simp
    then have "ok h2 \<and> bytes_of h1 @ i2 = o2 @ bytes_of h2" using Cons.IH [OF _ r] by simp
    moreover have "i = i2" "out = b @ o2" "h' = h2" using Cons.prems(2) by (simp_all add: Pop p r)
    ultimately show ?thesis using 1 by (metis append.assoc)
  next
    case Peek
    obtain c h1 where p: "peek h = (c, h1)" by fastforce
    show ?thesis using Cons.IH [of h1 i out h'] Cons.prems peek_law [OF Cons.prems(1) p] by (simp add: Peek p)
  qed
qed

end

subsection \<open>The queue of the host build\<close>

definition hal_queue_ok :: "Hal \<Rightarrow> bool" where
  "hal_queue_ok h \<longleftrightarrow> (case h_appBufCap h of None \<Rightarrow> True | Some cap \<Rightarrow> length (h_appBuf h) \<le> cap)"

lemma nat_int_minus: "nat (int a - int b) = a - b"
  by simp

interpretation mock: app_queue hal_pushAppBuf hal_popAppBuf hal_peekAppBuf hal_appBufAvailable hal_appBufFree
  hal_clearAppBuf hal_queue_ok h_appBuf
  by unfold_locales
    (auto simp: hal_pushAppBuf_def hal_popAppBuf_def hal_peekAppBuf_def hal_appBufAvailable_def hal_appBufFree_def
      hal_clearAppBuf_def hal_queue_ok_def hal_appRoom_def nat_int_minus Let_def min_def split: option.splits)

end
