(* ===== verification/EspHal.thy ===== *)
theory EspHal
  imports AppQueue
begin

text \<open>
  The hardware abstraction of the device (\<open>hal/EspHal.h\<close>, \<open>hal/EspHal.cpp\<close>): its handles and buffer
  sizes, \<open>begin\<close> with its clean-up, and the queue of received bytes, which lies on a FreeRTOS
  stream buffer behind a small peek buffer.

  FreeRTOS and the UART driver are arguments: the stream buffer as a record of its five functions,
  the answers of the allocations and of the driver as a record \<open>BeginEnv\<close>. A handle is \<open>True\<close> when
  it is not null.
\<close>

subsection \<open>The stream buffer of FreeRTOS\<close>

record 's StreamOps =
  so_send :: "bytes \<Rightarrow> 's \<Rightarrow> nat \<times> 's"
  so_recv :: "nat \<Rightarrow> 's \<Rightarrow> bytes \<times> 's"
  so_avail :: "'s \<Rightarrow> nat"
  so_spaces :: "'s \<Rightarrow> nat"
  so_reset :: "'s \<Rightarrow> 's"

text \<open>Its documentation, for calls that do not wait: a send writes as many bytes as there is room for, a
  receive takes at most the bytes asked for, oldest first.\<close>

definition stream_ok :: "'s StreamOps \<Rightarrow> ('s \<Rightarrow> bytes) \<Rightarrow> ('s \<Rightarrow> nat) \<Rightarrow> bool" where
  "stream_ok ops held cap \<longleftrightarrow>
     (\<forall>s. so_avail ops s = length (held s) \<and> so_spaces ops s = cap s - length (held s) \<and> held (so_reset ops s) = []) \<and>
     (\<forall>s b. fst (so_send ops b s) = min (length b) (cap s - length (held s)) \<and>
        held (snd (so_send ops b s)) = held s @ take (fst (so_send ops b s)) b) \<and>
     (\<forall>s n. fst (so_recv ops n s) = take n (held s) \<and> held (snd (so_recv ops n s)) = drop n (held s))"

subsection \<open>State\<close>

definition PEEK_BUF_CAP :: nat where "PEEK_BUF_CAP = 16"

record 's EspHal =
  eh_cfg :: AutoLinkConfig
  eh_lastSetSpdMs :: u32
  eh_driver :: bool
  eh_task :: bool
  eh_timer :: bool
  eh_stream :: "'s option"
  eh_mutex :: bool
  eh_exitSem :: bool
  eh_running :: bool
  eh_okState :: bool
  eh_breakWindowEpoch :: u32
  eh_healthy :: bool
  eh_rxOverflows :: u64
  eh_rxFrameErrs :: u64
  eh_singleCore :: bool
  eh_streamBufSize :: nat
  eh_rxBufferSize :: nat
  eh_txBufferSize :: nat
  eh_peekBuf :: bytes
  eh_peekPos :: nat
  eh_nullLogged :: bool

definition esp_new :: "AutoLinkConfig \<Rightarrow> 's EspHal" where
  "esp_new cfg =
     \<lparr>eh_cfg = cfg, eh_lastSetSpdMs = 0, eh_driver = False, eh_task = False, eh_timer = False, eh_stream = None,
      eh_mutex = False, eh_exitSem = False, eh_running = False, eh_okState = False, eh_breakWindowEpoch = 0,
      eh_healthy = False, eh_rxOverflows = 0, eh_rxFrameErrs = 0, eh_singleCore = False, eh_streamBufSize = 0,
      eh_rxBufferSize = 0, eh_txBufferSize = 0, eh_peekBuf = [], eh_peekPos = 0, eh_nullLogged = False\<rparr>"

subsection \<open>Starting\<close>

text \<open>\<open>heap\<close> is \<open>esp_get_free_heap_size()\<close>.\<close>

definition esp_txBufferFloor :: "nat \<Rightarrow> AutoLinkConfig \<Rightarrow> nat" where
  "esp_txBufferFloor heap cfg = uartTxBufferFloorCapped cfg heap (cfg_heapReserveBytes cfg)"

definition esp_setMode :: "nat \<Rightarrow> Mode \<Rightarrow> 's EspHal \<Rightarrow> 's EspHal" where
  "esp_setMode heap m h =
     (let h1 = h\<lparr>eh_cfg := (eh_cfg h)\<lparr>cfg_mode := m\<rparr>\<rparr> in
      if eh_running h then h1
      else h1\<lparr>eh_rxBufferSize := uartRxBufferFloor (eh_cfg h1), eh_txBufferSize := esp_txBufferFloor heap (eh_cfg h1),
             eh_streamBufSize := streamBufferFloor (eh_cfg h1)\<rparr>)"

text \<open>What the allocations and the driver answer during one \<open>begin()\<close>.\<close>

record 's BeginEnv =
  be_mutex :: bool
  be_exitSem :: bool
  be_floorHeap :: nat
  be_freeHeap :: nat
  be_stream :: "nat \<Rightarrow> 's option"
  be_install :: "nat \<Rightarrow> nat \<Rightarrow> bool"
  be_param :: bool
  be_pins :: bool
  be_singleCore :: bool
  be_task :: bool
  be_timer :: bool

definition esp_cleanup :: "'s EspHal \<Rightarrow> 's EspHal" where
  "esp_cleanup h =
     h\<lparr>eh_running := False, eh_txBufferSize := 0, eh_rxBufferSize := 0, eh_streamBufSize := 0, eh_mutex := False,
       eh_exitSem := False, eh_stream := None\<rparr>"

definition kServiceableFloor :: nat where "kServiceableFloor = 20 * 1024"

text \<open>From the driver on: install, configure, pins, the event task, the timer.\<close>

definition esp_begin_uart :: "'s BeginEnv \<Rightarrow> 's EspHal \<Rightarrow> 's EspHal" where
  "esp_begin_uart env h =
     (let h0 = h\<lparr>eh_driver := False\<rparr> in
      if \<not> be_install env (eh_rxBufferSize h0) (eh_txBufferSize h0) then esp_cleanup h0
      else if \<not> be_param env then esp_cleanup (h0\<lparr>eh_driver := False\<rparr>)
      else if \<not> be_pins env then esp_cleanup (h0\<lparr>eh_driver := False\<rparr>)
      else
        let h1 = h0\<lparr>eh_driver := True, eh_singleCore := be_singleCore env\<rparr> in
        if \<not> be_task env then esp_cleanup (h1\<lparr>eh_driver := False\<rparr>)
        else
          let h2 = h1\<lparr>eh_task := True\<rparr> in
          if \<not> be_timer env then esp_cleanup (h2\<lparr>eh_driver := False, eh_timer := False\<rparr>)
          else h2\<lparr>eh_timer := True, eh_healthy := True\<rparr>)"

definition esp_begin :: "'s BeginEnv \<Rightarrow> 's EspHal \<Rightarrow> 's EspHal" where
  "esp_begin env h =
     (if eh_running h then h
      else
        let d = distributeHeapBudget (eh_cfg h) (be_freeHeap env);
            h1 = h\<lparr>eh_running := True, eh_mutex := (eh_mutex h \<or> be_mutex env), eh_exitSem := (eh_exitSem h \<or> be_exitSem env),
                   eh_streamBufSize := streamBuf d, eh_rxBufferSize := rxBuf d, eh_txBufferSize := txBuf d\<rparr> in
        if streamBuf d = 0 \<or> rxBuf d = 0 \<or> txBuf d = 0 then esp_cleanup h1
        else
          case (if eh_stream h1 = None then be_stream env (streamBuf d) else eh_stream h1) of
            None \<Rightarrow> esp_cleanup h1
          | Some s \<Rightarrow>
              let h2 = h1\<lparr>eh_stream := Some s\<rparr> in
              if postFree d < kServiceableFloor then esp_cleanup h2 else esp_begin_uart env h2)"

definition esp_begin_cfg :: "'s BeginEnv \<Rightarrow> AutoLinkConfig \<Rightarrow> 's EspHal \<Rightarrow> 's EspHal" where
  "esp_begin_cfg env c h =
     esp_begin env (if eh_running h then h else esp_setMode (be_floorHeap env) (cfg_mode c) (h\<lparr>eh_cfg := c\<rparr>))"

subsection \<open>Small operations\<close>

text \<open>\<open>now\<close> is the clock after the driver has changed the baud.\<close>

definition esp_setSpd :: "u32 \<Rightarrow> 's EspHal \<Rightarrow> 's EspHal" where
  "esp_setSpd now h = h\<lparr>eh_lastSetSpdMs := now\<rparr>"

definition esp_setOkState :: "bool \<Rightarrow> 's EspHal \<Rightarrow> 's EspHal" where
  "esp_setOkState b h =
     (let h1 = (if b \<and> \<not> eh_okState h then h\<lparr>eh_breakWindowEpoch := eh_breakWindowEpoch h + 1\<rparr> else h) in
      h1\<lparr>eh_okState := b\<rparr>)"

text \<open>\<open>tx\<close>: what \<open>uart_write_bytes\<close> wrote, and the time it took, which the link adds up.\<close>

definition esp_tx :: "(bytes \<Rightarrow> int) \<Rightarrow> u32 \<Rightarrow> u32 \<Rightarrow> bytes \<Rightarrow> int \<times> u32" where
  "esp_tx uart_write t0 t1 b = (uart_write b, t1 - t0)"

text \<open>\<open>startTimer\<close>: the answers of \<open>xTimerChangePeriod\<close> and \<open>xTimerStart\<close> at each attempt; is it running?\<close>

fun startTimer_tries :: "nat \<Rightarrow> (nat \<Rightarrow> bool \<times> bool) \<Rightarrow> nat \<Rightarrow> bool" where
  "startTimer_tries 0 ans i = False"
| "startTimer_tries (Suc k) ans i = (if fst (ans i) \<and> snd (ans i) then True else startTimer_tries k ans (i + 1))"

definition esp_startTimer :: "(nat \<Rightarrow> bool \<times> bool) \<Rightarrow> 's EspHal \<Rightarrow> bool" where
  "esp_startTimer ans h = (if \<not> eh_timer h then False else startTimer_tries 3 ans 0)"

subsection \<open>The queue of received bytes\<close>

definition esp_pushAppBuf :: "'s StreamOps \<Rightarrow> bytes \<Rightarrow> 's EspHal \<Rightarrow> int \<times> 's EspHal" where
  "esp_pushAppBuf ops b h =
     (if b = [] then (0, h)
      else case eh_stream h of
          None \<Rightarrow> (0, h\<lparr>eh_nullLogged := True\<rparr>)
        | Some s \<Rightarrow> (case so_send ops b s of (n, s') \<Rightarrow> (int n, h\<lparr>eh_stream := Some s'\<rparr>)))"

definition esp_popAppBuf :: "'s StreamOps \<Rightarrow> int \<Rightarrow> 's EspHal \<Rightarrow> bytes \<times> 's EspHal" where
  "esp_popAppBuf ops max_len h =
     (let t = take (nat max_len) (drop (eh_peekPos h) (eh_peekBuf h)); pos = eh_peekPos h + length t;
          h1 = (if pos \<ge> length (eh_peekBuf h) then h\<lparr>eh_peekBuf := [], eh_peekPos := 0\<rparr> else h\<lparr>eh_peekPos := pos\<rparr>) in
      case eh_stream h1 of
        None \<Rightarrow> (t, h1)
      | Some s \<Rightarrow>
          if int (length t) < max_len
          then (case so_recv ops (nat max_len - length t) s of (r, s') \<Rightarrow> (t @ r, h1\<lparr>eh_stream := Some s'\<rparr>))
          else (t, h1))"

definition esp_peekAppBuf :: "'s StreamOps \<Rightarrow> 's EspHal \<Rightarrow> int \<times> 's EspHal" where
  "esp_peekAppBuf ops h =
     (if eh_peekPos h < length (eh_peekBuf h) then (uint (eh_peekBuf h ! eh_peekPos h), h)
      else case eh_stream h of
          None \<Rightarrow> (-1, h)
        | Some s \<Rightarrow>
            (case so_recv ops 1 s of
               (r, s') \<Rightarrow>
                 let h1 = h\<lparr>eh_stream := Some s'\<rparr> in
                 if length r = 1 \<and> length (eh_peekBuf h) < PEEK_BUF_CAP
                 then let buf = eh_peekBuf h @ r in (uint (buf ! eh_peekPos h), h1\<lparr>eh_peekBuf := buf\<rparr>)
                 else (-1, h1)))"

fun peekAt_loop :: "'s StreamOps \<Rightarrow> nat \<Rightarrow> 's EspHal \<Rightarrow> bytes \<times> 's EspHal" where
  "peekAt_loop ops 0 h = ([], h)"
| "peekAt_loop ops (Suc k) h =
     (case eh_stream h of
        None \<Rightarrow> ([], h)
      | Some s \<Rightarrow>
          (case so_recv ops 1 s of
             (r, s') \<Rightarrow>
               let h1 = h\<lparr>eh_stream := Some s'\<rparr> in
               if length r \<noteq> 1 then ([], h1)
               else
                 let h2 = (if length (eh_peekBuf h1) < PEEK_BUF_CAP then h1\<lparr>eh_peekBuf := eh_peekBuf h1 @ r\<rparr> else h1) in
                 case peekAt_loop ops k h2 of (rest, h3) \<Rightarrow> (r @ rest, h3)))"

definition esp_peekAt :: "'s StreamOps \<Rightarrow> int \<Rightarrow> int \<Rightarrow> 's EspHal \<Rightarrow> bytes \<times> 's EspHal" where
  "esp_peekAt ops n offset h =
     (if n \<le> 0 \<or> offset < 0 then ([], h)
      else
        let t = take (nat n) (drop (nat offset) (eh_peekBuf h)) in
        case peekAt_loop ops (nat n - length t) h of (r, h1) \<Rightarrow> (t @ r, h1))"

definition esp_appBufAvailable :: "'s StreamOps \<Rightarrow> 's EspHal \<Rightarrow> int" where
  "esp_appBufAvailable ops h =
     (case eh_stream h of None \<Rightarrow> 0 | Some s \<Rightarrow> int (so_avail ops s)) + (int (length (eh_peekBuf h)) - int (eh_peekPos h))"

definition esp_appBufFree :: "'s StreamOps \<Rightarrow> 's EspHal \<Rightarrow> int" where
  "esp_appBufFree ops h =
     (case eh_stream h of
        None \<Rightarrow> INT32_MAX
      | Some s \<Rightarrow> if so_spaces ops s > 0 then int (so_spaces ops s) - 1 else 0)"

definition esp_clearAppBuf :: "'s StreamOps \<Rightarrow> 's EspHal \<Rightarrow> 's EspHal" where
  "esp_clearAppBuf ops h = h\<lparr>eh_stream := map_option (so_reset ops) (eh_stream h), eh_peekBuf := [], eh_peekPos := 0\<rparr>"

subsection \<open>The queue keeps the contract\<close>

definition esp_held :: "('s \<Rightarrow> bytes) \<Rightarrow> 's EspHal \<Rightarrow> bytes" where
  "esp_held held h = drop (eh_peekPos h) (eh_peekBuf h) @ (case eh_stream h of None \<Rightarrow> [] | Some s \<Rightarrow> held s)"

text \<open>\<open>begin\<close> has made the stream buffer, and an empty peek buffer starts at its front.\<close>

definition esp_queue_ok :: "'s EspHal \<Rightarrow> bool" where
  "esp_queue_ok h \<longleftrightarrow> eh_stream h \<noteq> None \<and> eh_peekPos h \<le> length (eh_peekBuf h) \<and>
     (eh_peekPos h = length (eh_peekBuf h) \<longrightarrow> eh_peekBuf h = [])"

lemma stream_laws:
  assumes "stream_ok ops held cap"
  shows "so_avail ops s = length (held s)" "so_spaces ops s = cap s - length (held s)" "held (so_reset ops s) = []"
    "so_send ops b s = (n, s1) \<Longrightarrow> n = min (length b) (cap s - length (held s)) \<and> held s1 = held s @ take n b"
    "so_recv ops m s = (r, s2) \<Longrightarrow> r = take m (held s) \<and> held s2 = drop m (held s)"
  using assms unfolding stream_ok_def by (simp, simp, simp, metis fst_conv snd_conv, metis fst_conv snd_conv)

lemma esp_push_ok:
  assumes "stream_ok ops held cap" "esp_queue_ok h" "esp_pushAppBuf ops b h = (n, h')"
  shows "esp_queue_ok h' \<and> 0 \<le> n \<and> n \<le> int (length b) \<and> esp_held held h' = esp_held held h @ take (nat n) b \<and>
    (int (length b) \<le> esp_appBufFree ops h \<longrightarrow> n = int (length b))"
proof -
  obtain s where s: "eh_stream h = Some s" using assms(2) by (auto simp: esp_queue_ok_def)
  obtain k s1 where r: "so_send ops b s = (k, s1)" by fastforce
  note send = stream_laws(4) [OF assms(1) r]
  show ?thesis
  proof (cases "b = []")
    case True
    then show ?thesis using assms(2,3) by (auto simp: esp_pushAppBuf_def)
  next
    case False
    have e: "n = int k" "h' = h\<lparr>eh_stream := Some s1\<rparr>" using assms(3) False by (auto simp: esp_pushAppBuf_def s r)
    have "k = length b" if "int (length b) \<le> esp_appBufFree ops h"
      using that send False by (auto simp: esp_appBufFree_def s stream_laws(2) [OF assms(1)] split: if_splits)
    then show ?thesis using assms(2) send by (auto simp: e esp_queue_ok_def esp_held_def s)
  qed
qed

lemma esp_pop_ok:
  assumes "stream_ok ops held cap" "esp_queue_ok h" "esp_popAppBuf ops m h = (b, h')"
  shows "esp_queue_ok h' \<and> b = take (nat m) (esp_held held h) \<and> esp_held held h' = drop (nat m) (esp_held held h)"
proof -
  obtain s where s: "eh_stream h = Some s" using assms(2) by (auto simp: esp_queue_ok_def)
  define p where "p = drop (eh_peekPos h) (eh_peekBuf h)"
  define t where "t = take (nat m) p"
  have held: "esp_held held h = p @ held s" by (simp add: esp_held_def s p_def)
  have pos: "eh_peekPos h \<le> length (eh_peekBuf h)" using assms(2) by (simp add: esp_queue_ok_def)
  obtain r s1 where rv: "so_recv ops (nat m - length t) s = (r, s1)" by fastforce
  note recv = stream_laws(5) [OF assms(1) rv]
  define h1 where "h1 = (if eh_peekPos h + length t \<ge> length (eh_peekBuf h) then h\<lparr>eh_peekBuf := [], eh_peekPos := 0\<rparr>
    else h\<lparr>eh_peekPos := eh_peekPos h + length t\<rparr>)"
  have h1: "eh_stream h1 = Some s" "esp_queue_ok h1" "drop (eh_peekPos h1) (eh_peekBuf h1) = drop (length t) p"
    using s pos by (auto simp: h1_def esp_queue_ok_def p_def add.commute)
  have run: "esp_popAppBuf ops m h =
      (if int (length t) < m then (t @ r, h1\<lparr>eh_stream := Some s1\<rparr>) else (t, h1))"
    unfolding esp_popAppBuf_def p_def [symmetric] t_def [symmetric] Let_def h1_def [symmetric] by (simp add: h1(1) rv)
  have held1: "esp_held held h1 = drop (length t) p @ held s" by (simp add: esp_held_def h1)
  have held2: "esp_held held (h1\<lparr>eh_stream := Some s1\<rparr>) = drop (length t) p @ held s1" by (simp add: esp_held_def h1)
  show ?thesis
  proof (cases "int (length t) < m")
    case True
    then have all: "t = p" "length p < nat m" by (auto simp: t_def min_def split: if_splits)
    have e: "b = t @ r" "h' = h1\<lparr>eh_stream := Some s1\<rparr>" using assms(3) run True by simp_all
    have "esp_queue_ok h'" using h1(2) by (simp add: e esp_queue_ok_def)
    then show ?thesis using recv all by (simp add: e held held2)
  next
    case False
    then have "nat m \<le> length p" "length t = nat m" by (auto simp: t_def min_def split: if_splits)
    moreover have "b = t" "h' = h1" using assms(3) run False by simp_all
    ultimately show ?thesis using h1(2) by (simp add: held held1 t_def)
  qed
qed

lemma esp_peek_ok:
  assumes "stream_ok ops held cap" "esp_queue_ok h" "esp_peekAppBuf ops h = (c, h')"
  shows "esp_queue_ok h' \<and> esp_held held h' = esp_held held h \<and>
    c = (if esp_held held h = [] then -1 else uint (hd (esp_held held h)))"
proof -
  obtain s where s: "eh_stream h = Some s" using assms(2) by (auto simp: esp_queue_ok_def)
  obtain r s1 where rv: "so_recv ops (Suc 0) s = (r, s1)" by fastforce
  note recv = stream_laws(5) [OF assms(1) rv]
  show ?thesis
  proof (cases "eh_peekPos h < length (eh_peekBuf h)")
    case True
    then show ?thesis using assms(2,3) by (auto simp: esp_peekAppBuf_def esp_held_def hd_append hd_drop_conv_nth)
  next
    case False
    then have e: "eh_peekBuf h = []" "eh_peekPos h = 0" using assms(2) by (auto simp: esp_queue_ok_def)
    show ?thesis
    proof (cases "held s")
      case Nil
      then show ?thesis using assms(3) recv by (auto simp: esp_peekAppBuf_def e s rv esp_held_def esp_queue_ok_def)
    next
      case (Cons x xs)
      then show ?thesis using assms(3) recv
        by (auto simp: esp_peekAppBuf_def e s rv esp_held_def esp_queue_ok_def PEEK_BUF_CAP_def)
    qed
  qed
qed

text \<open>So the device gives the link the same contract as the host build.\<close>

lemma esp_app_queue:
  assumes "stream_ok ops held cap"
  shows "app_queue (esp_pushAppBuf ops) (esp_popAppBuf ops) (esp_peekAppBuf ops) (esp_appBufAvailable ops)
    (esp_appBufFree ops) (esp_clearAppBuf ops) esp_queue_ok (esp_held held)"
proof
  fix h :: "'a EspHal" and b m n h' c
  assume ok: "esp_queue_ok h"
  show "esp_queue_ok h' \<and> 0 \<le> n \<and> n \<le> int (length b) \<and> esp_held held h' = esp_held held h @ take (nat n) b"
    if "esp_pushAppBuf ops b h = (n, h')" using esp_push_ok [OF assms ok that] by simp
  show "n = int (length b)" if "esp_pushAppBuf ops b h = (n, h')" "int (length b) \<le> esp_appBufFree ops h"
    using esp_push_ok [OF assms ok that(1)] that(2) by simp
  show "esp_queue_ok h' \<and> b = take (nat m) (esp_held held h) \<and> esp_held held h' = drop (nat m) (esp_held held h)"
    if "esp_popAppBuf ops m h = (b, h')" by (rule esp_pop_ok [OF assms ok that])
  show "esp_queue_ok h' \<and> esp_held held h' = esp_held held h \<and>
      c = (if esp_held held h = [] then -1 else uint (hd (esp_held held h)))"
    if "esp_peekAppBuf ops h = (c, h')" by (rule esp_peek_ok [OF assms ok that])
  show "esp_appBufAvailable ops h = int (length (esp_held held h))"
    using ok stream_laws(1) [OF assms] by (auto simp: esp_appBufAvailable_def esp_held_def esp_queue_ok_def)
  show "esp_queue_ok (esp_clearAppBuf ops h) \<and> esp_held held (esp_clearAppBuf ops h) = []"
    using ok stream_laws(3) [OF assms] by (auto simp: esp_clearAppBuf_def esp_held_def esp_queue_ok_def)
qed

text \<open>A stream buffer as documented: its capacity and its bytes.\<close>

definition fifo_ops :: "(nat \<times> bytes) StreamOps" where
  "fifo_ops = \<lparr>so_send = (\<lambda>b (c, q). let n = min (length b) (c - length q) in (n, (c, q @ take n b))),
     so_recv = (\<lambda>n (c, q). (take n q, (c, drop n q))), so_avail = (\<lambda>(c, q). length q),
     so_spaces = (\<lambda>(c, q). c - length q), so_reset = (\<lambda>(c, q). (c, []))\<rparr>"

lemma fifo_ok: "stream_ok fifo_ops snd fst"
  by (simp add: stream_ok_def fifo_ops_def Let_def)

interpretation esp_fifo: app_queue "esp_pushAppBuf fifo_ops" "esp_popAppBuf fifo_ops" "esp_peekAppBuf fifo_ops"
  "esp_appBufAvailable fifo_ops" "esp_appBufFree fifo_ops" "esp_clearAppBuf fifo_ops" esp_queue_ok "esp_held snd"
  by (rule esp_app_queue [OF fifo_ok])

subsection \<open>Properties\<close>

text \<open>C34: the device's queue of received bytes is a queue. Over any FreeRTOS stream buffer that behaves
  as documented, after any pushes, pops and peeks the bytes that were there and the bytes taken
  in are, in this order and without loss, the bytes given out and the bytes still there; and a
  push of at most \<open>appBufFree\<close> bytes takes them all.\<close>

theorem esp_queue_fifo:
  assumes "stream_ok ops held cap" and "esp_queue_ok h"
    and "queue_run (esp_pushAppBuf ops) (esp_popAppBuf ops) (esp_peekAppBuf ops) prog h = (i, out, h')"
  shows "esp_held held h @ i = out @ esp_held held h' \<and>
    (int (length b) \<le> esp_appBufFree ops h' \<longrightarrow> fst (esp_pushAppBuf ops b h') = int (length b))"
proof -
  have ok: "esp_queue_ok h' \<and> esp_held held h @ i = out @ esp_held held h'"
    by (rule app_queue.run_fifo [OF esp_app_queue [OF assms(1)] assms(2,3)])
  then show ?thesis using app_queue.push_free [OF esp_app_queue [OF assms(1)], of h' b] by (metis prod.collapse)
qed

lemma peekAt_loop_reads:
  assumes "stream_ok ops held cap" "eh_stream h = Some s" "peekAt_loop ops k h = (r, h')"
  shows "r = take k (held s) \<and> (\<exists>s'. eh_stream h' = Some s' \<and> held s' = drop k (held s)) \<and>
    eh_peekBuf h' = eh_peekBuf h @ take (PEEK_BUF_CAP - length (eh_peekBuf h)) r \<and> eh_peekPos h' = eh_peekPos h"
  using assms(2,3)
proof (induction k arbitrary: h s r h')
  case 0
  then show ?case by auto
next
  case (Suc k)
  obtain x s1 where rv: "so_recv ops (Suc 0) s = (x, s1)" by fastforce
  note recv = stream_laws(5) [OF assms(1) rv]
  show ?case
  proof (cases "held s")
    case Nil
    then show ?thesis using Suc.prems recv by (auto simp: rv Let_def)
  next
    case (Cons c cs)
    define h2 where "h2 = (if length (eh_peekBuf h) < PEEK_BUF_CAP
      then h\<lparr>eh_stream := Some s1, eh_peekBuf := eh_peekBuf h @ [c]\<rparr> else h\<lparr>eh_stream := Some s1\<rparr>)"
    have x: "x = [c]" "held s1 = cs" using recv Cons by simp_all
    obtain r2 h3 where l: "peekAt_loop ops k h2 = (r2, h3)" by fastforce
    have e: "r = c # r2" "h' = h3" using Suc.prems l by (auto simp: rv x Let_def h2_def split: if_splits)
    have s2: "eh_stream h2 = Some s1" by (simp add: h2_def)
    have IH: "r2 = take k cs" "\<exists>s'. eh_stream h3 = Some s' \<and> held s' = drop k cs"
      "eh_peekBuf h3 = eh_peekBuf h2 @ take (PEEK_BUF_CAP - length (eh_peekBuf h2)) r2" "eh_peekPos h3 = eh_peekPos h2"
      using Suc.IH [OF s2 l] x(2) by simp_all
    have "eh_peekBuf h3 = eh_peekBuf h @ take (PEEK_BUF_CAP - length (eh_peekBuf h)) (c # r2)"
    proof (cases "length (eh_peekBuf h) < PEEK_BUF_CAP")
      case True
      then show ?thesis using IH(3) by (simp add: h2_def take_Cons')
    next
      case False
      then show ?thesis using IH(3) by (simp add: h2_def)
    qed
    then show ?thesis using IH by (simp add: e Cons h2_def)
  qed
qed

text \<open>\<open>peekAt\<close> of the device is no peek. With nothing in the peek buffer it gives the first bytes of
  the queue whatever offset it is asked for, and of the bytes it looked at only the first 16
  stay in the queue; the others are gone.\<close>

theorem esp_peekAt_loses:
  assumes "stream_ok ops held cap" "esp_queue_ok h" "eh_peekBuf h = []" "0 < n" "0 \<le> offset"
    and "esp_peekAt ops n offset h = (b, h')"
  shows "b = take (nat n) (esp_held held h) \<and> esp_held held h' = take 16 b @ drop (nat n) (esp_held held h)"
proof -
  obtain s where s: "eh_stream h = Some s" using assms(2) by (auto simp: esp_queue_ok_def)
  obtain r h1 where l: "peekAt_loop ops (nat n) h = (r, h1)" by fastforce
  have e: "b = r" "h' = h1" using assms(3-6) l by (simp_all add: esp_peekAt_def)
  have pos: "eh_peekPos h = 0" using assms(2,3) by (simp add: esp_queue_ok_def)
  show ?thesis using peekAt_loop_reads [OF assms(1) s l] pos by (auto simp: e assms(3) s esp_held_def PEEK_BUF_CAP_def)
qed

text \<open>C35: what starting a HAL that is not running leaves. If it ends healthy, driver, event task, timer and
  stream buffer are there, every buffer is non-empty and the stream buffer holds the largest message with its
  header, all of them within the heap above the reserve and 20 KB left; but nothing is said of the mutex and the
  semaphore of the event task's exit: each is there exactly if it was before or could be allocated. If it does
  not end healthy, it is not running and has no driver, timer, buffer, mutex or semaphore, and the ring sizes are 0;
  but the event task may be left: it is there if it was before, and also when it was created and the timer, the
  last step, could not be.\<close>

theorem esp_begin_outcome:
  fixes h :: "'s EspHal" and env :: "'s BeginEnv"
  assumes "\<not> eh_running h" "\<not> eh_healthy h" "\<not> eh_driver h" "\<not> eh_timer h"
  defines "h' \<equiv> esp_begin env h"
  shows "(eh_healthy h' \<longrightarrow> eh_running h' \<and> eh_driver h' \<and> eh_task h' \<and> eh_timer h' \<and> eh_stream h' \<noteq> None \<and>
      cfg_maxMsg (eh_cfg h) + 6 \<le> eh_streamBufSize h' \<and> 0 < eh_rxBufferSize h' \<and> 0 < eh_txBufferSize h' \<and>
      eh_streamBufSize h' + eh_rxBufferSize h' + eh_txBufferSize h' + max 20480 (cfg_heapReserveBytes (eh_cfg h)) \<le> be_freeHeap env \<and>
      (eh_mutex h' \<longleftrightarrow> eh_mutex h \<or> be_mutex env) \<and> (eh_exitSem h' \<longleftrightarrow> eh_exitSem h \<or> be_exitSem env) \<and> be_timer env) \<and>
    (\<not> eh_healthy h' \<longrightarrow> \<not> eh_running h' \<and> \<not> eh_driver h' \<and> \<not> eh_timer h' \<and> eh_stream h' = None \<and>
      \<not> eh_mutex h' \<and> \<not> eh_exitSem h' \<and> eh_streamBufSize h' = 0 \<and> eh_rxBufferSize h' = 0 \<and> eh_txBufferSize h' = 0 \<and>
      (eh_task h \<longrightarrow> eh_task h') \<and> (eh_task h' \<longrightarrow> eh_task h \<or> be_task env \<and> \<not> be_timer env))"
proof -
  define d where "d = distributeHeapBudget (eh_cfg h) (be_freeHeap env)"
  have b: "postFree d = be_freeHeap env - (streamBuf d + rxBuf d + txBuf d)"
      "streamBuf d = 0 \<or> cfg_maxMsg (eh_cfg h) + 6 \<le> streamBuf d"
      "streamBuf d + rxBuf d + txBuf d \<le> be_freeHeap env - cfg_heapReserveBytes (eh_cfg h)"
    using distributeHeapBudget_bounds [of "eh_cfg h" "be_freeHeap env"] by (simp_all add: d_def Let_def)
  show ?thesis
    using assms(1-4) b unfolding h'_def esp_begin_def d_def [symmetric] Let_def
    by (simp add: esp_begin_uart_def esp_cleanup_def Let_def kServiceableFloor_def split: option.split) auto
qed

subsection \<open>Witnesses\<close>

definition demo_esp :: "(nat \<times> bytes) EspHal" where
  "demo_esp = (esp_new config_default)\<lparr>eh_stream := Some (100, [])\<rparr>"

theorem esp_queue_fifo_witness:
  "\<exists>i out h'. queue_run (esp_pushAppBuf fifo_ops) (esp_popAppBuf fifo_ops) (esp_peekAppBuf fifo_ops)
      [Push [1, 2, 3], Peek, Pop 2, Push [4], Pop 1] demo_esp = (i, out, h') \<and>
    i = [1, 2, 3, 4] \<and> out @ esp_held snd h' = [1, 2, 3, 4] \<and> fst (esp_pushAppBuf fifo_ops [5] h') = 1"
proof -
  obtain i out h' where r: "queue_run (esp_pushAppBuf fifo_ops) (esp_popAppBuf fifo_ops) (esp_peekAppBuf fifo_ops)
      [Push [1, 2, 3], Peek, Pop 2, Push [4], Pop 1] demo_esp = (i, out, h')" by (metis prod_cases3)
  have i: "i = [1, 2, 3, 4]" and f: "1 \<le> esp_appBufFree fifo_ops h'"
    using r by (auto simp: demo_esp_def esp_new_def esp_pushAppBuf_def esp_popAppBuf_def esp_peekAppBuf_def esp_appBufFree_def
      fifo_ops_def PEEK_BUF_CAP_def Let_def)
  have "esp_queue_ok demo_esp" "esp_held snd demo_esp = []" by (simp_all add: demo_esp_def esp_new_def esp_queue_ok_def esp_held_def)
  then show ?thesis using esp_queue_fifo [OF fifo_ok _ r, of "[5]"] r i f by auto
qed

theorem esp_peekAt_loses_witness:
  "\<exists>h'. esp_peekAt fifo_ops 20 0 (demo_esp\<lparr>eh_stream := Some (100, replicate 30 7)\<rparr>) = (replicate 20 7, h') \<and>
    length (esp_held snd h') = 26"
proof -
  define h where "h = demo_esp\<lparr>eh_stream := Some (100, replicate 30 (7 :: u8))\<rparr>"
  have h: "esp_queue_ok h" "eh_peekBuf h = []" "esp_held snd h = replicate 30 7"
    by (simp_all add: h_def demo_esp_def esp_new_def esp_queue_ok_def esp_held_def)
  obtain b h' where r: "esp_peekAt fifo_ops 20 0 h = (b, h')" by fastforce
  show ?thesis using esp_peekAt_loses [OF fifo_ok h(1,2) _ _ r] h(3) r by (auto simp: h_def)
qed

definition demo_env :: "(nat \<times> bytes) BeginEnv" where
  "demo_env = \<lparr>be_mutex = True, be_exitSem = True, be_floorHeap = 200000, be_freeHeap = 200000,
     be_stream = (\<lambda>n. Some (n, [])), be_install = (\<lambda>_ _. True), be_param = True, be_pins = True,
     be_singleCore = False, be_task = True, be_timer = False\<rparr>"

text \<open>Two starts: one in which the timer cannot be created, and the event task stays; one in which the mutex cannot,
  and the device is healthy without it.\<close>

theorem esp_begin_outcome_witness:
  "(let h' = esp_begin demo_env (esp_new config_default) in
      \<not> eh_healthy h' \<and> \<not> eh_driver h' \<and> eh_stream h' = None \<and> eh_task h') \<and>
   (let h' = esp_begin (demo_env\<lparr>be_timer := True, be_mutex := False\<rparr>) (esp_new config_default) in
      eh_healthy h' \<and> eh_timer h' \<and> \<not> eh_mutex h')"
proof -
  let ?h = "esp_new config_default :: (nat \<times> bytes) EspHal" and ?env = "demo_env\<lparr>be_timer := True, be_mutex := False\<rparr>"
  have new: "\<not> eh_running ?h" "\<not> eh_healthy ?h" "\<not> eh_driver ?h" "\<not> eh_timer ?h" "\<not> eh_mutex ?h" by (simp_all add: esp_new_def)
  have n: "\<not> eh_healthy (esp_begin demo_env ?h)"
    by (simp add: esp_begin_def esp_begin_uart_def esp_cleanup_def Let_def demo_env_def esp_new_def split: option.split)
  have plan: "distributeHeapBudget config_default 200000 =
      \<lparr>streamBuf = streamBufferFloor config_default, rxBuf = uartRxBufferFloor config_default,
       txBuf = uartTxBufferFloor config_default,
       postFree = 200000 - (streamBufferFloor config_default + uartRxBufferFloor config_default + uartTxBufferFloor config_default)\<rparr>"
    by (rule distributeHeapBudget_enough)
      (simp add: config_default_def streamBufferFloor_def uartRxBufferFloor_def uartTxBufferFloor_def chunksForMsgLen_def wire_defs)
  have d: "streamBuf (distributeHeapBudget config_default 200000) \<noteq> 0" "rxBuf (distributeHeapBudget config_default 200000) \<noteq> 0"
    "txBuf (distributeHeapBudget config_default 200000) \<noteq> 0" "\<not> postFree (distributeHeapBudget config_default 200000) < 20480"
    unfolding plan
    by (simp_all add: config_default_def streamBufferFloor_def uartRxBufferFloor_def uartTxBufferFloor_def chunksForMsgLen_def wire_defs)
  have t: "eh_task (esp_begin demo_env ?h)" and ok: "eh_healthy (esp_begin ?env ?h)"
    using d by (simp_all add: esp_begin_def esp_begin_uart_def esp_cleanup_def Let_def demo_env_def esp_new_def kServiceableFloor_def)
  show ?thesis
    using esp_begin_outcome [OF new(1-4), of demo_env] esp_begin_outcome [OF new(1-4), of ?env] n t ok new(5)
    by (simp add: Let_def demo_env_def)
qed

end
