(* ===== verification/EspUart.thy ===== *)
theory EspUart
  imports EspHal
begin

text \<open>
  The UART event task of the device (\<open>hal/EspHalUartEvent.h\<close>): what it hands to the link, and the
  filter in front of \<open>onBreak\<close> (a guard after a change of baud, a debounce, a summary of each second
  that reports a storm).

  An input is an event of the driver with the clock when it is handled and when the summary is
  looked at, the bytes the driver gives for it, and what the link did to the HAL in between (it
  is called from here); between inputs the other tasks call \<open>setSpd\<close> and \<open>setOkState\<close>. The clock is
  the 64-bit \<open>esp_timer_get_time() / 1000\<close>; the task keeps its low 32 bits.
\<close>

datatype UartEvent = UART_DATA nat | UART_FIFO_OVF | UART_BUFFER_FULL | UART_PARITY_ERR | UART_FRAME_ERR
  | UART_BREAK | UART_OTHER

text \<open>What the task calls: the link, or the driver.\<close>

datatype HalCall = CallRx bytes | CallBreak | CallBreakStorm | FlushInput | QueueReset

datatype HalAct = SetSpd nat | SetOk bool

record UartIn =
  ui_event :: UartEvent
  ui_now :: nat
  ui_bytes :: "nat \<Rightarrow> bytes"
  ui_during :: "HalAct list"
  ui_nowMs :: nat

definition BREAK_SUMMARY_MS :: u32 where "BREAK_SUMMARY_MS = 1000"
definition BREAK_STORM_THRESHOLD :: u32 where "BREAK_STORM_THRESHOLD = 8"
definition BREAK_DEBOUNCE_MS :: u32 where "BREAK_DEBOUNCE_MS = 120"
definition POST_SETSPD_BREAK_GUARD_MS :: u32 where "POST_SETSPD_BREAK_GUARD_MS = 80"

text \<open>The local variables of the task.\<close>

record EvTask =
  ev_last_break :: u32
  ev_last_summary :: u32
  ev_suppressed :: u32
  ev_delivered :: u32
  ev_announced :: bool
  ev_epoch :: u32

definition ev_init :: EvTask where
  "ev_init = \<lparr>ev_last_break = 0, ev_last_summary = 0, ev_suppressed = 0, ev_delivered = 0, ev_announced = False,
     ev_epoch = 0\<rparr>"

definition hal_act :: "HalAct \<Rightarrow> 's EspHal \<Rightarrow> 's EspHal" where
  "hal_act a h = (case a of SetSpd t \<Rightarrow> esp_setSpd (of_nat t) h | SetOk b \<Rightarrow> esp_setOkState b h)"

subsection \<open>One event\<close>

text \<open>A break: is it delivered? A suppressed one skips the summary (\<open>continue\<close>).\<close>

definition ev_break :: "u32 \<Rightarrow> 's EspHal \<Rightarrow> EvTask \<Rightarrow> bool \<times> EvTask" where
  "ev_break now h v =
     (let v0 = (if ev_suppressed v = 0 \<and> ev_delivered v = 0 then v\<lparr>ev_epoch := eh_breakWindowEpoch h\<rparr> else v) in
      if now - eh_lastSetSpdMs h < POST_SETSPD_BREAK_GUARD_MS
      then (False, v0\<lparr>ev_suppressed := ev_suppressed v0 + 1, ev_last_break := now\<rparr>)
      else if now - ev_last_break v0 < BREAK_DEBOUNCE_MS
      then (False, v0\<lparr>ev_suppressed := ev_suppressed v0 + 1\<rparr>)
      else (True, v0\<lparr>ev_last_break := now, ev_delivered := ev_delivered v0 + 1\<rparr>))"

definition ev_summary :: "u32 \<Rightarrow> 's EspHal \<Rightarrow> EvTask \<Rightarrow> HalCall list \<times> EvTask" where
  "ev_summary nowMs h v =
     (if nowMs - ev_last_summary v \<ge> BREAK_SUMMARY_MS then
        let straddled = (ev_epoch v \<noteq> eh_breakWindowEpoch h);
            storm = (\<not> straddled \<and> (ev_suppressed v > 0 \<or> ev_delivered v > 0) \<and> ev_suppressed v \<ge> BREAK_STORM_THRESHOLD) in
        (if storm \<and> \<not> ev_announced v then [CallBreakStorm] else [],
         v\<lparr>ev_suppressed := 0, ev_delivered := 0, ev_last_summary := nowMs, ev_announced := False\<rparr>)
      else ([], v))"

text \<open>What happens, in order: a call with the time of its event, or something the link or another task did
  to the HAL.\<close>

datatype UartLog = Called nat HalCall | Did HalAct

text \<open>The rest of a pass: the call, what the link does in it, the summary.\<close>

definition ev_rest :: "HalCall list \<Rightarrow> UartIn \<Rightarrow> 's EspHal \<Rightarrow> EvTask \<Rightarrow> UartLog list \<times> 's EspHal \<times> EvTask" where
  "ev_rest calls i h v =
     (let h1 = fold hal_act (ui_during i) h in
      case ev_summary (of_nat (ui_nowMs i)) h1 v of
        (storm, v1) \<Rightarrow> (map (Called (ui_now i)) calls @ map Did (ui_during i) @ map (Called (ui_now i)) storm, h1, v1))"

definition uart_event :: "nat \<Rightarrow> UartIn \<Rightarrow> 's EspHal \<Rightarrow> EvTask \<Rightarrow> UartLog list \<times> 's EspHal \<times> EvTask" where
  "uart_event rx_cap i h v =
     (case ui_event i of
        UART_DATA n \<Rightarrow>
          let b = ui_bytes i (if n > rx_cap then rx_cap else n) in
          ev_rest (if b \<noteq> [] then [CallRx b] else []) i h v
      | UART_FIFO_OVF \<Rightarrow> ev_rest [FlushInput, QueueReset] i (h\<lparr>eh_rxOverflows := eh_rxOverflows h + 1\<rparr>) v
      | UART_BUFFER_FULL \<Rightarrow> ev_rest [FlushInput, QueueReset] i (h\<lparr>eh_rxOverflows := eh_rxOverflows h + 1\<rparr>) v
      | UART_PARITY_ERR \<Rightarrow> ev_rest [] i (h\<lparr>eh_rxFrameErrs := eh_rxFrameErrs h + 1\<rparr>) v
      | UART_FRAME_ERR \<Rightarrow> ev_rest [] i (h\<lparr>eh_rxFrameErrs := eh_rxFrameErrs h + 1\<rparr>) v
      | UART_BREAK \<Rightarrow>
          (case ev_break (of_nat (ui_now i)) h v of
             (True, v1) \<Rightarrow> ev_rest [CallBreak] i h v1
           | (False, v1) \<Rightarrow> ([], h, v1))
      | UART_OTHER \<Rightarrow> ev_rest [] i h v)"

subsection \<open>A run of the task\<close>

datatype UartItem = Act HalAct | In UartIn

fun uart_run :: "nat \<Rightarrow> UartItem list \<Rightarrow> 's EspHal \<Rightarrow> EvTask \<Rightarrow> UartLog list \<times> 's EspHal \<times> EvTask" where
  "uart_run rx_cap [] h v = ([], h, v)"
| "uart_run rx_cap (Act a # is) h v =
     (case uart_run rx_cap is (hal_act a h) v of (lg, h2, v2) \<Rightarrow> (Did a # lg, h2, v2))"
| "uart_run rx_cap (In i # is) h v =
     (case uart_event rx_cap i h v of
        (lg1, h1, v1) \<Rightarrow> (case uart_run rx_cap is h1 v1 of (lg2, h2, v2) \<Rightarrow> (lg1 @ lg2, h2, v2)))"

text \<open>The clock never runs backwards.\<close>

fun acts_from :: "nat \<Rightarrow> HalAct list \<Rightarrow> nat \<Rightarrow> bool" where
  "acts_from t [] e = (t \<le> e)"
| "acts_from t (SetSpd u # as) e = (t \<le> u \<and> acts_from u as e)"
| "acts_from t (SetOk _ # as) e = acts_from t as e"

fun in_order_from :: "nat \<Rightarrow> UartItem list \<Rightarrow> bool" where
  "in_order_from t [] = True"
| "in_order_from t (Act (SetSpd u) # is) = (t \<le> u \<and> in_order_from u is)"
| "in_order_from t (Act (SetOk _) # is) = in_order_from t is"
| "in_order_from t (In i # is) =
     (t \<le> ui_now i \<and> acts_from (ui_now i) (ui_during i) (ui_nowMs i) \<and> in_order_from (ui_nowMs i) is)"

subsection \<open>The distance between breaks\<close>

text \<open>With the last change of baud at \<open>ts\<close> and the last break at \<open>tb\<close>.\<close>

fun spaced :: "nat \<Rightarrow> nat \<Rightarrow> UartLog list \<Rightarrow> bool" where
  "spaced ts tb [] = True"
| "spaced ts tb (Did (SetSpd u) # lg) = (ts \<le> u \<and> spaced u tb lg)"
| "spaced ts tb (Did (SetOk _) # lg) = spaced ts tb lg"
| "spaced ts tb (Called d c # lg) =
     (if c = CallBreak then ts + 80 \<le> d \<and> tb + 120 \<le> d \<and> spaced ts d lg else spaced ts tb lg)"

lemma spaced_mono: "spaced ts tb lg \<Longrightarrow> tb' \<le> tb \<Longrightarrow> spaced ts tb' lg"
  by (induction ts tb lg arbitrary: tb' rule: spaced.induct) (auto split: if_splits)

lemma spaced_split:
  assumes "spaced ts tb (xs @ Called d CallBreak # ys)"
  shows "(\<forall>u. Did (SetSpd u) \<in> set xs \<longrightarrow> u + 80 \<le> d) \<and> (\<forall>d'. Called d' CallBreak \<in> set xs \<longrightarrow> d' + 120 \<le> d) \<and>
    ts + 80 \<le> d \<and> tb + 120 \<le> d"
  using assms by (induction ts tb xs rule: spaced.induct) (auto split: if_splits)

lemma u32_distance:
  assumes "s \<le> (t :: nat)" and "\<not> (of_nat t :: u32) - of_nat s < of_nat m" and "m < 2 ^ 32"
  shows "s + m \<le> t"
proof -
  have "(of_nat t :: u32) - of_nat s = of_nat (t - s)" using assms(1) by (simp add: of_nat_diff)
  then have "unat (of_nat m :: u32) \<le> unat (of_nat (t - s) :: u32)" using assms(2) by (simp add: word_le_nat_alt not_less)
  moreover have "unat (of_nat m :: u32) = m" using assms(3) by (simp add: unat_of_nat)
  moreover have "unat (of_nat (t - s) :: u32) \<le> t - s" by (simp add: unat_of_nat)
  ultimately show ?thesis using assms(1) by linarith
qed

definition ev_inv :: "nat \<Rightarrow> nat \<Rightarrow> nat \<Rightarrow> 's EspHal \<Rightarrow> EvTask \<Rightarrow> bool" where
  "ev_inv ts tb t h v \<longleftrightarrow> eh_lastSetSpdMs h = of_nat ts \<and> ev_last_break v = of_nat tb \<and> ts \<le> t \<and> tb \<le> t"

lemma acts_from_le: "acts_from t as e \<Longrightarrow> t \<le> e"
  by (induction t as e rule: acts_from.induct) auto

lemma acts_spaced:
  assumes "acts_from t as e" "eh_lastSetSpdMs h = of_nat ts" "ts \<le> t"
  shows "\<exists>ts'. eh_lastSetSpdMs (fold hal_act as h) = of_nat ts' \<and> ts' \<le> e \<and>
    (\<forall>tb lg. spaced ts' tb lg \<longrightarrow> spaced ts tb (map Did as @ lg))"
  using assms
proof (induction t as e arbitrary: h ts rule: acts_from.induct)
  case (2 t u as e)
  have "eh_lastSetSpdMs (hal_act (SetSpd u) h) = of_nat u" by (simp add: hal_act_def esp_setSpd_def)
  then obtain ts' where "eh_lastSetSpdMs (fold hal_act as (hal_act (SetSpd u) h)) = of_nat ts'" "ts' \<le> e"
    "\<forall>tb lg. spaced ts' tb lg \<longrightarrow> spaced u tb (map Did as @ lg)"
    using 2(1) [of "hal_act (SetSpd u) h" u] 2(2) by auto
  then show ?case using 2(2,4) by auto
next
  case (3 t b as e)
  have "eh_lastSetSpdMs (hal_act (SetOk b) h) = of_nat ts" using 3(3) by (simp add: hal_act_def esp_setOkState_def Let_def)
  then show ?case using 3 by auto
qed auto

lemma spaced_calls: "CallBreak \<notin> set cs \<Longrightarrow> spaced ts tb (map (Called n) cs @ lg) = spaced ts tb lg"
  by (induction cs) auto

lemma summary_calls:
  assumes "ev_summary n h v = (cs, v')"
  shows "CallBreak \<notin> set cs" "ev_last_break v' = ev_last_break v"
  using assms by (auto simp: ev_summary_def Let_def split: if_splits)

lemma rest_spaced:
  assumes "acts_from (ui_now i) (ui_during i) (ui_nowMs i)" "eh_lastSetSpdMs h = of_nat ts" "ts \<le> ui_now i"
    and "ev_last_break v = of_nat tb" "tb \<le> ui_now i" and "ev_rest calls i h v = (lg, h', v')"
  shows "\<exists>ts'. ev_inv ts' tb (ui_nowMs i) h' v' \<and>
    (\<forall>lg2. spaced ts' tb lg2 \<longrightarrow> (\<exists>lg1. lg @ lg2 = map (Called (ui_now i)) calls @ lg1 \<and> spaced ts tb lg1))"
proof -
  obtain storm v1 where s: "ev_summary (of_nat (ui_nowMs i)) (fold hal_act (ui_during i) h) v = (storm, v1)" by fastforce
  have e: "lg = map (Called (ui_now i)) calls @ map Did (ui_during i) @ map (Called (ui_now i)) storm"
    "h' = fold hal_act (ui_during i) h" "v' = v1"
    using assms(6) by (simp_all add: ev_rest_def Let_def s)
  obtain ts' where ts: "eh_lastSetSpdMs h' = of_nat ts'" "ts' \<le> ui_nowMs i"
    "\<forall>tb lg. spaced ts' tb lg \<longrightarrow> spaced ts tb (map Did (ui_during i) @ lg)"
    using acts_spaced [OF assms(1-3)] e(2) by auto
  have "ev_inv ts' tb (ui_nowMs i) h' v'"
    using ts(1,2) assms(4,5) summary_calls(2) [OF s] acts_from_le [OF assms(1)] by (simp add: ev_inv_def e(3))
  moreover have "spaced ts tb (map Did (ui_during i) @ map (Called (ui_now i)) storm @ lg2)" if "spaced ts' tb lg2" for lg2
    using ts(3) that spaced_calls [OF summary_calls(1) [OF s]] by simp
  ultimately show ?thesis by (intro exI [of _ ts']) (auto simp: e(1))
qed

lemma event_spaced:
  assumes "ev_inv ts tb t h v" "t \<le> ui_now i" "acts_from (ui_now i) (ui_during i) (ui_nowMs i)"
    and "uart_event rx_cap i h v = (lg, h', v')"
  shows "\<exists>ts' tb'. ev_inv ts' tb' (ui_nowMs i) h' v' \<and> (\<forall>lg2. spaced ts' tb' lg2 \<longrightarrow> spaced ts tb (lg @ lg2))"
proof -
  have inv: "eh_lastSetSpdMs h = of_nat ts" "ev_last_break v = of_nat tb" "ts \<le> ui_now i" "tb \<le> ui_now i"
    using assms(1,2) by (auto simp: ev_inv_def)
  have quiet: ?thesis if r: "ev_rest calls i h1 v = (lg, h', v')" and s: "eh_lastSetSpdMs h1 = of_nat ts"
      and c: "CallBreak \<notin> set calls" for calls h1
  proof -
    obtain ts' where "ev_inv ts' tb (ui_nowMs i) h' v'"
      "\<forall>lg2. spaced ts' tb lg2 \<longrightarrow> (\<exists>lg1. lg @ lg2 = map (Called (ui_now i)) calls @ lg1 \<and> spaced ts tb lg1)"
      using rest_spaced [OF assms(3) s inv(3,2,4) r] by blast
    then show ?thesis using spaced_calls [OF c] by metis
  qed
  show ?thesis
  proof (cases "ui_event i = UART_BREAK")
    case False
    then show ?thesis using assms(4) inv(1)
      by (cases "ui_event i") (auto simp: uart_event_def Let_def intro!: quiet split: if_splits)
  next
    case True
    obtain ok v1 where b: "ev_break (of_nat (ui_now i)) h v = (ok, v1)" by fastforce
    show ?thesis
    proof (cases ok)
      case False
      have e: "lg = []" "h' = h" "v' = v1" using assms(4) True False by (simp_all add: uart_event_def b)
      have "ev_last_break v1 = of_nat (ui_now i) \<or> ev_last_break v1 = of_nat tb"
        using b inv(2) False by (auto simp: ev_break_def Let_def split: if_splits)
      then obtain tb' where "ev_last_break v1 = of_nat tb'" "tb' \<le> ui_now i" "tb \<le> tb'" using inv(4) by auto
      then have "ev_inv ts tb' (ui_nowMs i) h' v'"
        using inv(1,3) acts_from_le [OF assms(3)] by (simp add: ev_inv_def e)
      moreover have "spaced ts tb lg2" if "spaced ts tb' lg2" for lg2
        using spaced_mono [OF that \<open>tb \<le> tb'\<close>] .
      ultimately show ?thesis by (intro exI [of _ ts] exI [of _ tb']) (simp add: e)
    next
      case ok: True
      have r: "ev_rest [CallBreak] i h v1 = (lg, h', v')" using assms(4) True ok by (simp add: uart_event_def b)
      have g: "\<not> of_nat (ui_now i) - eh_lastSetSpdMs h < POST_SETSPD_BREAK_GUARD_MS"
        "\<not> of_nat (ui_now i) - ev_last_break v < BREAK_DEBOUNCE_MS" "ev_last_break v1 = of_nat (ui_now i)"
        using b ok by (auto simp: ev_break_def Let_def split: if_splits)
      have "ts + 80 \<le> ui_now i" "tb + 120 \<le> ui_now i"
        using u32_distance [OF inv(3), of 80] u32_distance [OF inv(4), of 120] g(1,2)
        by (simp_all add: inv(1,2) POST_SETSPD_BREAK_GUARD_MS_def BREAK_DEBOUNCE_MS_def)
      moreover obtain ts' where "ev_inv ts' (ui_now i) (ui_nowMs i) h' v'"
        "\<forall>lg2. spaced ts' (ui_now i) lg2 \<longrightarrow> (\<exists>lg1. lg @ lg2 = map (Called (ui_now i)) [CallBreak] @ lg1 \<and> spaced ts (ui_now i) lg1)"
        using rest_spaced [OF assms(3) inv(1,3) g(3) order.refl r] by blast
      ultimately show ?thesis by (intro exI [of _ ts'] exI [of _ "ui_now i"]) force
    qed
  qed
qed

lemma run_spaced:
  assumes "ev_inv ts tb t h v" "in_order_from t is" "uart_run rx_cap is h v = (lg, h', v')"
  shows "spaced ts tb lg"
  using assms
proof (induction t "is" arbitrary: ts tb h v lg h' v' rule: in_order_from.induct)
  case (2 t u "is")
  obtain l h2 v2 where r: "uart_run rx_cap is (hal_act (SetSpd u) h) v = (l, h2, v2)" by (metis prod_cases3)
  have "ev_inv u tb u (hal_act (SetSpd u) h) v" using 2(2,3) by (simp add: ev_inv_def hal_act_def esp_setSpd_def)
  then have "spaced u tb l" using 2(1) [OF _ _ r] 2(3) by simp
  then show ?case using 2 r by (auto simp: ev_inv_def)
next
  case (3 t b "is")
  obtain l h2 v2 where r: "uart_run rx_cap is (hal_act (SetOk b) h) v = (l, h2, v2)" by (metis prod_cases3)
  have "ev_inv ts tb t (hal_act (SetOk b) h) v" using 3(2) by (simp add: ev_inv_def hal_act_def esp_setOkState_def Let_def)
  then have "spaced ts tb l" using 3(1) [OF _ _ r] 3(3) by simp
  then show ?case using 3(4) r by auto
next
  case (4 t i "is")
  obtain l1 h1 v1 where e: "uart_event rx_cap i h v = (l1, h1, v1)" by (metis prod_cases3)
  obtain l2 h2 v2 where r: "uart_run rx_cap is h1 v1 = (l2, h2, v2)" by (metis prod_cases3)
  obtain ts' tb' where "ev_inv ts' tb' (ui_nowMs i) h1 v1" "\<forall>lg2. spaced ts' tb' lg2 \<longrightarrow> spaced ts tb (l1 @ lg2)"
    using event_spaced [OF 4(2) _ _ e] 4(3) by auto
  then have "spaced ts tb (l1 @ l2)" using 4(1) [OF _ _ r] 4(3) by simp
  then show ?case using 4(4) e r by simp
qed auto

text \<open>C36: the breaks the link hears of are far apart. Whatever arrives on the UART and whatever the link
  does, and over any wrap of the 32-bit clocks, a break handed to \<open>onBreak\<close> comes at least 120 ms
  after every break handed over before it and at least 80 ms after every change of baud before
  it.\<close>

theorem breaks_spaced:
  assumes "in_order_from 0 items" and "uart_run rx_cap items (esp_new cfg) ev_init = (lg, h', v')"
    and "lg = before @ Called d CallBreak # rest"
  shows "(\<forall>d'. Called d' CallBreak \<in> set before \<longrightarrow> d' + 120 \<le> d) \<and> (\<forall>u. Did (SetSpd u) \<in> set before \<longrightarrow> u + 80 \<le> d)"
proof -
  have "ev_inv 0 0 0 (esp_new cfg) ev_init" by (simp add: ev_inv_def esp_new_def ev_init_def)
  from run_spaced [OF this assms(1,2)] show ?thesis using spaced_split assms(3) by blast
qed

text \<open>A change of baud at 1000 ms; breaks at 1050 (in the guard), 1100 (too close to it), 1200, 1250.\<close>

definition demo_break :: "nat \<Rightarrow> UartItem" where
  "demo_break t = In \<lparr>ui_event = UART_BREAK, ui_now = t, ui_bytes = (\<lambda>_. []), ui_during = [], ui_nowMs = t\<rparr>"

theorem breaks_spaced_witness:
  "\<exists>h' v'. uart_run 64 [demo_break 500, Act (SetSpd 1000), demo_break 1050, demo_break 1100, demo_break 1200, demo_break 1250]
      (esp_new config_default :: nat EspHal) ev_init =
    ([Called 500 CallBreak, Did (SetSpd 1000), Called 1200 CallBreak], h', v') \<and> 500 + 120 \<le> (1200 :: nat) \<and> 1000 + 80 \<le> (1200 :: nat)"
proof -
  define items where "items = [demo_break 500, Act (SetSpd 1000), demo_break 1050, demo_break 1100, demo_break 1200, demo_break 1250]"
  have o: "in_order_from 0 items" by (simp add: items_def demo_break_def)
  obtain lg h' v' where r: "uart_run 64 items (esp_new config_default :: nat EspHal) ev_init = (lg, h', v')" by (metis prod_cases3)
  have lg: "lg = [Called 500 CallBreak, Did (SetSpd 1000)] @ Called 1200 CallBreak # []"
    using r by (simp add: items_def demo_break_def uart_event_def ev_break_def ev_rest_def ev_summary_def ev_init_def esp_new_def
      hal_act_def esp_setSpd_def Let_def POST_SETSPD_BREAK_GUARD_MS_def BREAK_DEBOUNCE_MS_def BREAK_SUMMARY_MS_def
      BREAK_STORM_THRESHOLD_def)
  show ?thesis using breaks_spaced [OF o r lg] r lg by (simp add: items_def)
qed

end
