(* ===== verification/Blink.thy ===== *)
theory Blink
  imports AlPrelude
begin

text \<open>
  The LED of the device (\<open>util/blink/UtilBlink.h\<close>): \<open>UtilBlink\<close> flashes it in the background, one timer
  expiry at a time, or in the foreground. What it asks of the pin and the timer is a list of calls.
\<close>

datatype BlinkCall = WritePin bool | StartOnce u32 | CancelTimer | DelayMs u32 | Yield

record UtilBlink =
  bl_left :: int
  bl_on :: bool
  bl_onMs :: int
  bl_offMs :: int

definition blink_new :: UtilBlink where
  "blink_new = \<lparr>bl_left = 0, bl_on = False, bl_onMs = 60, bl_offMs = 60\<rparr>"

definition blink_cancel :: "UtilBlink \<Rightarrow> BlinkCall list \<times> UtilBlink" where
  "blink_cancel s = ([CancelTimer, WritePin False], s\<lparr>bl_left := 0, bl_on := False\<rparr>)"

definition blink_tick :: "UtilBlink \<Rightarrow> BlinkCall list \<times> UtilBlink" where
  "blink_tick s =
     (if bl_on s then
        (WritePin False # (if bl_left s > 0 then [StartOnce (u32_of_int (bl_offMs s))] else []), s\<lparr>bl_on := False\<rparr>)
      else if bl_left s > 0 then
        ([WritePin True, StartOnce (u32_of_int (bl_onMs s))], s\<lparr>bl_left := bl_left s - 1, bl_on := True\<rparr>)
      else ([], s))"

definition blink_start :: "int \<Rightarrow> int \<Rightarrow> int \<Rightarrow> UtilBlink \<Rightarrow> BlinkCall list \<times> UtilBlink" where
  "blink_start n onTimeMs offTimeMs s =
     (if n \<le> 0 then ([], s)
      else case blink_cancel s of
          (c, s1) \<Rightarrow>
            (case blink_tick (s1\<lparr>bl_onMs := onTimeMs, bl_offMs := offTimeMs, bl_left := n\<rparr>) of (c2, s2) \<Rightarrow> (c @ c2, s2)))"

fun flash_loop :: "nat \<Rightarrow> int \<Rightarrow> int \<Rightarrow> BlinkCall list" where
  "flash_loop 0 onMs offMs = []"
| "flash_loop (Suc k) onMs offMs =
     [WritePin True, DelayMs (u32_of_int onMs), WritePin False] @ (if k > 0 then [DelayMs (u32_of_int offMs)] else []) @
     flash_loop k onMs offMs"

definition blink_flashBlocking :: "int \<Rightarrow> int \<Rightarrow> int \<Rightarrow> int \<Rightarrow> UtilBlink \<Rightarrow> BlinkCall list \<times> UtilBlink" where
  "blink_flashBlocking n onTimeMs offTimeMs delayMs s =
     (case blink_cancel s of
        (c, s1) \<Rightarrow>
          (c @ [Yield] @ flash_loop (nat n) onTimeMs offTimeMs @ (if delayMs > 0 then [DelayMs (u32_of_int delayMs)] else []), s1))"

definition blink_active :: "UtilBlink \<Rightarrow> bool" where
  "blink_active s \<longleftrightarrow> bl_left s > 0 \<or> bl_on s"

text \<open>The timer calls \<open>tick\<close> back \<open>k\<close> times.\<close>

fun blink_ticks :: "nat \<Rightarrow> UtilBlink \<Rightarrow> BlinkCall list \<times> UtilBlink" where
  "blink_ticks 0 s = ([], s)"
| "blink_ticks (Suc k) s = (case blink_tick s of (c, s1) \<Rightarrow> (case blink_ticks k s1 of (c2, s2) \<Rightarrow> (c @ c2, s2)))"

text \<open>What can be seen: the pin, and the times it stays.\<close>

datatype Wave = Pin bool | Hold u32

fun wave :: "BlinkCall list \<Rightarrow> Wave list" where
  "wave [] = []"
| "wave (WritePin b # cs) = Pin b # wave cs"
| "wave (StartOnce ms # cs) = Hold ms # wave cs"
| "wave (DelayMs ms # cs) = Hold ms # wave cs"
| "wave (CancelTimer # cs) = wave cs"
| "wave (Yield # cs) = wave cs"

lemma wave_append: "wave (a @ b) = wave a @ wave b"
  by (induction a rule: wave.induct) auto

lemma ticks_wave:
  assumes "bl_on s" "bl_left s = int k"
  shows "\<exists>c s'. blink_ticks (2 * k + 1) s = (c, s') \<and> \<not> blink_active s' \<and>
    wave c = Pin False # (if k > 0 then [Hold (u32_of_int (bl_offMs s))] else []) @ wave (flash_loop k (bl_onMs s) (bl_offMs s))"
  using assms
proof (induction k arbitrary: s)
  case 0
  then show ?case by (simp add: blink_tick_def blink_active_def)
next
  case (Suc k)
  define s1 where "s1 = s\<lparr>bl_on := True, bl_left := int k\<rparr>"
  obtain c s' where r: "blink_ticks (2 * k + 1) s1 = (c, s')" "\<not> blink_active s'"
    "wave c = Pin False # (if k > 0 then [Hold (u32_of_int (bl_offMs s))] else []) @ wave (flash_loop k (bl_onMs s) (bl_offMs s))"
    using Suc.IH [of s1] by (auto simp: s1_def)
  have t1: "blink_tick s = ([WritePin False, StartOnce (u32_of_int (bl_offMs s))], s\<lparr>bl_on := False\<rparr>)"
    using Suc.prems by (simp add: blink_tick_def)
  have t2: "blink_tick (s\<lparr>bl_on := False\<rparr>) = ([WritePin True, StartOnce (u32_of_int (bl_onMs s))], s1)"
    using Suc.prems by (simp add: blink_tick_def s1_def)
  have "2 * Suc k + 1 = Suc (Suc (2 * k + 1))" by simp
  then have "blink_ticks (2 * Suc k + 1) s =
      ([WritePin False, StartOnce (u32_of_int (bl_offMs s)), WritePin True, StartOnce (u32_of_int (bl_onMs s))] @ c, s')"
    using t1 t2 r(1) by (simp del: mult_Suc_right add_2_eq_Suc)
  then show ?case using r(2,3) by (simp add: wave_append)
qed

text \<open>The LED flashes the same in the background as in the foreground. Whatever it was doing, after
  \<open>start(n)\<close> and its 2n - 1 timer expiries the pin has gone through exactly the levels and times of
  \<open>flashBlocking(n)\<close>, n flashes in all, and the blinker is idle with the pin off.\<close>

theorem blink_background_same:
  assumes "0 < n" and "blink_start n onMs offMs s = (c1, s1)" and "blink_ticks (2 * nat n - 1) s1 = (c2, s2)"
  shows "wave (c1 @ c2) = wave (fst (blink_flashBlocking n onMs offMs 0 s)) \<and>
    length (filter (\<lambda>w. w = Pin True) (wave (c1 @ c2))) = nat n \<and> \<not> blink_active s2 \<and> last (wave (c1 @ c2)) = Pin False"
proof -
  obtain k where "nat n = Suc k" using assms(1) by (cases "nat n") auto
  then have k: "nat n = Suc k" "n = int k + 1" using assms(1) by auto
  have s1: "c1 = [CancelTimer, WritePin False, WritePin True, StartOnce (u32_of_int onMs)]"
    "s1 = s\<lparr>bl_onMs := onMs, bl_offMs := offMs, bl_left := int k, bl_on := True\<rparr>"
    using assms(1,2) by (auto simp: blink_start_def blink_cancel_def blink_tick_def k(2))
  have w: "\<not> blink_active s2" "wave c2 = Pin False # (if k > 0 then [Hold (u32_of_int offMs)] else []) @ wave (flash_loop k onMs offMs)"
    using ticks_wave [of s1 k] assms(3) by (auto simp: s1(2) k(1))
  have same: "wave (c1 @ c2) = Pin False # wave (flash_loop (Suc k) onMs offMs)"
    by (simp add: s1(1) w(2) wave_append)
  have count: "length (filter (\<lambda>w. w = Pin True) (wave (flash_loop j onMs offMs))) = j" for j
    by (induction j) (auto simp: wave_append)
  have off: "last (wave (flash_loop (Suc j) onMs offMs)) = Pin False \<and> wave (flash_loop (Suc j) onMs offMs) \<noteq> []" for j
    by (induction j) (auto simp: wave_append)
  show ?thesis
    using same w(1) count [of "Suc k"] off [of k] by (simp add: blink_flashBlocking_def blink_cancel_def k(1) wave_append)
qed

theorem blink_background_same_witness:
  "\<exists>c1 s1 c2 s2. blink_start 2 100 50 blink_new = (c1, s1) \<and> blink_ticks 3 s1 = (c2, s2) \<and>
    wave (c1 @ c2) = [Pin False, Pin True, Hold 100, Pin False, Hold 50, Pin True, Hold 100, Pin False] \<and> \<not> blink_active s2"
proof -
  obtain c1 s1 where s: "blink_start 2 100 50 blink_new = (c1, s1)" by fastforce
  obtain c2 s2 where t: "blink_ticks (2 * nat 2 - 1) s1 = (c2, s2)" by fastforce
  have t3: "blink_ticks 3 s1 = (c2, s2)" using t by simp
  have "wave (c1 @ c2) = [Pin False, Pin True, Hold 100, Pin False, Hold 50, Pin True, Hold 100, Pin False] \<and> \<not> blink_active s2"
    using blink_background_same [OF _ s t]
    by (simp add: blink_flashBlocking_def blink_cancel_def numeral_2_eq_2)
  then show ?thesis using s t3 by blast
qed

end
