(* ===== verification/Spec2Isabelle.thy ===== *)
theory Spec2Isabelle
  imports ArqCache LinkWait LinkPairRecover LinkRecv LinkLimits OtaFw LogLevel WebProps WebLife EspUart Blink
begin

text \<open>
  A verification development for AutoLink, a reliable message link over a UART for pairs of
  ESP32 boards (C++ under \<open>src/src\<close>, most of it in \<open>src/src/al\<close>).

  \<^bold>\<open>The program.\<close> Two boards, a master and a slave, are joined by two wires. A link (class \<open>Link\<close>,
  \<open>al/link/Link.h\<close>) is in one of two states. In \<open>SWP\<close> it sweeps the list of bauds with 5-byte
  control frames (\<open>AA 55 epoch payload crc8\<close>): the master pings, the slave answers, in three
  phases, until both lock the same baud. In \<open>OK\<close> it carries messages: \<open>sendMsg\<close> puts a 6-byte
  header (length, CRC-16) in front of the message, cuts it into chunks of at most 250 bytes,
  and sends each chunk as a COBS frame with a sequence number (0..253) and a CRC-8. The
  receiver hands the chunks of the expected number to the application's byte queue and
  answers with small ACK and NAK frames; \<open>recvMsg\<close> reads header and message from the queue. In
  ASYNC mode the sender keeps a go-back-N window with a retransmission cache; in SYNC mode it
  waits for each ACK. Error counts, a health watchdog, UART breaks and the retransmission
  ladder can send a locked link back to \<open>SWP\<close>. The UART task (bytes, breaks), a timer and the
  application's tasks run concurrently under one lock.

  \<^bold>\<open>The theories\<close>, in the order of the calls, with their sources under \<open>src/src/al\<close>:
  \<^item> \<open>AlPrelude\<close>: the byte and word types, the collections, the lemmas on lists and words.
  \<^item> \<open>Cobs\<close>, \<open>Crc\<close> (\<open>util/codec\<close>): the COBS codec and both table-driven checksums.
  \<^item> \<open>FrameRx\<close> (\<open>link/LinkWire.h\<close>, \<open>link/LinkFrameSizes.h\<close>, \<open>link/io/LinkFrameRx\<close>): the frames of the
    wire and the framer, which turns the byte stream into payload, ACK, NAK and error events.
  \<^item> \<open>MsgCodec\<close> (\<open>link/io/LinkMsgCodec\<close>): message header, receive cursor, resync scan.
  \<^item> \<open>ArqCache\<close> (\<open>link/arq/ArqCache\<close>): the chunks kept for retransmission. Locale
    \<open>arq_cache\<close> is the contract its clients use, interpreted there on the code's model (as are
    \<open>frame_codec\<close> in \<open>Cobs\<close> and, for the link as the framer's listener, \<open>frame_listener\<close>).
  \<^item> \<open>AlConfig\<close> (\<open>AutoLinkConfig.h\<close>): the configuration, the chunk and heap arithmetic.
  \<^item> \<open>Decision\<close> (\<open>link/sweep/LinkDecision.h\<close>): the pure decisions of the state machine.
  \<^item> \<open>LinkArq\<close> (\<open>link/arq/LinkArq\<close>): the acknowledgement slots and \<open>waitForAck\<close>;
    \<open>LinkWait\<close>: what its positive answer says about the operations of the other tasks.
  \<^item> \<open>LinkState\<close> (\<open>link/Link.h\<close>, \<open>link/stats\<close>, \<open>link/sweep\<close>, \<open>test/common/MockHal.h\<close>): the record \<open>Link\<close>
    with one field per member variable, grouped into nested records; the hardware; the sweep.
  \<^item> \<open>LinkBase\<close> (\<open>link/LinkCore.cpp\<close>, budgets in \<open>LinkApi.cpp\<close> and \<open>timers/LinkBreak\<close>): construction
    and the helpers; \<open>LinkTx\<close> (\<open>link/io/LinkTx.cpp\<close>): every frame the link sends.
  \<^item> \<open>LinkReset\<close> (\<open>link/LinkCore.cpp\<close>, \<open>LinkSweepGlue.cpp\<close>): reset, errors, lock, \<open>begin\<close>.
  \<^item> \<open>LinkSwp\<close> (\<open>timers/LinkSweepGlue.cpp\<close>, \<open>timers/LinkTimersSwp.cpp\<close>): the sweep of both roles.
  \<^item> \<open>LinkGbn\<close> (\<open>timers/gbn/LinkTimersGbn.cpp\<close>): the go-back-N retransmission ladder.
  \<^item> \<open>LinkRx\<close>, \<open>LinkStream\<close> (\<open>link/io/LinkRx.cpp\<close>): what a frame does; \<open>onRx\<close> over a batch of bytes.
  \<^item> \<open>LinkHealth\<close>, \<open>LinkTimer\<close> (\<open>timers/LinkHealth.h\<close>, \<open>timers/LinkTimersOk.cpp\<close>,
    \<open>timers/LinkTimerBreak.cpp\<close>): the watchdog, the timer of a locked link, the break events.
  \<^item> \<open>LinkSend\<close>, \<open>LinkApi\<close> (\<open>link/LinkApi.cpp\<close>): \<open>sendMsg\<close>, \<open>write\<close>, \<open>recvMsg\<close>.
  \<^item> \<open>LinkInv\<close>, \<open>LinkSystem\<close>: the invariant of a link, kept by every operation; the step relation
    \<open>link_step\<close> of everything the tasks may do, and its reachable states.
  \<^item> \<open>LinkDelivery\<close>, \<open>LinkMessage\<close>, \<open>LinkRecv\<close>, \<open>LinkSession\<close>, \<open>LinkConverge\<close>, \<open>LinkGuards\<close>, \<open>LinkLimits\<close>: the
    properties of the whole link, with the concrete links of \<open>LinkDemo\<close> for the witnesses.
  \<^item> \<open>GbnSpec\<close>: go-back-N as an abstract protocol over wires that lose frames, its invariant, and the
    locale \<open>simulation\<close>. \<open>LinkPair\<close>: two locked ASYNC links and two such wires as a step relation, and which
    state of the protocol a pair stands for; \<open>LinkPairOps\<close>, \<open>LinkPairSim\<close>: what each operation of the link
    does to its side, and that every step of the pair is steps of the protocol (\<open>simulation\<close>'s interpretation
    \<open>pair\<close>); \<open>LinkPairRun\<close>, \<open>LinkPairProps\<close>: sessions from their start, and the end-to-end properties;
    \<open>LinkPowerOn\<close>: the same from the start of the boards, through the sweep;
    \<open>LinkPairRecover\<close>: a due retransmission makes up for any loss.

  \<^item> \<open>OtaZip\<close>, \<open>OtaArchive\<close> (\<open>web/OtaCore\<close>): the streaming reader of stored ZIP archives; what it
    does with a well-formed one. \<open>OtaGui\<close>, \<open>OtaFw\<close> (\<open>web/handlers/AutoLinkWebHandlersOta.cpp\<close>): the
    dashboard and the firmware update, over a file system and a flash that are arguments.
  \<^item> \<open>LogRing\<close> (\<open>util/log\<close>): the log ring, its contract as locale \<open>drop_oldest\<close>, producer and drain;
    \<open>LogLevel\<close>: the levels in front of them.
  \<^item> \<open>AppQueue\<close> (\<open>hal/IHal.h\<close>): what the link relies on in a HAL's queue of received bytes, as locale
    \<open>app_queue\<close>, and the host's queue as a model of it. \<open>EspHal\<close> (\<open>hal/EspHal\<close>): the device's HAL over a
    FreeRTOS stream buffer, its queue as another model, its start-up and clean-up. \<open>EspUart\<close>
    (\<open>hal/EspHalUartEvent.h\<close>): the UART event task and the filter in front of \<open>onBreak\<close>.
  \<^item> \<open>LinkFacade\<close> (\<open>include/AutoLink.h\<close>, \<open>src/AutoLink.cpp\<close>): the application's view of the link.
  \<^item> \<open>PingGap\<close>, \<open>Ping\<close>, \<open>PingProps\<close> (\<open>pingpong\<close>): the ping-pong application: gap machine, payloads,
    statistics line, the loops of \<open>Ping\<close> and \<open>Pong\<close>, their set-up and controls, which the task of the HTTP server
    runs between the calls of a pass of \<open>Ping\<close>.
  \<^item> \<open>Blink\<close> (\<open>util/blink\<close>): the LED.
  \<^item> \<open>WebLog\<close> (\<open>web/AutoLinkWebCore\<close>, \<open>web/handlers\<close>): the log ring of the web monitor and its page.
    \<open>WebCtl\<close>, \<open>WebProps\<close>: the controls, the statistics and the dashboard page, on the device they
    control. \<open>WebLife\<close>: \<open>begin\<close> and the background WiFi task as a step relation, the HTTP start-up cut into a step for
    each of its waits (the time servers, the statistics timer, each attempt to start the server, the registration),
    and so is the taking down after a loss of WiFi.

  \<^bold>\<open>How code became definitions.\<close> A method of \<open>Link\<close> is a function on the record \<open>Link\<close> that returns
  the changed record, paired with the method's result; a \<open>bool\<close> that asks the caller for a UART
  break after the unlock stays one. Fixed-width integers keep their width (\<open>u8\<close>, \<open>u16\<close>,
  \<open>u32\<close>, \<open>u64\<close>, wrap-around included); \<open>int\<close> and \<open>size_t\<close> values that the code keeps small are
  \<open>int\<close> and \<open>nat\<close>. The hardware is the record \<open>Hal\<close>: clock, transmit ring, application queue,
  timer. Early returns of \<open>sendMsg\<close> are an \<open>Inl\<close>.

  \<^bold>\<open>Concurrency.\<close> Every operation runs under the link's lock. Where the code gives the lock away
  (the inter-chunk gap, \<open>drainTxRing\<close>, \<open>waitForAck\<close>) the model takes the next entry of a list
  of \<^emph>\<open>windows\<close>, functions on the link that stand for whatever the other tasks did in between;
  a list that runs out gives \<open>None\<close>. A pass of \<open>Ping\<close> has such an entry for each of its calls, which also
  says what the HTTP server's task did to the Ping itself; the statements between two calls are one step, so what
  another core does between two statements of one step is outside the model. \<open>link_step\<close> requires each window to be itself a sequence
  of steps, so the invariant covers every interleaving.

  \<^bold>\<open>Fuel.\<close> \<open>onRx\<close> has fuel \<open>length data + 1\<close>: a round consumes at least one byte, so it never runs
  out (\<open>onRx_returns\<close> in \<open>LinkDelivery\<close>). All other loops are total functions; \<open>sinkLoop\<close> is
  \<open>None\<close> where the code would spin on an empty queue, which \<open>recvMsg\<close> never does
  (\<open>LinkRecv\<close>). \<open>waitForAck\<close> and \<open>drainTxRing\<close> return given enough windows (\<open>LinkArq\<close>,
  \<open>LinkLimits\<close>). A pass of \<open>Ping\<close> or \<open>Pong\<close> is \<open>None\<close> when its list of what the other tasks do is
  shorter than its calls on the link.

  \<^bold>\<open>What the lemmas show.\<close> The codecs are inverse to each other and the checksums are the
  polynomial divisions; the framer delivers every well-formed frame, regains step after
  garbage and does not depend on how the stream is cut, up to a callback that asks it to stop; the cache refines a map. On top of
  that: an ASYNC message accepted by \<open>sendMsg\<close> is what \<open>recvMsg\<close> returns, if its frames hold no control frame; two locked links over lossy wires refine
  go-back-N, so the receiver has a prefix of what was sent, lacks at most what is pending, provided the session starts with a seeded receiver, which only a
  slave's first session does; from power-on any number of chunks can get through, and
  one pass of a due retransmission repairs a loss of everything in flight; an ACK is given only for what
  was delivered and moves the sender's window exactly; a resend repeats what was sent; a
  reset leaves nothing of the old session; no link locks without its peer, and two links that
  are started do lock; a wait never mistakes a reset for an ACK (fewer than 2^32 resets in one wait); a break or a watchdog ends a
  session only on the evidence the code names. An upload is read the same however the socket
  cuts it, touches nothing outside the web directory; the boot slot changes only for the complete image that arrived; the log
  ring loses only the oldest lines and counts them. The device's queue keeps the contract the
  link's theorems rest on; its start ends healthy with driver, buffers and tasks in place, or fails without driver,
  buffers and timer; breaks reach the link well apart. A Ping's ring stays consistent, but for a count of -1 that
  a Start in the middle of a pass can leave. A web monitor that reports itself up has its server and timer, and it
  comes up, and comes back after a loss of WiFi, as long as the log's ring is there; a refused request changes
  nothing, an accepted one exactly what it names; nothing is sent before Start. Some properties show where the code does
  less than it means to (the manifest's findings).

  \<^bold>\<open>Not modelled.\<close> The ESP-IDF, FreeRTOS, Arduino and LittleFS themselves (arguments), the
  generated dashboard, the formatting of the log and its drain task, the texts of log lines, the
  HTTP responses of the update handlers, the pin and timer behind the LED, the entry macros of
  the examples. Of the modelled classes: test hooks, trace output, one-line calls of the driver.
  Simplifications, each at its definition: \<open>hw.begin(cfg)\<close> has sized the ring
  already; the scratch buffer of the header resync is allocated; the mock's fault injection
  and peer are left out; a baud below 10 would divide by zero in the rate limiter; products
  with a \<open>float\<close> factor are exact; the two-link exchange of \<open>LinkConverge\<close> delivers every frame
  whatever the bauds; the pair of \<open>LinkPair\<close> speaks of one session (a reset ends it) and of the frames the
  framer reports, so a control frame hidden in data (\<open>LinkSession\<close>) is outside it; how often a loss is
  made up for is bounded by the retransmission ladder, which may give the session up.
\<close>

end
